(* ===== verification/Prelude.thy ===== *)
theory Prelude
  imports Main "HOL-Library.Word"
begin

text \<open>
  What every component of the development shares: the names of the C++ integer types as
  words of their width, the size of a C++ container as a \<open>uint64_t\<close>, the few operations of
  the C++ standard library the sources use on containers, and the lemmas that move a
  statement about words to natural numbers. The locale \<open>machine\<close> is the contract of
  a component whose operations are events: an invariant that every admissible event keeps
  holds after every admissible run.
\<close>

section \<open>Machine integers and containers\<close>

type_synonym u8 = "8 word"
type_synonym u16 = "16 word"
type_synonym u32 = "32 word"
type_synonym u64 = "64 word"

type_synonym byte = u8

named_theorems nat_simps \<open>facts that move word arithmetic to natural numbers\<close>

text \<open>\<open>v.size()\<close> of a \<open>std::vector\<close>, \<open>std::string\<close> or \<open>std::string_view\<close>.\<close>

definition vsize :: "'a list \<Rightarrow> u64" where
  "vsize xs = of_nat (length xs)"

text \<open>No C++ container is longer than a \<open>size_t\<close> can say.\<close>

definition fits :: "'a list \<Rightarrow> bool" where
  "fits xs \<longleftrightarrow> length xs < 2 ^ 64"

lemma unat_vsize [nat_simps]: "fits xs \<Longrightarrow> unat (vsize xs) = length xs"
  by (simp add: vsize_def fits_def unat_of_nat)

lemma vsize_Nil [simp]: "vsize [] = 0"
  by (simp add: vsize_def)

lemma fits_Nil [simp]: "fits []"
  by (simp add: fits_def)

lemma fits_le: "fits xs \<Longrightarrow> length ys \<le> length xs \<Longrightarrow> fits ys"
  by (simp add: fits_def)

lemma fits_take [intro]: "fits xs \<Longrightarrow> fits (take n xs)"
  by (erule fits_le) simp

lemma fits_drop [intro]: "fits xs \<Longrightarrow> fits (drop n xs)"
  by (erule fits_le) simp

lemma unat_vsize_le: "unat (vsize xs) \<le> length xs"
  by (simp add: vsize_def unat_of_nat)

lemma vsize_pos_nonempty: "0 < vsize xs \<Longrightarrow> xs \<noteq> []"
  by auto

lemma vsize_eq_0_iff: "fits xs \<Longrightarrow> vsize xs = 0 \<longleftrightarrow> xs = []"
  using unat_vsize [of xs] by (auto simp: unat_eq_zero [symmetric])

text \<open>\<open>str.substr(pos, n)\<close> for \<open>pos \<le> str.size()\<close>.\<close>

definition substr :: "'a list \<Rightarrow> u64 \<Rightarrow> u64 \<Rightarrow> 'a list" where
  "substr xs pos n = take (unat n) (drop (unat pos) xs)"

text \<open>\<open>v.resize(n)\<close>: cut, or fill up with the value-initialised element.\<close>

definition resize :: "'a \<Rightarrow> nat \<Rightarrow> 'a list \<Rightarrow> 'a list" where
  "resize d n xs = take n xs @ replicate (n - length xs) d"

lemma length_resize [simp]: "length (resize d n xs) = n"
  by (simp add: resize_def)

lemma nth_resize:
  "i < n \<Longrightarrow> resize d n xs ! i = (if i < length xs then xs ! i else d)"
  by (auto simp: resize_def nth_append)

text \<open>
  \<open>std::copy\<close> and \<open>std::fill\<close> over a range inside a container: the elements from
  index \<open>l\<close> on are replaced.
\<close>

definition overwrite :: "nat \<Rightarrow> 'a list \<Rightarrow> 'a list \<Rightarrow> 'a list" where
  "overwrite l ys xs = take l xs @ ys @ drop (l + length ys) xs"

lemma length_overwrite [simp]:
  "l + length ys \<le> length xs \<Longrightarrow> length (overwrite l ys xs) = length xs"
  by (simp add: overwrite_def)

lemma nth_overwrite:
  assumes "l + length ys \<le> length xs"
  shows "overwrite l ys xs ! i = (if l \<le> i \<and> i < l + length ys then ys ! (i - l) else xs ! i)"
proof -
  have "min (length xs) l = l" using assms by simp
  then show ?thesis using assms
    by (auto simp: overwrite_def nth_append min_def)
qed

section \<open>Words as natural numbers\<close>

lemma u64_bound: "unat (x :: u64) < 2 ^ 64"
  using unsigned_less [of x] by simp

lemma u32_bound: "unat (x :: u32) < 2 ^ 32"
  using unsigned_less [of x] by simp

lemma u16_bound: "unat (x :: u16) < 2 ^ 16"
  using unsigned_less [of x] by simp

lemma u8_bound: "unat (x :: u8) < 2 ^ 8"
  using unsigned_less [of x] by simp

lemma unat_of_nat64 [nat_simps]: "n < 2 ^ 64 \<Longrightarrow> unat (of_nat n :: u64) = n"
  by (simp add: unat_of_nat)

lemma unat_add64 [nat_simps]:
  "unat (x :: u64) + unat y < 2 ^ 64 \<Longrightarrow> unat (x + y) = unat x + unat y"
  by (simp add: unat_word_ariths)

lemma unat_sub64 [nat_simps]: "(y :: u64) \<le> x \<Longrightarrow> unat (x - y) = unat x - unat y"
  by (rule unat_sub)

lemma unat_sub_nat: "unat (y :: u64) \<le> unat x \<Longrightarrow> unat (x - y) = unat x - unat y"
  by (simp add: unat_sub word_le_nat_alt)

lemma unat_min [nat_simps]: "unat (min (x :: 'a :: len word) y) = min (unat x) (unat y)"
  by (simp add: min_def word_le_nat_alt)

lemma unat_max [nat_simps]: "unat (max (x :: 'a :: len word) y) = max (unat x) (unat y)"
  by (simp add: max_def word_le_nat_alt)

lemma unat_ucast_32_64 [nat_simps]: "unat (ucast (x :: u32) :: u64) = unat x"
  by (simp add: unsigned_ucast_eq take_bit_nat_eq_self_iff)
    (rule order.strict_trans [OF unsigned_less], simp)

lemma unat_ucast_16_64 [nat_simps]: "unat (ucast (x :: u16) :: u64) = unat x"
  by (simp add: unsigned_ucast_eq take_bit_nat_eq_self_iff)
    (rule order.strict_trans [OF unsigned_less], simp)

lemma unat_ucast_64_32 [nat_simps]: "unat (ucast (x :: u64) :: u32) = unat x mod 2 ^ 32"
  by (simp add: unsigned_ucast_eq take_bit_eq_mod)

lemma unat_eqI: "unat (x :: 'a :: len word) = unat y \<Longrightarrow> x = y"
  by (rule word_unat_eq_iff [THEN iffD2])

lemmas word_nat_alt = word_le_nat_alt word_less_nat_alt word_unat_eq_iff

section \<open>Parts of a byte stream\<close>

text \<open>A substring of \<open>S\<close> at its place; the last one ends where \<open>S\<close> ends.\<close>

definition consistent :: "byte list \<Rightarrow> u64 \<Rightarrow> byte list \<Rightarrow> bool \<Rightarrow> bool" where
  "consistent S first_index data is_last \<longleftrightarrow>
     unat first_index + length data \<le> length S
     \<and> data = take (length data) (drop (unat first_index) S)
     \<and> (is_last \<longrightarrow> unat first_index + length data = length S)"

lemma consistent_nth:
  "consistent S fi data is_last \<Longrightarrow> j < length data \<Longrightarrow> data ! j = S ! (unat fi + j)"
proof -
  assume c: "consistent S fi data is_last" and j: "j < length data"
  then have "data ! j = take (length data) (drop (unat fi) S) ! j"
    unfolding consistent_def by argo
  also have "\<dots> = S ! (unat fi + j)"
  proof -
    have "unat fi \<le> length S" using c unfolding consistent_def by linarith
    then show ?thesis by (simp only: nth_take [OF j] nth_drop)
  qed
  finally show ?thesis .
qed

lemma drop_take_join:
  "a \<le> b \<Longrightarrow> b \<le> c \<Longrightarrow> drop a (take b xs) @ drop b (take c xs) = drop a (take c xs)"
proof -
  assume ab: "a \<le> b" and bc: "b \<le> c"
  have "take c xs = take b xs @ drop b (take c xs)"
    using bc append_take_drop_id [of b "take c xs"] by (simp add: min_absorb1)
  then have eq: "drop a (take c xs) = drop a (take b xs) @ drop (a - length (take b xs)) (drop b (take c xs))"
    by (metis drop_append)
  show ?thesis
  proof (cases "b \<le> length xs")
    case True
    then show ?thesis using eq ab by simp
  next
    case False
    then show ?thesis using bc by simp
  qed
qed

section \<open>Components as machines\<close>

text \<open>
  A component offers operations (the events); an event is admissible in a state when its
  caller respects the operation's contract. The provider shows that every admissible event
  keeps the invariant; the client gets it for every run.
\<close>

fun run :: "('s \<Rightarrow> 'e \<Rightarrow> 's) \<Rightarrow> 's \<Rightarrow> 'e list \<Rightarrow> 's" where
  "run step s [] = s"
| "run step s (e # es) = run step (step s e) es"

fun admissible :: "('s \<Rightarrow> 'e \<Rightarrow> 's) \<Rightarrow> ('s \<Rightarrow> 'e \<Rightarrow> bool) \<Rightarrow> 's \<Rightarrow> 'e list \<Rightarrow> bool" where
  "admissible step ok s [] = True"
| "admissible step ok s (e # es) = (ok s e \<and> admissible step ok (step s e) es)"

text \<open>The bytes (frames, messages) that the events of a run hand over, in order.\<close>

fun collect :: "('s \<Rightarrow> 'e \<Rightarrow> 's) \<Rightarrow> ('s \<Rightarrow> 'e \<Rightarrow> 'b list) \<Rightarrow> 's \<Rightarrow> 'e list \<Rightarrow> 'b list" where
  "collect step f s [] = []"
| "collect step f s (e # es) = f s e @ collect step f (step s e) es"

lemma run_append: "run step s (es @ es') = run step (run step s es) es'"
  by (induction es arbitrary: s) simp_all

lemma admissible_append:
  "admissible step ok s (es @ es') \<longleftrightarrow>
     admissible step ok s es \<and> admissible step ok (run step s es) es'"
  by (induction es arbitrary: s) auto

locale machine =
  fixes step :: "'s \<Rightarrow> 'e \<Rightarrow> 's"
    and ok :: "'s \<Rightarrow> 'e \<Rightarrow> bool"
    and inv :: "'s \<Rightarrow> bool"
  assumes step_inv: "inv s \<Longrightarrow> ok s e \<Longrightarrow> inv (step s e)"
begin

lemma run_inv: "inv s \<Longrightarrow> admissible step ok s es \<Longrightarrow> inv (run step s es)"
  by (induction es arbitrary: s) (auto intro: step_inv)

text \<open>A quantity no admissible event decreases is monotone along every run.\<close>

lemma run_mono:
  assumes "\<And>s e. inv s \<Longrightarrow> ok s e \<Longrightarrow> (f s :: nat) \<le> f (step s e)"
  shows "inv s \<Longrightarrow> admissible step ok s es \<Longrightarrow> f s \<le> f (run step s es)"
proof (induction es arbitrary: s)
  case (Cons e es)
  then have "f s \<le> f (step s e)" and "f (step s e) \<le> f (run step (step s e) es)"
    using assms step_inv by auto
  then show ?case by simp
qed simp

text \<open>A 64-bit counter that each event advances by what it hands over counts the run's output.\<close>

lemma run_counter:
  fixes f :: "'s \<Rightarrow> u64"
  assumes "\<And>s e. inv s \<Longrightarrow> ok s e \<Longrightarrow> f (step s e) = f s + vsize (g s e)"
  shows "inv s \<Longrightarrow> admissible step ok s es \<Longrightarrow> f (run step s es) = f s + vsize (collect step g s es)"
proof (induction es arbitrary: s)
  case (Cons e es)
  then show ?case
    using assms [of s e] step_inv [of s e] by (simp add: vsize_def add.assoc)
qed simp

text \<open>A fact that the admissible events never undo holds for ever once it holds.\<close>

lemma run_stable:
  assumes "\<And>s e. inv s \<Longrightarrow> ok s e \<Longrightarrow> P s \<Longrightarrow> P (step s e)"
  shows "inv s \<Longrightarrow> admissible step ok s es \<Longrightarrow> P s \<Longrightarrow> P (run step s es)"
  by (induction es arbitrary: s) (auto intro: step_inv assms)

end

text \<open>
  A first-in-first-out component: what an event puts in is appended to the content, what it
  takes out is cut off the front. Over a run nothing is lost, duplicated or reordered.
\<close>

locale fifo = machine step ok inv
  for step :: "'s \<Rightarrow> 'e \<Rightarrow> 's" and ok :: "'s \<Rightarrow> 'e \<Rightarrow> bool" and inv :: "'s \<Rightarrow> bool" +
  fixes content :: "'s \<Rightarrow> 'b list"
    and inp :: "'s \<Rightarrow> 'e \<Rightarrow> 'b list"
    and outp :: "'s \<Rightarrow> 'e \<Rightarrow> 'b list"
  assumes fifo_step: "inv s \<Longrightarrow> ok s e \<Longrightarrow> outp s e @ content (step s e) = content s @ inp s e"
begin

lemma fifo_run:
  "inv s \<Longrightarrow> admissible step ok s es \<Longrightarrow>
     collect step outp s es @ content (run step s es) = content s @ collect step inp s es"
proof (induction es arbitrary: s)
  case (Cons e es)
  then have "collect step outp (step s e) es @ content (run step (step s e) es)
      = content (step s e) @ collect step inp (step s e) es"
    by (auto intro: step_inv)
  moreover have "outp s e @ content (step s e) = content s @ inp s e"
    using Cons.prems by (auto intro: fifo_step)
  ultimately show ?case by (metis append.assoc collect.simps(2) run.simps(2))
qed simp

end

text \<open>
  A component that keeps another one in its state and works on it only by calls: each of its
  events amounts to a sequence of the other's events, admissible there. Its runs are then runs
  of the other, whose facts carry over.
\<close>

lemma collect_append:
  "collect step f s (es @ es') = collect step f s es @ collect step f (run step s es) es'"
  by (induction es arbitrary: s) simp_all

locale client = machine step ok inv
  for step :: "'s \<Rightarrow> 'e \<Rightarrow> 's" and ok :: "'s \<Rightarrow> 'e \<Rightarrow> bool" and inv :: "'s \<Rightarrow> bool" +
  fixes part :: "'s \<Rightarrow> 'p" and calls :: "'s \<Rightarrow> 'e \<Rightarrow> 'c list"
    and pstep :: "'p \<Rightarrow> 'c \<Rightarrow> 'p" and pok :: "'p \<Rightarrow> 'c \<Rightarrow> bool"
  assumes part_step: "inv s \<Longrightarrow> ok s e \<Longrightarrow> part (step s e) = run pstep (part s) (calls s e)"
    and calls_ok: "inv s \<Longrightarrow> ok s e \<Longrightarrow> admissible pstep pok (part s) (calls s e)"
begin

lemma part_run:
  "inv s \<Longrightarrow> admissible step ok s es \<Longrightarrow>
     part (run step s es) = run pstep (part s) (collect step calls s es)"
proof (induction es arbitrary: s)
  case (Cons e es)
  then show ?case using part_step [of s e] step_inv [of s e] by (simp add: run_append)
qed simp

lemma calls_run:
  "inv s \<Longrightarrow> admissible step ok s es \<Longrightarrow>
     admissible pstep pok (part s) (collect step calls s es)"
proof (induction es arbitrary: s)
  case (Cons e es)
  then show ?case
    using part_step [of s e] calls_ok [of s e] step_inv [of s e] Cons.IH [of "step s e"]
    by (simp add: admissible_append)
qed simp

lemma collect_run:
  assumes "\<And>s e. inv s \<Longrightarrow> ok s e \<Longrightarrow> f s e = collect pstep g (part s) (calls s e)"
  shows "inv s \<Longrightarrow> admissible step ok s es \<Longrightarrow>
     collect step f s es = collect pstep g (part s) (collect step calls s es)"
proof (induction es arbitrary: s)
  case (Cons e es)
  then show ?case
    using part_step [of s e] assms [of s e] step_inv [of s e] by (simp add: collect_append)
qed simp

end

end
