(* ===== verification/Byte_Stream.thy ===== *)
theory Byte_Stream
  imports Prelude
begin

text \<open>
  \<open>src/byte_stream.hh\<close>, \<open>src/byte_stream.cc\<close> and \<open>read\<close> of
  \<open>src/byte_stream_helpers.cc\<close>: the bounded in-order byte pipe. \<open>Writer\<close> and
  \<open>Reader\<close> are views of one \<open>ByteStream\<close> object (the casts of
  \<open>byte_stream_helpers.cc\<close>), so one record is the state of both. The messages that
  \<open>push\<close> and \<open>pop\<close> print are not modelled. Its runs are a bounded
  first-in-first-out pipe: the locale \<open>fifo\<close> is interpreted on them.
\<close>

record ByteStream =
  bs_stream :: "byte list"
  bs_closed :: bool
  bs_pushed :: u64
  bs_popped :: u64
  bs_capacity :: u64
  bs_error :: bool

definition byte_stream :: "u64 \<Rightarrow> ByteStream" where
  "byte_stream capacity =
     \<lparr>bs_stream = [], bs_closed = False, bs_pushed = 0, bs_popped = 0,
      bs_capacity = capacity, bs_error = False\<rparr>"

definition set_error :: "ByteStream \<Rightarrow> ByteStream" where
  "set_error s = s\<lparr>bs_error := True\<rparr>"

definition has_error :: "ByteStream \<Rightarrow> bool" where
  "has_error s = bs_error s"

section \<open>Writer\<close>

definition writer_push :: "ByteStream \<Rightarrow> byte list \<Rightarrow> ByteStream" where
  "writer_push s data =
     (let available_space = bs_capacity s - vsize (bs_stream s);
          available_write = min available_space (vsize data)
      in if bs_closed s \<or> available_space = 0 then s
         else s\<lparr>bs_stream := bs_stream s @ take (unat available_write) data,
                bs_pushed := bs_pushed s + available_write\<rparr>)"

definition writer_close :: "ByteStream \<Rightarrow> ByteStream" where
  "writer_close s = s\<lparr>bs_closed := True\<rparr>"

definition writer_is_closed :: "ByteStream \<Rightarrow> bool" where
  "writer_is_closed s = bs_closed s"

definition available_capacity :: "ByteStream \<Rightarrow> u64" where
  "available_capacity s = bs_capacity s - vsize (bs_stream s)"

definition bytes_pushed :: "ByteStream \<Rightarrow> u64" where
  "bytes_pushed s = bs_pushed s"

section \<open>Reader\<close>

definition reader_peek :: "ByteStream \<Rightarrow> byte list" where
  "reader_peek s = bs_stream s"

definition reader_pop :: "ByteStream \<Rightarrow> u64 \<Rightarrow> ByteStream" where
  "reader_pop s len =
     (if bs_stream s = [] then s
      else let can_pop = min len (vsize (bs_stream s))
           in s\<lparr>bs_stream := drop (unat can_pop) (bs_stream s),
                bs_popped := bs_popped s + can_pop\<rparr>)"

definition reader_is_finished :: "ByteStream \<Rightarrow> bool" where
  "reader_is_finished s \<longleftrightarrow> bs_closed s \<and> bs_stream s = []"

definition bytes_buffered :: "ByteStream \<Rightarrow> u64" where
  "bytes_buffered s = vsize (bs_stream s)"

definition bytes_popped :: "ByteStream \<Rightarrow> u64" where
  "bytes_popped s = bs_popped s"

lemmas byte_stream_ops =
  set_error_def has_error_def writer_close_def writer_is_closed_def available_capacity_def
  bytes_pushed_def reader_peek_def reader_is_finished_def bytes_buffered_def bytes_popped_def

section \<open>The helper read\<close>

text \<open>The \<open>runtime_error\<close> that \<open>read\<close> throws when \<open>peek\<close> returns an empty view.\<close>

datatype read_error = Peek_returned_empty

lemma reader_pop_shrinks:
  assumes "bytes_buffered s \<noteq> 0" and "0 < len"
  shows "length (bs_stream (reader_pop s len)) < length (bs_stream s)"
proof -
  have ne: "bs_stream s \<noteq> []" using assms by (auto simp: bytes_buffered_def)
  have "0 < min len (vsize (bs_stream s))"
    using assms by (simp add: bytes_buffered_def word_neq_0_conv)
  then have "0 < unat (min len (vsize (bs_stream s)))"
    by (simp add: word_less_nat_alt)
  then show ?thesis using ne by (simp add: reader_pop_def Let_def)
qed

lemma vsize_substr_pos:
  assumes "0 < n" and "xs \<noteq> []"
  shows "0 < vsize (substr xs 0 n)"
proof -
  have "length (substr xs 0 n) < 2 ^ 64"
    using u64_bound [of n] by (auto simp: substr_def min_def)
  then have "unat (vsize (substr xs 0 n)) = length (substr xs 0 n)"
    by (simp add: unat_vsize fits_def)
  moreover have "0 < length (substr xs 0 n)"
    using assms by (simp add: substr_def word_less_nat_alt)
  ultimately show ?thesis by (simp add: word_less_nat_alt)
qed

function read_loop :: "ByteStream \<Rightarrow> u64 \<Rightarrow> byte list \<Rightarrow> read_error + ByteStream \<times> byte list" where
  "read_loop reader max_len out =
     (if bytes_buffered reader \<noteq> 0 \<and> vsize out < max_len
      then let view = reader_peek reader
           in if view = [] then Inl Peek_returned_empty
              else let view = substr view 0 (max_len - vsize out)
                   in read_loop (reader_pop reader (vsize view)) max_len (out @ view)
      else Inr (reader, out))"
  by pat_completeness auto
termination
  by (relation "measure (\<lambda>(reader, max_len, out). length (bs_stream reader))")
    (auto intro!: reader_pop_shrinks vsize_substr_pos simp: word_less_nat_alt unat_sub_nat)

declare read_loop.simps [simp del]

definition read :: "ByteStream \<Rightarrow> u64 \<Rightarrow> read_error + ByteStream \<times> byte list" where
  "read reader max_len = read_loop reader max_len []"

section \<open>The invariant, and what each operation does under it\<close>

definition bs_inv :: "ByteStream \<Rightarrow> bool" where
  "bs_inv s \<longleftrightarrow> length (bs_stream s) \<le> unat (bs_capacity s)
     \<and> bs_pushed s = bs_popped s + vsize (bs_stream s)"

text \<open>How many bytes a \<open>push\<close> takes at most.\<close>

definition room :: "ByteStream \<Rightarrow> nat" where
  "room s = (if bs_closed s then 0 else unat (bs_capacity s) - length (bs_stream s))"

lemma bs_inv_fits: "bs_inv s \<Longrightarrow> fits (bs_stream s)"
  using u64_bound [of "bs_capacity s"] by (simp add: bs_inv_def fits_def)

lemma unat_available_capacity:
  "bs_inv s \<Longrightarrow> unat (available_capacity s) = unat (bs_capacity s) - length (bs_stream s)"
  using unat_vsize [OF bs_inv_fits]
  by (simp add: available_capacity_def unat_sub_nat bs_inv_def)

lemma unat_bytes_buffered: "bs_inv s \<Longrightarrow> unat (bytes_buffered s) = length (bs_stream s)"
  by (simp add: bytes_buffered_def unat_vsize bs_inv_fits)

lemma bytes_buffered_0_iff: "bs_inv s \<Longrightarrow> bytes_buffered s = 0 \<longleftrightarrow> bs_stream s = []"
  by (simp add: bytes_buffered_def vsize_eq_0_iff bs_inv_fits)

lemma writer_push_effect:
  assumes "bs_inv s" and "fits data"
  shows "writer_push s data =
    s\<lparr>bs_stream := bs_stream s @ take (room s) data,
      bs_pushed := bs_pushed s + of_nat (min (room s) (length data))\<rparr>"
proof -
  have av: "unat (bs_capacity s - vsize (bs_stream s)) = unat (bs_capacity s) - length (bs_stream s)"
    using unat_available_capacity [OF assms(1)] by (simp add: available_capacity_def)
  show ?thesis
  proof (cases "bs_closed s \<or> bs_capacity s - vsize (bs_stream s) = 0")
    case True
    then have "room s = 0" using av by (auto simp: room_def)
    then show ?thesis using True by (auto simp: writer_push_def)
  next
    case False
    then have room: "room s = unat (bs_capacity s - vsize (bs_stream s))"
      using av by (simp add: room_def)
    have "min (bs_capacity s - vsize (bs_stream s)) (vsize data) = of_nat (min (room s) (length data))"
    proof (rule unat_eqI)
      have "min (room s) (length data) < 2 ^ 64"
        using assms(2) by (simp add: fits_def min.strict_coboundedI2)
      then show "unat (min (bs_capacity s - vsize (bs_stream s)) (vsize data))
          = unat (of_nat (min (room s) (length data)) :: u64)"
        using assms(2) by (simp only: unat_min unat_vsize room unat_of_nat64)
    qed
    moreover have "take (min (room s) (length data)) data = take (room s) data"
      by (simp add: min_def)
    moreover have "min (room s) (length data) < 2 ^ 64"
      using u64_bound [of "bs_capacity s - vsize (bs_stream s)"]
      by (simp only: room min.strict_coboundedI1)
    ultimately show ?thesis
      using False by (simp add: writer_push_def Let_def unat_of_nat)
  qed
qed

text \<open>A stream of a given capacity that holds no more than that.\<close>

definition within :: "u64 \<Rightarrow> ByteStream \<Rightarrow> bool" where
  "within c b \<longleftrightarrow> bs_capacity b = c \<and> length (bs_stream b) \<le> unat c"

lemma within_fits: "within c b \<Longrightarrow> fits (bs_stream b)"
  using u64_bound [of c] by (simp add: within_def fits_def)

lemma within_available: "within c b \<Longrightarrow> unat (available_capacity b) = unat c - length (bs_stream b)"
  using unat_vsize [OF within_fits, of c b] by (simp add: available_capacity_def unat_sub_nat within_def)

lemma within_ops [simp]:
  "within c (byte_stream c)" "within c b \<Longrightarrow> within c (reader_pop b n)" "within c (writer_close b) = within c b"
  "within c (set_error b) = within c b"
  by (auto simp: within_def byte_stream_def reader_pop_def Let_def writer_close_def set_error_def)

lemma within_push [simp]: "within c b \<Longrightarrow> within c (writer_push b data)"
  using within_available [of c b]
  by (auto simp: within_def writer_push_def Let_def available_capacity_def unat_min)

lemma reader_pop_effect:
  assumes "bs_inv s"
  shows "reader_pop s n =
    s\<lparr>bs_stream := drop (unat n) (bs_stream s),
      bs_popped := bs_popped s + of_nat (min (unat n) (length (bs_stream s)))\<rparr>"
proof (cases "bs_stream s = []")
  case True
  then show ?thesis by (simp add: reader_pop_def)
next
  case False
  have u: "unat (min n (vsize (bs_stream s))) = min (unat n) (length (bs_stream s))"
    using assms by (simp add: unat_min unat_vsize bs_inv_fits)
  then have "min n (vsize (bs_stream s)) = of_nat (min (unat n) (length (bs_stream s)))"
    using u64_bound [of "min n (vsize (bs_stream s))"]
    by (intro unat_eqI) (simp only: unat_of_nat64)
  moreover have "drop (min (unat n) (length (bs_stream s))) (bs_stream s) = drop (unat n) (bs_stream s)"
    by (simp add: min_def)
  ultimately show ?thesis
    using False u by (simp add: reader_pop_def Let_def)
qed

section \<open>Runs of the stream\<close>

datatype stream_op = Push "byte list" | Pop u64 | Close | Set_error

fun stream_step :: "ByteStream \<Rightarrow> stream_op \<Rightarrow> ByteStream" where
  "stream_step s (Push data) = writer_push s data"
| "stream_step s (Pop len) = reader_pop s len"
| "stream_step s Close = writer_close s"
| "stream_step s Set_error = set_error s"

text \<open>An argument that exists as a C++ string.\<close>

fun stream_ok :: "ByteStream \<Rightarrow> stream_op \<Rightarrow> bool" where
  "stream_ok s (Push data) = fits data"
| "stream_ok s _ = True"

text \<open>
  The specification of the pipe: a \<open>push\<close> accepts the bytes that fit into an open stream, a
  \<open>pop\<close> delivers the oldest bytes of the buffer.
\<close>

fun accepted :: "ByteStream \<Rightarrow> stream_op \<Rightarrow> byte list" where
  "accepted s (Push data) = take (room s) data"
| "accepted s _ = []"

fun delivered :: "ByteStream \<Rightarrow> stream_op \<Rightarrow> byte list" where
  "delivered s (Pop len) = take (unat len) (reader_peek s)"
| "delivered s _ = []"

lemma bs_inv_init [simp]: "bs_inv (byte_stream c)"
  by (simp add: bs_inv_def byte_stream_def)

lemma bs_inv_push: "bs_inv s \<Longrightarrow> fits data \<Longrightarrow> bs_inv (writer_push s data)"
  by (auto simp: writer_push_effect bs_inv_def room_def vsize_def min.commute)

lemma bs_inv_pop: "bs_inv s \<Longrightarrow> bs_inv (reader_pop s n)"
  by (auto simp: reader_pop_effect bs_inv_def vsize_def min_def simp flip: of_nat_add)

lemma bs_inv_close: "bs_inv s \<Longrightarrow> bs_inv (writer_close s)"
  by (simp add: bs_inv_def writer_close_def)

lemma bs_inv_set_error: "bs_inv s \<Longrightarrow> bs_inv (set_error s)"
  by (simp add: bs_inv_def set_error_def)

lemmas bs_inv_intros = bs_inv_init bs_inv_push bs_inv_pop bs_inv_close bs_inv_set_error

lemma capacity_step [simp]: "bs_capacity (stream_step s e) = bs_capacity s"
  by (cases e) (auto simp: writer_push_def reader_pop_def writer_close_def set_error_def Let_def)

interpretation pipe: fifo stream_step stream_ok bs_inv bs_stream accepted delivered
proof
  fix s e assume inv: "bs_inv s" and ok: "stream_ok s e"
  show "bs_inv (stream_step s e)"
    using inv ok by (cases e) (auto intro: bs_inv_intros)
  show "delivered s e @ bs_stream (stream_step s e) = bs_stream s @ accepted s e"
    using inv ok
    by (cases e) (auto simp: writer_push_effect reader_pop_effect reader_peek_def
        writer_close_def set_error_def)
qed

lemma pushed_step:
  "bs_inv s \<Longrightarrow> stream_ok s e \<Longrightarrow> bytes_pushed (stream_step s e) = bytes_pushed s + vsize (accepted s e)"
  by (cases e) (auto simp: bytes_pushed_def writer_push_effect reader_pop_effect vsize_def
      writer_close_def set_error_def min.commute)

lemma popped_step:
  "bs_inv s \<Longrightarrow> stream_ok s e \<Longrightarrow> bytes_popped (stream_step s e) = bytes_popped s + vsize (delivered s e)"
  by (cases e) (auto simp: bytes_popped_def writer_push_effect reader_pop_effect vsize_def
      writer_close_def set_error_def reader_peek_def min.commute)

lemma capacity_run [simp]: "bs_capacity (run stream_step s es) = bs_capacity s"
  by (induction es arbitrary: s) simp_all

section \<open>The helper read returns, with the oldest bytes\<close>

lemma read_loop_empty: "bs_inv s \<Longrightarrow> bs_stream s = [] \<Longrightarrow> read_loop s n out = Inr (s, out)"
  by (simp add: read_loop.simps bytes_buffered_def)

lemma read_effect:
  assumes inv: "bs_inv s"
  shows "read s n = Inr (reader_pop s n, take (unat n) (bs_stream s))"
proof (cases "bs_stream s = [] \<or> n = 0")
  case True
  then show ?thesis
    by (auto simp: read_def read_loop.simps bytes_buffered_def reader_pop_def)
next
  case False
  let ?view = "substr (bs_stream s) 0 n"
  have view: "?view = take (unat n) (bs_stream s)" by (simp add: substr_def)
  have fits: "fits (bs_stream s)" using inv by (rule bs_inv_fits)
  have size: "unat (vsize ?view) = min (unat n) (length (bs_stream s))"
    using fits by (simp add: view unat_vsize fits_take min.commute)
  have pop: "reader_pop s (vsize ?view) = reader_pop s n"
    by (simp add: reader_pop_effect inv size) (simp add: min_def)
  have done': "bs_stream (reader_pop s n) = [] \<or> \<not> vsize ?view < n"
    using size by (auto simp: reader_pop_effect inv word_less_nat_alt min_def)
  have "read s n = read_loop (reader_pop s n) n ?view"
    using False inv
    by (simp add: read_def read_loop.simps [of s] bytes_buffered_0_iff reader_peek_def pop
        word_neq_0_conv)
  also have "\<dots> = Inr (reader_pop s n, ?view)"
    using done' by (auto simp: read_loop.simps [of "reader_pop s n"] bytes_buffered_def)
  finally show ?thesis by (simp add: view)
qed

section \<open>Properties\<close>

text \<open>
  C9: \<open>ByteStream\<close> is a bounded first-in-first-out pipe. For every capacity and every
  sequence of pushes, pops, closes and errors from a fresh stream, what the reader popped
  followed by what is still buffered is exactly what the writer's pushes were entitled to
  (each push the prefix that fits, nothing once closed), in order; never more than the capacity
  is buffered; and the two counters count the bytes.
\<close>
theorem byte_stream_fifo:
  fixes c :: u64 and es :: "stream_op list"
  assumes "admissible stream_step stream_ok (byte_stream c) es"
  defines "s \<equiv> run stream_step (byte_stream c) es"
  shows "collect stream_step delivered (byte_stream c) es @ reader_peek s
      = collect stream_step accepted (byte_stream c) es
    \<and> length (reader_peek s) \<le> unat c
    \<and> bytes_pushed s = vsize (collect stream_step accepted (byte_stream c) es)
    \<and> bytes_popped s = vsize (collect stream_step delivered (byte_stream c) es)"
proof -
  let ?s = "byte_stream c"
  note adm = bs_inv_init assms(1)
  have "bs_inv s" unfolding s_def by (rule pipe.run_inv [OF adm])
  then have "length (reader_peek s) \<le> unat c"
    by (simp add: bs_inv_def reader_peek_def s_def byte_stream_def)
  moreover have "bytes_pushed s = vsize (collect stream_step accepted ?s es)"
    using pipe.run_counter [OF pushed_step adm] by (simp add: s_def bytes_pushed_def byte_stream_def)
  moreover have "bytes_popped s = vsize (collect stream_step delivered ?s es)"
    using pipe.run_counter [OF popped_step adm] by (simp add: s_def bytes_popped_def byte_stream_def)
  ultimately show ?thesis
    using pipe.fifo_run [OF adm] by (simp add: s_def reader_peek_def byte_stream_def)
qed

theorem byte_stream_fifo_witness:
  "admissible stream_step stream_ok (byte_stream 3) [Push [1, 2], Pop 1, Push [3, 4, 5], Close, Push [6]]
   \<and> reader_peek (run stream_step (byte_stream 3) [Push [1, 2], Pop 1, Push [3, 4, 5], Close, Push [6]])
       = [2, 3, 4]
   \<and> bytes_pushed (run stream_step (byte_stream 3) [Push [1, 2], Pop 1, Push [3, 4, 5], Close, Push [6]]) = 4"
proof -
  let ?es = "[Push [1, 2], Pop 1, Push [3, 4, 5], Close, Push [6]]"
  have adm: "admissible stream_step stream_ok (byte_stream 3) ?es"
    by (simp add: fits_def)
  have acc: "collect stream_step accepted (byte_stream 3) ?es = [1, 2, 3, 4]"
    and del: "collect stream_step delivered (byte_stream 3) ?es = [1]"
    by (simp_all add: byte_stream_def room_def writer_push_def reader_pop_def reader_peek_def
        writer_close_def vsize_def min_def)
  show ?thesis
    using byte_stream_fifo [OF adm] adm unfolding acc del by (simp add: vsize_def)
qed


text \<open>
  The helper \<open>read\<close> returns for every stream in a well-formed state and never throws: it
  pops, and returns, the oldest \<open>max_len\<close> bytes, or all of them if there are fewer.
\<close>
lemma read_returns_oldest:
  assumes "bs_inv s"
  shows "\<exists>s' out. read s max_len = Inr (s', out)
    \<and> out @ reader_peek s' = reader_peek s
    \<and> length out = min (unat max_len) (length (reader_peek s))
    \<and> bytes_popped s' = bytes_popped s + vsize out
    \<and> bs_inv s'"
  using assms bs_inv_pop [OF assms, of max_len] bs_inv_fits [OF assms]
  by (auto simp: read_effect reader_pop_effect reader_peek_def bytes_popped_def vsize_def min.commute)

end
