(* ===== verification/Wrapping_Integers.thy ===== *)
theory Wrapping_Integers
  imports Prelude
begin

text \<open>
  \<open>src/wrapping_integers.hh\<close> and \<open>src/wrapping_integers.cc\<close>: the type \<open>Wrap32\<close>, a
  32-bit sequence number relative to a zero point, and its conversions from and to 64-bit
  absolute sequence numbers. The lemmas give \<open>unwrap\<close> as the absolute sequence number
  nearest to the checkpoint, which is its specification in the header.
\<close>

datatype Wrap32 = Wrap32 (raw_value: u32)

definition wrap :: "u64 \<Rightarrow> Wrap32 \<Rightarrow> Wrap32" where
  "wrap n zero_point =
     Wrap32 (ucast ((n mod push_bit 32 1 + ucast (raw_value zero_point)) mod push_bit 32 1))"

text \<open>
  \<open>unwrap\<close> subtracts two \<open>int64_t\<close> values, and C++ leaves the result undefined where that
  subtraction overflows. \<open>unwrap_defined\<close> says that it does not; only then is \<open>unwrap\<close> the value
  of the code (where it overflows the word below is a value without meaning). The difference is
  converted to \<open>uint64_t\<close> before the division, because the divisor is unsigned.
\<close>

definition unwrap_base :: "Wrap32 \<Rightarrow> Wrap32 \<Rightarrow> u64" where
  "unwrap_base self zero_point =
     (ucast (raw_value self) + (push_bit 32 1 - ucast (raw_value zero_point))) mod push_bit 32 1"

definition unwrap_defined :: "Wrap32 \<Rightarrow> Wrap32 \<Rightarrow> u64 \<Rightarrow> bool" where
  "unwrap_defined self zero_point checkpoint \<longleftrightarrow>
     (let difference = sint checkpoint - sint (unwrap_base self zero_point)
      in - (2 ^ 63) \<le> difference \<and> difference < 2 ^ 63)"

definition unwrap :: "Wrap32 \<Rightarrow> Wrap32 \<Rightarrow> u64 \<Rightarrow> u64" where
  "unwrap self zero_point checkpoint =
     (let base = unwrap_base self zero_point;
          before_checkpoint =
            base + (word_of_int (sint checkpoint - sint base) div push_bit 32 1) * push_bit 32 1;
          after_checkpoint = before_checkpoint + push_bit 32 1;
          diff_before =
            (if checkpoint > before_checkpoint then checkpoint - before_checkpoint
             else before_checkpoint - checkpoint);
          diff_after =
            (if after_checkpoint > checkpoint then after_checkpoint - checkpoint
             else checkpoint - after_checkpoint)
      in if diff_before > diff_after then after_checkpoint else before_checkpoint)"

definition wrap32_add :: "Wrap32 \<Rightarrow> u32 \<Rightarrow> Wrap32" where
  "wrap32_add w n = Wrap32 (raw_value w + n)"

definition wrap32_eq :: "Wrap32 \<Rightarrow> Wrap32 \<Rightarrow> bool" where
  "wrap32_eq a b \<longleftrightarrow> raw_value a = raw_value b"

section \<open>Values as natural numbers\<close>

lemma unat_wrap:
  "unat (raw_value (wrap n z)) = (unat n + unat (raw_value z)) mod 2 ^ 32"
proof -
  have "unat (n mod push_bit 32 1 :: u64) = unat n mod 2 ^ 32"
    by (simp add: unat_mod_distrib)
  moreover have "unat n mod 2 ^ 32 + unat (raw_value z) < 2 ^ 64"
    using u32_bound [of "raw_value z"] mod_less_divisor [of "2 ^ 32" "unat n"] by simp
  ultimately show ?thesis
    by (simp add: wrap_def nat_simps unat_mod_distrib mod_simps)
qed


text \<open>The offset of a sequence number from the zero point, and the two candidates.\<close>

definition seq_offset :: "Wrap32 \<Rightarrow> Wrap32 \<Rightarrow> nat" where
  "seq_offset self z = (unat (raw_value self) + (2 ^ 32 - unat (raw_value z))) mod 2 ^ 32"

lemma seq_offset_bound: "seq_offset self z < 2 ^ 32"
  by (simp add: seq_offset_def)

lemma seq_offset_sub: "seq_offset self z = unat (raw_value self - raw_value z)"
proof -
  have "unat (raw_value self - raw_value z) = (unat (raw_value self) + (2 ^ 32 - unat (raw_value z))) mod 2 ^ 32"
    using u32_bound [of "raw_value self"] u32_bound [of "raw_value z"]
    by (auto simp: unat_sub_if' mod_if)
  then show ?thesis by (simp add: seq_offset_def)
qed

lemma unat_unwrap_base:
  "unat (unwrap_base self z) = seq_offset self z"
proof -
  have "unat (push_bit 32 1 - ucast (raw_value z) :: u64) = 2 ^ 32 - unat (raw_value z)"
    using u32_bound [of "raw_value z"] by (simp add: unat_sub_nat nat_simps)
  moreover have "unat (raw_value self) + (2 ^ 32 - unat (raw_value z)) < 2 ^ 64"
    using u32_bound [of "raw_value self"] by simp
  ultimately show ?thesis
    by (simp add: unwrap_base_def seq_offset_def unat_mod_distrib nat_simps)
qed

lemma unat_unwrap_before:
  fixes base cp :: u64
  assumes "unat base < 2 ^ 32"
  shows "unat (base + (word_of_int (sint cp - sint base) div push_bit 32 1) * push_bit 32 1)
    = (if unat base \<le> unat cp
       then unat base + (unat cp - unat base) div 2 ^ 32 * 2 ^ 32
       else 2 ^ 64 - 2 ^ 32 + unat base)"
proof -
  have diff: "word_of_int (sint cp - sint base) = cp - base" by simp
  show ?thesis
  proof (cases "unat base \<le> unat cp")
    case True
    let ?k = "(unat cp - unat base) div 2 ^ 32"
    have le: "unat base + ?k * 2 ^ 32 \<le> unat cp"
      using True div_times_less_eq_dividend [of "unat cp - unat base" "2 ^ 32"] by linarith
    have "unat ((cp - base) div push_bit 32 1) = ?k"
      using True by (simp add: unat_div_distrib unat_sub_nat)
    then have "unat (((cp - base) div push_bit 32 1) * push_bit 32 1) = ?k * 2 ^ 32"
      using le u64_bound [of cp] by (simp add: unat_word_ariths)
    then show ?thesis
      using True le u64_bound [of cp] by (simp add: diff nat_simps)
  next
    case False
    have "unat (cp - base) = 2 ^ 64 + unat cp - unat base"
      using False by (simp add: unat_sub_if')
    then have "unat ((cp - base) div push_bit 32 1) = (2 ^ 64 + unat cp - unat base) div 2 ^ 32"
      by (simp add: unat_div_distrib)
    also have "\<dots> = 2 ^ 32 - 1"
      using False assms by simp
    finally have "unat (((cp - base) div push_bit 32 1) * push_bit 32 1) = 2 ^ 64 - 2 ^ 32"
      by (simp add: unat_word_ariths)
    then show ?thesis
      using False assms by (simp add: diff nat_simps)
  qed
qed

text \<open>\<open>unwrap\<close> on natural numbers: no wrap-around is left.\<close>

lemma unat_unwrap:
  "unat (unwrap self z cp) =
    (let b = seq_offset self z; c = unat cp; lo = b + (c - b) div 2 ^ 32 * 2 ^ 32
     in if c \<ge> b \<and> lo + 2 ^ 32 < 2 ^ 64 \<and> c - lo > lo + 2 ^ 32 - c then lo + 2 ^ 32 else lo)"
proof -
  define base :: u64 where "base = unwrap_base self z"
  define before :: u64 where
    "before = base + (word_of_int (sint cp - sint base) div push_bit 32 1) * push_bit 32 1"
  have b: "unat base = seq_offset self z"
    by (simp only: base_def unat_unwrap_base)
  have lt: "unat base < 2 ^ 32"
    by (simp only: b seq_offset_bound)
  note bf = unat_unwrap_before [OF lt, of cp, folded before_def]
  have aft: "unat (before + push_bit 32 1) =
      (if unat before + 2 ^ 32 < 2 ^ 64 then unat before + 2 ^ 32 else unat before + 2 ^ 32 - 2 ^ 64)"
    by (simp add: unat_plus_if')
  have unw: "unwrap self z cp =
     (if (if cp > before then cp - before else before - cp)
         > (if before + push_bit 32 1 > cp then before + push_bit 32 1 - cp
            else cp - (before + push_bit 32 1))
      then before + push_bit 32 1 else before)"
    by (simp only: unwrap_def Let_def base_def [symmetric] before_def [symmetric])
  show ?thesis
  proof (cases "unat base \<le> unat cp")
    case True
    define lo where "lo = unat base + (unat cp - unat base) div 2 ^ 32 * 2 ^ 32"
    have lo: "unat before = lo" using True bf by (simp add: lo_def)
    have "unat cp - unat base < ((unat cp - unat base) div 2 ^ 32 + 1) * 2 ^ 32"
      by (simp add: dividend_less_div_times)
    then have lo_le: "lo \<le> unat cp" "unat cp < lo + 2 ^ 32"
      using True div_times_less_eq_dividend [of "unat cp - unat base" "2 ^ 32"]
      by (simp_all add: lo_def algebra_simps)
    have "unat (unwrap self z cp) =
       (if lo + 2 ^ 32 < 2 ^ 64 \<and> unat cp - lo > lo + 2 ^ 32 - unat cp then lo + 2 ^ 32 else lo)"
      using lo_le aft u64_bound [of cp]
      by (auto simp: unw lo word_nat_alt unat_sub_nat split: if_splits)
    then show ?thesis
      using True by (simp add: Let_def b lo_def)
  next
    case False
    then have "unat before = 2 ^ 64 - 2 ^ 32 + unat base" using bf by simp
    then have "unat (unwrap self z cp) = unat base"
      using False aft lt by (simp add: unw word_nat_alt unat_sub_nat)
    then show ?thesis
      using False by (simp add: Let_def b)
  qed
qed


section \<open>wrap and unwrap\<close>

lemma wrap32_eq_iff: "wrap32_eq a b \<longleftrightarrow> a = b"
  by (cases a; cases b) (simp add: wrap32_eq_def)

lemma Wrap32_eqI: "unat (raw_value a) = unat (raw_value b) \<Longrightarrow> a = b"
  by (cases a; cases b) (simp add: word_unat_eq_iff)

lemma mod_diff_back:
  assumes "z < (B :: nat)" and "s < B"
  shows "(n + z) mod B = s \<longleftrightarrow> n mod B = (s + (B - z)) mod B"
proof
  assume "(n + z) mod B = s"
  then have "(s + (B - z)) mod B = ((n + z) mod B + (B - z)) mod B" by simp
  also have "\<dots> = (n + z + (B - z)) mod B" by (simp add: mod_simps)
  also have "\<dots> = (n + B) mod B" using assms by simp
  finally show "n mod B = (s + (B - z)) mod B" by simp
next
  assume n: "n mod B = (s + (B - z)) mod B"
  have "(n + z) mod B = (n mod B + z) mod B" by (simp add: mod_simps)
  also have "\<dots> = (s + (B - z) + z) mod B" by (simp only: n mod_simps)
  also have "\<dots> = (s + B) mod B" using assms by simp
  finally show "(n + z) mod B = s" using assms by simp
qed

lemma wrap_eq_iff_offset: "wrap n z = self \<longleftrightarrow> unat n mod 2 ^ 32 = seq_offset self z"
proof -
  have "wrap n z = self \<longleftrightarrow> (unat n + unat (raw_value z)) mod 2 ^ 32 = unat (raw_value self)"
    using unat_wrap [of n z] Wrap32_eqI [of "wrap n z" self] by auto
  also have "\<dots> \<longleftrightarrow> unat n mod 2 ^ 32 = seq_offset self z"
    unfolding seq_offset_def by (rule mod_diff_back [OF u32_bound u32_bound])
  finally show ?thesis .
qed

lemma seq_offset_wrap: "seq_offset (wrap n z) z = unat n mod 2 ^ 32"
  using wrap_eq_iff_offset [of n z "wrap n z"] by simp

lemma wrap_eq_iff: "wrap m z = wrap n z \<longleftrightarrow> unat m mod 2 ^ 32 = unat n mod 2 ^ 32"
  by (simp only: wrap_eq_iff_offset seq_offset_wrap)

lemma mod_64_32: "((x :: nat) mod 2 ^ 64 + y) mod 2 ^ 32 = (x + y) mod 2 ^ 32"
proof -
  have "x mod 2 ^ 64 mod 2 ^ 32 = x mod 2 ^ 32"
    by (rule mod_mod_cancel) (simp add: le_imp_power_dvd)
  then have "(x mod 2 ^ 64 mod 2 ^ 32 + y) mod 2 ^ 32 = (x mod 2 ^ 32 + y) mod 2 ^ 32"
    by simp
  then show ?thesis by (simp only: mod_add_left_eq)
qed

lemma unat_raw_add: "unat (raw_value (wrap32_add w k)) = (unat (raw_value w) + unat k) mod 2 ^ 32"
  by (simp add: wrap32_add_def unat_word_ariths)

lemma wrap32_add_wrap: "wrap32_add (wrap n z) k = wrap (n + ucast k) z"
proof (rule Wrap32_eqI)
  have "unat (n + ucast k) = (unat n + unat k) mod 2 ^ 64"
    by (simp add: unat_word_ariths nat_simps)
  then have "unat (raw_value (wrap (n + ucast k) z)) = (unat n + unat k + unat (raw_value z)) mod 2 ^ 32"
    by (simp only: unat_wrap mod_64_32)
  also have "\<dots> = unat (raw_value (wrap32_add (wrap n z) k))"
    unfolding unat_raw_add unat_wrap mod_add_left_eq by (simp add: add_ac)
  finally show "unat (raw_value (wrap32_add (wrap n z) k)) = unat (raw_value (wrap (n + ucast k) z))"
    by simp
qed

lemma wrap_0 [simp]: "wrap 0 z = z"
  using u32_bound [of "raw_value z"] by (intro Wrap32_eqI) (simp add: unat_wrap)

lemma wrap32_add_zero_point: "wrap32_add z k = wrap (ucast k) z"
  using wrap32_add_wrap [of 0 z k] by (simp add: wrap_0)

lemma unwrap_cong: "unat (unwrap self z cp) mod 2 ^ 32 = seq_offset self z"
  using seq_offset_bound [of self z] by (simp add: unat_unwrap Let_def mod_add_eq)

text \<open>
  The distance of two sequence numbers on the number line; the header's contract is that
  \<open>unwrap\<close> returns the candidate closest to the checkpoint.
\<close>

definition seq_distance :: "u64 \<Rightarrow> u64 \<Rightarrow> nat" where
  "seq_distance a b = (unat a - unat b) + (unat b - unat a)"

text \<open>
  The number-theoretic heart: of the numbers congruent to \<open>b\<close> modulo \<open>B\<close>, the one that
  \<open>unat_unwrap\<close> computes is the closest to \<open>c\<close>.
\<close>

lemma closest_congruent:
  fixes b c n B :: nat
  assumes B: "0 < B" and n: "n mod B = b" and bB: "b < B"
  defines "lo \<equiv> b + (c - b) div B * B"
  shows "c < b \<Longrightarrow> b - c \<le> (n - c) + (c - n) \<and> b \<le> n"
    and "b \<le> c \<Longrightarrow> n \<le> lo \<or> lo + B \<le> n"
    and "b \<le> c \<Longrightarrow> lo \<le> c \<and> c < lo + B"
proof -
  have nk: "n = b + n div B * B"
    using n by (metis add.commute mult.commute mod_mult_div_eq mult_div_mod_eq)
  then have "b \<le> n" by simp
  then show "c < b \<Longrightarrow> b - c \<le> (n - c) + (c - n) \<and> b \<le> n" by simp
  show "n \<le> lo \<or> lo + B \<le> n"
  proof (cases "n div B \<le> (c - b) div B")
    case True
    then have "n div B * B \<le> (c - b) div B * B" by (rule mult_le_mono1)
    then have "n \<le> lo" using nk unfolding lo_def by linarith
    then show ?thesis ..
  next
    case False
    then have "((c - b) div B + 1) * B \<le> n div B * B" by (intro mult_le_mono1) simp
    then have "(c - b) div B * B + B \<le> n div B * B" by simp
    then have "lo + B \<le> n" using nk unfolding lo_def by linarith
    then show ?thesis ..
  qed
  assume "b \<le> c"
  moreover have "(c - b) div B * B \<le> c - b" by (rule div_times_less_eq_dividend)
  moreover have "c - b < ((c - b) div B + 1) * B"
    using B by (simp add: dividend_less_div_times)
  moreover have "((c - b) div B + 1) * B = (c - b) div B * B + B" by simp
  ultimately show "lo \<le> c \<and> c < lo + B" unfolding lo_def by linarith
qed

lemma closest_pick:
  fixes lo n c B :: nat
  assumes "n \<le> lo \<or> lo + B \<le> n" and "lo \<le> c" and "c < lo + B"
  shows "lo + B - c < c - lo \<Longrightarrow>
      lo + B - c + (c - (lo + B)) \<le> (n - c) + (c - n)
      \<and> (lo + B - c + (c - (lo + B)) = (n - c) + (c - n) \<longrightarrow> lo + B \<le> n)"
    and "c - lo \<le> lo + B - c \<or> n < lo + B \<Longrightarrow>
      (lo - c) + (c - lo) \<le> (n - c) + (c - n)
      \<and> ((lo - c) + (c - lo) = (n - c) + (c - n) \<longrightarrow> lo \<le> n)"
  using assms by arith+

lemma unwrap_closest:
  assumes "unat n mod 2 ^ 32 = seq_offset self z"
  shows "seq_distance (unwrap self z cp) cp \<le> seq_distance n cp
    \<and> (seq_distance (unwrap self z cp) cp = seq_distance n cp
         \<longrightarrow> unat (unwrap self z cp) \<le> unat n)"
proof -
  define lo where "lo = seq_offset self z + (unat cp - seq_offset self z) div 2 ^ 32 * 2 ^ 32"
  note near = closest_congruent [where B = "2 ^ 32" and c = "unat cp", OF _ assms seq_offset_bound,
      folded lo_def, simplified]
  have r: "unat (unwrap self z cp) =
      (if seq_offset self z \<le> unat cp \<and> lo + 2 ^ 32 < 2 ^ 64 \<and> unat cp - lo > lo + 2 ^ 32 - unat cp
       then lo + 2 ^ 32 else lo)"
    by (simp only: unat_unwrap Let_def lo_def)
  show ?thesis
  proof (cases "seq_offset self z \<le> unat cp")
    case True
    then have "unat n \<le> lo \<or> lo + 2 ^ 32 \<le> unat n" "lo \<le> unat cp" "unat cp < lo + 2 ^ 32"
      using near(2,3) by simp_all
    note pick = closest_pick [OF this]
    show ?thesis
    proof (cases "lo + 2 ^ 32 < 2 ^ 64 \<and> lo + 2 ^ 32 - unat cp < unat cp - lo")
      case up: True
      then have "unat (unwrap self z cp) = lo + 2 ^ 32" using True r by simp
      then show ?thesis using up pick(1) by (simp only: seq_distance_def) blast
    next
      case down: False
      then have "unat cp - lo \<le> lo + 2 ^ 32 - unat cp \<or> unat n < lo + 2 ^ 32"
        using u64_bound [of n] by linarith
      moreover have "unat (unwrap self z cp) = lo" using down r by auto
      ultimately show ?thesis using pick(2) unfolding seq_distance_def by metis
    qed
  next
    case False
    then have "lo = seq_offset self z" by (simp add: lo_def)
    then show ?thesis
      using False near(1) r unfolding seq_distance_def by (auto intro: diff_le_mono)
  qed
qed

lemma mod_eq_less_plus: "(u :: nat) mod B = n mod B \<Longrightarrow> u < n \<Longrightarrow> u + B \<le> n"
  by (metis add.commute add_le_cancel_left le_add_diff_inverse less_imp_le_nat
      mod_eq_dvd_iff_nat dvd_imp_le zero_less_diff)

text \<open>Two congruent numbers, the first at least as close to \<open>c\<close>, are equal near \<open>c\<close>.\<close>

lemma congruent_close:
  fixes u n c h :: nat
  assumes "u mod (2 * h) = n mod (2 * h)"
    and "n < c + h" and "c \<le> n + h"
    and "(u - c) + (c - u) \<le> (n - c) + (c - n)"
    and "(u - c) + (c - u) = (n - c) + (c - n) \<longrightarrow> u \<le> n"
  shows "u = n"
proof (rule ccontr)
  assume "u \<noteq> n"
  then consider "u + 2 * h \<le> n" | "n + 2 * h \<le> u"
    using assms(1) by (metis linorder_neqE_nat mod_eq_less_plus)
  then show False using assms(2-5) by cases arith+
qed

lemma unwrap_wrap_near:
  assumes "unat n < unat cp + 2 ^ 31" and "unat cp \<le> unat n + 2 ^ 31"
  shows "unwrap (wrap n z) z cp = n"
proof -
  let ?u = "unwrap (wrap n z) z cp"
  have two: "2 * 2 ^ 31 = (2 ^ 32 :: nat)" by simp
  have m: "unat ?u mod (2 * 2 ^ 31) = unat n mod (2 * 2 ^ 31)"
    by (simp only: two unwrap_cong seq_offset_wrap)
  have d: "seq_distance ?u cp \<le> seq_distance n cp
      \<and> (seq_distance ?u cp = seq_distance n cp \<longrightarrow> unat ?u \<le> unat n)"
    by (rule unwrap_closest) (simp only: seq_offset_wrap)
  have "unat ?u = unat n"
    using d unfolding seq_distance_def by (intro congruent_close [OF m assms]) simp_all
  then show ?thesis by (rule unat_eqI)
qed

text \<open>
  The subtraction overflows for exactly the checkpoints from \<open>2 ^ 63\<close> on that lie less than the
  offset beyond it: they are negative as \<open>int64_t\<close>. For all the others C++ defines the value.
\<close>

lemma sint_small:
  assumes "unat (x :: u64) < 2 ^ 63"
  shows "sint x = int (unat x)"
proof -
  have "int (unat x) < 2 ^ 63"
    using assms by (simp only: of_nat_less_numeral_power_cancel_iff)
  then have "signed_take_bit 63 (int (unat x)) = int (unat x)"
    by (intro signed_take_bit_int_eq_self) linarith+
  then show ?thesis by (simp add: sint_uint)
qed

lemma sint_large:
  assumes "2 ^ 63 \<le> unat (x :: u64)"
  shows "sint x = int (unat x) - 2 ^ 64"
proof -
  have lo: "2 ^ 63 \<le> int (unat x)"
    using assms by (simp only: numeral_power_le_of_nat_cancel_iff)
  have hi: "int (unat x) < 2 ^ 64"
    using u64_bound [of x] by (simp only: of_nat_less_numeral_power_cancel_iff)
  have "signed_take_bit 63 (int (unat x)) = (int (unat x) + 2 ^ 63) mod 2 ^ 64 - 2 ^ 63"
    by (simp add: signed_take_bit_int_eq_self_iff signed_take_bit_eq_take_bit_shift take_bit_eq_mod)
  also have "(int (unat x) + 2 ^ 63) mod 2 ^ 64 = (int (unat x) + 2 ^ 63 - 2 ^ 64) mod 2 ^ 64"
    by (metis minus_mod_self2)
  also have "\<dots> = int (unat x) + 2 ^ 63 - 2 ^ 64"
    using lo hi by (intro mod_pos_pos_trivial) simp_all
  finally show ?thesis by (simp add: sint_uint)
qed

lemma unwrap_defined_iff:
  "unwrap_defined self z cp \<longleftrightarrow> \<not> (2 ^ 63 \<le> unat cp \<and> unat cp < 2 ^ 63 + seq_offset self z)"
proof -
  have o: "seq_offset self z < 2 ^ 32" by (rule seq_offset_bound)
  then have "unat (unwrap_base self z) < 2 ^ 63" by (simp add: unat_unwrap_base)
  then have base: "sint (unwrap_base self z) = int (seq_offset self z)"
    by (simp add: sint_small unat_unwrap_base)
  show ?thesis
  proof (cases "unat cp < 2 ^ 63")
    case True
    then have cp: "sint cp = int (unat cp)" by (rule sint_small)
    define c where "c = unat cp"
    have "c < 2 ^ 63" using True by (simp add: c_def)
    then show ?thesis
      using o unfolding unwrap_defined_def base cp Let_def c_def [symmetric] by auto
  next
    case False
    then have cp: "sint cp = int (unat cp) - 2 ^ 64" by (intro sint_large) simp
    define c where "c = unat cp"
    have "c < 2 ^ 64" "\<not> c < 2 ^ 63" using u64_bound [of cp] False by (simp_all add: c_def)
    then show ?thesis
      using o unfolding unwrap_defined_def base cp Let_def c_def [symmetric] by auto
  qed
qed

lemma unwrap_defined_small [simp]: "unat cp < 2 ^ 63 \<Longrightarrow> unwrap_defined self z cp"
  by (simp add: unwrap_defined_iff)

section \<open>Properties\<close>

text \<open>
  C8: \<open>Wrap32::unwrap\<close> meets its contract for every zero point and every checkpoint for which C++
  defines its value: the absolute sequence number it returns wraps to the given \<open>Wrap32\<close>, and no
  absolute sequence number that wraps to it is closer to the checkpoint; of two equally close
  ones it returns the smaller. It is defined for every checkpoint below \<open>2 ^ 63\<close>, and beyond
  that for all but the first ones: those whose distance from \<open>2 ^ 63\<close> is less than the distance
  from the zero point to the given \<open>Wrap32\<close>, where a signed subtraction overflows.
\<close>
theorem unwrap_nearest:
  "(unwrap_defined self zero_point checkpoint \<longleftrightarrow>
      \<not> (2 ^ 63 \<le> unat checkpoint \<and>
         unat checkpoint < 2 ^ 63 + unat (raw_value self - raw_value zero_point)))
   \<and> (unwrap_defined self zero_point checkpoint \<longrightarrow>
      wrap (unwrap self zero_point checkpoint) zero_point = self
      \<and> (\<forall>n. wrap n zero_point = self \<longrightarrow>
           seq_distance (unwrap self zero_point checkpoint) checkpoint \<le> seq_distance n checkpoint
           \<and> (seq_distance (unwrap self zero_point checkpoint) checkpoint = seq_distance n checkpoint
                \<longrightarrow> unat (unwrap self zero_point checkpoint) \<le> unat n)))"
  using unwrap_cong [of self zero_point checkpoint] unwrap_closest unwrap_defined_iff
  by (simp add: wrap_eq_iff_offset seq_offset_sub)

theorem unwrap_nearest_witness:
  "unwrap_defined (Wrap32 10) (Wrap32 7) 5000000000 \<and> wrap 4294967299 (Wrap32 7) = Wrap32 10
   \<and> unwrap (Wrap32 10) (Wrap32 7) 5000000000 = 4294967299
   \<and> seq_distance 4294967299 5000000000 \<le> seq_distance 3 5000000000"
proof -
  have w: "wrap 3 (Wrap32 7) = Wrap32 10" "wrap 4294967299 (Wrap32 7) = Wrap32 10"
    by (simp_all add: wrap_def)
  have u: "unwrap (Wrap32 10) (Wrap32 7) 5000000000 = 4294967299" by code_simp
  have d: "unwrap_defined (Wrap32 10) (Wrap32 7) 5000000000"
    using unwrap_nearest [of "Wrap32 10" "Wrap32 7" 5000000000] by simp
  then have "seq_distance (unwrap (Wrap32 10) (Wrap32 7) 5000000000) 5000000000 \<le> seq_distance 3 5000000000"
    using unwrap_nearest [of "Wrap32 10" "Wrap32 7" 5000000000] w(1) by blast
  then show ?thesis using d w(2) u by simp
qed

text \<open>
  Inside the window of \<open>2 ^ 31\<close> sequence numbers around the checkpoint, \<open>unwrap\<close>
  inverts \<open>wrap\<close>.
\<close>
lemma unwrap_wrap:
  assumes "unat n < unat checkpoint + 2 ^ 31" and "unat checkpoint \<le> unat n + 2 ^ 31"
  shows "unwrap (wrap n zero_point) zero_point checkpoint = n"
  using assms by (rule unwrap_wrap_near)

end
