(* ===== verification/TCP_Messages.thy ===== *)
theory TCP_Messages
  imports Wrapping_Integers
begin

text \<open>
  \<open>util/tcp_sender_message.hh\<close>, \<open>util/tcp_receiver_message.hh\<close> and the constants of
  \<open>util/tcp_config.hh\<close>: what the two halves of a TCP endpoint say to each other.
\<close>

record TCPSenderMessage =
  sm_seqno :: Wrap32
  sm_SYN :: bool
  sm_payload :: "byte list"
  sm_FIN :: bool
  sm_RST :: bool

text \<open>The value-initialised message.\<close>

definition sender_message :: TCPSenderMessage where
  "sender_message =
     \<lparr>sm_seqno = Wrap32 0, sm_SYN = False, sm_payload = [], sm_FIN = False, sm_RST = False\<rparr>"

definition sequence_length :: "TCPSenderMessage \<Rightarrow> u64" where
  "sequence_length m = of_bool (sm_SYN m) + vsize (sm_payload m) + of_bool (sm_FIN m)"

record TCPReceiverMessage =
  rm_ackno :: "Wrap32 option"
  rm_window_size :: u16
  rm_RST :: bool

definition receiver_message :: TCPReceiverMessage where
  "receiver_message = \<lparr>rm_ackno = None, rm_window_size = 0, rm_RST = False\<rparr>"

definition MAX_PAYLOAD_SIZE :: u64 where
  "MAX_PAYLOAD_SIZE = 1000"

definition TIMEOUT_DFLT :: u16 where
  "TIMEOUT_DFLT = 1000"

definition DEFAULT_CAPACITY :: u64 where
  "DEFAULT_CAPACITY = 64000"

record TCPConfig =
  cfg_rt_timeout :: u16
  cfg_recv_capacity :: u64
  cfg_send_capacity :: u64
  cfg_isn :: Wrap32

definition tcp_config :: TCPConfig where
  "tcp_config = \<lparr>cfg_rt_timeout = TIMEOUT_DFLT, cfg_recv_capacity = DEFAULT_CAPACITY,
     cfg_send_capacity = DEFAULT_CAPACITY, cfg_isn = Wrap32 137\<rparr>"

lemma sender_message_simps [simp]:
  "sm_seqno sender_message = Wrap32 0" "\<not> sm_SYN sender_message" "sm_payload sender_message = []"
  "\<not> sm_FIN sender_message" "\<not> sm_RST sender_message"
  by (simp_all add: sender_message_def)

lemma sequence_length_sender_message [simp]: "sequence_length sender_message = 0"
  by (simp add: sequence_length_def)

text \<open>The length as a natural number; no overflow for a payload that exists in memory.\<close>

definition seq_len :: "TCPSenderMessage \<Rightarrow> nat" where
  "seq_len m = of_bool (sm_SYN m) + length (sm_payload m) + of_bool (sm_FIN m)"

lemma unat_sequence_length:
  assumes "seq_len m < 2 ^ 64"
  shows "unat (sequence_length m) = seq_len m"
proof -
  have "sequence_length m = of_nat (seq_len m)"
    by (simp add: sequence_length_def seq_len_def vsize_def)
  then show ?thesis using assms by (simp add: unat_of_nat64)
qed

lemma sequence_length_of_nat: "sequence_length m = of_nat (seq_len m)"
  by (simp add: sequence_length_def seq_len_def vsize_def)

text \<open>
  The segment a peer with initial sequence number \<open>isn\<close> builds for the bytes of its stream
  from index \<open>first_index\<close> on: the SYN takes sequence number 0, byte \<open>k\<close> takes
  \<open>k + 1\<close>.
\<close>

definition peer_segment :: "Wrap32 \<Rightarrow> u64 \<Rightarrow> byte list \<Rightarrow> bool \<Rightarrow> bool \<Rightarrow> TCPSenderMessage" where
  "peer_segment isn first_index data syn fin =
     \<lparr>sm_seqno = wrap (if syn then 0 else first_index + 1) isn, sm_SYN = syn, sm_payload = data,
      sm_FIN = fin, sm_RST = False\<rparr>"

lemma peer_segment_simps [simp]:
  "\<not> sm_RST (peer_segment isn i data syn fin)"
  "sm_SYN (peer_segment isn i data syn fin) = syn"
  "sm_payload (peer_segment isn i data syn fin) = data"
  "sm_FIN (peer_segment isn i data syn fin) = fin"
  "sm_seqno (peer_segment isn i data syn fin) = wrap (if syn then 0 else i + 1) isn"
  by (simp_all add: peer_segment_def)

lemma seq_len_peer_segment [simp]:
  "seq_len (peer_segment isn i data syn fin) = of_bool syn + length data + of_bool fin"
  by (simp add: seq_len_def)

end
