(* ===== verification/TCP_Sender.thy ===== *)
theory TCP_Sender
  imports Byte_Stream TCP_Messages
begin

text \<open>
  \<open>src/tcp_sender.hh\<close> and \<open>src/tcp_sender.cc\<close>: the half of an endpoint that cuts the
  outbound stream into segments, keeps them until they are acknowledged and retransmits the
  oldest one on a timeout. The messages an operation hands to its \<open>transmit\<close> function are
  its second result, in order. \<open>push\<close> is modelled as the sequence of its five blocks.
\<close>

record TCPSender =
  sn_input :: ByteStream
  sn_isn :: Wrap32
  sn_initial_RTO_ms :: u64
  sn_window_size :: u16
  sn_outstanding :: "TCPSenderMessage list"
  sn_next_seqno :: u64
  sn_syn_sent :: bool
  sn_bytes_unack :: u64
  sn_consecutive :: u64
  sn_RTO :: u64
  sn_timer :: u64
  sn_timer_active :: bool
  sn_fin_set :: bool
  sn_probe_sent :: bool
  sn_probe_seqno :: "u64 option"
  sn_fin_ready :: bool

definition tcp_sender :: "ByteStream \<Rightarrow> Wrap32 \<Rightarrow> u64 \<Rightarrow> TCPSender" where
  "tcp_sender input isn initial_RTO_ms =
     \<lparr>sn_input = input, sn_isn = isn, sn_initial_RTO_ms = initial_RTO_ms, sn_window_size = 1,
      sn_outstanding = [], sn_next_seqno = 0, sn_syn_sent = False, sn_bytes_unack = 0,
      sn_consecutive = 0, sn_RTO = initial_RTO_ms, sn_timer = 0, sn_timer_active = False,
      sn_fin_set = False, sn_probe_sent = False, sn_probe_seqno = None, sn_fin_ready = False\<rparr>"

definition sequence_numbers_in_flight :: "TCPSender \<Rightarrow> u64" where
  "sequence_numbers_in_flight s = sn_bytes_unack s"

definition consecutive_retransmissions :: "TCPSender \<Rightarrow> u64" where
  "consecutive_retransmissions s = sn_consecutive s"

section \<open>push\<close>

definition sender_available :: "TCPSender \<Rightarrow> u64" where
  "sender_available s =
     (if ucast (sn_window_size s) > sn_bytes_unack s then ucast (sn_window_size s) - sn_bytes_unack s
      else 0)"

definition start_timer :: "TCPSender \<Rightarrow> TCPSender" where
  "start_timer s =
     (if \<not> sn_timer_active s then s\<lparr>sn_timer_active := True, sn_timer := 0\<rparr> else s)"

text \<open>After \<open>transmit(msg)\<close>: the bookkeeping every block of \<open>push\<close> ends with.\<close>

definition sender_track :: "TCPSenderMessage \<Rightarrow> TCPSender \<Rightarrow> TCPSender" where
  "sender_track msg s =
     start_timer (s\<lparr>sn_outstanding := sn_outstanding s @ [msg],
                    sn_next_seqno := sn_next_seqno s + sequence_length msg,
                    sn_bytes_unack := sn_bytes_unack s + sequence_length msg\<rparr>)"

text \<open>\<open>peek().substr(0, n)\<close> and \<open>pop(n)\<close>.\<close>

definition take_input :: "u64 \<Rightarrow> TCPSender \<Rightarrow> byte list \<times> TCPSender" where
  "take_input n s =
     (substr (reader_peek (sn_input s)) 0 n, s\<lparr>sn_input := reader_pop (sn_input s) n\<rparr>)"

definition payload_size :: "u64 \<Rightarrow> TCPSender \<Rightarrow> u64" where
  "payload_size available_window_size s =
     min (min available_window_size MAX_PAYLOAD_SIZE) (bytes_buffered (sn_input s))"

definition push_syn :: "TCPSender \<Rightarrow> TCPSender \<times> TCPSenderMessage list" where
  "push_syn s =
     (if sn_syn_sent s then (s, [])
      else
        let s = s\<lparr>sn_syn_sent := True\<rparr>;
            available = sender_available s;
            available = (if available > 0 then available - 1 else available);
            (data, s) = (if available > 0 \<and> bytes_buffered (sn_input s) > 0
                         then take_input (payload_size available s) s else ([], s));
            init_msg = sender_message\<lparr>sm_SYN := True, sm_seqno := sn_isn s, sm_payload := data\<rparr>;
            fin = reader_is_finished (sn_input s) \<and> available > sequence_length init_msg;
            init_msg = init_msg\<lparr>sm_FIN := fin\<rparr>;
            s = s\<lparr>sn_fin_set := sn_fin_set s \<or> fin\<rparr>
        in (sender_track init_msg s, [init_msg]))"

text \<open>One round of the loop: the message, the state and the window that is left.\<close>

definition push_segment :: "TCPSender \<Rightarrow> u64 \<Rightarrow> TCPSender \<times> u64 \<times> TCPSenderMessage" where
  "push_segment s available =
     (let size = payload_size available s;
          (data, s) = take_input size s;
          fin = reader_is_finished (sn_input s) \<and> available > size;
          msg = sender_message\<lparr>sm_seqno := wrap (sn_next_seqno s) (sn_isn s), sm_payload := data,
                               sm_FIN := fin\<rparr>;
          s = s\<lparr>sn_fin_set := sn_fin_set s \<or> fin\<rparr>;
          len = sequence_length msg;
          s = s\<lparr>sn_outstanding := sn_outstanding s @ [msg],
                sn_next_seqno := sn_next_seqno s + len,
                sn_bytes_unack := sn_bytes_unack s + len\<rparr>
      in (if len > 0 then start_timer s else s, available - len, msg))"

lemma push_segment_input:
  "sn_input (fst (push_segment s av)) = reader_pop (sn_input s) (payload_size av s)"
  by (simp add: push_segment_def take_input_def Let_def start_timer_def)

lemma payload_size_pos: "av > 0 \<Longrightarrow> bytes_buffered (sn_input s) > 0 \<Longrightarrow> payload_size av s > 0"
  by (simp add: payload_size_def MAX_PAYLOAD_SIZE_def)

function push_loop ::
    "TCPSender \<Rightarrow> u64 \<Rightarrow> TCPSender \<times> u64 \<times> TCPSenderMessage list" where
  "push_loop s available =
     (if available > 0 \<and> sn_window_size s \<noteq> 0 \<and> bytes_buffered (sn_input s) > 0
      then let (s', available', msg) = push_segment s available
           in if sm_FIN msg then (s', available', [msg])
              else let (s'', available'', msgs) = push_loop s' available'
                   in (s'', available'', msg # msgs)
      else (s, available, []))"
  by pat_completeness auto
termination
proof (relation "measure (\<lambda>(s, available). length (bs_stream (sn_input s)))")
  fix s av x s' y av' msg
  assume "av > 0 \<and> sn_window_size s \<noteq> 0 \<and> bytes_buffered (sn_input s) > 0"
    and "x = push_segment s av" "(s', y) = x" "(av', msg) = y"
  then show "((s', av'), (s, av)) \<in> measure (\<lambda>(s, available). length (bs_stream (sn_input s)))"
    using reader_pop_shrinks [of "sn_input s" "payload_size av s"] payload_size_pos [of av s]
      push_segment_input [of s av]
    by (metis case_prod_conv fst_conv in_measure word_neq_0_conv)
qed simp

declare push_loop.simps [simp del]

definition push_fin :: "TCPSender \<Rightarrow> u64 \<Rightarrow> TCPSender \<times> TCPSenderMessage list" where
  "push_fin s available =
     (if \<not> sn_fin_set s \<and> reader_is_finished (sn_input s) \<and> available > 0
      then let msg = sender_message\<lparr>sm_seqno := wrap (sn_next_seqno s) (sn_isn s), sm_FIN := True\<rparr>
           in ((sender_track msg s)\<lparr>sn_fin_set := True\<rparr>, [msg])
      else (s, []))"

definition push_fin_ready :: "TCPSender \<Rightarrow> TCPSender \<times> TCPSenderMessage list" where
  "push_fin_ready s =
     (if sn_fin_ready s \<and> \<not> sn_fin_set s
      then let msg = sender_message\<lparr>sm_seqno := wrap (sn_next_seqno s) (sn_isn s), sm_FIN := True\<rparr>
           in ((sender_track msg s)\<lparr>sn_fin_set := True, sn_fin_ready := False\<rparr>, [msg])
      else (s, []))"

definition push_probe :: "TCPSender \<Rightarrow> TCPSender \<times> TCPSenderMessage list" where
  "push_probe s =
     (let size = min 1 (bytes_buffered (sn_input s))
      in if sn_window_size s = 0 \<and> \<not> sn_probe_sent s \<and> size > 0
         then let (data, s) = take_input size s;
                  msg = sender_message\<lparr>sm_seqno := wrap (sn_next_seqno s) (sn_isn s), sm_payload := data\<rparr>;
                  s = sender_track msg s
              in (s\<lparr>sn_probe_sent := True,
                    sn_probe_seqno := Some (unwrap (sm_seqno msg) (sn_isn s) (sn_next_seqno s))\<rparr>, [msg])
         else (s, []))"

definition push_data :: "TCPSender \<Rightarrow> TCPSender \<times> TCPSenderMessage list" where
  "push_data s =
     (let (s1, m1) = push_syn s;
          (s2, available, m2) = push_loop s1 (sender_available s1);
          (s3, m3) = push_fin s2 available;
          (s4, m4) = push_fin_ready s3;
          (s5, m5) = push_probe s4
      in (s5, m1 @ m2 @ m3 @ m4 @ m5))"

definition tcp_sender_push :: "TCPSender \<Rightarrow> TCPSender \<times> TCPSenderMessage list" where
  "tcp_sender_push s =
     (if has_error (sn_input s)
      then (s, [sender_message\<lparr>sm_seqno := wrap (sn_next_seqno s) (sn_isn s), sm_RST := True\<rparr>])
      else push_data s)"

definition make_empty_message :: "TCPSender \<Rightarrow> TCPSenderMessage" where
  "make_empty_message s =
     sender_message\<lparr>sm_seqno := wrap (sn_next_seqno s) (sn_isn s), sm_RST := has_error (sn_input s)\<rparr>"

section \<open>receive\<close>

text \<open>One round of the loop over the outstanding segments, and the loop.\<close>

definition fully_acked :: "TCPSender \<Rightarrow> u64 \<Rightarrow> TCPSenderMessage \<Rightarrow> bool" where
  "fully_acked s ackno m \<longleftrightarrow>
     ackno \<ge> unwrap (sm_seqno m) (sn_isn s) (sn_next_seqno s) + sequence_length m"

definition ack_segment :: "TCPSender \<Rightarrow> TCPSenderMessage \<Rightarrow> TCPSender" where
  "ack_segment s oldest =
     (let s = s\<lparr>sn_bytes_unack := sn_bytes_unack s - sequence_length oldest\<rparr>;
          s = (if sn_probe_seqno s = Some (unwrap (sm_seqno oldest) (sn_isn s) (sn_next_seqno s))
               then s\<lparr>sn_probe_sent := False, sn_probe_seqno := None,
                      sn_fin_ready := sn_fin_ready s \<or> (\<not> sn_fin_set s
                        \<and> reader_is_finished (sn_input s) \<and> sn_bytes_unack s = 0)\<rparr>
               else s)
      in s\<lparr>sn_outstanding := tl (sn_outstanding s)\<rparr>)"

lemma ack_segment_simps [simp]:
  "sn_outstanding (ack_segment s m) = tl (sn_outstanding s)"
  "sn_bytes_unack (ack_segment s m) = sn_bytes_unack s - sequence_length m"
  "sn_isn (ack_segment s m) = sn_isn s" "sn_next_seqno (ack_segment s m) = sn_next_seqno s"
  "sn_input (ack_segment s m) = sn_input s" "sn_fin_set (ack_segment s m) = sn_fin_set s"
  "sn_syn_sent (ack_segment s m) = sn_syn_sent s" "sn_timer_active (ack_segment s m) = sn_timer_active s"
  "sn_window_size (ack_segment s m) = sn_window_size s" "sn_RTO (ack_segment s m) = sn_RTO s"
  "sn_initial_RTO_ms (ack_segment s m) = sn_initial_RTO_ms s" "sn_timer (ack_segment s m) = sn_timer s"
  "sn_consecutive (ack_segment s m) = sn_consecutive s"
  by (simp_all add: ack_segment_def Let_def)

function ack_loop :: "TCPSender \<Rightarrow> u64 \<Rightarrow> TCPSender" where
  "ack_loop s ackno =
     (case sn_outstanding s of
        [] \<Rightarrow> s
      | oldest # rest \<Rightarrow>
          if fully_acked s ackno oldest then ack_loop (ack_segment s oldest) ackno else s)"
  by pat_completeness auto
termination by (relation "measure (\<lambda>(s, ackno). length (sn_outstanding s))") simp_all

declare ack_loop.simps [simp del]

text \<open>The window of the message is taken over before its acknowledgment is looked at.\<close>

definition update_window :: "TCPSender \<Rightarrow> u16 \<Rightarrow> TCPSender" where
  "update_window s window =
     s\<lparr>sn_window_size := window, sn_probe_sent := (if window > 0 then False else sn_probe_sent s)\<rparr>"

definition tcp_sender_receive :: "TCPSender \<Rightarrow> TCPReceiverMessage \<Rightarrow> TCPSender" where
  "tcp_sender_receive s msg =
     (if rm_RST msg
      then s\<lparr>sn_input := set_error (sn_input s), sn_outstanding := [], sn_timer_active := False\<rparr>
      else
        let s = update_window s (rm_window_size msg)
        in case rm_ackno msg of
             None \<Rightarrow> s
           | Some w \<Rightarrow>
               (let ackno = unwrap w (sn_isn s) (sn_next_seqno s)
                in if ackno \<le> sn_next_seqno s - sn_bytes_unack s then s
                   else if ackno > sn_next_seqno s then s
                   else
                     let s' = ack_loop s ackno
                     in if length (sn_outstanding s) > length (sn_outstanding s')
                        then (if sn_outstanding s' \<noteq> []
                              then s'\<lparr>sn_timer := 0, sn_timer_active := True\<rparr>
                              else s'\<lparr>sn_timer_active := False\<rparr>)
                             \<lparr>sn_RTO := sn_initial_RTO_ms s', sn_consecutive := 0\<rparr>
                        else s'))"

section \<open>tick\<close>

definition tcp_sender_tick :: "TCPSender \<Rightarrow> u64 \<Rightarrow> TCPSender \<times> TCPSenderMessage list" where
  "tcp_sender_tick s ms_since_last_tick =
     (if sn_outstanding s = [] \<or> \<not> sn_timer_active s then (s, [])
      else
        let s = s\<lparr>sn_timer := sn_timer s + ms_since_last_tick\<rparr>
        in if sn_timer s \<ge> sn_RTO s
           then ((if sn_window_size s > 0
                  then s\<lparr>sn_consecutive := sn_consecutive s + 1, sn_RTO := sn_RTO s * 2\<rparr> else s)
                   \<lparr>sn_timer := 0\<rparr>, [hd (sn_outstanding s)])
           else (s, []))"

section \<open>The invariant\<close>

definition total_len :: "TCPSenderMessage list \<Rightarrow> nat" where
  "total_len ms = sum_list (map seq_len ms)"

lemma total_len_simps [simp]:
  "total_len [] = 0" "total_len (m # ms) = seq_len m + total_len ms"
  "total_len (ms @ ms') = total_len ms + total_len ms'"
  by (simp_all add: total_len_def)

text \<open>
  The message with absolute sequence number \<open>a\<close> carries its part of the stream \<open>S\<close>: the
  SYN has number 0, the byte of index \<open>k\<close> number \<open>k + 1\<close>.
\<close>

definition placed_at :: "byte list \<Rightarrow> Wrap32 \<Rightarrow> nat \<Rightarrow> TCPSenderMessage \<Rightarrow> bool" where
  "placed_at S isn a m \<longleftrightarrow>
     m = peer_segment isn (of_nat (a - 1)) (sm_payload m) (sm_SYN m) (sm_FIN m)
     \<and> (sm_SYN m \<longleftrightarrow> a = 0) \<and> consistent S (of_nat (a - 1)) (sm_payload m) (sm_FIN m)
     \<and> 0 < seq_len m \<and> length (sm_payload m) \<le> 1000 \<and> a + seq_len m \<le> length S + 2"

text \<open>Consecutive messages, the first one at \<open>a\<close>.\<close>

fun chain :: "byte list \<Rightarrow> Wrap32 \<Rightarrow> nat \<Rightarrow> TCPSenderMessage list \<Rightarrow> bool" where
  "chain S isn a [] = True"
| "chain S isn a (m # ms) = (placed_at S isn a m \<and> chain S isn (a + seq_len m) ms)"

lemma chain_append: "chain S isn a (ms @ ms') \<longleftrightarrow> chain S isn a ms \<and> chain S isn (a + total_len ms) ms'"
  by (induction ms arbitrary: a) (auto simp: add.assoc)

lemma chain_placed: "chain S isn a ms \<Longrightarrow> m \<in> set ms \<Longrightarrow> \<exists>b. placed_at S isn b m"
  by (induction ms arbitrary: a) auto

lemma chain_total_pos: "chain S isn a ms \<Longrightarrow> ms \<noteq> [] \<Longrightarrow> 0 < total_len ms"
  by (cases ms) (auto simp: placed_at_def)

text \<open>The outbound stream is the not yet sent part of what has been written of \<open>S\<close>.\<close>

definition input_ok :: "byte list \<Rightarrow> ByteStream \<Rightarrow> bool" where
  "input_ok S b \<longleftrightarrow> bs_inv b \<and> length S + 3 < 2 ^ 64
     \<and> unat (bs_pushed b) = unat (bs_popped b) + length (bs_stream b)
     \<and> unat (bs_pushed b) \<le> length S
     \<and> bs_stream b = drop (unat (bs_popped b)) (take (unat (bs_pushed b)) S)
     \<and> (bs_closed b \<longrightarrow> unat (bs_pushed b) = length S)"

definition core_data :: "byte list \<Rightarrow> Wrap32 \<Rightarrow> TCPSender \<Rightarrow> bool" where
  "core_data S isn s \<longleftrightarrow> input_ok S (sn_input s) \<and> sn_isn s = isn
     \<and> (sn_fin_set s \<longrightarrow> reader_is_finished (sn_input s) \<and> sn_syn_sent s)
     \<and> (\<not> sn_syn_sent s \<longrightarrow> unat (bs_popped (sn_input s)) = 0)
     \<and> unat (sn_next_seqno s) = of_bool (sn_syn_sent s) + unat (bs_popped (sn_input s))
          + of_bool (sn_fin_set s)
     \<and> unat (sn_bytes_unack s) = total_len (sn_outstanding s)
     \<and> unat (sn_bytes_unack s) \<le> unat (sn_next_seqno s)
     \<and> chain S isn (unat (sn_next_seqno s) - unat (sn_bytes_unack s)) (sn_outstanding s)
     \<and> (sn_timer_active s \<longleftrightarrow> sn_outstanding s \<noteq> [])
     \<and> (sn_fin_ready s \<longrightarrow> sn_syn_sent s)
     \<and> (sn_fin_ready s \<and> \<not> sn_fin_set s \<longrightarrow> reader_is_finished (sn_input s) \<and> sn_bytes_unack s = 0)"

definition core :: "byte list \<Rightarrow> Wrap32 \<Rightarrow> TCPSender \<Rightarrow> bool" where
  "core S isn s \<longleftrightarrow> core_data S isn s
     \<and> sn_RTO s = sn_initial_RTO_ms s * 2 ^ unat (sn_consecutive s)"

text \<open>What a block of \<open>push\<close> may do: append consecutive segments with the next bytes.\<close>

definition extends ::
    "byte list \<Rightarrow> Wrap32 \<Rightarrow> TCPSender \<Rightarrow> TCPSender \<Rightarrow> TCPSenderMessage list \<Rightarrow> bool" where
  "extends S isn s s' ms \<longleftrightarrow> core S isn s'
     \<and> sn_outstanding s' = sn_outstanding s @ ms
     \<and> chain S isn (unat (sn_next_seqno s)) ms
     \<and> unat (sn_next_seqno s') = unat (sn_next_seqno s) + total_len ms
     \<and> unat (sn_bytes_unack s') = unat (sn_bytes_unack s) + total_len ms
     \<and> concat (map sm_payload ms) @ bs_stream (sn_input s') = bs_stream (sn_input s)
     \<and> bs_error (sn_input s') = bs_error (sn_input s)
     \<and> sn_window_size s' = sn_window_size s"

lemma extends_refl: "core S isn s \<Longrightarrow> extends S isn s s []"
  by (simp add: extends_def)

lemma extends_trans:
  "extends S isn s s1 ms \<Longrightarrow> extends S isn s1 s2 ms' \<Longrightarrow> extends S isn s s2 (ms @ ms')"
  by (simp add: extends_def chain_append)

text \<open>One segment sent: \<open>k\<close> bytes of the stream and the two flags.\<close>

definition emit_msg :: "TCPSender \<Rightarrow> u64 \<Rightarrow> bool \<Rightarrow> bool \<Rightarrow> TCPSenderMessage" where
  "emit_msg s k syn fin =
     peer_segment (sn_isn s) (sn_next_seqno s - 1) (take (unat k) (bs_stream (sn_input s))) syn fin"

definition emit :: "TCPSender \<Rightarrow> u64 \<Rightarrow> bool \<Rightarrow> bool \<Rightarrow> TCPSender" where
  "emit s k syn fin =
     sender_track (emit_msg s k syn fin)
       (s\<lparr>sn_input := reader_pop (sn_input s) k, sn_syn_sent := sn_syn_sent s \<or> syn,
          sn_fin_set := sn_fin_set s \<or> fin\<rparr>)"

lemma reader_pop_all: "bs_inv b \<Longrightarrow> bs_stream (reader_pop b k) = drop (unat k) (bs_stream b)"
  by (simp add: reader_pop_effect)

lemma reader_pop_flags [simp]:
  "bs_closed (reader_pop b k) = bs_closed b" "bs_error (reader_pop b k) = bs_error b"
  "bs_pushed (reader_pop b k) = bs_pushed b" "bs_capacity (reader_pop b k) = bs_capacity b"
  by (simp_all add: reader_pop_def Let_def)

lemma input_ok_pop:
  assumes ok: "input_ok S b" and k: "unat k \<le> length (bs_stream b)"
  shows "input_ok S (reader_pop b k)"
    and "unat (bs_popped (reader_pop b k)) = unat (bs_popped b) + unat k"
proof -
  have inv: "bs_inv b" using ok by (simp only: input_ok_def)
  have small: "unat (bs_popped b) + unat k < 2 ^ 64"
    using ok k unfolding input_ok_def by linarith
  have eq: "bs_popped (reader_pop b k) = bs_popped b + k"
    using k by (simp add: reader_pop_effect [OF inv] min_def)
  show pop: "unat (bs_popped (reader_pop b k)) = unat (bs_popped b) + unat k"
    using small by (simp only: eq unat_add64)
  have "drop (unat k) (bs_stream b)
      = drop (unat (bs_popped (reader_pop b k))) (take (unat (bs_pushed b)) S)"
  proof -
    have "bs_stream b = drop (unat (bs_popped b)) (take (unat (bs_pushed b)) S)"
      using ok unfolding input_ok_def by blast
    then show ?thesis by (simp only: drop_drop pop add.commute)
  qed
  moreover have "unat (bs_pushed b) =
      unat (bs_popped (reader_pop b k)) + (length (bs_stream b) - unat k)"
    using ok k unfolding input_ok_def pop by linarith
  ultimately show "input_ok S (reader_pop b k)"
    using ok bs_inv_pop [OF inv, of k]
    unfolding input_ok_def reader_pop_all [OF inv] reader_pop_flags length_drop by blast
qed

lemma coreD:
  assumes "core S isn s"
  shows "input_ok S (sn_input s)" and "sn_isn s = isn"
    and "sn_fin_set s \<Longrightarrow> reader_is_finished (sn_input s)"
    and "sn_fin_set s \<Longrightarrow> sn_syn_sent s"
    and "\<not> sn_syn_sent s \<Longrightarrow> unat (bs_popped (sn_input s)) = 0"
    and "unat (sn_next_seqno s) = of_bool (sn_syn_sent s) + unat (bs_popped (sn_input s))
          + of_bool (sn_fin_set s)"
    and "unat (sn_bytes_unack s) = total_len (sn_outstanding s)"
    and "unat (sn_bytes_unack s) \<le> unat (sn_next_seqno s)"
    and "chain S isn (unat (sn_next_seqno s) - unat (sn_bytes_unack s)) (sn_outstanding s)"
    and "sn_timer_active s \<longleftrightarrow> sn_outstanding s \<noteq> []"
    and "sn_fin_ready s \<Longrightarrow> sn_syn_sent s"
    and "sn_fin_ready s \<Longrightarrow> \<not> sn_fin_set s \<Longrightarrow>
      reader_is_finished (sn_input s) \<and> sn_bytes_unack s = 0"
    and "sn_RTO s = sn_initial_RTO_ms s * 2 ^ unat (sn_consecutive s)"
  using assms unfolding core_def core_data_def by blast+

lemma sender_flight_bound:
  assumes "core S isn s"
  shows "unat (sn_bytes_unack s) \<le> unat (sn_next_seqno s)" and "unat (sn_next_seqno s) \<le> length S + 2"
  using assms by (auto simp: core_def core_data_def input_ok_def of_bool_def)

lemma input_okD:
  assumes "input_ok S b"
  shows "bs_inv b" and "length S + 3 < 2 ^ 64"
    and "unat (bs_pushed b) = unat (bs_popped b) + length (bs_stream b)"
    and "unat (bs_pushed b) \<le> length S"
    and "bs_stream b = drop (unat (bs_popped b)) (take (unat (bs_pushed b)) S)"
    and "bs_closed b \<Longrightarrow> unat (bs_pushed b) = length S"
  using assms unfolding input_ok_def by blast+

lemma sender_track_simps [simp]:
  "sn_input (sender_track m s) = sn_input s" "sn_isn (sender_track m s) = sn_isn s"
  "sn_window_size (sender_track m s) = sn_window_size s"
  "sn_outstanding (sender_track m s) = sn_outstanding s @ [m]"
  "sn_next_seqno (sender_track m s) = sn_next_seqno s + sequence_length m"
  "sn_bytes_unack (sender_track m s) = sn_bytes_unack s + sequence_length m"
  "sn_syn_sent (sender_track m s) = sn_syn_sent s" "sn_fin_set (sender_track m s) = sn_fin_set s"
  "sn_fin_ready (sender_track m s) = sn_fin_ready s" "sn_timer_active (sender_track m s)"
  "sn_RTO (sender_track m s) = sn_RTO s" "sn_consecutive (sender_track m s) = sn_consecutive s"
  "sn_initial_RTO_ms (sender_track m s) = sn_initial_RTO_ms s"
  by (simp_all add: sender_track_def start_timer_def)

text \<open>The message that \<open>emit\<close> sends stands at the next sequence number.\<close>

lemma emit_msg_placed:
  assumes core: "core S isn s" and k: "unat k \<le> length (bs_stream (sn_input s))" "unat k \<le> 1000"
    and syn: "syn \<longleftrightarrow> \<not> sn_syn_sent s" and nofin: "\<not> sn_fin_set s"
    and fin: "fin \<Longrightarrow> bs_closed (sn_input s) \<and> unat k = length (bs_stream (sn_input s))"
    and pos: "syn \<or> fin \<or> 0 < unat k"
  shows "placed_at S isn (unat (sn_next_seqno s)) (emit_msg s k syn fin)"
    and "seq_len (emit_msg s k syn fin) = of_bool syn + unat k + of_bool fin"
    and "unat (sn_next_seqno s) + seq_len (emit_msg s k syn fin) < 2 ^ 64"
proof -
  let ?n = "sn_next_seqno s" and ?b = "sn_input s" and ?p = "unat (bs_popped (sn_input s))"
  let ?m = "emit_msg s k syn fin" and ?d = "take (unat k) (bs_stream (sn_input s))"
  note io = input_okD [OF coreD(1) [OF core]]
  have n: "unat ?n = of_bool (sn_syn_sent s) + ?p" using coreD(6) [OF core] nofin by simp
  have p0: "syn \<Longrightarrow> ?p = 0" using coreD(5) [OF core] syn by simp
  have idx: "unat ?n - 1 = ?p" using n p0 syn by (cases syn) simp_all
  have ld: "length ?d = unat k" using k by simp
  have inS: "?p + unat k \<le> length S" using io(3,4) k(1) by linarith
  show len: "seq_len ?m = of_bool syn + unat k + of_bool fin"
    using ld by (simp add: emit_msg_def)
  have bound: "unat ?n + seq_len ?m \<le> length S + 2"
    unfolding len using n inS syn by (cases syn; cases fin) simp_all
  then show "unat ?n + seq_len ?m < 2 ^ 64" using io(2) by linarith
  have data: "?d = take (unat k) (drop ?p S)"
  proof -
    have "?d = take (unat k) (drop ?p (take (unat (bs_pushed ?b)) S))"
      using io(5) by (rule arg_cong)
    then show ?thesis using io(3) k(1) by (simp add: drop_take min_def)
  qed
  have u: "unat (of_nat ?p :: u64) = ?p" using inS io(2) by (intro unat_of_nat64) linarith
  have con: "consistent S (of_nat ?p) ?d fin"
  proof -
    have "fin \<Longrightarrow> ?p + unat k = length S" using fin io(3,6) by linarith
    then show ?thesis using inS data ld by (simp add: consistent_def u)
  qed
  have eq: "?m = peer_segment isn (of_nat (unat ?n - 1)) ?d syn fin"
  proof (cases syn)
    case False
    then have "1 \<le> unat ?n" using n syn by simp
    then have "unat (?n - 1) = unat ?n - 1" by (simp add: unat_sub_nat)
    then have "of_nat (unat ?n - 1) = ?n - 1"
      by (metis unat_eqI unat_of_nat64 u64_bound)
    then show ?thesis by (simp add: emit_msg_def coreD(2) [OF core])
  qed (simp add: emit_msg_def coreD(2) [OF core] peer_segment_def)
  have sm: "sm_payload ?m = ?d" "sm_SYN ?m = syn" "sm_FIN ?m = fin"
    by (simp_all add: emit_msg_def)
  have pos': "0 < seq_len ?m" unfolding len using pos by auto
  have syn': "syn \<longleftrightarrow> unat ?n = 0" using n syn p0 by (cases syn) simp_all
  show "placed_at S isn (unat ?n) ?m"
    unfolding placed_at_def sm
    by (intro conjI eq syn' pos' bound) (simp_all only: idx con ld k(2))
qed

lemma emit_extends:
  assumes core: "core S isn s" and k: "unat k \<le> length (bs_stream (sn_input s))" "unat k \<le> 1000"
    and syn: "syn \<longleftrightarrow> \<not> sn_syn_sent s" and nofin: "\<not> sn_fin_set s"
    and fin: "fin \<Longrightarrow> bs_closed (sn_input s) \<and> unat k = length (bs_stream (sn_input s))"
    and pos: "syn \<or> fin \<or> 0 < unat k"
  shows "extends S isn s (emit s k syn fin) [emit_msg s k syn fin]"
proof -
  let ?s = "emit s k syn fin" and ?m = "emit_msg s k syn fin"
  note m = emit_msg_placed [OF assms]
  have io: "input_ok S (sn_input s)" by (rule coreD(1) [OF core])
  note pop = input_ok_pop [OF io k(1)]
  have sl: "unat (sequence_length ?m) = seq_len ?m"
    using m(3) by (intro unat_sequence_length) linarith
  have next': "unat (sn_next_seqno ?s) = unat (sn_next_seqno s) + seq_len ?m"
    using m(3) by (simp add: emit_def unat_add64 sl)
  have unack: "unat (sn_bytes_unack ?s) = unat (sn_bytes_unack s) + seq_len ?m"
    using m(3) coreD(8) [OF core] by (simp add: emit_def unat_add64 sl)
  have str: "bs_stream (sn_input ?s) = drop (unat k) (bs_stream (sn_input s))"
    using reader_pop_all [OF input_okD(1) [OF io]] by (simp add: emit_def)
  have ready: "sn_fin_ready s \<Longrightarrow> fin"
    using coreD(11,12) [OF core] nofin syn pos k(1) by (auto simp: reader_is_finished_def)
  have core': "core S isn ?s"
    unfolding core_def core_data_def
  proof (intro conjI)
    show "input_ok S (sn_input ?s)" using pop(1) by (simp add: emit_def)
    show "unat (sn_next_seqno ?s) = of_bool (sn_syn_sent ?s) + unat (bs_popped (sn_input ?s))
          + of_bool (sn_fin_set ?s)"
    proof -
      have "of_bool (sn_syn_sent s \<or> syn) = of_bool (sn_syn_sent s) + (of_bool syn :: nat)"
        using syn by auto
      then show ?thesis
        using next' m(2) coreD(6) [OF core] nofin pop(2) by (simp add: emit_def)
    qed
    show "unat (sn_bytes_unack ?s) = total_len (sn_outstanding ?s)"
      unfolding unack using coreD(7) [OF core] by (simp add: emit_def)
    show "unat (sn_bytes_unack ?s) \<le> unat (sn_next_seqno ?s)"
      unfolding unack next' using coreD(8) [OF core] by simp
    show "chain S isn (unat (sn_next_seqno ?s) - unat (sn_bytes_unack ?s)) (sn_outstanding ?s)"
      unfolding unack next' using coreD(7,8,9) [OF core] m(1)
      by (simp add: emit_def chain_append flip: coreD(7) [OF core])
    show "sn_fin_set ?s \<longrightarrow> reader_is_finished (sn_input ?s) \<and> sn_syn_sent ?s"
      using nofin fin str syn by (auto simp: emit_def reader_is_finished_def)
    show "sn_fin_ready ?s \<and> \<not> sn_fin_set ?s \<longrightarrow> reader_is_finished (sn_input ?s) \<and> sn_bytes_unack ?s = 0"
      using ready by (auto simp: emit_def)
  qed (use coreD(2,5,11,13) [OF core] syn in \<open>auto simp: emit_def\<close>)
  show ?thesis
    unfolding extends_def using core' next' unack m(1) str
    by (simp add: emit_def) (simp add: emit_msg_def)
qed

section \<open>The blocks of push\<close>

lemma reader_pop_0 [simp]: "reader_pop b 0 = b"
  by (simp add: reader_pop_def)

lemma unat_payload_size:
  "bs_inv (sn_input s) \<Longrightarrow>
     unat (payload_size av s) = min (min (unat av) 1000) (length (bs_stream (sn_input s)))"
  by (simp only: payload_size_def unat_min unat_bytes_buffered MAX_PAYLOAD_SIZE_def unat_numeral) simp

lemma unat_sender_available:
  "unat (sender_available s) = unat (sn_window_size s) - unat (sn_bytes_unack s)"
proof -
  have w: "unat (ucast (sn_window_size s) :: u64) = unat (sn_window_size s)"
    by (rule unat_ucast_16_64)
  show ?thesis
  proof (cases "ucast (sn_window_size s) > sn_bytes_unack s")
    case True
    then have "unat (sn_bytes_unack s) \<le> unat (ucast (sn_window_size s) :: u64)"
      by (simp only: word_less_nat_alt)
    then show ?thesis using True by (simp add: sender_available_def unat_sub_nat w)
  next
    case False
    then show ?thesis by (simp add: sender_available_def word_less_nat_alt w)
  qed
qed

text \<open>How much \<open>push\<close> may have in flight afterwards when the window allows it.\<close>

definition flight_ok :: "TCPSender \<Rightarrow> TCPSender \<Rightarrow> bool" where
  "flight_ok s s' \<longleftrightarrow>
     unat (sn_bytes_unack s') \<le> max (unat (sn_bytes_unack s)) (max 1 (unat (sn_window_size s)))"

lemma emit_syn_sent [simp]: "sn_syn_sent (emit s k syn fin) = (sn_syn_sent s \<or> syn)"
  and emit_fin_set [simp]: "sn_fin_set (emit s k syn fin) = (sn_fin_set s \<or> fin)"
  by (simp_all add: emit_def)

lemma push_syn_cases:
  assumes core: "core S isn s" and first: "\<not> sn_syn_sent s"
  obtains k fin where "push_syn s = (emit s k True fin, [emit_msg s k True fin])"
    and "unat k \<le> length (bs_stream (sn_input s))" and "unat k \<le> 1000"
    and "fin \<Longrightarrow> bs_closed (sn_input s) \<and> unat k = length (bs_stream (sn_input s))"
    and "1 + unat k + of_bool fin \<le> max 1 (unat (sn_window_size s))"
proof -
  have io: "bs_inv (sn_input s)" by (rule input_okD(1) [OF coreD(1) [OF core]])
  have nofin: "\<not> sn_fin_set s" using coreD(4) [OF core] first by blast
  have u0: "unat (sn_bytes_unack s) = 0"
    using coreD(5,6,8) [OF core] first nofin by simp
  define av where "av = (if sender_available s > 0 then sender_available s - 1 else sender_available s)"
  have av: "unat av = unat (sn_window_size s) - 1"
  proof (cases "sender_available s > 0")
    case True
    then have "1 \<le> unat (sender_available s)" by (simp add: word_less_nat_alt)
    then show ?thesis
      using True u0 by (simp add: av_def unat_sub_nat unat_sender_available)
  next
    case False
    then have "unat (sender_available s) = 0" by (simp add: word_less_nat_alt)
    then show ?thesis using False u0 unat_sender_available [of s] by (simp add: av_def)
  qed
  define k where "k = (if av > 0 \<and> bytes_buffered (sn_input s) > 0 then payload_size av s else 0)"
  have k_le: "unat k \<le> unat av" "unat k \<le> 1000" "unat k \<le> length (bs_stream (sn_input s))"
    using unat_payload_size [OF io, of av] by (simp_all add: k_def min.coboundedI1)
  let ?d = "take (unat k) (bs_stream (sn_input s))"
  have ld: "length ?d = unat k" using k_le by simp
  let ?init = "sender_message\<lparr>sm_SYN := True, sm_seqno := sn_isn s, sm_payload := ?d\<rparr>"
  define fin where "fin = (reader_is_finished (reader_pop (sn_input s) k) \<and> av > sequence_length ?init)"
  have "seq_len ?init = 1 + unat k" using ld by (simp add: seq_len_def)
  then have len: "unat (sequence_length ?init) = 1 + unat k"
    using k_le by (subst unat_sequence_length) simp_all
  have fin_room: "fin \<Longrightarrow> 1 + unat k < unat av"
    unfolding fin_def word_less_nat_alt len by blast
  have finished: "fin \<Longrightarrow> bs_closed (sn_input s) \<and> unat k = length (bs_stream (sn_input s))"
    using k_le(3) by (auto simp: fin_def reader_is_finished_def reader_pop_all [OF io])
  have msg: "?init\<lparr>sm_FIN := fin\<rparr> = emit_msg s k True fin"
    by (simp add: emit_msg_def peer_segment_def sender_message_def)
  have takes: "(if av > 0 \<and> bytes_buffered (sn_input s) > 0
        then take_input (payload_size av s) s' else ([], s'))
      = (?d, s'\<lparr>sn_input := reader_pop (sn_input s') k\<rparr>)" if "sn_input s' = sn_input s" for s'
    using that by (simp add: k_def take_input_def reader_peek_def substr_def)
  have "push_syn s = (emit s k True fin, [emit_msg s k True fin])"
  proof -
    let ?s = "s\<lparr>sn_syn_sent := True\<rparr>"
    have av': "(if sender_available ?s > 0 then sender_available ?s - 1 else sender_available ?s) = av"
      by (simp add: av_def sender_available_def)
    have ps: "payload_size av ?s = payload_size av s" by (simp add: payload_size_def)
    have "(if av > 0 \<and> bytes_buffered (sn_input ?s) > 0 then take_input (payload_size av ?s) ?s else ([], ?s))
        = (?d, ?s\<lparr>sn_input := reader_pop (sn_input s) k\<rparr>)"
      unfolding ps using takes [of ?s] by simp
    then show ?thesis
      using first by (simp only: push_syn_def Let_def av' prod.case if_False)
        (simp add: emit_def msg flip: fin_def, cases s, simp)
  qed
  moreover have "1 + unat k + of_bool fin \<le> max 1 (unat (sn_window_size s))"
    using k_le(1) av fin_room by (cases fin) (simp_all add: le_max_iff_disj, linarith+)
  ultimately show thesis using that k_le finished by blast
qed

lemma flight_ok_refl [simp]: "flight_ok s s"
  by (simp add: flight_ok_def)

lemma push_syn_extends:
  assumes core: "core S isn s"
  shows "\<exists>s' ms. push_syn s = (s', ms) \<and> extends S isn s s' ms \<and> sn_syn_sent s' \<and> flight_ok s s'
    \<and> sn_probe_sent s' = sn_probe_sent s"
proof (cases "sn_syn_sent s")
  case True
  then show ?thesis using extends_refl [OF core] by (simp add: push_syn_def)
next
  case False
  obtain k fin where p: "push_syn s = (emit s k True fin, [emit_msg s k True fin])"
    and k: "unat k \<le> length (bs_stream (sn_input s))" "unat k \<le> 1000"
    and fin: "fin \<Longrightarrow> bs_closed (sn_input s) \<and> unat k = length (bs_stream (sn_input s))"
    and room: "1 + unat k + of_bool fin \<le> max 1 (unat (sn_window_size s))"
    using push_syn_cases [OF core False] by blast
  have nofin: "\<not> sn_fin_set s" using coreD(4) [OF core] False by blast
  have ext: "extends S isn s (emit s k True fin) [emit_msg s k True fin]"
    using False nofin fin by (intro emit_extends core k) simp_all
  have "unat (sn_bytes_unack s) = 0"
    using coreD(5,6,8) [OF core] False nofin by simp
  moreover have "seq_len (emit_msg s k True fin) = 1 + unat k + of_bool fin"
    using k(1) by (simp add: emit_msg_def)
  ultimately have "flight_ok s (emit s k True fin)"
    using ext room by (simp add: flight_ok_def extends_def)
  then show ?thesis using p ext by (simp add: emit_def sender_track_def start_timer_def)
qed

text \<open>A round of the loop.\<close>

lemma emit_no_syn:
  "emit s k False fin = sender_track (emit_msg s k False fin)
     (s\<lparr>sn_input := reader_pop (sn_input s) k, sn_fin_set := sn_fin_set s \<or> fin\<rparr>)"
  by (cases s) (simp add: emit_def)

lemma push_segment_eq:
  assumes "k = payload_size av s" and "fin = (reader_is_finished (reader_pop (sn_input s) k) \<and> av > k)"
    and "0 < sequence_length (emit_msg s k False fin)"
  shows "push_segment s av =
    (emit s k False fin, av - sequence_length (emit_msg s k False fin), emit_msg s k False fin)"
proof -
  have msg: "sender_message\<lparr>sm_seqno := wrap (sn_next_seqno s) (sn_isn s),
      sm_payload := take (unat k) (bs_stream (sn_input s)), sm_FIN := fin\<rparr> = emit_msg s k False fin"
    by (simp add: emit_msg_def peer_segment_def sender_message_def)
  show ?thesis
    using assms(3) by (simp add: push_segment_def take_input_def Let_def reader_peek_def substr_def
        msg emit_no_syn sender_track_def flip: assms(1,2))
qed

lemma push_segment_cases:
  assumes core: "core S isn s" and syn: "sn_syn_sent s"
    and av: "av = sender_available s" and pos: "av > 0" "bytes_buffered (sn_input s) > 0"
  obtains k fin where "push_segment s av = (emit s k False fin, sender_available (emit s k False fin),
        emit_msg s k False fin)"
    and "extends S isn s (emit s k False fin) [emit_msg s k False fin]"
    and "unat (sn_bytes_unack (emit s k False fin)) \<le> unat (sn_window_size s)"
proof -
  let ?b = "sn_input s"
  have io: "bs_inv ?b" by (rule input_okD(1) [OF coreD(1) [OF core]])
  define k where "k = payload_size av s"
  have ku: "unat k = min (min (unat av) 1000) (length (bs_stream ?b))"
    unfolding k_def by (rule unat_payload_size [OF io])
  have apos: "0 < unat av" using pos(1) by (simp add: word_less_nat_alt)
  have bpos: "0 < length (bs_stream ?b)"
    using pos(2) unat_bytes_buffered [OF io] by (simp add: word_less_nat_alt)
  have k_le: "unat k \<le> unat av" "unat k \<le> 1000" "unat k \<le> length (bs_stream ?b)" "0 < unat k"
    unfolding ku using apos bpos by simp_all
  have nofin: "\<not> sn_fin_set s"
    using coreD(3) [OF core] bpos by (auto simp: reader_is_finished_def)
  define fin where "fin = (reader_is_finished (reader_pop ?b k) \<and> av > k)"
  have fin_room: "fin \<Longrightarrow> unat k < unat av" by (simp add: fin_def word_less_nat_alt)
  have finished: "fin \<Longrightarrow> bs_closed ?b \<and> unat k = length (bs_stream ?b)"
    using k_le(3) by (auto simp: fin_def reader_is_finished_def reader_pop_all [OF io])
  let ?m = "emit_msg s k False fin"
  note pre = core k_le(3,2)
  have len: "seq_len ?m = unat k + of_bool fin"
    using k_le(3) by (simp add: emit_msg_def)
  have len_av: "seq_len ?m \<le> unat av"
    unfolding len using fin_room k_le(1) by (cases fin) auto
  have ul: "unat (sequence_length ?m) = seq_len ?m"
    using len_av u64_bound [of av] by (intro unat_sequence_length) linarith
  have ext: "extends S isn s (emit s k False fin) [?m]"
    using syn nofin finished k_le(4) by (intro emit_extends pre) simp_all
  have aw: "unat av = unat (sn_window_size s) - unat (sn_bytes_unack s)"
    unfolding av by (rule unat_sender_available)
  have flight: "unat (sn_bytes_unack (emit s k False fin)) = unat (sn_bytes_unack s) + seq_len ?m"
    using ext by (simp add: extends_def)
  have "av - sequence_length ?m = sender_available (emit s k False fin)"
  proof (rule unat_eqI)
    show "unat (av - sequence_length ?m) = unat (sender_available (emit s k False fin))"
      using ext len_av by (simp add: unat_sender_available extends_def unat_sub_nat ul aw)
  qed
  moreover have "0 < sequence_length ?m"
    using k_le(4) len ul by (simp add: word_less_nat_alt)
  ultimately have "push_segment s av =
      (emit s k False fin, sender_available (emit s k False fin), ?m)"
    using push_segment_eq [OF k_def fin_def] by simp
  moreover have "unat (sn_bytes_unack (emit s k False fin)) \<le> unat (sn_window_size s)"
    unfolding flight using len_av aw apos by linarith
  ultimately show thesis using that ext by blast
qed

lemma flight_ok_trans:
  "flight_ok s s1 \<Longrightarrow> sn_window_size s1 = sn_window_size s \<Longrightarrow> flight_ok s1 s2 \<Longrightarrow> flight_ok s s2"
  by (simp add: flight_ok_def)

lemma extends_core: "extends S isn s s' ms \<Longrightarrow> core S isn s'"
  and extends_window: "extends S isn s s' ms \<Longrightarrow> sn_window_size s' = sn_window_size s"
  by (simp_all add: extends_def)

lemma emit_probe [simp]: "sn_probe_sent (emit s k syn fin) = sn_probe_sent s"
  by (simp add: emit_def sender_track_def start_timer_def)

text \<open>What every block of \<open>push\<close> achieves.\<close>

definition block_ok ::
    "byte list \<Rightarrow> Wrap32 \<Rightarrow> TCPSender \<Rightarrow> TCPSender \<Rightarrow> TCPSenderMessage list \<Rightarrow> bool" where
  "block_ok S isn s s' ms \<longleftrightarrow> extends S isn s s' ms \<and> sn_syn_sent s' \<and> flight_ok s s'
     \<and> sn_probe_sent s' = sn_probe_sent s"

lemma block_ok_refl: "core S isn s \<Longrightarrow> sn_syn_sent s \<Longrightarrow> block_ok S isn s s []"
  by (simp add: block_ok_def extends_refl)

lemma block_ok_trans:
  "block_ok S isn s s1 ms \<Longrightarrow> block_ok S isn s1 s2 ms' \<Longrightarrow> block_ok S isn s s2 (ms @ ms')"
  unfolding block_ok_def using extends_trans flight_ok_trans extends_window by metis

lemma push_loop_ok:
  "core S isn s \<Longrightarrow> sn_syn_sent s \<Longrightarrow> av = sender_available s \<Longrightarrow>
     \<exists>s' ms. push_loop s av = (s', sender_available s', ms) \<and> block_ok S isn s s' ms"
proof (induction s av rule: push_loop.induct)
  case (1 s av)
  show ?case
  proof (cases "av > 0 \<and> sn_window_size s \<noteq> 0 \<and> bytes_buffered (sn_input s) > 0")
    case False
    then have "push_loop s av = (s, av, [])"
      by (subst push_loop.simps) (simp only: if_False)
    then show ?thesis using block_ok_refl [OF 1(2,3)] 1(4) by blast
  next
    case True
    obtain k fin where seg: "push_segment s av = (emit s k False fin,
          sender_available (emit s k False fin), emit_msg s k False fin)"
      and ext: "extends S isn s (emit s k False fin) [emit_msg s k False fin]"
      and fl: "unat (sn_bytes_unack (emit s k False fin)) \<le> unat (sn_window_size s)"
      using push_segment_cases [OF 1(2-4)] True by blast
    let ?s = "emit s k False fin" and ?m = "emit_msg s k False fin"
    have ok: "block_ok S isn s ?s [?m]"
      using ext fl 1(3) by (simp add: block_ok_def flight_ok_def)
    show ?thesis
    proof (cases "sm_FIN ?m")
      case fin: True
      have "push_loop s av = (?s, sender_available ?s, [?m])"
        using True fin by (simp only: push_loop.simps [of s av] seg Let_def prod.case if_True simp_thms)
      then show ?thesis using ok by blast
    next
      case False
      obtain s' ms where rest: "push_loop ?s (sender_available ?s) = (s', sender_available s', ms)"
        and ok': "block_ok S isn ?s s' ms"
        using 1(1) [OF True seg [symmetric] refl refl False extends_core [OF ext] _ refl] 1(3)
        by auto
      have "push_loop s av = (s', sender_available s', ?m # ms)"
        using True False
        by (simp only: push_loop.simps [of s av] seg Let_def prod.case if_True if_False rest simp_thms)
      then show ?thesis using block_ok_trans [OF ok ok'] by auto
    qed
  qed
qed

lemma emit_fin_block:
  assumes core: "core S isn s" and syn: "sn_syn_sent s" and nofin: "\<not> sn_fin_set s"
    and fin: "reader_is_finished (sn_input s)"
    and room: "unat (sn_bytes_unack s) + 1 \<le> max 1 (unat (sn_window_size s))"
  shows "block_ok S isn s (emit s 0 False True) [emit_msg s 0 False True]"
proof -
  have ext: "extends S isn s (emit s 0 False True) [emit_msg s 0 False True]"
    using syn nofin fin by (intro emit_extends core) (simp_all add: reader_is_finished_def)
  moreover have "seq_len (emit_msg s 0 False True) = 1" by (simp add: emit_msg_def)
  ultimately have "unat (sn_bytes_unack (emit s 0 False True)) = unat (sn_bytes_unack s) + 1"
    by (simp add: extends_def)
  then show ?thesis using ext syn room by (simp add: block_ok_def flight_ok_def)
qed

lemma fin_msg_eq:
  "sender_message\<lparr>sm_seqno := wrap (sn_next_seqno s) (sn_isn s), sm_FIN := True\<rparr>
     = emit_msg s 0 False True"
  by (simp add: emit_msg_def peer_segment_def sender_message_def)

lemma emit_fin_eq: "(sender_track (emit_msg s 0 False True) s)\<lparr>sn_fin_set := True\<rparr> = emit s 0 False True"
  by (cases s) (simp add: emit_no_syn sender_track_def start_timer_def)

lemma push_fin_ok:
  assumes core: "core S isn s" and syn: "sn_syn_sent s" and av: "av = sender_available s"
  shows "\<exists>s' ms. push_fin s av = (s', ms) \<and> block_ok S isn s s' ms"
proof (cases "\<not> sn_fin_set s \<and> reader_is_finished (sn_input s) \<and> av > 0")
  case False
  then have "push_fin s av = (s, [])" by (simp only: push_fin_def if_False)
  then show ?thesis using block_ok_refl [OF core syn] by blast
next
  case True
  have "unat av = unat (sn_window_size s) - unat (sn_bytes_unack s)" "0 < unat av"
    unfolding av by (rule unat_sender_available) (use True av in \<open>simp add: word_less_nat_alt\<close>)
  then have "block_ok S isn s (emit s 0 False True) [emit_msg s 0 False True]"
    using True by (intro emit_fin_block core syn) auto
  then show ?thesis using True by (simp add: push_fin_def Let_def fin_msg_eq emit_fin_eq)
qed

text \<open>Resetting \<open>fin_ready_\<close> once the FIN is set breaks nothing.\<close>

lemma core_fin_ready: "core S isn s \<Longrightarrow> sn_fin_set s \<Longrightarrow> core S isn (s\<lparr>sn_fin_ready := False\<rparr>)"
  by (auto simp: core_def core_data_def)

lemma push_fin_ready_ok:
  assumes core: "core S isn s" and syn: "sn_syn_sent s"
  shows "\<exists>s' ms. push_fin_ready s = (s', ms) \<and> block_ok S isn s s' ms"
proof (cases "sn_fin_ready s \<and> \<not> sn_fin_set s")
  case False
  then have "push_fin_ready s = (s, [])" by (simp only: push_fin_ready_def if_False)
  then show ?thesis using block_ok_refl [OF core syn] by blast
next
  case True
  then have "reader_is_finished (sn_input s)" "sn_bytes_unack s = 0"
    using coreD(12) [OF core] by auto
  then have ok: "block_ok S isn s (emit s 0 False True) [emit_msg s 0 False True]"
    using True by (intro emit_fin_block core syn) auto
  then have "block_ok S isn s ((emit s 0 False True)\<lparr>sn_fin_ready := False\<rparr>) [emit_msg s 0 False True]"
    using core_fin_ready [of S isn "emit s 0 False True"]
    by (simp add: block_ok_def extends_def flight_ok_def)
  moreover have "push_fin_ready s =
      ((emit s 0 False True)\<lparr>sn_fin_ready := False\<rparr>, [emit_msg s 0 False True])"
    using True by (simp add: push_fin_ready_def Let_def fin_msg_eq flip: emit_fin_eq)
  ultimately show ?thesis by blast
qed

text \<open>The zero-window probe: at most one byte, and only against a closed window.\<close>

lemma core_probe [simp]:
  "core S isn (s\<lparr>sn_probe_sent := p, sn_probe_seqno := q\<rparr>) = core S isn s"
  by (simp add: core_def core_data_def)

lemma push_probe_ok:
  assumes core: "core S isn s" and syn: "sn_syn_sent s"
  shows "\<exists>s' ms. push_probe s = (s', ms) \<and> extends S isn s s' ms \<and> sn_syn_sent s'
    \<and> (ms \<noteq> [] \<longrightarrow> sn_window_size s = 0 \<and> \<not> sn_probe_sent s \<and> sn_probe_sent s' \<and> total_len ms = 1)
    \<and> (ms = [] \<longrightarrow> s' = s)"
proof -
  define k where "k = min 1 (bytes_buffered (sn_input s))"
  show ?thesis
  proof (cases "sn_window_size s = 0 \<and> \<not> sn_probe_sent s \<and> k > 0")
    case False
    then have "push_probe s = (s, [])" by (simp only: push_probe_def Let_def if_False flip: k_def)
    then show ?thesis using extends_refl [OF core] syn by simp
  next
    case True
    have io: "bs_inv (sn_input s)" by (rule input_okD(1) [OF coreD(1) [OF core]])
    have ku: "unat k = min 1 (length (bs_stream (sn_input s)))"
      by (simp only: k_def unat_min unat_bytes_buffered [OF io]) simp
    then have k: "unat k = 1" "1 \<le> length (bs_stream (sn_input s))"
      using True by (cases "bs_stream (sn_input s)"; simp add: word_less_nat_alt)+
    have nofin: "\<not> sn_fin_set s"
      using coreD(3) [OF core] k(2) by (auto simp: reader_is_finished_def)
    let ?s = "emit s k False False" and ?m = "emit_msg s k False False"
    have ext: "extends S isn s ?s [?m]"
      using syn nofin k by (intro emit_extends core) simp_all
    have len: "total_len [?m] = 1" using k by (simp add: emit_msg_def)
    define q where "q = unwrap (wrap (sn_next_seqno s) (sn_isn s)) (sn_isn s)
        (sn_next_seqno s + sequence_length ?m)"
    have "sender_message\<lparr>sm_seqno := wrap (sn_next_seqno s) (sn_isn s),
        sm_payload := take (unat k) (bs_stream (sn_input s))\<rparr> = ?m"
      by (simp add: emit_msg_def peer_segment_def sender_message_def)
    moreover have "sender_track ?m (s\<lparr>sn_input := reader_pop (sn_input s) k\<rparr>) = ?s"
      by (cases s) (simp add: emit_no_syn)
    ultimately have "push_probe s =
        (?s\<lparr>sn_probe_sent := True, sn_probe_seqno := Some q\<rparr>, [?m])"
      using True by (simp add: push_probe_def Let_def take_input_def reader_peek_def substr_def q_def
          flip: k_def)
    moreover have "extends S isn s (?s\<lparr>sn_probe_sent := True, sn_probe_seqno := Some q\<rparr>) [?m]"
      using ext by (simp add: extends_def)
    ultimately show ?thesis using True syn len by simp
  qed
qed

section \<open>push as a whole\<close>

text \<open>How many sequence numbers may be in flight after a \<open>push\<close>.\<close>

definition flight_bound :: "TCPSender \<Rightarrow> nat" where
  "flight_bound s = max (unat (sn_bytes_unack s)) (max 1 (unat (sn_window_size s)))
     + of_bool (sn_window_size s = 0 \<and> \<not> sn_probe_sent s)"

lemma push_data_ok:
  assumes core: "core S isn s"
  shows "\<exists>s' ms. push_data s = (s', ms) \<and> extends S isn s s' ms \<and> sn_syn_sent s'
    \<and> unat (sn_bytes_unack s') \<le> flight_bound s"
proof -
  obtain s1 m1 where p1: "push_syn s = (s1, m1)" and b1: "extends S isn s s1 m1" "sn_syn_sent s1"
    "flight_ok s s1" "sn_probe_sent s1 = sn_probe_sent s"
    using push_syn_extends [OF core] by blast
  have o1: "block_ok S isn s s1 m1" using b1 by (simp add: block_ok_def)
  note c1 = extends_core [OF b1(1)]
  obtain s2 m2 where p2: "push_loop s1 (sender_available s1) = (s2, sender_available s2, m2)"
    and o2: "block_ok S isn s1 s2 m2"
    using push_loop_ok [OF c1 b1(2) refl] by blast
  have c2: "core S isn s2" "sn_syn_sent s2" using o2 by (auto simp: block_ok_def extends_core)
  obtain s3 m3 where p3: "push_fin s2 (sender_available s2) = (s3, m3)" and o3: "block_ok S isn s2 s3 m3"
    using push_fin_ok [OF c2 refl] by blast
  have c3: "core S isn s3" "sn_syn_sent s3" using o3 by (auto simp: block_ok_def extends_core)
  obtain s4 m4 where p4: "push_fin_ready s3 = (s4, m4)" and o4: "block_ok S isn s3 s4 m4"
    using push_fin_ready_ok [OF c3] by blast
  have c4: "core S isn s4" "sn_syn_sent s4" using o4 by (auto simp: block_ok_def extends_core)
  obtain s5 m5 where p5: "push_probe s4 = (s5, m5)" and e5: "extends S isn s4 s5 m5" "sn_syn_sent s5"
    and m5: "m5 \<noteq> [] \<longrightarrow> sn_window_size s4 = 0 \<and> \<not> sn_probe_sent s4 \<and> sn_probe_sent s5 \<and> total_len m5 = 1"
    using push_probe_ok [OF c4] by blast
  have o: "block_ok S isn s s4 (m1 @ m2 @ m3 @ m4)"
    using block_ok_trans [OF o1 block_ok_trans [OF o2 block_ok_trans [OF o3 o4]]] by simp
  then have ext: "extends S isn s s5 (m1 @ m2 @ m3 @ m4 @ m5)"
    using extends_trans [OF _ e5(1)] by (fastforce simp: block_ok_def)
  have "unat (sn_bytes_unack s5) = unat (sn_bytes_unack s4) + total_len m5"
    using e5(1) by (simp add: extends_def)
  moreover have "sn_window_size s4 = sn_window_size s" "sn_probe_sent s4 = sn_probe_sent s"
    "unat (sn_bytes_unack s4) \<le> max (unat (sn_bytes_unack s)) (max 1 (unat (sn_window_size s)))"
    using o by (auto simp: block_ok_def flight_ok_def dest: extends_window)
  ultimately have "unat (sn_bytes_unack s5) \<le> flight_bound s"
    using m5 by (cases "m5 = []") (simp_all add: flight_bound_def)
  then show ?thesis
    using ext e5(2) by (simp add: push_data_def p1 p2 p3 p4 p5)
qed

section \<open>Acknowledgments\<close>

text \<open>
  The segments left of \<open>ms\<close>, which start at \<open>a\<close>, when everything below \<open>ackno\<close> was
  received.
\<close>

fun unacked :: "nat \<Rightarrow> nat \<Rightarrow> TCPSenderMessage list \<Rightarrow> TCPSenderMessage list" where
  "unacked a ackno [] = []"
| "unacked a ackno (m # ms) =
     (if a + seq_len m \<le> ackno then unacked (a + seq_len m) ackno ms else m # ms)"

definition timed :: "TCPSender \<Rightarrow> TCPSender" where
  "timed s = s\<lparr>sn_timer_active := (sn_outstanding s \<noteq> [])\<rparr>"

lemma timed_simps [simp]:
  "sn_input (timed s) = sn_input s" "sn_isn (timed s) = sn_isn s" "sn_outstanding (timed s) = sn_outstanding s"
  "sn_next_seqno (timed s) = sn_next_seqno s" "sn_bytes_unack (timed s) = sn_bytes_unack s"
  "sn_syn_sent (timed s) = sn_syn_sent s" "sn_fin_set (timed s) = sn_fin_set s"
  "sn_fin_ready (timed s) = sn_fin_ready s" "sn_RTO (timed s) = sn_RTO s"
  "sn_consecutive (timed s) = sn_consecutive s" "sn_initial_RTO_ms (timed s) = sn_initial_RTO_ms s"
  "sn_timer_active (timed s) = (sn_outstanding s \<noteq> [])"
  by (simp_all add: timed_def)

lemma timed_core: "core S isn s \<Longrightarrow> timed s = s"
  using coreD(10) [of S isn s] by (cases s) (auto simp: timed_def)

definition left_edge :: "TCPSender \<Rightarrow> nat" where
  "left_edge s = unat (sn_next_seqno s) - unat (sn_bytes_unack s)"

text \<open>The oldest segment's sequence number is read back as the left edge.\<close>

lemma oldest_position:
  assumes core: "core S isn (timed s)" and out: "sn_outstanding s = m # ms"
    and near: "unat (sn_bytes_unack s) \<le> 2 ^ 31"
  shows "unwrap (sm_seqno m) (sn_isn s) (sn_next_seqno s) = of_nat (left_edge s)"
    and "unat (of_nat (left_edge s) :: u64) = left_edge s"
proof -
  let ?a = "left_edge s"
  have m: "placed_at S isn ?a m"
    using coreD(9) [OF core] out by (simp add: left_edge_def)
  have le: "?a \<le> unat (sn_next_seqno s)" "unat (sn_next_seqno s) \<le> ?a + 2 ^ 31"
    using near coreD(8) [OF core] by (simp_all add: left_edge_def)
  have "sm_seqno m = sm_seqno (peer_segment isn (of_nat (?a - 1)) (sm_payload m) (sm_SYN m) (sm_FIN m))"
    using m unfolding placed_at_def by (intro arg_cong [where f = sm_seqno]) blast
  also have "\<dots> = wrap (if sm_SYN m then 0 else of_nat (?a - 1) + 1) isn" by simp
  also have "(if sm_SYN m then 0 else of_nat (?a - 1) + 1) = (of_nat ?a :: u64)"
  proof (cases "sm_SYN m")
    case False
    then have "0 < ?a" using m by (simp add: placed_at_def)
    then obtain n where "?a = Suc n" by (cases ?a) auto
    then show ?thesis using False by (simp add: add.commute)
  qed (use m in \<open>simp add: placed_at_def\<close>)
  finally have "sm_seqno m = wrap (of_nat ?a) isn" .
  moreover show ua: "unat (of_nat ?a :: u64) = ?a"
    using le(1) u64_bound [of "sn_next_seqno s"] by (intro unat_of_nat64) linarith
  ultimately show "unwrap (sm_seqno m) (sn_isn s) (sn_next_seqno s) = of_nat ?a"
    using le coreD(2) [OF core] by (simp add: unwrap_wrap_near)
qed

lemma fully_acked_iff:
  assumes core: "core S isn (timed s)" and out: "sn_outstanding s = m # ms"
    and near: "unat (sn_bytes_unack s) \<le> 2 ^ 31"
  shows "fully_acked s ackno m \<longleftrightarrow> left_edge s + seq_len m \<le> unat ackno"
    and "left_edge s + seq_len m \<le> unat (sn_next_seqno s)"
    and "unat (sequence_length m) = seq_len m"
proof -
  let ?a = "left_edge s"
  note pos = oldest_position [OF assms]
  have "seq_len m \<le> unat (sn_bytes_unack s)"
    using coreD(7) [OF core] out by simp
  then show "?a + seq_len m \<le> unat (sn_next_seqno s)"
    using coreD(8) [OF core] by (simp add: left_edge_def)
  then have small: "?a + seq_len m < 2 ^ 64"
    using u64_bound [of "sn_next_seqno s"] by linarith
  then show sl: "unat (sequence_length m) = seq_len m"
    by (intro unat_sequence_length) linarith
  have "unat (of_nat ?a + sequence_length m :: u64) = ?a + seq_len m"
    using small by (simp only: unat_add64 pos(2) sl)
  then show "fully_acked s ackno m \<longleftrightarrow> ?a + seq_len m \<le> unat ackno"
    by (simp only: fully_acked_def pos(1) word_le_nat_alt)
qed

lemma ack_segment_core:
  assumes core: "core S isn (timed s)" and out: "sn_outstanding s = m # ms"
    and near: "unat (sn_bytes_unack s) \<le> 2 ^ 31"
  shows "core S isn (timed (ack_segment s m))"
    and "unat (sn_bytes_unack (ack_segment s m)) = unat (sn_bytes_unack s) - seq_len m"
    and "left_edge (ack_segment s m) = left_edge s + seq_len m"
proof -
  let ?s = "ack_segment s m"
  note fa = fully_acked_iff [OF core out near]
  have tot: "unat (sn_bytes_unack s) = seq_len m + total_len ms"
    using coreD(7) [OF core] out by simp
  have pos: "0 < seq_len m"
    using coreD(9) [OF core] out by (simp add: placed_at_def)
  show unack: "unat (sn_bytes_unack ?s) = unat (sn_bytes_unack s) - seq_len m"
    using tot by (simp add: unat_sub_nat fa(3))
  have le: "unat (sn_bytes_unack s) \<le> unat (sn_next_seqno s)"
    using coreD(8) [OF core] by simp
  show edge: "left_edge ?s = left_edge s + seq_len m"
    using unack tot le by (simp add: left_edge_def)
  have syn: "sn_syn_sent s"
  proof (rule ccontr)
    assume "\<not> sn_syn_sent s"
    then have "unat (sn_next_seqno s) = 0"
      using coreD(4,5,6) [OF core] by auto
    then show False using le tot pos by simp
  qed
  have old: "\<not> (sn_fin_ready s \<and> \<not> sn_fin_set s)"
    using coreD(12) [OF core] tot pos by fastforce
  show "core S isn (timed ?s)"
    unfolding core_def core_data_def
  proof (intro conjI)
    show "unat (sn_bytes_unack (timed ?s)) = total_len (sn_outstanding (timed ?s))"
      using unack tot by (simp add: out)
    show "unat (sn_bytes_unack (timed ?s)) \<le> unat (sn_next_seqno (timed ?s))"
      using unack le by simp
    show "chain S isn (unat (sn_next_seqno (timed ?s)) - unat (sn_bytes_unack (timed ?s)))
        (sn_outstanding (timed ?s))"
      using coreD(9) [OF core] edge out by (simp add: left_edge_def)
    show "sn_fin_ready (timed ?s) \<and> \<not> sn_fin_set (timed ?s) \<longrightarrow>
        reader_is_finished (sn_input (timed ?s)) \<and> sn_bytes_unack (timed ?s) = 0"
      using old by (auto simp: ack_segment_def Let_def)
  qed (use coreD(1-6,13) [OF core] syn in auto)
qed

lemma ack_loop_ok:
  assumes "core S isn (timed s)" and "unat (sn_bytes_unack s) \<le> 2 ^ 31"
  shows "core S isn (timed (ack_loop s ackno))
    \<and> sn_outstanding (ack_loop s ackno) = unacked (left_edge s) (unat ackno) (sn_outstanding s)"
  using assms
proof (induction s ackno rule: ack_loop.induct)
  case (1 s ackno)
  show ?case
  proof (cases "sn_outstanding s")
    case Nil
    then show ?thesis using 1(2) by (simp add: ack_loop.simps [of s])
  next
    case (Cons m ms)
    note seg = ack_segment_core [OF 1(2) Cons 1(3)] and fa = fully_acked_iff(1) [OF 1(2) Cons 1(3)]
    show ?thesis
    proof (cases "fully_acked s ackno m")
      case True
      have eq: "ack_loop s ackno = ack_loop (ack_segment s m) ackno"
        using Cons True by (simp add: ack_loop.simps [of s])
      show ?thesis
      proof -
        have "unat (sn_bytes_unack (ack_segment s m)) \<le> 2 ^ 31"
          using 1(3) unfolding seg(2) by linarith
        then show ?thesis
          using 1(1) [OF Cons True seg(1)] True Cons fa [of ackno] by (simp add: eq seg(3))
      qed
    next
      case False
      then show ?thesis using 1(2) Cons fa [of ackno] by (simp add: ack_loop.simps [of s])
    qed
  qed
qed

lemma ack_loop_unfold:
  "ack_loop s ackno = (if sn_outstanding s \<noteq> [] \<and> fully_acked s ackno (hd (sn_outstanding s))
     then ack_loop (ack_segment s (hd (sn_outstanding s))) ackno else s)"
  by (subst ack_loop.simps) (simp split: list.split)

text \<open>A field that \<open>ack_segment\<close> leaves alone is left alone by the loop.\<close>

lemma ack_loop_keeps:
  assumes "\<And>s m. f (ack_segment s m) = f s"
  shows "f (ack_loop s ackno) = f s"
proof (induction s ackno rule: ack_loop.induct)
  case (1 s ackno)
  show ?case
  proof (cases "sn_outstanding s")
    case (Cons m ms)
    then show ?thesis
      using 1 [OF Cons] assms by (subst ack_loop_unfold) auto
  qed (simp add: ack_loop.simps [of s])
qed

lemma ack_loop_simps [simp]:
  "sn_timer_active (ack_loop s ackno) = sn_timer_active s"
  "sn_window_size (ack_loop s ackno) = sn_window_size s" "sn_input (ack_loop s ackno) = sn_input s"
  "sn_next_seqno (ack_loop s ackno) = sn_next_seqno s" "sn_RTO (ack_loop s ackno) = sn_RTO s"
  "sn_initial_RTO_ms (ack_loop s ackno) = sn_initial_RTO_ms s"
  "sn_consecutive (ack_loop s ackno) = sn_consecutive s" "sn_timer (ack_loop s ackno) = sn_timer s"
  by (rule ack_loop_keeps; simp)+

lemma ack_loop_suffix: "\<exists>ms. sn_outstanding s = ms @ sn_outstanding (ack_loop s ackno)"
proof (induction s ackno rule: ack_loop.induct)
  case (1 s ackno)
  show ?case
  proof (cases "sn_outstanding s")
    case (Cons m ms)
    show ?thesis
    proof (cases "fully_acked s ackno m")
      case True
      then obtain ms' where "sn_outstanding (ack_segment s m)
          = ms' @ sn_outstanding (ack_loop (ack_segment s m) ackno)"
        using 1 [OF Cons] by blast
      then have "sn_outstanding s = (m # ms') @ sn_outstanding (ack_loop s ackno)"
        using Cons True by (simp add: ack_loop.simps [of s])
      then show ?thesis by blast
    qed (use Cons in \<open>simp add: ack_loop.simps [of s]\<close>)
  qed (simp add: ack_loop.simps [of s])
qed

lemma update_window_core [simp]: "core S isn (update_window s w) = core S isn s"
  by (simp add: core_def core_data_def update_window_def)

lemma update_window_simps [simp]:
  "sn_input (update_window s w) = sn_input s" "sn_isn (update_window s w) = sn_isn s"
  "sn_outstanding (update_window s w) = sn_outstanding s"
  "sn_next_seqno (update_window s w) = sn_next_seqno s"
  "sn_bytes_unack (update_window s w) = sn_bytes_unack s"
  "sn_RTO (update_window s w) = sn_RTO s" "sn_consecutive (update_window s w) = sn_consecutive s"
  "sn_timer_active (update_window s w) = sn_timer_active s"
  "sn_initial_RTO_ms (update_window s w) = sn_initial_RTO_ms s"
  "sn_timer (update_window s w) = sn_timer s" "left_edge (update_window s w) = left_edge s"
  "sn_window_size (update_window s w) = w"
  by (simp_all add: update_window_def left_edge_def)

text \<open>A message with an acknowledgment that is new and possible, and any other one.\<close>

definition new_ack :: "TCPSender \<Rightarrow> TCPReceiverMessage \<Rightarrow> u64 \<Rightarrow> bool" where
  "new_ack s msg ackno \<longleftrightarrow> \<not> rm_RST msg
     \<and> (\<exists>w. rm_ackno msg = Some w \<and> ackno = unwrap w (sn_isn s) (sn_next_seqno s))
     \<and> left_edge s < unat ackno \<and> unat ackno \<le> unat (sn_next_seqno s)"

lemma core_left_edge:
  "core S isn s \<Longrightarrow> unat (sn_next_seqno s - sn_bytes_unack s) = left_edge s"
  using coreD(8) [of S isn s] by (simp add: unat_sub_nat left_edge_def)

lemma receive_other:
  assumes core: "core S isn s" and "\<not> rm_RST msg" and "\<nexists>ackno. new_ack s msg ackno"
  shows "tcp_sender_receive s msg = update_window s (rm_window_size msg)"
proof (cases "rm_ackno msg")
  case (Some w)
  let ?A = "unwrap w (sn_isn s) (sn_next_seqno s)"
  have "?A \<le> sn_next_seqno s - sn_bytes_unack s \<or> ?A > sn_next_seqno s"
    using assms(2,3) Some core_left_edge [OF core] unfolding new_ack_def word_le_nat_alt word_less_nat_alt
    by (metis linorder_not_less)
  then show ?thesis using Some assms(2) by (auto simp: tcp_sender_receive_def Let_def)
qed (use assms(2) in \<open>simp add: tcp_sender_receive_def\<close>)

lemma receive_new:
  assumes core: "core S isn s" and new: "new_ack s msg ackno"
    and near: "unat (sn_bytes_unack s) \<le> 2 ^ 31"
  defines "s' \<equiv> tcp_sender_receive s msg"
  shows "core S isn s'"
    and "sn_outstanding s' = unacked (left_edge s) (unat ackno) (sn_outstanding s)"
    and "sn_input s' = sn_input s" and "sn_next_seqno s' = sn_next_seqno s"
    and "sn_window_size s' = rm_window_size msg"
    and "length (sn_outstanding s') < length (sn_outstanding s) \<Longrightarrow>
      sn_RTO s' = sn_initial_RTO_ms s' \<and> sn_consecutive s' = 0
      \<and> (sn_outstanding s' \<noteq> [] \<longrightarrow> sn_timer s' = 0)"
proof -
  let ?s = "update_window s (rm_window_size msg)"
  define t where "t = ack_loop ?s ackno"
  obtain w where w: "rm_ackno msg = Some w" "ackno = unwrap w (sn_isn s) (sn_next_seqno s)"
    and rst: "\<not> rm_RST msg" and lt: "left_edge s < unat ackno" "unat ackno \<le> unat (sn_next_seqno s)"
    using new by (auto simp: new_ack_def)
  have cond: "\<not> ackno \<le> sn_next_seqno s - sn_bytes_unack s" "\<not> ackno > sn_next_seqno s"
    using lt core_left_edge [OF core] by (simp_all add: word_le_nat_alt word_less_nat_alt)
  have c0: "core S isn ?s" using core by simp
  have ct: "core S isn (timed ?s)" using c0 timed_core [OF c0] by simp
  have loop: "core S isn (timed t)"
    "sn_outstanding t = unacked (left_edge s) (unat ackno) (sn_outstanding s)"
    using ack_loop_ok [OF ct] near by (simp_all add: t_def)
  have eq: "s' = (if length (sn_outstanding s) > length (sn_outstanding t)
      then (if sn_outstanding t \<noteq> [] then t\<lparr>sn_timer := 0, sn_timer_active := True\<rparr>
            else t\<lparr>sn_timer_active := False\<rparr>)
           \<lparr>sn_RTO := sn_initial_RTO_ms t, sn_consecutive := 0\<rparr>
      else t)"
    using w rst cond by (simp add: s'_def tcp_sender_receive_def t_def Let_def)
  show out: "sn_outstanding s' = unacked (left_edge s) (unat ackno) (sn_outstanding s)"
    using loop(2) by (simp add: eq)
  show "sn_input s' = sn_input s" "sn_next_seqno s' = sn_next_seqno s"
    "sn_window_size s' = rm_window_size msg"
    by (simp_all add: eq t_def)
  show "length (sn_outstanding s') < length (sn_outstanding s) \<Longrightarrow>
      sn_RTO s' = sn_initial_RTO_ms s' \<and> sn_consecutive s' = 0
      \<and> (sn_outstanding s' \<noteq> [] \<longrightarrow> sn_timer s' = 0)"
    by (auto simp: eq split: if_splits)
  show "core S isn s'"
  proof (cases "length (sn_outstanding s) > length (sn_outstanding t)")
    case True
    then show ?thesis using loop(1) by (auto simp: eq core_def core_data_def)
  next
    case False
    obtain ms where "sn_outstanding s = ms @ sn_outstanding t"
      using ack_loop_suffix [of ?s ackno] by (auto simp: t_def)
    then have "sn_outstanding t = sn_outstanding s" using False by simp
    then have "sn_timer_active t \<longleftrightarrow> sn_outstanding t \<noteq> []"
      using coreD(10) [OF core] by (simp add: t_def)
    then have "timed t = t" by (cases t) (auto simp: timed_def)
    then show ?thesis using loop(1) False by (simp add: eq)
  qed
qed

lemma receive_core:
  assumes core: "core S isn s" and rst: "\<not> rm_RST msg" and near: "unat (sn_bytes_unack s) \<le> 2 ^ 31"
  shows "core S isn (tcp_sender_receive s msg)"
proof (cases "\<exists>ackno. new_ack s msg ackno")
  case True
  then show ?thesis using receive_new(1) [OF core _ near] by blast
next
  case False
  then show ?thesis using receive_other [OF core rst] core by auto
qed

lemma receive_outstanding: "set (sn_outstanding (tcp_sender_receive s msg)) \<subseteq> set (sn_outstanding s)"
proof -
  have "set (sn_outstanding (ack_loop t ackno)) \<subseteq> set (sn_outstanding t)" for t ackno
    using ack_loop_suffix [of t ackno] by (metis Un_upper2 set_append)
  from this [of "update_window s (rm_window_size msg)"] show ?thesis
    by (auto simp: tcp_sender_receive_def Let_def split: option.splits)
qed

lemma receive_input:
  "sn_input (tcp_sender_receive s msg) = (if rm_RST msg then set_error (sn_input s) else sn_input s)"
  by (simp add: tcp_sender_receive_def Let_def split: option.splits)

section \<open>Time\<close>

lemma tick_idle:
  "sn_outstanding s = [] \<or> \<not> sn_timer_active s \<Longrightarrow> tcp_sender_tick s ms = (s, [])"
  by (simp only: tcp_sender_tick_def if_True)

lemma tick_waits:
  assumes "\<not> (sn_outstanding s = [] \<or> \<not> sn_timer_active s)" and "sn_timer s + ms < sn_RTO s"
  shows "tcp_sender_tick s ms = (s\<lparr>sn_timer := sn_timer s + ms\<rparr>, [])"
  using assms by (simp add: tcp_sender_tick_def Let_def)

lemma tick_expires:
  assumes "\<not> (sn_outstanding s = [] \<or> \<not> sn_timer_active s)" and "sn_RTO s \<le> sn_timer s + ms"
  shows "tcp_sender_tick s ms =
    (if sn_window_size s > 0
     then s\<lparr>sn_timer := 0, sn_consecutive := sn_consecutive s + 1, sn_RTO := sn_RTO s * 2\<rparr>
     else s\<lparr>sn_timer := 0\<rparr>, [hd (sn_outstanding s)])"
  using assms by (cases s) (simp add: tcp_sender_tick_def Let_def)

lemma core_timer [simp]: "core S isn (s\<lparr>sn_timer := x\<rparr>) = core S isn s"
  by (simp add: core_def core_data_def)

lemma core_backoff:
  assumes "core S isn s" and "unat (sn_consecutive s + 1) = unat (sn_consecutive s) + 1"
  shows "core S isn (s\<lparr>sn_timer := 0, sn_consecutive := sn_consecutive s + 1, sn_RTO := sn_RTO s * 2\<rparr>)"
proof -
  have "core_data S isn (s\<lparr>sn_timer := 0, sn_consecutive := sn_consecutive s + 1,
      sn_RTO := sn_RTO s * 2\<rparr>) = core_data S isn s"
    by (simp add: core_data_def)
  then show ?thesis using assms by (simp add: core_def)
qed

lemma tick_core:
  assumes core: "core S isn s" and few: "sn_consecutive s + 1 \<noteq> 0"
  shows "core S isn (fst (tcp_sender_tick s ms))"
proof -
  have inc: "unat (sn_consecutive s + 1) = unat (sn_consecutive s) + 1"
    using few by (simp add: unatSuc add.commute)
  consider "sn_outstanding s = [] \<or> \<not> sn_timer_active s"
    | "\<not> (sn_outstanding s = [] \<or> \<not> sn_timer_active s)" "sn_timer s + ms < sn_RTO s"
    | "\<not> (sn_outstanding s = [] \<or> \<not> sn_timer_active s)" "sn_RTO s \<le> sn_timer s + ms"
    by force
  then show ?thesis
  proof cases
    case 1
    then show ?thesis using core by (simp only: tick_idle fst_conv)
  next
    case 2
    then show ?thesis using core by (simp add: tick_waits)
  next
    case 3
    show ?thesis
      unfolding tick_expires [OF 3] fst_conv using core core_backoff [OF core inc] by simp
  qed
qed

section \<open>Runs of the sender\<close>

datatype send_op =
  Write "byte list" | Finish | Fail | Send | Ack TCPReceiverMessage | Wait u64

text \<open>An event's new state and the messages it transmits.\<close>

fun send_event :: "TCPSender \<Rightarrow> send_op \<Rightarrow> TCPSender \<times> TCPSenderMessage list" where
  "send_event s (Write data) = (s\<lparr>sn_input := writer_push (sn_input s) data\<rparr>, [])"
| "send_event s Finish = (s\<lparr>sn_input := writer_close (sn_input s)\<rparr>, [])"
| "send_event s Fail = (s\<lparr>sn_input := set_error (sn_input s)\<rparr>, [])"
| "send_event s Send = tcp_sender_push s"
| "send_event s (Ack msg) = (tcp_sender_receive s msg, [])"
| "send_event s (Wait ms) = tcp_sender_tick s ms"

definition send_step :: "TCPSender \<Rightarrow> send_op \<Rightarrow> TCPSender" where
  "send_step s e = fst (send_event s e)"

definition transmitted :: "TCPSender \<Rightarrow> send_op \<Rightarrow> TCPSenderMessage list" where
  "transmitted s e = snd (send_event s e)"

text \<open>An error of the stream stays.\<close>

lemma error_stays: "bs_error (sn_input s) \<Longrightarrow> bs_error (sn_input (send_step s e))"
  by (cases e) (simp_all add: send_step_def writer_push_def writer_close_def set_error_def receive_input
      tcp_sender_push_def has_error_def tcp_sender_tick_def Let_def)

text \<open>
  The application writes the stream \<open>S\<close> and closes it at its end; acknowledgments are
  processed with at most \<open>2 ^ 31\<close> sequence numbers in flight; and the count of consecutive
  retransmissions stays within its 64 bits.
\<close>

fun send_ok :: "byte list \<Rightarrow> TCPSender \<Rightarrow> send_op \<Rightarrow> bool" where
  "send_ok S s (Write data) \<longleftrightarrow> fits data
     \<and> (let b = sn_input s; n = min (room b) (length data)
        in unat (bs_pushed b) + n \<le> length S \<and> take n data = take n (drop (unat (bs_pushed b)) S))"
| "send_ok S s Finish \<longleftrightarrow> unat (bs_pushed (sn_input s)) = length S"
| "send_ok S s (Ack msg) \<longleftrightarrow> unat (sn_bytes_unack s) \<le> 2 ^ 31"
| "send_ok S s (Wait ms) \<longleftrightarrow> sn_consecutive s + 1 \<noteq> 0"
| "send_ok S s _ \<longleftrightarrow> True"

text \<open>After an error of the stream only its bytes are still accounted for.\<close>

definition sender_inv :: "byte list \<Rightarrow> Wrap32 \<Rightarrow> TCPSender \<Rightarrow> bool" where
  "sender_inv S isn s \<longleftrightarrow> input_ok S (sn_input s)
     \<and> (\<forall>m \<in> set (sn_outstanding s). \<exists>a. placed_at S isn a m)
     \<and> (\<not> bs_error (sn_input s) \<longrightarrow> core S isn s)"

lemma input_ok_push:
  assumes ok: "input_ok S b" and fits: "fits data"
    and n: "n = min (room b) (length data)" and le: "unat (bs_pushed b) + n \<le> length S"
    and data: "take n data = take n (drop (unat (bs_pushed b)) S)"
  shows "input_ok S (writer_push b data)"
    and "bs_popped (writer_push b data) = bs_popped b"
    and "bs_closed (writer_push b data) = bs_closed b"
    and "bs_stream (writer_push b data) = bs_stream b @ take n data"
proof -
  note io = input_okD [OF ok]
  have eff: "writer_push b data = b\<lparr>bs_stream := bs_stream b @ take n data,
      bs_pushed := bs_pushed b + of_nat n\<rparr>"
    unfolding writer_push_effect [OF io(1) fits] by (simp add: n min_def)
  have ln: "length (take n data) = n" by (simp add: n)
  have un: "unat (of_nat n :: u64) = n" using le io(2) by (intro unat_of_nat64) linarith
  have pushed: "unat (bs_pushed b + of_nat n) = unat (bs_pushed b) + n"
    using le io(2) by (simp add: unat_add64 un)
  have le': "unat (bs_popped b) \<le> unat (bs_pushed b)" using io(3) by linarith
  show f: "bs_popped (writer_push b data) = bs_popped b" "bs_closed (writer_push b data) = bs_closed b"
    "bs_stream (writer_push b data) = bs_stream b @ take n data"
    by (simp_all add: eff)
  have "bs_stream b @ take n data
      = drop (unat (bs_popped b)) (take (unat (bs_pushed b)) S)
        @ drop (unat (bs_pushed b)) (take (unat (bs_pushed b) + n) S)"
    using io(5) data by (simp add: drop_take)
  also have "\<dots> = drop (unat (bs_popped b)) (take (unat (bs_pushed b) + n) S)"
    using le' by (intro drop_take_join) simp_all
  finally have str: "bs_stream b @ take n data
      = drop (unat (bs_popped b)) (take (unat (bs_pushed b) + n) S)" .
  have closed: "bs_closed b \<Longrightarrow> n = 0" by (simp add: n room_def)
  show "input_ok S (writer_push b data)"
    unfolding input_ok_def
  proof (intro conjI)
    show "bs_inv (writer_push b data)" by (rule bs_inv_push [OF io(1) fits])
    show "unat (bs_pushed (writer_push b data)) = unat (bs_popped (writer_push b data))
        + length (bs_stream (writer_push b data))"
      using io(3) by (simp add: eff pushed ln del: length_take)
    show "unat (bs_pushed (writer_push b data)) \<le> length S" using le by (simp add: eff pushed)
    show "bs_stream (writer_push b data) = drop (unat (bs_popped (writer_push b data)))
        (take (unat (bs_pushed (writer_push b data))) S)"
      using str by (simp add: eff pushed)
    show "bs_closed (writer_push b data) \<longrightarrow> unat (bs_pushed (writer_push b data)) = length S"
      using closed io(6) by (simp add: eff pushed)
  qed (rule io(2))
qed

lemma input_ok_set_error [simp]: "input_ok S (set_error b) = input_ok S b"
  by (simp add: input_ok_def set_error_def bs_inv_def)

lemma input_ok_close:
  assumes "input_ok S b" and "unat (bs_pushed b) = length S"
  shows "input_ok S (writer_close b)"
proof -
  have "input_ok S b \<longleftrightarrow> input_ok S (b\<lparr>bs_closed := False\<rparr>) \<and> (bs_closed b \<longrightarrow> unat (bs_pushed b) = length S)"
    by (simp add: input_ok_def bs_inv_def conj_ac)
  moreover have "input_ok S (writer_close b) \<longleftrightarrow>
      input_ok S (b\<lparr>bs_closed := False\<rparr>) \<and> unat (bs_pushed b) = length S"
    by (simp add: input_ok_def bs_inv_def writer_close_def conj_ac)
  ultimately show ?thesis using assms by blast
qed

lemma core_input:
  assumes "core S isn s" and "input_ok S b" and "bs_popped b = bs_popped (sn_input s)"
    and "reader_is_finished (sn_input s) \<Longrightarrow> reader_is_finished b"
  shows "core S isn (s\<lparr>sn_input := b\<rparr>)"
  using assms unfolding core_def core_data_def by auto

lemma sender_inv_init:
  "length S + 3 < 2 ^ 64 \<Longrightarrow> sender_inv S isn (tcp_sender (byte_stream c) isn rto)"
  by (simp add: sender_inv_def core_def core_data_def tcp_sender_def input_ok_def byte_stream_def bs_inv_def)

lemma chain_placed_all: "core S isn s \<Longrightarrow> m \<in> set (sn_outstanding s) \<Longrightarrow> \<exists>a. placed_at S isn a m"
  using coreD(9) chain_placed by blast

lemma sender_inv_core: "core S isn s \<Longrightarrow> sender_inv S isn s"
  using coreD(1) chain_placed_all by (auto simp: sender_inv_def)

lemma push_effect:
  assumes "sender_inv S isn s"
  shows "bs_error (sn_input s) \<Longrightarrow> tcp_sender_push s = (s,
      [sender_message\<lparr>sm_seqno := wrap (sn_next_seqno s) (sn_isn s), sm_RST := True\<rparr>])"
    and "\<not> bs_error (sn_input s) \<Longrightarrow> \<exists>s' ms. tcp_sender_push s = (s', ms)
      \<and> extends S isn s s' ms \<and> sn_syn_sent s' \<and> unat (sn_bytes_unack s') \<le> flight_bound s"
  using assms push_data_ok [of S isn s]
  by (simp_all add: tcp_sender_push_def has_error_def sender_inv_def)

lemma sender_step_inv:
  assumes inv: "sender_inv S isn s" and ok: "send_ok S s e"
  shows "sender_inv S isn (send_step s e)"
proof (cases e)
  case (Write data)
  note io = input_ok_push [of S "sn_input s" data, OF _ _ refl]
  have pre: "input_ok S (sn_input s)" "fits data"
    "unat (bs_pushed (sn_input s)) + min (room (sn_input s)) (length data) \<le> length S"
    "take (min (room (sn_input s)) (length data)) data
      = take (min (room (sn_input s)) (length data)) (drop (unat (bs_pushed (sn_input s))) S)"
    using inv ok Write by (simp_all add: sender_inv_def Let_def)
  note io = io [OF pre]
  have "bs_error (writer_push (sn_input s) data) = bs_error (sn_input s)"
    by (simp add: writer_push_def Let_def)
  moreover have "core S isn s \<Longrightarrow> core S isn (s\<lparr>sn_input := writer_push (sn_input s) data\<rparr>)"
    using io by (intro core_input) (auto simp: reader_is_finished_def room_def)
  ultimately show ?thesis
    using inv io(1) Write by (simp add: sender_inv_def send_step_def)
next
  case Finish
  have "input_ok S (writer_close (sn_input s))"
    using inv ok Finish by (simp add: sender_inv_def input_ok_close)
  moreover from this have "core S isn s \<Longrightarrow> core S isn (s\<lparr>sn_input := writer_close (sn_input s)\<rparr>)"
    by (intro core_input) (auto simp: reader_is_finished_def writer_close_def)
  ultimately show ?thesis
    using inv Finish by (simp add: sender_inv_def send_step_def) (simp add: writer_close_def)
next
  case Fail
  then show ?thesis
    using inv by (simp add: sender_inv_def send_step_def) (simp add: set_error_def)
next
  case Send
  show ?thesis
  proof (cases "bs_error (sn_input s)")
    case True
    then show ?thesis using Send inv push_effect(1) [OF inv] by (simp add: send_step_def)
  next
    case False
    then show ?thesis
      using Send push_effect(2) [OF inv False] sender_inv_core
      by (auto simp: send_step_def extends_def)
  qed
next
  case (Ack msg)
  have out: "\<forall>m \<in> set (sn_outstanding (tcp_sender_receive s msg)). \<exists>a. placed_at S isn a m"
    using inv receive_outstanding [of s msg] by (auto simp: sender_inv_def)
  show ?thesis
  proof (cases "rm_RST msg \<or> bs_error (sn_input s)")
    case True
    then show ?thesis
      using inv out Ack by (simp add: sender_inv_def send_step_def receive_input)
        (auto simp: set_error_def)
  next
    case False
    then have "core S isn s" using inv by (simp add: sender_inv_def)
    then have "core S isn (tcp_sender_receive s msg)"
      using False ok Ack by (intro receive_core) simp_all
    then show ?thesis using Ack by (simp add: send_step_def sender_inv_core)
  qed
next
  case (Wait ms)
  have same: "sn_input (fst (tcp_sender_tick s ms)) = sn_input s"
    "sn_outstanding (fst (tcp_sender_tick s ms)) = sn_outstanding s"
    by (simp_all add: tcp_sender_tick_def Let_def)
  then show ?thesis
    using inv ok Wait tick_core [of S isn s ms] by (simp add: sender_inv_def send_step_def)
qed

text \<open>The bytes an event takes from the application, and the new bytes it transmits.\<close>

fun written :: "TCPSender \<Rightarrow> send_op \<Rightarrow> byte list" where
  "written s (Write data) = take (room (sn_input s)) data"
| "written s _ = []"

fun sent_bytes :: "TCPSender \<Rightarrow> send_op \<Rightarrow> byte list" where
  "sent_bytes s Send = concat (map sm_payload (transmitted s Send))"
| "sent_bytes s _ = []"

definition unsent :: "TCPSender \<Rightarrow> byte list" where
  "unsent s = bs_stream (sn_input s)"

lemma sender_step_bytes:
  assumes inv: "sender_inv S isn s" and ok: "send_ok S s e"
  shows "sent_bytes s e @ unsent (send_step s e) = unsent s @ written s e"
proof (cases e)
  case (Write data)
  have "bs_inv (sn_input s)" using inv input_okD(1) by (auto simp: sender_inv_def)
  then show ?thesis
    using ok Write by (simp add: unsent_def send_step_def writer_push_effect)
next
  case Send
  then show ?thesis
    using push_effect [OF inv]
    by (cases "bs_error (sn_input s)") (auto simp: unsent_def send_step_def transmitted_def extends_def)
next
  case (Ack msg)
  then show ?thesis by (simp add: unsent_def send_step_def receive_input set_error_def)
qed (simp_all add: unsent_def send_step_def writer_close_def set_error_def tcp_sender_tick_def Let_def)

interpretation snd: fifo send_step "send_ok S" "sender_inv S isn" unsent written sent_bytes for S isn
  by unfold_locales (simp_all add: sender_step_inv sender_step_bytes)

text \<open>Whatever is transmitted is a reset or a segment at its place.\<close>

lemma transmitted_placed:
  assumes inv: "sender_inv S isn s" and m: "m \<in> set (transmitted s e)"
  shows "sm_RST m \<and> sm_payload m = [] \<and> bs_error (sn_input s) \<or> (\<exists>a. placed_at S isn a m)"
proof (cases e)
  case Send
  show ?thesis
  proof (cases "bs_error (sn_input s)")
    case True
    then show ?thesis using m Send push_effect(1) [OF inv] by (simp add: transmitted_def)
  next
    case False
    then obtain ms where "chain S isn (unat (sn_next_seqno s)) ms" "transmitted s e = ms"
      using push_effect(2) [OF inv False] Send by (auto simp: transmitted_def extends_def)
    then show ?thesis using m chain_placed by blast
  qed
next
  case (Wait ms)
  have "transmitted s e = [] \<or> sn_outstanding s \<noteq> [] \<and> transmitted s e = [hd (sn_outstanding s)]"
    using Wait by (auto simp: transmitted_def tcp_sender_tick_def Let_def)
  then show ?thesis using m inv by (auto simp: sender_inv_def)
qed (use m in \<open>simp_all add: transmitted_def\<close>)

text \<open>Only \<open>push\<close> on a stream with an error transmits a reset.\<close>

lemma reset_only_by_push:
  assumes inv: "sender_inv S isn s" and m: "m \<in> set (transmitted s e)" and no: "\<nexists>a. placed_at S isn a m"
  shows "e = Send \<and> has_error (sn_input s) \<and> m = make_empty_message s \<and> sm_RST m"
proof -
  have err: "bs_error (sn_input s)" using transmitted_placed [OF inv m] no by blast
  show ?thesis
  proof (cases e)
    case Send
    then show ?thesis
      using m err push_effect(1) [OF inv err] by (simp add: transmitted_def has_error_def make_empty_message_def)
  next
    case (Wait ms)
    have "transmitted s e = [] \<or> sn_outstanding s \<noteq> [] \<and> transmitted s e = [hd (sn_outstanding s)]"
      using Wait by (auto simp: transmitted_def tcp_sender_tick_def Let_def)
    then have "m \<in> set (sn_outstanding s)" using m by auto
    then show ?thesis using inv no by (simp add: sender_inv_def)
  qed (use m in \<open>simp_all add: transmitted_def\<close>)
qed

section \<open>After a reset\<close>

definition silent :: "TCPSender \<Rightarrow> bool" where
  "silent s \<longleftrightarrow> bs_error (sn_input s) \<and> sn_outstanding s = []"

lemma silent_step: "silent s \<Longrightarrow> silent (send_step s e)"
proof -
  assume s: "silent s"
  have "sn_outstanding (send_step s e) = []"
    using s receive_outstanding [of s]
    by (cases e) (auto simp: silent_def send_step_def tcp_sender_push_def has_error_def tcp_sender_tick_def)
  then show "silent (send_step s e)" using s error_stays by (simp add: silent_def)
qed

lemma silent_transmits: "silent s \<Longrightarrow> transmitted s e = (if e = Send then [make_empty_message s] else [])"
  by (cases e) (simp_all add: silent_def transmitted_def tcp_sender_push_def has_error_def make_empty_message_def
      tcp_sender_tick_def)

lemma silent_message: "silent s \<Longrightarrow> sm_RST (make_empty_message s) \<and> seq_len (make_empty_message s) = 0"
  by (simp add: silent_def make_empty_message_def has_error_def seq_len_def sender_message_def)

lemma silent_run:
  assumes "silent s" and "s' = run send_step s es"
  shows "silent s' \<and> has_error (sn_input s') \<and> tcp_sender_tick s' ms = (s', [])
    \<and> tcp_sender_push s' = (s', [make_empty_message s'])
    \<and> sm_RST (make_empty_message s') \<and> seq_len (make_empty_message s') = 0"
proof -
  have s': "silent s'"
    unfolding assms(2) using assms(1) by (induction es arbitrary: s) (simp_all add: silent_step)
  then show ?thesis
    using silent_message [OF s']
    by (simp add: silent_def tcp_sender_tick_def tcp_sender_push_def has_error_def make_empty_message_def)
qed

lemma silent_only_resets:
  "silent s \<Longrightarrow> \<forall>m \<in> set (collect send_step transmitted s es). sm_RST m \<and> seq_len m = 0"
proof (induction es arbitrary: s)
  case (Cons e es)
  then show ?case
    using Cons.IH [OF silent_step [OF Cons.prems, of e]] silent_message [OF Cons.prems]
    by (auto simp: silent_transmits [OF Cons.prems])
qed simp

section \<open>What push does to the stream\<close>

text \<open>\<open>push\<close> only pops from the outbound stream, so it keeps whatever a \<open>pop\<close> keeps.\<close>

lemma push_loop_keeps:
  assumes pop: "\<And>b n. P b \<Longrightarrow> P (reader_pop b n)"
  shows "P (sn_input s) \<Longrightarrow> P (sn_input (fst (push_loop s av)))"
proof (induction s av rule: push_loop.induct)
  case (1 s av)
  obtain s' av' m where seg: "push_segment s av = (s', av', m)" by (cases "push_segment s av")
  have "P (sn_input s')" using push_segment_input [of s av] pop [OF 1(2)] by (simp add: seg)
  then show ?case
    using 1(1) [OF _ seg [symmetric] refl refl] 1(2)
    by (subst push_loop.simps) (auto simp: seg split: prod.split)
qed

lemma push_keeps:
  assumes pop: "\<And>b n. P b \<Longrightarrow> P (reader_pop b n)" and s: "P (sn_input s)"
  shows "P (sn_input (fst (tcp_sender_push s)))"
proof -
  obtain s1 m1 where 1: "push_syn s = (s1, m1)" by (cases "push_syn s")
  obtain s2 av m2 where 2: "push_loop s1 (sender_available s1) = (s2, av, m2)"
    by (cases "push_loop s1 (sender_available s1)")
  obtain s3 m3 where 3: "push_fin s2 av = (s3, m3)" by (cases "push_fin s2 av")
  obtain s4 m4 where 4: "push_fin_ready s3 = (s4, m4)" by (cases "push_fin_ready s3")
  obtain s5 m5 where 5: "push_probe s4 = (s5, m5)" by (cases "push_probe s4")
  have "sn_input s1 = sn_input s \<or> (\<exists>n. sn_input s1 = reader_pop (sn_input s) n)"
    using 1 by (auto simp: push_syn_def take_input_def sender_track_def start_timer_def Let_def split: if_splits)
  then have "P (sn_input s1)" using s pop by auto
  then have "P (sn_input s2)" using push_loop_keeps [of P s1 "sender_available s1", OF pop] 2 by simp
  moreover have "sn_input s3 = sn_input s2"
    using 3 by (auto simp: push_fin_def sender_track_def start_timer_def Let_def split: if_splits)
  moreover have "sn_input s4 = sn_input s3"
    using 4 by (auto simp: push_fin_ready_def sender_track_def start_timer_def Let_def split: if_splits)
  moreover have "sn_input s5 = sn_input s4 \<or> (\<exists>n. sn_input s5 = reader_pop (sn_input s4) n)"
    using 5 by (auto simp: push_probe_def take_input_def sender_track_def start_timer_def Let_def split: if_splits)
  ultimately have "P (sn_input s5)" using pop by auto
  then show ?thesis using s by (simp add: tcp_sender_push_def push_data_def 1 2 3 4 5)
qed

text \<open>A stream that is finished stays so.\<close>

lemma finished_pop: "reader_is_finished b \<Longrightarrow> reader_is_finished (reader_pop b n)"
  by (simp add: reader_is_finished_def reader_pop_def)

lemma finished_push: "reader_is_finished (sn_input s) \<Longrightarrow> reader_is_finished (sn_input (fst (tcp_sender_push s)))"
  by (rule push_keeps) (simp_all add: finished_pop)

lemma finished_stays: "reader_is_finished (sn_input s) \<Longrightarrow> reader_is_finished (sn_input (send_step s e))"
  using finished_push [of s]
  by (cases e) (auto simp: send_step_def reader_is_finished_def writer_push_def writer_close_def set_error_def
      receive_input tcp_sender_tick_def Let_def)

lemma finished_stays_run: "reader_is_finished (sn_input s) \<Longrightarrow> reader_is_finished (sn_input (run send_step s es))"
  by (induction es arbitrary: s) (simp_all add: finished_stays)

section \<open>push leaves nothing behind that the window admits\<close>

lemma push_loop_exit:
  "core S isn s \<Longrightarrow> sn_syn_sent s \<Longrightarrow> av = sender_available s \<Longrightarrow>
     push_loop s av = (s', av', ms) \<Longrightarrow>
     av' = 0 \<or> sn_window_size s' = 0 \<or> bs_stream (sn_input s') = []"
proof (induction s av arbitrary: s' av' ms rule: push_loop.induct)
  case (1 s av)
  have io: "bs_inv (sn_input s)" by (rule input_okD(1) [OF coreD(1) [OF 1(2)]])
  show ?case
  proof (cases "av > 0 \<and> sn_window_size s \<noteq> 0 \<and> bytes_buffered (sn_input s) > 0")
    case False
    then have "push_loop s av = (s, av, [])"
      by (subst push_loop.simps) (simp only: if_False)
    then show ?thesis
      using 1(5) False bytes_buffered_0_iff [OF io] by (auto simp: word_neq_0_conv [symmetric])
  next
    case True
    obtain k fin where seg: "push_segment s av = (emit s k False fin,
          sender_available (emit s k False fin), emit_msg s k False fin)"
      and ext: "extends S isn s (emit s k False fin) [emit_msg s k False fin]"
      using push_segment_cases [OF 1(2-4)] True by blast
    let ?s = "emit s k False fin" and ?m = "emit_msg s k False fin"
    have c: "core S isn ?s" by (rule extends_core [OF ext])
    show ?thesis
    proof (cases "sm_FIN ?m")
      case fin: True
      then have "sn_fin_set ?s" by (simp add: emit_msg_def)
      then have "bs_stream (sn_input ?s) = []"
        using coreD(3) [OF c] by (simp add: reader_is_finished_def)
      moreover have "s' = ?s"
        using 1(5) True fin
        by (simp only: push_loop.simps [of s av] seg Let_def prod.case if_True simp_thms prod.inject)
      ultimately show ?thesis by simp
    next
      case False
      obtain ms' where "push_loop ?s (sender_available ?s) = (s', av', ms')"
        using 1(5) True False
        by (simp only: push_loop.simps [of s av] seg Let_def prod.case if_True if_False simp_thms)
          (auto split: prod.splits)
      then show ?thesis
        using 1(1) [OF True seg [symmetric] refl refl False c _ refl] 1(3) by auto
    qed
  qed
qed

lemma push_fin_sets:
  "push_fin s av = (s', ms) \<Longrightarrow> reader_is_finished (sn_input s) \<Longrightarrow> av > 0 \<Longrightarrow> sn_fin_set s'"
  by (auto simp: push_fin_def Let_def split: if_splits)

lemma push_fin_ready_keeps:
  "push_fin_ready s = (s', ms) \<Longrightarrow> sn_fin_set s \<Longrightarrow> s' = s"
  by (simp add: push_fin_ready_def)

lemma sender_available_pos: "av > (0 :: u64) \<longleftrightarrow> 0 < unat av"
  by (simp add: word_less_nat_alt)

lemma push_greedy:
  assumes core: "core S isn s" and win: "0 < unat (sn_window_size s)"
  defines "s' \<equiv> fst (push_data s)"
  shows "unat (sn_window_size s) \<le> unat (sn_bytes_unack s')
    \<or> unsent s' = [] \<and> (bs_closed (sn_input s') \<longrightarrow> sn_fin_set s')"
proof -
  obtain s1 m1 where p1: "push_syn s = (s1, m1)" and e1: "extends S isn s s1 m1" "sn_syn_sent s1"
    using push_syn_extends [OF core] by blast
  note c1 = extends_core [OF e1(1)]
  obtain s2 m2 where p2: "push_loop s1 (sender_available s1) = (s2, sender_available s2, m2)"
    and o2: "block_ok S isn s1 s2 m2"
    using push_loop_ok [OF c1 e1(2) refl] by blast
  have c2: "core S isn s2" "sn_syn_sent s2" and w2: "sn_window_size s2 = sn_window_size s"
    using o2 extends_window [OF e1(1)] by (auto simp: block_ok_def extends_core dest: extends_window)
  obtain s3 m3 where p3: "push_fin s2 (sender_available s2) = (s3, m3)" and o3: "block_ok S isn s2 s3 m3"
    using push_fin_ok [OF c2 refl] by blast
  have c3: "core S isn s3" "sn_syn_sent s3" and e3: "extends S isn s2 s3 m3"
    using o3 by (auto simp: block_ok_def extends_core)
  obtain s4 m4 where p4: "push_fin_ready s3 = (s4, m4)" and o4: "block_ok S isn s3 s4 m4"
    using push_fin_ready_ok [OF c3] by blast
  have c4: "core S isn s4" "sn_syn_sent s4" and e4: "extends S isn s3 s4 m4"
    using o4 by (auto simp: block_ok_def extends_core)
  obtain s5 m5 where p5: "push_probe s4 = (s5, m5)" and m5: "m5 \<noteq> [] \<longrightarrow> sn_window_size s4 = 0"
    "m5 = [] \<longrightarrow> s5 = s4"
    using push_probe_ok [OF c4] by blast
  have w4: "sn_window_size s4 = sn_window_size s"
    using w2 extends_window [OF e3] extends_window [OF e4] by simp
  then have s5: "s5 = s4" using m5 win by (cases "m5 = []") auto
  then have s': "s' = s4" by (simp add: s'_def push_data_def p1 p2 p3 p4 p5)
  have mono: "unat (sn_bytes_unack s2) \<le> unat (sn_bytes_unack s4)"
    using e3 e4 by (simp add: extends_def)
  show ?thesis
  proof (cases "unat (sender_available s2) = 0")
    case True
    then show ?thesis using mono w2 s' unat_sender_available [of s2] by auto
  next
    case False
    then have "sender_available s2 \<noteq> 0" by auto
    then have empty2: "bs_stream (sn_input s2) = []"
      using push_loop_exit [OF c1 e1(2) refl p2] win w2 by auto
    have empty4: "bs_stream (sn_input s4) = []"
      using e3 e4 empty2 by (simp add: extends_def)
    have "sn_fin_set s4" if "bs_closed (sn_input s4)"
    proof -
      have "bs_closed (sn_input s2)"
        using that p3 p4 by (auto simp: push_fin_def push_fin_ready_def Let_def split: if_splits)
      then have "reader_is_finished (sn_input s2)" using empty2 by (simp add: reader_is_finished_def)
      then have "sn_fin_set s3"
        using push_fin_sets [OF p3] False by (simp add: sender_available_pos)
      then show ?thesis using push_fin_ready_keeps [OF p4] by simp
    qed
    then show ?thesis using empty4 s' by (simp add: unsent_def)
  qed
qed

text \<open>The split of the outstanding segments that an acknowledgment makes.\<close>

lemma unacked_split:
  "a \<le> A \<Longrightarrow> \<exists>acked. ms = acked @ unacked a A ms \<and> a + total_len acked \<le> A
     \<and> (unacked a A ms \<noteq> [] \<longrightarrow> A < a + total_len acked + seq_len (hd (unacked a A ms)))"
proof (induction ms arbitrary: a)
  case (Cons m ms)
  show ?case
  proof (cases "a + seq_len m \<le> A")
    case True
    then obtain acked where "ms = acked @ unacked (a + seq_len m) A ms"
      "a + seq_len m + total_len acked \<le> A"
      "unacked (a + seq_len m) A ms \<noteq> [] \<longrightarrow>
        A < a + seq_len m + total_len acked + seq_len (hd (unacked (a + seq_len m) A ms))"
      using Cons.IH by blast
    then show ?thesis using True by (intro exI [of _ "m # acked"]) (simp add: add.assoc)
  qed (use Cons.prems in \<open>simp\<close>)
qed simp

text \<open>An acknowledgment removes exactly the segments it covers, and restarts the timer.\<close>

lemma ack_exact_core:
  assumes core: "core S isn s" and near: "unat (sn_bytes_unack s) \<le> 2 ^ 31"
    and new: "new_ack s msg ackno"
  defines "s' \<equiv> tcp_sender_receive s msg"
  shows "\<exists>acked. sn_outstanding s = acked @ sn_outstanding s'
    \<and> left_edge s' = left_edge s + total_len acked \<and> left_edge s' \<le> unat ackno
    \<and> (sn_outstanding s' \<noteq> [] \<longrightarrow> unat ackno < left_edge s' + seq_len (hd (sn_outstanding s')))
    \<and> unat (sn_bytes_unack s') = total_len (sn_outstanding s')
    \<and> (sn_timer_active s' \<longleftrightarrow> sn_outstanding s' \<noteq> [])
    \<and> (acked \<noteq> [] \<longrightarrow> sn_RTO s' = sn_initial_RTO_ms s' \<and> sn_consecutive s' = 0
         \<and> (sn_outstanding s' \<noteq> [] \<longrightarrow> sn_timer s' = 0))"
proof -
  note rn = receive_new [OF core new near, folded s'_def]
  have "left_edge s \<le> unat ackno" using new by (simp add: new_ack_def)
  then obtain acked where a: "sn_outstanding s = acked @ sn_outstanding s'"
    "left_edge s + total_len acked \<le> unat ackno"
    "sn_outstanding s' \<noteq> [] \<longrightarrow>
      unat ackno < left_edge s + total_len acked + seq_len (hd (sn_outstanding s'))"
    using unacked_split unfolding rn(2) by blast
  have tot: "unat (sn_bytes_unack s') = total_len (sn_outstanding s')"
    "unat (sn_bytes_unack s) = total_len acked + total_len (sn_outstanding s')"
    using coreD(7) [OF rn(1)] coreD(7) [OF core] a(1) by simp_all
  have edge: "left_edge s' = left_edge s + total_len acked"
    using tot coreD(8) [OF core] by (simp add: left_edge_def rn(4))
  have "acked \<noteq> [] \<Longrightarrow> length (sn_outstanding s') < length (sn_outstanding s)"
    by (subst a(1)) simp
  then have "acked \<noteq> [] \<longrightarrow> sn_RTO s' = sn_initial_RTO_ms s' \<and> sn_consecutive s' = 0
         \<and> (sn_outstanding s' \<noteq> [] \<longrightarrow> sn_timer s' = 0)"
    using rn(6) by blast
  then show ?thesis using a edge tot coreD(10) [OF rn(1)] by auto
qed

section \<open>A concrete sender\<close>

definition demo_ops :: "send_op list" where
  "demo_ops = [Write [1, 2, 3], Send]"

definition demo_sender :: TCPSender where
  "demo_sender = run send_step (tcp_sender (byte_stream 8) (Wrap32 7) 1000) demo_ops"

lemma demo_ok:
  "admissible send_step (send_ok [1, 2, 3]) (tcp_sender (byte_stream 8) (Wrap32 7) 1000) demo_ops"
  by (simp add: demo_ops_def fits_def room_def tcp_sender_def byte_stream_def)

lemma demo_init: "sender_inv [1, 2, 3] (Wrap32 7) (tcp_sender (byte_stream 8) (Wrap32 7) 1000)"
  by (rule sender_inv_init) simp

lemma demo_values:
  "sn_next_seqno demo_sender = 1" "sn_bytes_unack demo_sender = 1" "sn_window_size demo_sender = 1"
  "sn_outstanding demo_sender = [sender_message\<lparr>sm_seqno := Wrap32 7, sm_SYN := True\<rparr>]"
  "bs_error (sn_input demo_sender) = False" "sn_isn demo_sender = Wrap32 7"
  "unsent demo_sender = [1, 2, 3]" "sn_timer demo_sender = 0" "sn_RTO demo_sender = 1000"
  "sn_timer_active demo_sender"
  by code_simp+

lemma demo_core: "core [1, 2, 3] (Wrap32 7) demo_sender"
  using snd.run_inv [OF demo_init demo_ok] demo_values(5) by (simp add: sender_inv_def demo_sender_def)

text \<open>
  With a closed window and everything sent but the FIN, \<open>push\<close> transmits nothing: the probe
  needs a byte to send.
\<close>

lemma fin_waits_for_window:
  "transmitted (run send_step (tcp_sender (byte_stream 8) (Wrap32 7) 1000)
     [Send, Ack \<lparr>rm_ackno = Some (Wrap32 8), rm_window_size = 0, rm_RST = False\<rparr>, Finish]) Send = []"
  by code_simp

section \<open>Properties\<close>

text \<open>
  C17: the sender transmits the application's stream in order, once: over any run of writes,
  closes, pushes, acknowledgments of any content and ticks, the payloads of the new segments
  followed by what still waits are exactly the bytes accepted from the application. No byte is
  lost, repeated or reordered by segmentation, window limits or probes.
\<close>
theorem sender_transmits_in_order:
  assumes "length S + 3 < 2 ^ 64"
    and "admissible send_step (send_ok S) (tcp_sender (byte_stream c) isn rto) es"
  shows "collect send_step sent_bytes (tcp_sender (byte_stream c) isn rto) es
      @ unsent (run send_step (tcp_sender (byte_stream c) isn rto) es)
    = collect send_step written (tcp_sender (byte_stream c) isn rto) es"
  using snd.fifo_run [OF sender_inv_init [OF assms(1)] assms(2)]
  by (simp add: unsent_def tcp_sender_def byte_stream_def)

theorem sender_transmits_in_order_witness:
  "collect send_step sent_bytes (tcp_sender (byte_stream 8) (Wrap32 7) 1000) demo_ops @ [1, 2, 3]
   = collect send_step written (tcp_sender (byte_stream 8) (Wrap32 7) 1000) demo_ops"
  using sender_transmits_in_order [OF _ demo_ok] demo_values(7) by (simp add: demo_sender_def)

text \<open>
  C18: whatever a run transmits, new or again, is one of two things. A reset is transmitted only by
  \<open>push\<close>, only when the stream has an error, and carries nothing. Everything else is a
  segment at its place: its sequence number is that of the bytes of \<open>S\<close> it carries, at most 1000
  of them, with the SYN exactly on sequence number 0 and a FIN only at the end of \<open>S\<close>. The run
  processes acknowledgments with at most \<open>2 ^ 31\<close> sequence numbers in flight and counts fewer
  than \<open>2 ^ 64\<close> retransmissions in a row.
\<close>
theorem sender_transmits_placed:
  assumes "length S + 3 < 2 ^ 64"
    and "admissible send_step (send_ok S) (tcp_sender (byte_stream c) isn rto) es"
    and "s = run send_step (tcp_sender (byte_stream c) isn rto) es"
    and "m \<in> set (transmitted s e)"
  shows "if sm_RST m
    then e = Send \<and> has_error (sn_input s) \<and> m = make_empty_message s \<and> seq_len m = 0
    else \<exists>a. placed_at S isn a m"
proof -
  have inv: "sender_inv S isn s"
    unfolding assms(3) by (rule snd.run_inv [OF sender_inv_init [OF assms(1)] assms(2)])
  show ?thesis
  proof (cases "\<exists>a. placed_at S isn a m")
    case True
    then have "\<not> sm_RST m" unfolding placed_at_def by (metis peer_segment_simps(1))
    then show ?thesis using True by simp
  next
    case False
    then have m: "e = Send" "has_error (sn_input s)" "m = make_empty_message s" "sm_RST m"
      using reset_only_by_push [OF inv assms(4)] by blast+
    have "seq_len (make_empty_message s) = 0"
      by (simp add: make_empty_message_def sender_message_def seq_len_def)
    then show ?thesis using m(1-3) m(4) [unfolded m(3)] by simp
  qed
qed

theorem sender_transmits_placed_witness:
  "\<exists>a. placed_at [1, 2, 3] (Wrap32 7) a (sender_message\<lparr>sm_seqno := Wrap32 7, sm_SYN := True\<rparr>)"
proof -
  have "transmitted demo_sender (Wait 1000) = [sender_message\<lparr>sm_seqno := Wrap32 7, sm_SYN := True\<rparr>]"
    by code_simp
  then show ?thesis
    using sender_transmits_placed [OF _ demo_ok demo_sender_def, of _ "Wait 1000"] by (simp add: sender_message_def)
qed

text \<open>
  C19: flow control. After a \<open>push\<close> no more sequence numbers are in flight than before or than
  the peer's window allows, a closed window counting as one, with a single one-byte probe on top
  when the window is closed and no probe is out.
\<close>
theorem push_respects_window:
  assumes "core S isn s" and "\<not> has_error (sn_input s)"
  shows "\<exists>s' ms. tcp_sender_push s = (s', ms) \<and> core S isn s'
    \<and> unat (sequence_numbers_in_flight s') = total_len (sn_outstanding s')
    \<and> total_len (sn_outstanding s') \<le>
        max (total_len (sn_outstanding s)) (max 1 (unat (sn_window_size s)))
        + of_bool (sn_window_size s = 0 \<and> \<not> sn_probe_sent s)"
  using push_data_ok [OF assms(1)] coreD(7) assms
  by (auto simp: tcp_sender_push_def extends_def flight_bound_def sequence_numbers_in_flight_def)

theorem push_respects_window_witness:
  "\<exists>s' ms. tcp_sender_push demo_sender = (s', ms) \<and> total_len (sn_outstanding s') \<le> 1"
  using push_respects_window [OF demo_core] demo_values
  by (fastforce simp: has_error_def seq_len_def)

text \<open>
  C20: \<open>push\<close> is greedy: with an open window it leaves nothing unsent that the window admits.
  Afterwards the window is full, or all the bytes are sent and, if the stream is closed, the FIN.
\<close>
theorem push_fills_window:
  assumes "core S isn s" and "\<not> has_error (sn_input s)" and "0 < unat (sn_window_size s)"
  shows "unat (sn_window_size s) \<le> unat (sn_bytes_unack (fst (tcp_sender_push s)))
    \<or> unsent (fst (tcp_sender_push s)) = []
      \<and> (bs_closed (sn_input (fst (tcp_sender_push s))) \<longrightarrow> sn_fin_set (fst (tcp_sender_push s)))"
  using push_greedy [OF assms(1,3)] assms(2) by (simp add: tcp_sender_push_def)

theorem push_fills_window_witness:
  "1 \<le> unat (sn_bytes_unack (fst (tcp_sender_push demo_sender)))
   \<or> unsent (fst (tcp_sender_push demo_sender)) = []"
  using push_fills_window [OF demo_core] demo_values by (auto simp: has_error_def)

text \<open>
  C21: an acknowledgment of new data removes from the outstanding segments exactly those it
  covers whole, oldest first, leaving the first one it does not cover; the left edge moves to
  the end of the last one removed, never beyond the acknowledgment; and if any was removed the
  timeout returns to its initial value, the count of retransmissions to 0, and the timer runs
  from 0, or stops when nothing is left. At most \<open>2 ^ 31\<close> sequence numbers are in flight.
\<close>
theorem ack_removes_exactly:
  assumes "core S isn s" and "unat (sn_bytes_unack s) \<le> 2 ^ 31" and "new_ack s msg ackno"
  shows "\<exists>acked. sn_outstanding s = acked @ sn_outstanding (tcp_sender_receive s msg)
    \<and> left_edge (tcp_sender_receive s msg) = left_edge s + total_len acked
    \<and> left_edge (tcp_sender_receive s msg) \<le> unat ackno
    \<and> (sn_outstanding (tcp_sender_receive s msg) \<noteq> [] \<longrightarrow> unat ackno <
        left_edge (tcp_sender_receive s msg)
        + seq_len (hd (sn_outstanding (tcp_sender_receive s msg))))
    \<and> (sn_timer_active (tcp_sender_receive s msg) \<longleftrightarrow>
        sn_outstanding (tcp_sender_receive s msg) \<noteq> [])
    \<and> (acked \<noteq> [] \<longrightarrow>
        sn_RTO (tcp_sender_receive s msg) = sn_initial_RTO_ms (tcp_sender_receive s msg)
        \<and> consecutive_retransmissions (tcp_sender_receive s msg) = 0
        \<and> (sn_outstanding (tcp_sender_receive s msg) \<noteq> [] \<longrightarrow> sn_timer (tcp_sender_receive s msg) = 0))"
  using ack_exact_core [OF assms] by (auto simp: consecutive_retransmissions_def)

theorem ack_removes_exactly_witness:
  "new_ack demo_sender \<lparr>rm_ackno = Some (Wrap32 8), rm_window_size = 4, rm_RST = False\<rparr> 1
   \<and> sn_outstanding (tcp_sender_receive demo_sender
       \<lparr>rm_ackno = Some (Wrap32 8), rm_window_size = 4, rm_RST = False\<rparr>) = []"
proof -
  let ?m = "\<lparr>rm_ackno = Some (Wrap32 8), rm_window_size = 4, rm_RST = False\<rparr>"
  have "unwrap (Wrap32 8) (Wrap32 7) 1 = 1" by code_simp
  then have new: "new_ack demo_sender ?m 1"
    by (simp add: new_ack_def left_edge_def demo_values)
  have near: "unat (sn_bytes_unack demo_sender) \<le> 2 ^ 31" by (simp add: demo_values)
  obtain acked where out: "sn_outstanding demo_sender = acked @ sn_outstanding (tcp_sender_receive demo_sender ?m)"
    and edge: "left_edge (tcp_sender_receive demo_sender ?m) = left_edge demo_sender + total_len acked"
    and gap: "sn_outstanding (tcp_sender_receive demo_sender ?m) \<noteq> [] \<longrightarrow> unat (1 :: u64) <
        left_edge (tcp_sender_receive demo_sender ?m)
        + seq_len (hd (sn_outstanding (tcp_sender_receive demo_sender ?m)))"
    using ack_removes_exactly [OF demo_core near new] by blast
  have "left_edge demo_sender = 0" by (simp add: left_edge_def demo_values)
  then have "sn_outstanding (tcp_sender_receive demo_sender ?m) = []"
    using out edge gap
  proof (cases acked)
    case Nil
    then have "sn_outstanding (tcp_sender_receive demo_sender ?m)
        = [sender_message\<lparr>sm_seqno := Wrap32 7, sm_SYN := True\<rparr>]"
      using out demo_values(4) by simp
    then show ?thesis using gap edge Nil \<open>left_edge demo_sender = 0\<close> by (simp add: seq_len_def)
  qed (simp add: demo_values)
  then show ?thesis using new by blast
qed

text \<open>
  Every other message, an old, repeated or impossible acknowledgment or none, changes
  nothing but the peer's window and, if that is open, the permission for a new probe.
\<close>
lemma other_acks_change_nothing:
  assumes "core S isn s" and "\<not> rm_RST msg" and "\<nexists>ackno. new_ack s msg ackno"
  shows "tcp_sender_receive s msg = s\<lparr>sn_window_size := rm_window_size msg,
    sn_probe_sent := (if rm_window_size msg > 0 then False else sn_probe_sent s)\<rparr>"
  using receive_other [OF assms] by (simp add: update_window_def)

text \<open>
  C22: retransmission. With segments outstanding, \<open>tick\<close> transmits nothing before the timeout
  and exactly the oldest outstanding segment when it is reached; then it restarts the timer and,
  only if the window is open, doubles the timeout and counts. The timeout is at all times
  the initial one doubled once per consecutive retransmission.
\<close>
theorem tick_retransmits_oldest:
  assumes "core S isn s" and "sn_outstanding s \<noteq> []" and "sn_consecutive s + 1 \<noteq> 0"
  shows "(sn_timer s + ms < sn_RTO s \<longrightarrow>
      tcp_sender_tick s ms = (s\<lparr>sn_timer := sn_timer s + ms\<rparr>, []))
    \<and> (sn_RTO s \<le> sn_timer s + ms \<longrightarrow>
      snd (tcp_sender_tick s ms) = [hd (sn_outstanding s)]
      \<and> sn_timer (fst (tcp_sender_tick s ms)) = 0
      \<and> sn_consecutive (fst (tcp_sender_tick s ms)) =
          sn_consecutive s + of_bool (sn_window_size s > 0))
    \<and> sn_RTO (fst (tcp_sender_tick s ms)) =
        sn_initial_RTO_ms s * 2 ^ unat (sn_consecutive (fst (tcp_sender_tick s ms)))"
proof -
  have run: "\<not> (sn_outstanding s = [] \<or> \<not> sn_timer_active s)"
    using assms(2) coreD(10) [OF assms(1)] by blast
  have "sn_initial_RTO_ms (fst (tcp_sender_tick s ms)) = sn_initial_RTO_ms s"
    by (simp add: tcp_sender_tick_def Let_def)
  then have rto: "sn_RTO (fst (tcp_sender_tick s ms)) =
        sn_initial_RTO_ms s * 2 ^ unat (sn_consecutive (fst (tcp_sender_tick s ms)))"
    using coreD(13) [OF tick_core [OF assms(1,3)]] by simp
  have expire: "sn_RTO s \<le> sn_timer s + ms \<Longrightarrow> snd (tcp_sender_tick s ms) = [hd (sn_outstanding s)]
      \<and> sn_timer (fst (tcp_sender_tick s ms)) = 0
      \<and> sn_consecutive (fst (tcp_sender_tick s ms)) =
          sn_consecutive s + of_bool (sn_window_size s > 0)"
    by (simp add: tick_expires [OF run])
  show ?thesis using tick_waits [OF run] expire rto by blast
qed

theorem tick_retransmits_oldest_witness:
  "snd (tcp_sender_tick demo_sender 1000) = [sender_message\<lparr>sm_seqno := Wrap32 7, sm_SYN := True\<rparr>]"
proof -
  have "sn_consecutive demo_sender = 0" by code_simp
  then show ?thesis
    using tick_retransmits_oldest [OF demo_core, of 1000] by (simp add: demo_values)
qed

text \<open>
  C23: after a reset from the peer the sender never carries data again. Whatever follows (writes,
  pushes, acknowledgments, ticks), from then on its stream has the error, nothing is outstanding,
  no tick transmits or changes anything, and each \<open>push\<close> transmits one message, the empty one that
  only reports the reset, and nothing else; so all that was transmitted since are such messages.
\<close>
theorem reset_silences_sender:
  assumes "rm_RST msg" and "s' = run send_step (tcp_sender_receive s msg) es"
  shows "has_error (sn_input s') \<and> sn_outstanding s' = []
    \<and> tcp_sender_tick s' ms = (s', [])
    \<and> tcp_sender_push s' = (s', [make_empty_message s'])
    \<and> sm_RST (make_empty_message s') \<and> seq_len (make_empty_message s') = 0
    \<and> (\<forall>m \<in> set (collect send_step transmitted (tcp_sender_receive s msg) es). sm_RST m \<and> seq_len m = 0)"
proof -
  have "silent (tcp_sender_receive s msg)"
    using assms(1) by (simp add: tcp_sender_receive_def silent_def set_error_def)
  then show ?thesis
    using silent_run [OF _ assms(2)] silent_only_resets by (simp add: silent_def)
qed

theorem reset_silences_sender_witness:
  "sn_outstanding demo_sender \<noteq> []
   \<and> list_all (\<lambda>m. sm_RST m \<and> seq_len m = 0) (collect send_step transmitted
        (tcp_sender_receive demo_sender \<lparr>rm_ackno = None, rm_window_size = 1, rm_RST = True\<rparr>)
        [Write [1, 2], Send, Wait 5000, Send])"
proof -
  have "rm_RST \<lparr>rm_ackno = None, rm_window_size = 1, rm_RST = True\<rparr>" by simp
  from reset_silences_sender [OF this refl]
  show ?thesis using demo_values(4) unfolding list_all_iff by (metis list.distinct(1))
qed

end
