(* ===== verification/Sender_Progress.thy ===== *)
theory Sender_Progress
  imports TCP_Sender
begin

text \<open>
  A sender with something to send has something in flight: the probe of a closed window that
  \<open>push\<close> remembers is outstanding until it is acknowledged, so \<open>push\<close> leaves bytes unsent only
  behind an outstanding segment, whose retransmission and acknowledgment move things on.
\<close>

section \<open>What the blocks of push leave alone\<close>

definition probe_state :: "TCPSender \<Rightarrow> bool \<times> u64 option \<times> u64" where
  "probe_state s = (sn_probe_sent s, sn_probe_seqno s, sn_consecutive s)"

lemma probe_track: "probe_state (sender_track msg s) = probe_state s"
  by (simp add: probe_state_def sender_track_def start_timer_def)

lemma probe_push_parts:
  "probe_state (fst (push_syn s)) = probe_state s" "probe_state (fst (push_fin s av)) = probe_state s"
  "probe_state (fst (push_fin_ready s)) = probe_state s" "probe_state (fst (push_segment s av)) = probe_state s"
  by (simp_all add: push_syn_def push_fin_def push_fin_ready_def push_segment_def take_input_def Let_def probe_track)
     (simp_all add: probe_state_def sender_track_def start_timer_def)

lemma probe_push_loop: "probe_state (fst (push_loop s av)) = probe_state s"
proof (induction s av rule: push_loop.induct)
  case (1 s av)
  obtain s' av' m where seg: "push_segment s av = (s', av', m)" by (cases "push_segment s av")
  have "probe_state s' = probe_state s" using probe_push_parts(4) [of s av] by (simp add: seg)
  then show ?case
    using 1 [OF _ seg [symmetric] refl refl]
    by (subst push_loop.simps) (auto simp: seg split: prod.split)
qed

section \<open>The probe is outstanding\<close>

text \<open>Where the segments of a chain start, the first one at \<open>a\<close>.\<close>

fun starts :: "nat \<Rightarrow> TCPSenderMessage list \<Rightarrow> nat set" where
  "starts a [] = {}"
| "starts a (m # ms) = insert a (starts (a + seq_len m) ms)"

lemma starts_append [simp]: "starts a (ms @ ms') = starts a ms \<union> starts (a + total_len ms) ms'"
  by (induction ms arbitrary: a) (auto simp: add.assoc)

definition probing :: "TCPSender \<Rightarrow> bool" where
  "probing s \<longleftrightarrow> (sn_probe_sent s \<longrightarrow>
     (\<exists>p \<in> starts (left_edge s) (sn_outstanding s). sn_probe_seqno s = Some (of_nat p)))"

lemma extends_edge: "core S isn s \<Longrightarrow> extends S isn s s' ms \<Longrightarrow> left_edge s' = left_edge s"
  using coreD(8) by (fastforce simp: extends_def left_edge_def)

lemma probing_extends:
  assumes "core S isn s" and "extends S isn s s' ms" and "probe_state s' = probe_state s" and "probing s"
  shows "probing s'"
proof -
  have "sn_outstanding s' = sn_outstanding s @ ms" using assms(2) by (simp add: extends_def)
  then show ?thesis
    using assms(3,4) extends_edge [OF assms(1,2)] by (auto simp: probing_def probe_state_def)
qed

text \<open>The probe that \<open>push\<close> sends starts at the next sequence number.\<close>

lemma probe_seqno:
  "unat next < 2 ^ 63 \<Longrightarrow> unat len \<le> 2 ^ 31 \<Longrightarrow> unwrap (wrap next isn) isn (next + len) = (next :: u64)"
  by (rule unwrap_wrap_near) (simp_all add: unat_add64)

lemma push_probe_rest:
  assumes core: "core S isn s" and syn: "sn_syn_sent s" and small: "length S + 2 < 2 ^ 31" and pr: "probing s"
  shows "probing (fst (push_probe s)) \<and> sn_consecutive (fst (push_probe s)) = sn_consecutive s
    \<and> (sn_window_size s = 0 \<longrightarrow> sn_outstanding (fst (push_probe s)) \<noteq> [] \<or> bs_stream (sn_input (fst (push_probe s))) = [])"
proof -
  obtain s' ms where p: "push_probe s = (s', ms)" and ex: "extends S isn s s' ms"
    and ms: "ms \<noteq> [] \<longrightarrow> sn_window_size s = 0 \<and> \<not> sn_probe_sent s" "ms = [] \<longrightarrow> s' = s"
    using push_probe_ok [OF core syn] by blast
  have io: "bs_inv (sn_input s)" by (rule input_okD(1) [OF coreD(1) [OF core]])
  have con: "sn_consecutive s' = sn_consecutive s"
    using p by (auto simp: push_probe_def take_input_def sender_track_def start_timer_def Let_def split: if_splits)
  show ?thesis
  proof (cases "ms = []")
    case True
    then have s': "s' = s" using ms(2) by blast
    have "sn_window_size s = 0 \<Longrightarrow> \<not> sn_probe_sent s \<Longrightarrow> bytes_buffered (sn_input s) = 0"
      using p True by (auto simp: push_probe_def take_input_def Let_def min_def word_gt_0 split: if_splits)
    then have "sn_window_size s = 0 \<Longrightarrow> sn_outstanding s \<noteq> [] \<or> bs_stream (sn_input s) = []"
      using pr bytes_buffered_0_iff [OF io] by (cases "sn_probe_sent s") (auto simp: probing_def)
    then show ?thesis using pr by (simp add: p s')
  next
    case False
    have out: "sn_outstanding s' = sn_outstanding s @ ms" using ex by (simp add: extends_def)
    obtain len where q: "sn_probe_seqno s' = Some (unwrap (wrap (sn_next_seqno s) (sn_isn s)) (sn_isn s) (sn_next_seqno s + len))"
      and n: "sn_next_seqno s' = sn_next_seqno s + len"
      using p False by (auto simp: push_probe_def take_input_def sender_track_def start_timer_def Let_def split: if_splits)
    have edge: "left_edge s + total_len (sn_outstanding s) = unat (sn_next_seqno s)"
      using coreD(7,8) [OF core] by (simp add: left_edge_def)
    have "unat (sn_next_seqno s') = unat (sn_next_seqno s) + total_len ms" using ex by (simp add: extends_def)
    moreover have bound: "unat (sn_next_seqno s') \<le> length S + 2"
      using sender_flight_bound(2) [OF extends_core [OF ex]] .
    ultimately have "unat len \<le> length S + 2"
      using n unat_sub_nat [of "sn_next_seqno s" "sn_next_seqno s'"] by simp
    then have "sn_probe_seqno s' = Some (sn_next_seqno s)"
      using probe_seqno [of "sn_next_seqno s" len] small sender_flight_bound(2) [OF core] by (simp add: q)
    moreover have "unat (sn_next_seqno s) \<in> starts (left_edge s') (sn_outstanding s')"
      using False extends_edge [OF core ex] by (cases ms) (simp_all add: out edge)
    ultimately have "probing s'" by (auto simp: probing_def intro!: bexI [of _ "unat (sn_next_seqno s)"])
    then show ?thesis using con False by (simp add: p out)
  qed
qed

section \<open>push\<close>

lemma push_data_rest:
  assumes core: "core S isn s" and small: "length S + 2 < 2 ^ 31" and pr: "probing s"
  defines "s' \<equiv> fst (push_data s)"
  shows "probing s' \<and> sn_consecutive s' = sn_consecutive s \<and> (sn_outstanding s' \<noteq> [] \<or> bs_stream (sn_input s') = [])"
proof -
  obtain s1 m1 where p1: "push_syn s = (s1, m1)" and e1: "extends S isn s s1 m1" "sn_syn_sent s1"
    using push_syn_extends [OF core] by blast
  note c1 = extends_core [OF e1(1)]
  obtain s2 m2 where p2: "push_loop s1 (sender_available s1) = (s2, sender_available s2, m2)"
    and o2: "block_ok S isn s1 s2 m2"
    using push_loop_ok [OF c1 e1(2) refl] by blast
  have e2: "extends S isn s1 s2 m2" "core S isn s2" "sn_syn_sent s2" using o2 by (auto simp: block_ok_def extends_core)
  obtain s3 m3 where p3: "push_fin s2 (sender_available s2) = (s3, m3)" and o3: "block_ok S isn s2 s3 m3"
    using push_fin_ok [OF e2(2,3) refl] by blast
  have e3: "extends S isn s2 s3 m3" "core S isn s3" "sn_syn_sent s3" using o3 by (auto simp: block_ok_def extends_core)
  obtain s4 m4 where p4: "push_fin_ready s3 = (s4, m4)" and o4: "block_ok S isn s3 s4 m4"
    using push_fin_ready_ok [OF e3(2,3)] by blast
  have e4: "extends S isn s3 s4 m4" "core S isn s4" "sn_syn_sent s4" using o4 by (auto simp: block_ok_def extends_core)
  have e: "extends S isn s s4 (m1 @ m2 @ m3 @ m4)"
    using extends_trans [OF extends_trans [OF extends_trans [OF e1(1) e2(1)] e3(1)] e4(1)] by simp
  have st: "probe_state s4 = probe_state s"
    using probe_push_parts(1) [of s] probe_push_loop [of s1 "sender_available s1"]
      probe_push_parts(2) [of s2 "sender_available s2"] probe_push_parts(3) [of s3] by (simp add: p1 p2 p3 p4)
  have s': "s' = fst (push_probe s4)"
    by (simp add: s'_def push_data_def p1 p2 p3 p4 split: prod.split)
  note rest = push_probe_rest [OF e4(2,3) small probing_extends [OF core e st pr], folded s']
  have w4: "sn_window_size s4 = sn_window_size s" using extends_window [OF e] .
  have "sn_outstanding s' \<noteq> [] \<or> bs_stream (sn_input s') = []" if "sn_window_size s \<noteq> 0"
  proof -
    have "0 < unat (sn_window_size s)" using that by (simp add: word_neq_0_conv [symmetric] unat_gt_0)
    moreover have "core S isn s'"
      using push_data_ok [OF core] by (auto simp: s'_def extends_core)
    then have "sn_outstanding s' = [] \<Longrightarrow> unat (sn_bytes_unack s') = 0" using coreD(7) by fastforce
    ultimately show ?thesis using push_greedy [OF core, folded s'_def] by (auto simp: unsent_def)
  qed
  then show ?thesis using rest w4 st by (auto simp: probe_state_def)
qed

section \<open>Acknowledgments\<close>

lemma probing_ack_segment:
  assumes core: "core S isn (timed s)" and out: "sn_outstanding s = m # ms"
    and near: "unat (sn_bytes_unack s) \<le> 2 ^ 31" and pr: "probing s"
  shows "probing (ack_segment s m)"
proof (cases "sn_probe_seqno s = Some (of_nat (left_edge s))")
  case True
  then show ?thesis using oldest_position(1) [OF assms(1-3)] by (simp add: probing_def ack_segment_def Let_def)
next
  case False
  have "sn_probe_sent (ack_segment s m) = sn_probe_sent s" "sn_probe_seqno (ack_segment s m) = sn_probe_seqno s"
    using False oldest_position(1) [OF assms(1-3)] by (simp_all add: ack_segment_def Let_def)
  then show ?thesis
    using pr False ack_segment_core(3) [OF assms(1-3)] by (auto simp: probing_def out)
qed

lemma probing_ack_loop:
  "core S isn (timed s) \<Longrightarrow> unat (sn_bytes_unack s) \<le> 2 ^ 31 \<Longrightarrow> probing s \<Longrightarrow> probing (ack_loop s ackno)"
proof (induction s ackno rule: ack_loop.induct)
  case (1 s ackno)
  show ?case
  proof (cases "sn_outstanding s")
    case Nil
    then show ?thesis using 1(4) by (simp add: ack_loop.simps [of s])
  next
    case (Cons m ms)
    note seg = ack_segment_core [OF 1(2) Cons 1(3)] and pr = probing_ack_segment [OF 1(2) Cons 1(3,4)]
    show ?thesis
    proof (cases "fully_acked s ackno m")
      case True
      then show ?thesis using 1(1) [OF Cons True seg(1) _ pr] seg(2) 1(3) Cons by (simp add: ack_loop.simps [of s])
    next
      case False
      then show ?thesis using 1(4) Cons by (simp add: ack_loop.simps [of s])
    qed
  qed
qed

lemma probing_receive:
  assumes core: "core S isn s" and near: "unat (sn_bytes_unack s) \<le> 2 ^ 31" and pr: "probing s"
    and rst: "\<not> rm_RST msg"
  shows "probing (tcp_sender_receive s msg)"
proof -
  let ?s = "update_window s (rm_window_size msg)"
  have "probing ?s" using pr by (simp add: probing_def update_window_def left_edge_def)
  moreover have "core S isn (timed ?s)" using core timed_core [of S isn ?s] by simp
  ultimately have loop: "probing (ack_loop ?s ackno)" for ackno using probing_ack_loop near by simp
  have "probing (t\<lparr>sn_timer := x, sn_timer_active := y, sn_RTO := z, sn_consecutive := w\<rparr>)
      \<and> probing (t\<lparr>sn_timer_active := y, sn_RTO := z, sn_consecutive := w\<rparr>)" if "probing t" for t x y z w
    using that by (simp add: probing_def left_edge_def)
  then show ?thesis
    using loop \<open>probing ?s\<close> rst by (auto simp: tcp_sender_receive_def Let_def split: option.split)
qed

section \<open>Any event\<close>

lemma probing_step:
  assumes inv: "sender_inv S isn s" and ok: "send_ok S s e" and small: "length S + 2 < 2 ^ 31"
    and pr: "\<not> bs_error (sn_input s) \<longrightarrow> probing s" and noerr: "\<not> bs_error (sn_input (send_step s e))"
  shows "probing (send_step s e)"
proof -
  have err: "\<not> bs_error (sn_input s)" using noerr error_stays by blast
  then have core: "core S isn s" using inv by (simp add: sender_inv_def)
  show ?thesis
  proof (cases e)
    case Send
    then show ?thesis
      using push_data_rest [OF core small] pr err by (simp add: send_step_def tcp_sender_push_def has_error_def)
  next
    case (Ack msg)
    have "\<not> rm_RST msg" using noerr by (auto simp: Ack send_step_def receive_input set_error_def)
    then show ?thesis using probing_receive [OF core] pr err ok by (simp add: Ack send_step_def)
  qed (use pr err in \<open>simp_all add: send_step_def probing_def left_edge_def tcp_sender_tick_def Let_def\<close>)
qed

end
