(* ===== verification/Reassembler.thy ===== *)
theory Reassembler
  imports Byte_Stream
begin

text \<open>
  \<open>src/reassembler.hh\<close> and the live code of \<open>Reassembler::insert\<close> in
  \<open>src/reassembler.cc\<close> (its first 130 lines are commented out): substrings of a stream
  arrive in any order, overlapping and repeated, and are put together again in a buffer as
  large as the stream's free capacity, with one occupancy flag per byte. The function is
  modelled as the sequence of its five steps. The lemmas are stated against the peer's
  stream \<open>S\<close>, of which every inserted substring is a part.
\<close>

record Reassembler =
  ra_output :: ByteStream
  ra_buf :: "byte list"
  ra_occupancy :: "bool list"
  ra_total_size :: "u64 option"

definition reassembler :: "ByteStream \<Rightarrow> Reassembler" where
  "reassembler output =
     \<lparr>ra_output = output, ra_buf = [], ra_occupancy = [], ra_total_size = None\<rparr>"

definition ra_mark_last :: "u64 \<Rightarrow> byte list \<Rightarrow> bool \<Rightarrow> Reassembler \<Rightarrow> Reassembler" where
  "ra_mark_last first_index data is_last_substring r =
     (if is_last_substring then r\<lparr>ra_total_size := Some (first_index + vsize data)\<rparr> else r)"

text \<open>
  \<open>resize\<close> of a string and of a \<open>vector<bool>\<close> throw \<open>length_error\<close> above their \<open>max_size()\<close>,
  which the library chooses: a parameter, the smaller of the two. \<open>resize_throws\<close> is that
  exception of \<open>insert\<close>, which leaves at its second statement; \<open>ra_resize\<close> is the effect of the
  two calls when they return.
\<close>

definition resize_throws :: "nat \<Rightarrow> Reassembler \<Rightarrow> bool" where
  "resize_throws max_size r \<longleftrightarrow> max_size < unat (available_capacity (ra_output r))"

definition ra_resize :: "Reassembler \<Rightarrow> Reassembler" where
  "ra_resize r =
     r\<lparr>ra_buf := resize 0 (unat (available_capacity (ra_output r))) (ra_buf r),
       ra_occupancy := resize False (unat (available_capacity (ra_output r))) (ra_occupancy r)\<rparr>"

text \<open>
  The ranges that \<open>std::copy\<close> reads and writes: first and last index in \<open>data\<close>, and in
  \<open>buf_\<close>, when the substring meets the window.
\<close>

definition insert_ranges ::
    "Reassembler \<Rightarrow> u64 \<Rightarrow> byte list \<Rightarrow> ((u64 \<times> u64) \<times> (u64 \<times> u64)) option" where
  "insert_ranges r first_index data =
     (let first_unassembled = bytes_pushed (ra_output r);
          first_unacceptable = first_unassembled + available_capacity (ra_output r);
          left_wanted = max first_unassembled first_index;
          right_wanted = min first_unacceptable (first_index + vsize data);
          left_in_data = left_wanted - first_index; right_in_data = right_wanted - first_index;
          left_in_buf = left_wanted - first_unassembled;
          right_in_buf = right_wanted - first_unassembled
      in if left_wanted < right_wanted
         then Some ((left_in_data, right_in_data), (left_in_buf, right_in_buf)) else None)"

definition ra_store :: "u64 \<Rightarrow> byte list \<Rightarrow> Reassembler \<Rightarrow> Reassembler" where
  "ra_store first_index data r =
     (case insert_ranges r first_index data of
        Some ((left_in_data, right_in_data), (left_in_buf, right_in_buf)) \<Rightarrow>
          r\<lparr>ra_buf := overwrite (unat left_in_buf)
              (take (unat right_in_data - unat left_in_data) (drop (unat left_in_data) data))
              (ra_buf r),
            ra_occupancy := overwrite (unat left_in_buf)
              (replicate (unat right_in_buf - unat left_in_buf) True) (ra_occupancy r)\<rparr>
      | None \<Rightarrow> r)"

definition ra_flush :: "Reassembler \<Rightarrow> Reassembler" where
  "ra_flush r =
     (let count = length (takeWhile id (ra_occupancy r))
      in r\<lparr>ra_output := writer_push (ra_output r) (take count (ra_buf r)),
           ra_buf := drop count (ra_buf r),
           ra_occupancy := drop count (ra_occupancy r)\<rparr>)"

definition ra_close_if_complete :: "Reassembler \<Rightarrow> Reassembler" where
  "ra_close_if_complete r =
     (case ra_total_size r of
        Some n \<Rightarrow>
          (if n = bytes_pushed (ra_output r)
           then r\<lparr>ra_output := writer_close (ra_output r)\<rparr> else r)
      | None \<Rightarrow> r)"

definition reassembler_insert :: "Reassembler \<Rightarrow> u64 \<Rightarrow> byte list \<Rightarrow> bool \<Rightarrow> Reassembler" where
  "reassembler_insert r first_index data is_last_substring =
     ra_close_if_complete (ra_flush (ra_store first_index data (ra_resize
       (ra_mark_last first_index data is_last_substring r))))"

text \<open>The sum of the flags; the accumulator is an \<open>int\<close>, enough for a capacity below \<open>2 ^ 31\<close>.\<close>

definition count_bytes_pending :: "Reassembler \<Rightarrow> u64" where
  "count_bytes_pending r = sum_list (map of_bool (ra_occupancy r))"

text \<open>The owner of the stream reads, and reports errors, through \<open>Reassembler::reader()\<close>.\<close>

definition reassembler_pop :: "Reassembler \<Rightarrow> u64 \<Rightarrow> Reassembler" where
  "reassembler_pop r len = r\<lparr>ra_output := reader_pop (ra_output r) len\<rparr>"

definition reassembler_set_error :: "Reassembler \<Rightarrow> Reassembler" where
  "reassembler_set_error r = r\<lparr>ra_output := set_error (ra_output r)\<rparr>"

section \<open>The invariant\<close>

text \<open>The number of the first byte that is not assembled yet, and the bytes known beyond it.\<close>

definition assembled :: "Reassembler \<Rightarrow> nat" where
  "assembled r = unat (bytes_pushed (ra_output r))"

definition window_end :: "Reassembler \<Rightarrow> nat" where
  "window_end r = assembled r + unat (available_capacity (ra_output r))"

definition known :: "Reassembler \<Rightarrow> nat set" where
  "known r = {..<assembled r} \<union>
     {k. assembled r \<le> k \<and> k < assembled r + length (ra_occupancy r)
         \<and> ra_occupancy r ! (k - assembled r)}"

text \<open>A stored byte sits at its distance from the first unassembled byte.\<close>

definition stored_ok :: "byte list \<Rightarrow> Reassembler \<Rightarrow> bool" where
  "stored_ok S r \<longleftrightarrow> length (ra_buf r) = length (ra_occupancy r)
     \<and> (\<forall>i < length (ra_occupancy r). ra_occupancy r ! i \<longrightarrow>
          assembled r + i < length S \<and> ra_buf r ! i = S ! (assembled r + i))"

definition ra_inv :: "byte list \<Rightarrow> Reassembler \<Rightarrow> bool" where
  "ra_inv S r \<longleftrightarrow> bs_inv (ra_output r)
     \<and> length S + unat (bs_capacity (ra_output r)) < 2 ^ 64
     \<and> assembled r \<le> length S
     \<and> unat (bytes_popped (ra_output r)) + length (bs_stream (ra_output r)) = assembled r
     \<and> bs_stream (ra_output r) = drop (unat (bytes_popped (ra_output r))) (take (assembled r) S)
     \<and> stored_ok S r
     \<and> length (ra_occupancy r) \<le> unat (available_capacity (ra_output r))
     \<and> (ra_occupancy r \<noteq> [] \<longrightarrow> \<not> hd (ra_occupancy r))
     \<and> (\<forall>n. ra_total_size r = Some n \<longrightarrow> unat n = length S)
     \<and> (bs_closed (ra_output r) \<longleftrightarrow> ra_total_size r \<noteq> None \<and> assembled r = length S)"

lemma ra_inv_bs: "ra_inv S r \<Longrightarrow> bs_inv (ra_output r)"
  by (simp only: ra_inv_def)

section \<open>The steps of insert\<close>

lemma ra_mark_last_simps [simp]:
  "ra_output (ra_mark_last fi data l r) = ra_output r"
  "ra_buf (ra_mark_last fi data l r) = ra_buf r"
  "ra_occupancy (ra_mark_last fi data l r) = ra_occupancy r"
  "assembled (ra_mark_last fi data l r) = assembled r"
  by (simp_all add: ra_mark_last_def assembled_def)

lemma ra_resize_simps [simp]:
  "ra_output (ra_resize r) = ra_output r"
  "ra_total_size (ra_resize r) = ra_total_size r"
  "assembled (ra_resize r) = assembled r"
  "length (ra_buf (ra_resize r)) = unat (available_capacity (ra_output r))"
  "length (ra_occupancy (ra_resize r)) = unat (available_capacity (ra_output r))"
  by (simp_all add: ra_resize_def assembled_def)

lemma ra_store_simps [simp]:
  "ra_output (ra_store fi data r) = ra_output r"
  "ra_total_size (ra_store fi data r) = ra_total_size r"
  "assembled (ra_store fi data r) = assembled r"
  by (auto simp: ra_store_def assembled_def split: option.splits)

lemma ra_resize_occupancy:
  "i < unat (available_capacity (ra_output r)) \<Longrightarrow>
     ra_occupancy (ra_resize r) ! i \<longleftrightarrow> i < length (ra_occupancy r) \<and> ra_occupancy r ! i"
  by (simp add: ra_resize_def nth_resize)

lemma stored_ok_resize: "stored_ok S r \<Longrightarrow> stored_ok S (ra_resize r)"
  by (auto simp: stored_ok_def ra_resize_def nth_resize assembled_def split: if_splits)

text \<open>
  With the buffers resized to the window, a consistent substring is stored exactly where it
  meets the window; every range that is copied or filled lies inside its container.
\<close>

lemma insert_ranges_nat:
  assumes room: "window_end r < 2 ^ 64" and data: "unat fi + length data < 2 ^ 64"
  defines "p \<equiv> assembled r"
  defines "left \<equiv> max p (unat fi)" and "right \<equiv> min (window_end r) (unat fi + length data)"
  shows "\<not> left < right \<Longrightarrow> insert_ranges r fi data = None"
    and "left < right \<Longrightarrow> \<exists>ld rd lb rb. insert_ranges r fi data = Some ((ld, rd), (lb, rb))
      \<and> unat ld = left - unat fi \<and> unat rd = right - unat fi
      \<and> unat lb = left - p \<and> unat rb = right - p"
proof -
  let ?av = "available_capacity (ra_output r)" and ?p = "bytes_pushed (ra_output r)"
  have up: "unat ?p = p" by (simp add: p_def assembled_def)
  have "unat (?p + ?av) = window_end r"
    using room by (simp add: unat_add64 window_end_def assembled_def)
  moreover have "fits data" using data by (simp add: fits_def)
  then have "unat (fi + vsize data) = unat fi + length data"
    using data by (simp add: unat_add64 unat_vsize)
  ultimately have l: "unat (max ?p fi) = left" and r: "unat (min (?p + ?av) (fi + vsize data)) = right"
    by (simp_all add: unat_max unat_min up left_def right_def)
  have lt: "max ?p fi < min (?p + ?av) (fi + vsize data) \<longleftrightarrow> left < right"
    by (simp only: word_less_nat_alt l r)
  show "\<not> left < right \<Longrightarrow> insert_ranges r fi data = None"
    by (simp only: insert_ranges_def Let_def lt if_False)
  assume c: "left < right"
  have "unat (max ?p fi - fi) = left - unat fi" "unat (max ?p fi - ?p) = left - p"
    using l up by (simp_all add: unat_sub_nat left_def)
  moreover have "unat (min (?p + ?av) (fi + vsize data) - fi) = right - unat fi"
    "unat (min (?p + ?av) (fi + vsize data) - ?p) = right - p"
    using r up c by (simp_all add: unat_sub_nat left_def)
  moreover have "insert_ranges r fi data =
      Some ((max ?p fi - fi, min (?p + ?av) (fi + vsize data) - fi),
        (max ?p fi - ?p, min (?p + ?av) (fi + vsize data) - ?p))"
    using c by (simp only: insert_ranges_def Let_def lt if_True)
  ultimately show "\<exists>ld rd lb rb. insert_ranges r fi data = Some ((ld, rd), (lb, rb))
      \<and> unat ld = left - unat fi \<and> unat rd = right - unat fi
      \<and> unat lb = left - p \<and> unat rb = right - p"
    by blast
qed

lemma ra_store_effect:
  assumes room: "assembled r + unat (available_capacity (ra_output r)) < 2 ^ 64"
    and data: "unat fi + length data < 2 ^ 64"
  defines "p \<equiv> assembled r" and "a \<equiv> unat (available_capacity (ra_output r))"
  defines "left \<equiv> max p (unat fi)" and "right \<equiv> min (p + a) (unat fi + length data)"
  shows "ra_store fi data r =
    (if left < right
     then r\<lparr>ra_buf := overwrite (left - p) (take (right - left) (drop (left - unat fi) data)) (ra_buf r),
            ra_occupancy := overwrite (left - p) (replicate (right - left) True) (ra_occupancy r)\<rparr>
     else r)"
proof -
  have we: "window_end r = p + a" by (simp add: window_end_def p_def a_def)
  have "window_end r < 2 ^ 64" using room by (simp add: window_end_def)
  note ranges = insert_ranges_nat [OF this data, folded p_def, unfolded we, folded left_def right_def]
  show ?thesis
  proof (cases "left < right")
    case True
    then obtain ld rd lb rb where ir: "insert_ranges r fi data = Some ((ld, rd), (lb, rb))"
      and u: "unat ld = left - unat fi" "unat rd = right - unat fi"
        "unat lb = left - p" "unat rb = right - p"
      using ranges(2) by blast
    have d: "right - unat fi - (left - unat fi) = right - left"
      "right - p - (left - p) = right - left"
      by (auto simp: left_def)
    show ?thesis using True by (simp only: ra_store_def ir option.case prod.case u d if_True)
  next
    case False
    then have "insert_ranges r fi data = None" by (rule ranges(1))
    then show ?thesis using False by (simp only: ra_store_def option.case if_False)
  qed
qed


text \<open>\<open>ra_store\<close> under the invariant: what is occupied afterwards, and with which bytes.\<close>

lemma ra_store_ok:
  assumes room: "length S + unat (bs_capacity (ra_output r)) < 2 ^ 64"
    and av: "unat (available_capacity (ra_output r)) \<le> unat (bs_capacity (ra_output r))"
    and p: "assembled r \<le> length S"
    and len: "length (ra_occupancy r) = unat (available_capacity (ra_output r))"
    and st: "stored_ok S r"
    and con: "consistent S fi data l"
  shows "length (ra_occupancy (ra_store fi data r)) = length (ra_occupancy r)"
    and "i < length (ra_occupancy r) \<Longrightarrow>
      ra_occupancy (ra_store fi data r) ! i \<longleftrightarrow>
        ra_occupancy r ! i \<or> (unat fi \<le> assembled r + i \<and> assembled r + i < unat fi + length data)"
    and "stored_ok S (ra_store fi data r)"
proof -
  define p where "p = assembled r"
  define a where "a = unat (available_capacity (ra_output r))"
  define left where "left = max p (unat fi)"
  define right where "right = min (p + a) (unat fi + length data)"
  have fd: "unat fi + length data \<le> length S" using con by (simp add: consistent_def)
  have "assembled r + a < 2 ^ 64" "unat fi + length data < 2 ^ 64"
    using room av p fd by (simp_all add: a_def)
  note eff = ra_store_effect [OF this [unfolded a_def], folded p_def a_def, folded left_def right_def]
  have lo: "length (ra_occupancy r) = a" "length (ra_buf r) = a"
    using len st by (simp_all add: a_def stored_ok_def)
  let ?r = "ra_store fi data r"
  let ?d = "take (right - left) (drop (left - unat fi) data)"
  have ld: "left < right \<Longrightarrow> length ?d = right - left"
    by (auto simp: left_def right_def)
  have fit: "left < right \<Longrightarrow> left - p + (right - left) \<le> a"
    by (auto simp: left_def right_def)
  have range: "left < right \<Longrightarrow> (left - p \<le> i \<and> i < left - p + (right - left)) \<longleftrightarrow>
      i < a \<and> unat fi \<le> p + i \<and> p + i < unat fi + length data" for i
    by (auto simp: left_def right_def)
  have outside: "\<not> left < right \<Longrightarrow> i < a \<Longrightarrow> \<not> (unat fi \<le> p + i \<and> p + i < unat fi + length data)" for i
    by (auto simp: left_def right_def)
  have occ: "ra_occupancy ?r ! i \<longleftrightarrow>
      ra_occupancy r ! i \<or> (unat fi \<le> p + i \<and> p + i < unat fi + length data)" if "i < a" for i
    using that eff fit range [of i] outside [of i] lo by (auto simp: nth_overwrite)
  show l: "length (ra_occupancy ?r) = length (ra_occupancy r)"
    using eff fit lo by simp
  show "i < length (ra_occupancy r) \<Longrightarrow>
      ra_occupancy ?r ! i \<longleftrightarrow>
        ra_occupancy r ! i \<or> (unat fi \<le> assembled r + i \<and> assembled r + i < unat fi + length data)"
    using occ lo by (simp add: p_def)
  have lb: "length (ra_buf ?r) = a"
    using eff fit lo ld by simp
  have "p + i < length S \<and> ra_buf ?r ! i = S ! (p + i)"
    if i: "i < a" and o: "ra_occupancy ?r ! i" for i
  proof (cases "unat fi \<le> p + i \<and> p + i < unat fi + length data")
    case True
    have lt: "left < right" using outside [OF _ i] True by blast
    then have in_range: "left - p \<le> i \<and> i < left - p + (right - left)"
      using range [of i] i True by blast
    then have "ra_buf ?r ! i = ?d ! (i - (left - p))"
      using eff lt fit lo ld by (simp add: nth_overwrite)
    also have "\<dots> = data ! (left - unat fi + (i - (left - p)))"
      using in_range lt by (subst nth_take) (auto simp: left_def right_def)
    also have "left - unat fi + (i - (left - p)) = p + i - unat fi"
      using in_range True by (auto simp: left_def)
    also have "data ! (p + i - unat fi) = S ! (unat fi + (p + i - unat fi))"
      using True by (intro consistent_nth [OF con]) auto
    finally show ?thesis using True fd by simp
  next
    case False
    then have "ra_occupancy r ! i" and "\<not> (left < right \<and> left - p \<le> i \<and> i < left - p + (right - left))"
      using occ [OF i] o range [of i] by auto
    then have "ra_buf ?r ! i = ra_buf r ! i"
      using eff fit lo ld by (auto simp: nth_overwrite)
    then show ?thesis
      using st \<open>ra_occupancy r ! i\<close> i lo by (simp add: stored_ok_def p_def)
  qed
  then show "stored_ok S ?r"
    using l lb lo by (simp add: stored_ok_def p_def)
qed


text \<open>\<open>ra_flush\<close> moves the maximal occupied prefix to the output stream.\<close>

definition ready :: "Reassembler \<Rightarrow> nat" where
  "ready r = length (takeWhile id (ra_occupancy r))"

lemma ready_le: "ready r \<le> length (ra_occupancy r)"
  by (simp add: ready_def length_takeWhile_le)

lemma ready_nth: "i < ready r \<Longrightarrow> ra_occupancy r ! i"
  unfolding ready_def by (metis id_apply nth_mem set_takeWhileD takeWhile_nth)

lemma ready_stop: "ready r < length (ra_occupancy r) \<Longrightarrow> \<not> ra_occupancy r ! ready r"
  unfolding ready_def using nth_length_takeWhile [of id "ra_occupancy r"] by simp

lemma ready_bytes:
  assumes "stored_ok S r"
  shows "take (ready r) (ra_buf r) = take (ready r) (drop (assembled r) S)"
    and "ready r \<le> length S - assembled r"
proof -
  have st: "i < ready r \<Longrightarrow> assembled r + i < length S \<and> ra_buf r ! i = S ! (assembled r + i)" for i
    using assms ready_nth [of i r] ready_le [of r] by (simp add: stored_ok_def)
  show le: "ready r \<le> length S - assembled r"
  proof (cases "ready r")
    case (Suc n)
    then show ?thesis using st [of n] by linarith
  qed simp
  show "take (ready r) (ra_buf r) = take (ready r) (drop (assembled r) S)"
  proof (rule nth_equalityI)
    show "length (take (ready r) (ra_buf r)) = length (take (ready r) (drop (assembled r) S))"
      using le ready_le [of r] assms by (simp add: stored_ok_def)
  next
    fix i assume "i < length (take (ready r) (ra_buf r))"
    then have "i < ready r" by simp
    then show "take (ready r) (ra_buf r) ! i = take (ready r) (drop (assembled r) S) ! i"
      using st [of i] by simp
  qed
qed

lemma ra_flush_effect:
  assumes inv: "bs_inv (ra_output r)" and st: "stored_ok S r"
    and len: "length (ra_occupancy r) = unat (available_capacity (ra_output r))"
    and room: "assembled r + unat (available_capacity (ra_output r)) < 2 ^ 64"
    and cl: "bs_closed (ra_output r) \<Longrightarrow> ready r = 0"
  shows "ra_flush r = r\<lparr>ra_output := (ra_output r)
        \<lparr>bs_stream := bs_stream (ra_output r) @ take (ready r) (drop (assembled r) S),
          bs_pushed := bs_pushed (ra_output r) + of_nat (ready r)\<rparr>,
      ra_buf := drop (ready r) (ra_buf r), ra_occupancy := drop (ready r) (ra_occupancy r)\<rparr>"
    and "assembled (ra_flush r) = assembled r + ready r"
    and "bs_inv (ra_output (ra_flush r))"
    and "unat (available_capacity (ra_output (ra_flush r)))
      = unat (available_capacity (ra_output r)) - ready r"
    and "stored_ok S (ra_flush r)"
proof -
  let ?o = "ra_output r" and ?c = "ready r"
  have c: "?c \<le> unat (available_capacity ?o)" using ready_le [of r] len by simp
  then have c64: "?c < 2 ^ 64" using u64_bound [of "available_capacity ?o"] by linarith
  have lb: "length (take ?c (ra_buf r)) = ?c"
    using ready_le [of r] st by (simp add: stored_ok_def)
  then have fits: "fits (take ?c (ra_buf r))" using c64 by (simp add: fits_def)
  have room_c: "?c \<le> room ?o"
    using c cl unat_available_capacity [OF inv] by (cases "bs_closed ?o") (simp_all add: room_def)
  have push: "writer_push ?o (take ?c (ra_buf r)) = ?o
      \<lparr>bs_stream := bs_stream ?o @ take ?c (drop (assembled r) S),
        bs_pushed := bs_pushed ?o + of_nat ?c\<rparr>"
  proof -
    have "take (room ?o) (take ?c (ra_buf r)) = take ?c (ra_buf r)"
      and "min (room ?o) (length (take ?c (ra_buf r))) = ?c"
      using room_c lb by (simp_all add: min_absorb2)
    then have "writer_push ?o (take ?c (ra_buf r)) = ?o
        \<lparr>bs_stream := bs_stream ?o @ take ?c (ra_buf r), bs_pushed := bs_pushed ?o + of_nat ?c\<rparr>"
      by (simp only: writer_push_effect [OF inv fits])
    then show ?thesis by (simp only: ready_bytes(1) [OF st])
  qed
  show eff: "ra_flush r = r\<lparr>ra_output := ?o
        \<lparr>bs_stream := bs_stream ?o @ take ?c (drop (assembled r) S),
          bs_pushed := bs_pushed ?o + of_nat ?c\<rparr>,
      ra_buf := drop ?c (ra_buf r), ra_occupancy := drop ?c (ra_occupancy r)\<rparr>"
    by (simp add: ra_flush_def push Let_def flip: ready_def)
  show inv': "bs_inv (ra_output (ra_flush r))"
    using bs_inv_push [OF inv fits] by (simp add: ra_flush_def Let_def flip: ready_def)
  have "unat (bs_pushed ?o + of_nat ?c) = unat (bs_pushed ?o) + ?c"
    using room c c64 by (simp add: unat_add64 unat_of_nat64 assembled_def bytes_pushed_def)
  then show asm: "assembled (ra_flush r) = assembled r + ?c"
    by (simp add: eff assembled_def bytes_pushed_def)
  show "unat (available_capacity (ra_output (ra_flush r))) = unat (available_capacity ?o) - ?c"
    using unat_available_capacity [OF inv'] unat_available_capacity [OF inv] lb ready_bytes [OF st]
    by (simp add: eff)
  show "stored_ok S (ra_flush r)"
    unfolding stored_ok_def asm
    using st ready_le [of r] by (auto simp: eff stored_ok_def add.assoc)
qed

section \<open>insert keeps the invariant and remembers what the window admits\<close>

lemma ra_inv_window: "ra_inv S r \<Longrightarrow> window_end r < 2 ^ 64"
  using unat_available_capacity [of "ra_output r"] by (auto simp: ra_inv_def window_end_def)

lemma assembled_close [simp]: "assembled (ra_close_if_complete r) = assembled r"
  by (auto simp: ra_close_if_complete_def assembled_def bytes_pushed_def writer_close_def
      split: option.splits)

lemma close_simps [simp]:
  "ra_buf (ra_close_if_complete r) = ra_buf r"
  "ra_occupancy (ra_close_if_complete r) = ra_occupancy r"
  "ra_total_size (ra_close_if_complete r) = ra_total_size r"
  "bs_stream (ra_output (ra_close_if_complete r)) = bs_stream (ra_output r)"
  "bs_capacity (ra_output (ra_close_if_complete r)) = bs_capacity (ra_output r)"
  "bytes_popped (ra_output (ra_close_if_complete r)) = bytes_popped (ra_output r)"
  "available_capacity (ra_output (ra_close_if_complete r)) = available_capacity (ra_output r)"
  by (auto simp: ra_close_if_complete_def writer_close_def bytes_popped_def available_capacity_def
      split: option.splits)

lemma stored_ok_close [simp]: "stored_ok S (ra_close_if_complete r) = stored_ok S r"
  by (simp add: stored_ok_def)

lemma bs_inv_close_if [simp]:
  "bs_inv (ra_output (ra_close_if_complete r)) = bs_inv (ra_output r)"
  by (auto simp: ra_close_if_complete_def writer_close_def bs_inv_def split: option.splits)

lemma closed_close_if:
  "bs_closed (ra_output (ra_close_if_complete r)) \<longleftrightarrow>
     bs_closed (ra_output r) \<or> ra_total_size r = Some (bytes_pushed (ra_output r))"
  by (auto simp: ra_close_if_complete_def writer_close_def split: option.splits)


text \<open>The state of \<open>insert\<close> before the flush, and everything that is true of it.\<close>

definition before_flush :: "Reassembler \<Rightarrow> u64 \<Rightarrow> byte list \<Rightarrow> bool \<Rightarrow> Reassembler" where
  "before_flush r fi data l = ra_store fi data (ra_resize (ra_mark_last fi data l r))"

lemma insert_alt:
  "reassembler_insert r fi data l = ra_close_if_complete (ra_flush (before_flush r fi data l))"
  by (simp add: reassembler_insert_def before_flush_def)

lemma before_flush_simps [simp]:
  "ra_output (before_flush r fi data l) = ra_output r"
  "assembled (before_flush r fi data l) = assembled r"
  "ra_total_size (before_flush r fi data l) = (if l then Some (fi + vsize data) else ra_total_size r)"
  by (simp_all add: before_flush_def) (simp add: ra_mark_last_def)

lemma ra_inv_available:
  assumes "ra_inv S r"
  shows "unat (available_capacity (ra_output r)) \<le> unat (bs_capacity (ra_output r))"
    and "assembled r + unat (available_capacity (ra_output r)) < 2 ^ 64"
  using assms unat_available_capacity [of "ra_output r"] by (auto simp: ra_inv_def)

lemma before_flush_ok:
  assumes inv: "ra_inv S r" and con: "consistent S fi data l"
  defines "r' \<equiv> before_flush r fi data l"
  shows "length (ra_occupancy r') = unat (available_capacity (ra_output r))"
    and "i < length (ra_occupancy r') \<Longrightarrow> ra_occupancy r' ! i \<longleftrightarrow>
      i < length (ra_occupancy r) \<and> ra_occupancy r ! i
      \<or> (unat fi \<le> assembled r + i \<and> assembled r + i < unat fi + length data)"
    and "stored_ok S r'"
    and "bs_closed (ra_output r) \<Longrightarrow> ready r' = 0"
proof -
  let ?m = "ra_resize (ra_mark_last fi data l r)"
  have out: "ra_output ?m = ra_output r" "assembled ?m = assembled r" by simp_all
  have st: "stored_ok S (ra_mark_last fi data l r)"
    using inv by (simp add: ra_inv_def stored_ok_def)
  note store = ra_store_ok [of S ?m, unfolded out, OF _ _ _ _ stored_ok_resize [OF st] con]
  have inv': "length S + unat (bs_capacity (ra_output r)) < 2 ^ 64" "assembled r \<le> length S"
    using inv by (simp_all add: ra_inv_def)
  note store = store [OF inv'(1) ra_inv_available(1) [OF inv] inv'(2)]
  show len: "length (ra_occupancy r') = unat (available_capacity (ra_output r))"
    using store(1) by (simp add: r'_def before_flush_def)
  show "i < length (ra_occupancy r') \<Longrightarrow> ra_occupancy r' ! i \<longleftrightarrow>
      i < length (ra_occupancy r) \<and> ra_occupancy r ! i
      \<or> (unat fi \<le> assembled r + i \<and> assembled r + i < unat fi + length data)"
    using store(2) [of i] len by (simp add: r'_def before_flush_def ra_resize_occupancy)
  show st': "stored_ok S r'"
    using store(3) by (simp add: r'_def before_flush_def)
  assume "bs_closed (ra_output r)"
  then have "assembled r = length S" using inv by (simp add: ra_inv_def)
  then show "ready r' = 0"
    using ready_bytes(2) [OF st'] by (simp add: r'_def)
qed

text \<open>What \<open>insert\<close> does, in terms of the state before the flush.\<close>

lemma insert_effect:
  assumes inv: "ra_inv S r" and con: "consistent S fi data l"
  defines "b \<equiv> before_flush r fi data l" and "r' \<equiv> reassembler_insert r fi data l"
  shows "assembled r' = assembled r + ready b"
    and "ra_occupancy r' = drop (ready b) (ra_occupancy b)"
    and "stored_ok S r'"
    and "bs_inv (ra_output r')"
    and "bs_stream (ra_output r') = bs_stream (ra_output r) @ take (ready b) (drop (assembled r) S)"
    and "unat (available_capacity (ra_output r')) = unat (available_capacity (ra_output r)) - ready b"
    and "bytes_popped (ra_output r') = bytes_popped (ra_output r)"
    and "bs_capacity (ra_output r') = bs_capacity (ra_output r)"
    and "ra_total_size r' = (if l then Some (fi + vsize data) else ra_total_size r)"
    and "bs_closed (ra_output r') \<longleftrightarrow>
      bs_closed (ra_output r) \<or> ra_total_size r' = Some (bytes_pushed (ra_output r'))"
proof -
  have bs: "bs_inv (ra_output b)" using inv by (simp add: b_def ra_inv_def)
  note before = before_flush_ok [OF inv con, folded b_def]
  have out: "ra_output b = ra_output r" "assembled b = assembled r" by (simp_all add: b_def)
  note fl = ra_flush_effect [OF bs before(3), unfolded out, OF before(1) ra_inv_available(2) [OF inv]
      before(4)]
  have r': "r' = ra_close_if_complete (ra_flush b)" by (simp add: r'_def insert_alt b_def)
  show "assembled r' = assembled r + ready b" by (simp add: r' fl(2))
  show "ra_occupancy r' = drop (ready b) (ra_occupancy b)" by (simp add: r' fl(1))
  show "stored_ok S r'" using fl(5) by (simp add: r')
  show "bs_inv (ra_output r')" using fl(3) by (simp add: r')
  show "bs_stream (ra_output r') = bs_stream (ra_output r) @ take (ready b) (drop (assembled r) S)"
    by (simp add: r' fl(1))
  show "unat (available_capacity (ra_output r')) = unat (available_capacity (ra_output r)) - ready b"
    by (simp add: r' fl(4))
  show "bytes_popped (ra_output r') = bytes_popped (ra_output r)"
    by (simp add: r') (simp add: fl(1) bytes_popped_def)
  show "bs_capacity (ra_output r') = bs_capacity (ra_output r)" by (simp add: r' fl(1))
  show "ra_total_size r' = (if l then Some (fi + vsize data) else ra_total_size r)"
    by (simp add: r' fl(1)) (simp add: b_def)
  show "bs_closed (ra_output r') \<longleftrightarrow>
      bs_closed (ra_output r) \<or> ra_total_size r' = Some (bytes_pushed (ra_output r'))"
  proof -
    have "bytes_pushed (ra_output r') = bytes_pushed (ra_output (ra_flush b))"
      by (auto simp: r' ra_close_if_complete_def writer_close_def bytes_pushed_def split: option.splits)
    then show ?thesis by (simp add: r' closed_close_if) (simp add: fl(1))
  qed
qed


lemma insert_inv:
  assumes inv: "ra_inv S r" and con: "consistent S fi data l"
  shows "ra_inv S (reassembler_insert r fi data l)"
proof -
  define b where "b = before_flush r fi data l"
  define r' where "r' = reassembler_insert r fi data l"
  note before = before_flush_ok [OF inv con, folded b_def]
  note eff = insert_effect [OF inv con, folded b_def r'_def]
  have S: "length S + unat (bs_capacity (ra_output r)) < 2 ^ 64" "assembled r \<le> length S"
    and fits: "unat (bytes_popped (ra_output r)) + length (bs_stream (ra_output r)) = assembled r"
    and str: "bs_stream (ra_output r) = drop (unat (bytes_popped (ra_output r))) (take (assembled r) S)"
    and tot: "\<forall>n. ra_total_size r = Some n \<longrightarrow> unat n = length S"
    and cl: "bs_closed (ra_output r) \<longleftrightarrow> ra_total_size r \<noteq> None \<and> assembled r = length S"
    using inv by (simp_all add: ra_inv_def)
  have rdy: "ready b \<le> length S - assembled r"
    using ready_bytes(2) [OF before(3)] by (simp add: b_def)
  have asm_le: "assembled r' \<le> length S" using rdy S eff(1) by linarith
  have pop_le: "unat (bytes_popped (ra_output r)) \<le> assembled r" using fits by linarith
  have str': "bs_stream (ra_output r') = drop (unat (bytes_popped (ra_output r'))) (take (assembled r') S)"
    using str pop_le S by (simp add: eff(1,5,7) take_add)
  have fits': "unat (bytes_popped (ra_output r')) + length (bs_stream (ra_output r')) = assembled r'"
    using fits rdy by (simp add: eff(1,5,7))
  have tot': "\<forall>n. ra_total_size r' = Some n \<longrightarrow> unat n = length S"
  proof (cases l)
    case True
    then have e: "unat fi + length data = length S" using con by (simp add: consistent_def)
    then have "fits data" "unat fi + length data < 2 ^ 64" using S by (simp_all add: fits_def)
    then have "unat (fi + vsize data) = length S" using e by (simp add: unat_add64 unat_vsize)
    then show ?thesis using True eff(9) by simp
  qed (use tot eff(9) in simp)
  have cl': "bs_closed (ra_output r') \<longleftrightarrow> ra_total_size r' \<noteq> None \<and> assembled r' = length S"
  proof -
    have "ra_total_size r' = Some (bytes_pushed (ra_output r')) \<longleftrightarrow>
        ra_total_size r' \<noteq> None \<and> assembled r' = length S"
      using tot' by (auto simp: assembled_def word_unat_eq_iff)
    moreover have "bs_closed (ra_output r) \<Longrightarrow> ra_total_size r' \<noteq> None \<and> assembled r' = length S"
      using cl rdy eff(1,9) by auto
    ultimately show ?thesis using eff(10) by blast
  qed
  have hd': "ra_occupancy r' \<noteq> [] \<longrightarrow> \<not> hd (ra_occupancy r')"
    using ready_stop [of b] by (simp add: eff(2) hd_drop_conv_nth)
  have "length (ra_occupancy r') \<le> unat (available_capacity (ra_output r'))"
    by (simp add: eff(2,6) before(1))
  then show ?thesis
    using eff(3,4,8) S asm_le str' fits' tot' cl' hd' by (simp add: ra_inv_def flip: r'_def)
qed

text \<open>The bytes known after an \<open>insert\<close>: those known before, and the new ones in the window.\<close>

lemma insert_known:
  assumes inv: "ra_inv S r" and con: "consistent S fi data l"
  shows "known (reassembler_insert r fi data l)
    = known r \<union> ({unat fi..<unat fi + length data} \<inter> {..<window_end r})"
proof (rule set_eqI)
  fix k
  define b where "b = before_flush r fi data l"
  define r' where "r' = reassembler_insert r fi data l"
  note before = before_flush_ok [OF inv con, folded b_def]
  note eff = insert_effect [OF inv con, folded b_def r'_def]
  let ?p = "assembled r"
  have lo: "length (ra_occupancy r) \<le> unat (available_capacity (ra_output r))"
    using inv by (simp add: ra_inv_def)
  have know': "k \<in> known r' \<longleftrightarrow> k < ?p + ready b \<or>
      (?p + ready b \<le> k \<and> k < ?p + length (ra_occupancy b) \<and> ra_occupancy b ! (k - ?p))"
    using ready_le [of b] by (auto simp: known_def eff(1,2))
  also have "\<dots> \<longleftrightarrow> k < ?p \<or> (?p \<le> k \<and> k < ?p + length (ra_occupancy b) \<and> ra_occupancy b ! (k - ?p))"
    using ready_nth [of "k - ?p" b] ready_le [of b] by (auto simp: not_less)
  also have "\<dots> \<longleftrightarrow> k \<in> known r \<or> (unat fi \<le> k \<and> k < unat fi + length data \<and> k < window_end r)"
  proof (cases "k < ?p")
    case False
    then obtain i where "k = ?p + i" using le_Suc_ex [of ?p k] by auto
    then show ?thesis
      using before(1) before(2) [of i] lo by (auto simp: known_def window_end_def)
  qed (simp add: known_def)
  finally show "k \<in> known (reassembler_insert r fi data l) \<longleftrightarrow>
      k \<in> known r \<union> ({unat fi..<unat fi + length data} \<inter> {..<window_end r})"
    by (simp add: r'_def)
qed

text \<open>It does not touch the error flag.\<close>

lemma insert_error [simp]: "bs_error (ra_output (reassembler_insert r i data is_last)) = bs_error (ra_output r)"
proof -
  have "ra_output (ra_store i data (ra_resize (ra_mark_last i data is_last r))) = ra_output r"
    by (simp add: ra_store_def ra_resize_def ra_mark_last_def split: option.split)
  then show ?thesis
    by (simp add: reassembler_insert_def ra_close_if_complete_def ra_flush_def writer_push_def writer_close_def Let_def
        split: option.split)
qed


section \<open>Runs of the reassembler\<close>

datatype reasm_op = Arrive u64 "byte list" bool | Consume u64 | Abort

fun reasm_step :: "Reassembler \<Rightarrow> reasm_op \<Rightarrow> Reassembler" where
  "reasm_step r (Arrive first_index data is_last) = reassembler_insert r first_index data is_last"
| "reasm_step r (Consume len) = reassembler_pop r len"
| "reasm_step r Abort = reassembler_set_error r"

fun reasm_ok :: "byte list \<Rightarrow> Reassembler \<Rightarrow> reasm_op \<Rightarrow> bool" where
  "reasm_ok S r (Arrive first_index data is_last) = consistent S first_index data is_last"
| "reasm_ok S r _ = True"

text \<open>What the owner of the stream reads out, and the indices an event brings.\<close>

fun reasm_out :: "Reassembler \<Rightarrow> reasm_op \<Rightarrow> byte list" where
  "reasm_out r (Consume len) = take (unat len) (reader_peek (ra_output r))"
| "reasm_out r _ = []"

fun brings :: "reasm_op \<Rightarrow> nat set" where
  "brings (Arrive first_index data is_last) = {unat first_index..<unat first_index + length data}"
| "brings _ = {}"

lemma abort_simps [simp]:
  "ra_total_size (reassembler_set_error r) = ra_total_size r"
  "assembled (reassembler_set_error r) = assembled r"
  "window_end (reassembler_set_error r) = window_end r"
  "known (reassembler_set_error r) = known r"
  "ra_inv S (reassembler_set_error r) = ra_inv S r"
  "bs_capacity (ra_output (reassembler_set_error r)) = bs_capacity (ra_output r)"
  "bs_stream (ra_output (reassembler_set_error r)) = bs_stream (ra_output r)"
  by (simp_all add: reassembler_set_error_def set_error_def assembled_def bytes_pushed_def known_def
      window_end_def available_capacity_def ra_inv_def bs_inv_def stored_ok_def bytes_popped_def)

lemma pop_simps [simp]:
  "ra_buf (reassembler_pop r n) = ra_buf r"
  "ra_occupancy (reassembler_pop r n) = ra_occupancy r"
  "ra_total_size (reassembler_pop r n) = ra_total_size r"
  by (simp_all add: reassembler_pop_def)

lemma pop_effect:
  fixes n :: u64
  assumes "bs_inv (ra_output r)"
  defines "r' \<equiv> reassembler_pop r n"
  shows "assembled r' = assembled r"
    and "bs_stream (ra_output r') = drop (unat n) (bs_stream (ra_output r))"
    and "bytes_popped (ra_output r') = bytes_popped (ra_output r)
      + of_nat (min (unat n) (length (bs_stream (ra_output r))))"
    and "bs_closed (ra_output r') = bs_closed (ra_output r)"
    and "bs_capacity (ra_output r') = bs_capacity (ra_output r)"
    and "unat (available_capacity (ra_output r')) =
      unat (bs_capacity (ra_output r)) - (length (bs_stream (ra_output r)) - unat n)"
  using unat_available_capacity [OF bs_inv_pop [OF assms(1), of n]]
  by (simp_all add: r'_def reassembler_pop_def assembled_def bytes_pushed_def bytes_popped_def
      reader_pop_effect [OF assms(1)])

lemma pop_inv:
  assumes inv: "ra_inv S r"
  shows "ra_inv S (reassembler_pop r n)"
    and "unat (bytes_popped (ra_output (reassembler_pop r n)))
      = unat (bytes_popped (ra_output r)) + min (unat n) (length (bs_stream (ra_output r)))"
proof -
  let ?r = "reassembler_pop r n" and ?o = "ra_output r"
  let ?m = "min (unat n) (length (bs_stream ?o))"
  have bs: "bs_inv ?o" using inv by (simp add: ra_inv_def)
  note eff = pop_effect [OF bs, of n]
  have facts: "length S + unat (bs_capacity ?o) < 2 ^ 64" "assembled r \<le> length S"
    "unat (bytes_popped ?o) + length (bs_stream ?o) = assembled r"
    "bs_stream ?o = drop (unat (bytes_popped ?o)) (take (assembled r) S)" "stored_ok S r"
    "length (ra_occupancy r) \<le> unat (available_capacity ?o)"
    using inv by (simp_all add: ra_inv_def)
  have "?m < 2 ^ 64" "unat (bytes_popped ?o) + ?m < 2 ^ 64"
    using facts(1-3) by linarith+
  then show popped: "unat (bytes_popped (ra_output ?r)) = unat (bytes_popped ?o) + ?m"
    by (simp add: eff(3) unat_add64 unat_of_nat64)
  have "drop (unat n) (bs_stream ?o) = drop ?m (bs_stream ?o)"
    by (simp add: min_def)
  also have "\<dots> = drop (unat (bytes_popped ?o) + ?m) (take (assembled r) S)"
    by (subst facts(4)) (simp add: add.commute)
  finally have str: "bs_stream (ra_output ?r) = drop (unat (bytes_popped (ra_output ?r))) (take (assembled r) S)"
    by (simp only: eff(2) popped)
  have av: "length (ra_occupancy r) \<le> unat (available_capacity (ra_output ?r))"
    using facts(6) unat_available_capacity [OF bs] by (simp add: eff(6))
  have sum: "unat (bytes_popped (ra_output ?r)) + length (bs_stream (ra_output ?r)) = assembled r"
    using facts(3) by (simp add: popped eff(2))
  have "stored_ok S ?r" using facts(5) by (simp add: stored_ok_def eff(1))
  then show "ra_inv S ?r"
    using inv str av sum bs_inv_pop [OF bs, of n]
    by (simp add: ra_inv_def eff(1,4,5)) (simp add: reassembler_pop_def)
qed

lemma pop_known: "bs_inv (ra_output r) \<Longrightarrow> known (reassembler_pop r n) = known r"
  by (simp add: known_def pop_effect(1))

lemma known_bounds:
  assumes "ra_inv S r"
  shows "{..<assembled r} \<subseteq> known r" and "assembled r \<notin> known r" and "known r \<subseteq> {..<length S}"
proof -
  show "{..<assembled r} \<subseteq> known r" by (auto simp: known_def)
  show "assembled r \<notin> known r"
    using assms by (auto simp: known_def ra_inv_def hd_conv_nth)
  have "assembled r \<le> k \<Longrightarrow> k < assembled r + length (ra_occupancy r) \<Longrightarrow>
      ra_occupancy r ! (k - assembled r) \<Longrightarrow> k < length S" for k
    using assms by (fastforce simp: ra_inv_def stored_ok_def dest: spec [of _ "k - assembled r"])
  then show "known r \<subseteq> {..<length S}"
    using assms by (auto simp: known_def ra_inv_def)
qed

text \<open>
  The contract of a reassembly component: the set of known indices grows by what each event
  brings below the current limit, the limit never falls, and nothing that is known waits at the
  front. The client gets completeness: whatever the order, once everything was brought,
  everything is assembled.
\<close>

locale reassembly = machine step ok inv
  for step :: "'s \<Rightarrow> 'e \<Rightarrow> 's" and ok :: "'s \<Rightarrow> 'e \<Rightarrow> bool" and inv :: "'s \<Rightarrow> bool" +
  fixes knows :: "'s \<Rightarrow> nat set" and done_upto :: "'s \<Rightarrow> nat" and limit :: "'s \<Rightarrow> nat"
    and bring :: "'e \<Rightarrow> nat set" and size_of :: nat
  assumes knows_step: "inv s \<Longrightarrow> ok s e \<Longrightarrow> knows (step s e) = knows s \<union> (bring e \<inter> {..<limit s})"
    and limit_step: "inv s \<Longrightarrow> ok s e \<Longrightarrow> limit s \<le> limit (step s e)"
    and knows_bounds: "inv s \<Longrightarrow> {..<done_upto s} \<subseteq> knows s \<and> done_upto s \<notin> knows s
          \<and> knows s \<subseteq> {..<size_of}"
begin

lemma knows_mono: "inv s \<Longrightarrow> ok s e \<Longrightarrow> knows s \<subseteq> knows (step s e)"
  by (simp add: knows_step)

lemma run_knows_mono: "inv s \<Longrightarrow> admissible step ok s es \<Longrightarrow> knows s \<subseteq> knows (run step s es)"
proof (induction es arbitrary: s)
  case (Cons e es)
  then have "knows s \<subseteq> knows (step s e)" and "knows (step s e) \<subseteq> knows (run step (step s e) es)"
    using knows_mono step_inv by auto
  then show ?case by simp
qed simp

lemma run_knows:
  "inv s \<Longrightarrow> admissible step ok s es \<Longrightarrow> e \<in> set es \<Longrightarrow> bring e \<inter> {..<limit s} \<subseteq> knows (run step s es)"
proof (induction es arbitrary: s)
  case (Cons d es)
  have inv: "inv (step s d)" and lim: "limit s \<le> limit (step s d)"
    using Cons.prems by (auto intro: step_inv limit_step)
  show ?case
  proof (cases "e = d")
    case True
    then have "bring e \<inter> {..<limit s} \<subseteq> knows (step s d)"
      using Cons.prems by (simp add: knows_step)
    also have "\<dots> \<subseteq> knows (run step (step s d) es)"
      using Cons.prems inv by (intro run_knows_mono) simp_all
    finally show ?thesis by simp
  next
    case False
    then have "bring e \<inter> {..<limit (step s d)} \<subseteq> knows (run step (step s d) es)"
      using Cons.prems inv by (intro Cons.IH) auto
    then show ?thesis using lim by auto
  qed
qed simp

lemma all_known_done:
  assumes "inv s" and "{..<size_of} \<subseteq> knows s"
  shows "done_upto s = size_of"
proof (rule antisym)
  show "done_upto s \<le> size_of"
    using knows_bounds [OF assms(1)] by (metis lessThan_subset_iff order_trans)
  show "size_of \<le> done_upto s"
    using knows_bounds [OF assms(1)] assms(2) by (metis lessThan_iff linorder_not_less subsetD)
qed

lemma run_complete:
  assumes inv: "inv s" and adm: "admissible step ok s es" and lim: "size_of \<le> limit s"
    and cover: "{..<size_of} \<subseteq> (\<Union>e \<in> set es. bring e)"
  shows "done_upto (run step s es) = size_of"
proof (rule all_known_done [OF run_inv [OF inv adm]])
  show "{..<size_of} \<subseteq> knows (run step s es)"
    using run_knows [OF inv adm] lim cover by fastforce
qed

end

interpretation reasm: reassembly reasm_step "reasm_ok S" "ra_inv S" known assembled window_end
  brings "length S" for S
proof
  fix r e assume inv: "ra_inv S r" and ok: "reasm_ok S r e"
  have bs: "bs_inv (ra_output r)" using inv by (simp add: ra_inv_def)
  show "ra_inv S (reasm_step r e)"
    using inv ok by (cases e) (auto intro: insert_inv pop_inv(1))
  show "known (reasm_step r e) = known r \<union> (brings e \<inter> {..<window_end r})"
    using inv ok by (cases e) (simp_all add: insert_known pop_known bs)
  show "window_end r \<le> window_end (reasm_step r e)"
  proof (cases e)
    case (Arrive fi data l)
    then show ?thesis
      using ok insert_effect(1,6) [OF inv, of fi data l] by (simp add: window_end_def)
  next
    case (Consume n)
    then show ?thesis
      using pop_effect(1,6) [OF bs, of n] unat_available_capacity [OF bs] by (simp add: window_end_def)
  qed simp
next
  fix r assume "ra_inv S r"
  then show "{..<assembled r} \<subseteq> known r \<and> assembled r \<notin> known r \<and> known r \<subseteq> {..<length S}"
    by (simp add: known_bounds)
qed


section \<open>What the reader gets\<close>

lemma ra_inv_init: "length S + unat c < 2 ^ 64 \<Longrightarrow> ra_inv S (reassembler (byte_stream c))"
  by (simp add: ra_inv_def reassembler_def byte_stream_def assembled_def bytes_pushed_def
      bytes_popped_def stored_ok_def bs_inv_def)

lemma window_end_init [simp]: "window_end (reassembler (byte_stream c)) = unat c"
  by (simp add: window_end_def assembled_def reassembler_def byte_stream_def bytes_pushed_def
      available_capacity_def)

lemma init_simps [simp]:
  "ra_output (reassembler out) = out" "assembled (reassembler (byte_stream c)) = 0"
  "bs_stream (byte_stream c) = []" "ra_total_size (reassembler out) = None"
  by (simp_all add: reassembler_def byte_stream_def assembled_def bytes_pushed_def)

text \<open>The output stream as a queue: an event puts in what it lets the assembled prefix grow by.\<close>

definition reasm_content :: "Reassembler \<Rightarrow> byte list" where
  "reasm_content r = reader_peek (ra_output r)"

definition reasm_grow :: "byte list \<Rightarrow> Reassembler \<Rightarrow> reasm_op \<Rightarrow> byte list" where
  "reasm_grow S r e = drop (assembled r) (take (assembled (reasm_step r e)) S)"

lemma reasm_step_content:
  assumes inv: "ra_inv S r" and ok: "reasm_ok S r e"
  shows "reasm_out r e @ reasm_content (reasm_step r e) = reasm_content r @ reasm_grow S r e"
proof (cases e)
  case (Arrive fi data l)
  then show ?thesis
    using ok insert_effect(1,5) [OF inv, of fi data l]
    by (simp add: reasm_content_def reasm_grow_def reader_peek_def drop_take)
next
  case (Consume n)
  have "bs_inv (ra_output r)" using inv by (rule ra_inv_bs)
  then show ?thesis
    using Consume pop_effect(1,2) [of r n]
    by (simp add: reasm_content_def reasm_grow_def reader_peek_def)
qed (simp add: reasm_content_def reasm_grow_def reader_peek_def)

interpretation reasmq: fifo reasm_step "reasm_ok S" "ra_inv S" reasm_content "reasm_grow S" reasm_out
  for S
  by unfold_locales (rule reasm_step_content)

lemma reasm_step_mono:
  assumes inv: "ra_inv S r" and ok: "reasm_ok S r e"
  shows "assembled r \<le> assembled (reasm_step r e)"
proof (cases e)
  case (Arrive fi data l)
  then show ?thesis using insert_effect(1) [OF inv, of fi data l] ok by simp
next
  case (Consume n)
  have "bs_inv (ra_output r)" using inv by (rule ra_inv_bs)
  then show ?thesis using Consume by (simp add: pop_effect(1))
qed simp

lemma reasm_capacity:
  assumes "ra_inv S r" and "admissible reasm_step (reasm_ok S) r es"
  shows "bs_capacity (ra_output (run reasm_step r es)) = bs_capacity (ra_output r)"
proof (rule reasm.run_stable [where P = "\<lambda>q. bs_capacity (ra_output q) = bs_capacity (ra_output r)",
      OF _ assms refl])
  fix q e assume inv: "ra_inv S q" and ok: "reasm_ok S q e"
    and eq: "bs_capacity (ra_output q) = bs_capacity (ra_output r)"
  show "bs_capacity (ra_output (reasm_step q e)) = bs_capacity (ra_output r)"
  proof (cases e)
    case (Arrive fi data l)
    then show ?thesis using insert_effect(8) [OF inv, of fi data l] ok eq by simp
  next
    case (Consume n)
    then show ?thesis using pop_effect(5) [OF ra_inv_bs [OF inv], of n] eq by simp
  qed (use eq in simp)
qed

lemma reasm_total_known:
  assumes "ra_inv S r" and "admissible reasm_step (reasm_ok S) r es"
    and "Arrive i data True \<in> set es"
  shows "ra_total_size (run reasm_step r es) \<noteq> None"
proof -
  obtain es1 es2 where es: "es = es1 @ Arrive i data True # es2"
    using assms(3) by (meson split_list)
  let ?q = "run reasm_step r es1" and ?q' = "reasm_step (run reasm_step r es1) (Arrive i data True)"
  have inv: "ra_inv S ?q" and adm: "reasm_ok S ?q (Arrive i data True)"
    "admissible reasm_step (reasm_ok S) ?q' es2"
    using assms(1,2) reasm.run_inv [of S r es1] by (simp_all add: es admissible_append)
  have inv': "ra_inv S ?q'" using reasm.step_inv [OF inv adm(1)] .
  have last: "ra_total_size ?q' \<noteq> None"
    using insert_effect(9) [OF inv, of i data True] adm(1) by simp
  have "ra_total_size (run reasm_step ?q' es2) \<noteq> None"
  proof (rule reasm.run_stable [where P = "\<lambda>q. ra_total_size q \<noteq> None", OF _ inv' adm(2) last])
    fix q e assume inv: "ra_inv S q" and ok: "reasm_ok S q e" and some: "ra_total_size q \<noteq> None"
    show "ra_total_size (reasm_step q e) \<noteq> None"
    proof (cases e)
      case (Arrive fi d l)
      then show ?thesis using insert_effect(9) [OF inv, of fi d l] ok some by simp
    next
      case (Consume n)
      then show ?thesis using some by simp
    qed (use some in simp)
  qed
  then show ?thesis by (simp add: es run_append)
qed

lemma collect_grow:
  "ra_inv S r \<Longrightarrow> admissible reasm_step (reasm_ok S) r es \<Longrightarrow>
     collect reasm_step (reasm_grow S) r es
       = drop (assembled r) (take (assembled (run reasm_step r es)) S)"
proof (induction es arbitrary: r)
  case (Cons e es)
  let ?r = "reasm_step r e" and ?n = "assembled (run reasm_step (reasm_step r e) es)"
  have inv: "ra_inv S ?r" and le: "assembled r \<le> assembled ?r"
    using Cons.prems reasm.step_inv reasm_step_mono by auto
  have "assembled ?r \<le> ?n"
    using reasm.run_mono [of S assembled, OF reasm_step_mono inv] Cons.prems by auto
  then show ?case
    using Cons.IH [OF inv] Cons.prems le by (simp add: reasm_grow_def drop_take_join)
qed simp

text \<open>Everything the owner has read, followed by what waits in the stream, is a prefix of \<open>S\<close>.\<close>

lemma reasm_output:
  assumes room: "length S + unat c < 2 ^ 64"
    and adm: "admissible reasm_step (reasm_ok S) (reassembler (byte_stream c)) es"
  defines "r \<equiv> run reasm_step (reassembler (byte_stream c)) es"
  shows "collect reasm_step reasm_out (reassembler (byte_stream c)) es @ reader_peek (ra_output r)
      = take (assembled r) S"
    and "bs_closed (ra_output r) \<longleftrightarrow> ra_total_size r \<noteq> None \<and> assembled r = length S"
    and "length (bs_stream (ra_output r)) \<le> unat (bs_capacity (ra_output r))"
    and "ra_inv S r"
proof -
  note init = ra_inv_init [OF room]
  show inv: "ra_inv S r" unfolding r_def by (rule reasm.run_inv [OF init adm])
  show "collect reasm_step reasm_out (reassembler (byte_stream c)) es @ reader_peek (ra_output r)
      = take (assembled r) S"
    using reasmq.fifo_run [OF init adm] collect_grow [OF init adm]
    by (simp add: r_def reasm_content_def reader_peek_def)
  show "bs_closed (ra_output r) \<longleftrightarrow> ra_total_size r \<noteq> None \<and> assembled r = length S"
    using inv by (simp add: ra_inv_def)
  have "bs_inv (ra_output r)" using inv by (rule ra_inv_bs)
  then show "length (bs_stream (ra_output r)) \<le> unat (bs_capacity (ra_output r))"
    by (simp add: bs_inv_def)
qed

section \<open>Ranges and counts, for every caller\<close>

text \<open>No consistency is asked here: the sums that could wrap around make the range empty.\<close>

lemma insert_ranges_safe:
  assumes win: "window_end r < 2 ^ 64" and fits: "fits data"
    and ir: "insert_ranges r fi data = Some ((ld, rd), (lb, rb))"
  shows "unat ld < unat rd \<and> unat rd \<le> length data
    \<and> unat rb \<le> unat (available_capacity (ra_output r))
    \<and> unat rb - unat lb = unat rd - unat ld \<and> unat lb < unat rb"
proof -
  let ?p = "bytes_pushed (ra_output r)" and ?av = "available_capacity (ra_output r)"
  define e where "e = fi + vsize data"
  have un: "unat (?p + ?av) = unat ?p + unat ?av"
    using win by (simp add: unat_add64 window_end_def assembled_def)
  have lt: "max ?p fi < min (?p + ?av) e"
    and v: "ld = max ?p fi - fi" "rd = min (?p + ?av) e - fi"
      "lb = max ?p fi - ?p" "rb = min (?p + ?av) e - ?p"
    using ir by (auto simp only: insert_ranges_def Let_def e_def split: if_splits)
  have lt': "unat ?p < unat ?p + unat ?av" "unat fi < unat e"
    "max (unat ?p) (unat fi) < min (unat ?p + unat ?av) (unat e)"
    using lt by (auto simp only: word_less_nat_alt unat_max unat_min un)
  have e: "unat e \<le> unat fi + length data"
    using fits by (simp only: e_def unat_word_ariths unat_vsize) (rule mod_less_eq_dividend)
  have u: "unat ld = max (unat ?p) (unat fi) - unat fi"
    "unat rd = min (unat ?p + unat ?av) (unat e) - unat fi"
    "unat lb = max (unat ?p) (unat fi) - unat ?p"
    "unat rb = min (unat ?p + unat ?av) (unat e) - unat ?p"
    using lt' by (simp_all only: v unat_sub_nat unat_max unat_min un max.cobounded1 max.cobounded2
        min_less_iff_conj max_less_iff_conj min.bounded_iff less_imp_le)
  show ?thesis using lt' e unfolding u by auto
qed

lemma sum_of_bool: "sum_list (map of_bool bs) = (of_nat (length (filter id bs)) :: u64)"
  by (induction bs) simp_all

lemma count_pending_known:
  assumes "ra_inv S r"
  shows "count_bytes_pending r = of_nat (card (known r - {..<assembled r}))"
    and "card (known r - {..<assembled r}) \<le> unat (available_capacity (ra_output r))"
proof -
  have "known r - {..<assembled r}
      = (\<lambda>i. assembled r + i) ` {i. i < length (ra_occupancy r) \<and> id (ra_occupancy r ! i)}"
    (is "?K = ?f ` ?I")
  proof (rule set_eqI)
    fix k show "k \<in> ?K \<longleftrightarrow> k \<in> ?f ` ?I"
      by (cases "assembled r \<le> k") (auto simp: known_def image_iff le_iff_add)
  qed
  then have "card ?K = card ?I" by (simp add: card_image)
  also have "\<dots> = length (filter id (ra_occupancy r))"
    by (simp only: length_filter_conv_card)
  finally have c: "card ?K = length (filter id (ra_occupancy r))" .
  show "count_bytes_pending r = of_nat (card ?K)"
    by (simp only: count_bytes_pending_def sum_of_bool c)
  have "length (filter id (ra_occupancy r)) \<le> length (ra_occupancy r)" by simp
  also have "\<dots> \<le> unat (available_capacity (ra_output r))"
    using assms by (simp only: ra_inv_def)
  finally show "card ?K \<le> unat (available_capacity (ra_output r))" by (simp only: c)
qed

section \<open>Properties\<close>

text \<open>
  C10: whatever substrings of a stream \<open>S\<close> arrive, in whatever order, overlapping, repeated or
  beyond the window, and however the owner pops in between, what the owner has read followed
  by what it can still read is a prefix of \<open>S\<close>; the stream is closed exactly when its end is
  known and all of it was assembled; and no more than the capacity is ever buffered.
\<close>
theorem reassembler_prefix:
  assumes "length S + unat c < 2 ^ 64"
    and "admissible reasm_step (reasm_ok S) (reassembler (byte_stream c)) es"
  defines "r \<equiv> run reasm_step (reassembler (byte_stream c)) es"
  shows "collect reasm_step reasm_out (reassembler (byte_stream c)) es @ reader_peek (ra_output r)
      = take (unat (bytes_pushed (ra_output r))) S
    \<and> (writer_is_closed (ra_output r) \<longleftrightarrow>
        ra_total_size r \<noteq> None \<and> unat (bytes_pushed (ra_output r)) = length S)
    \<and> length (reader_peek (ra_output r)) \<le> unat c"
proof -
  note facts = reasm_output [OF assms(1,2), folded r_def]
  have "bs_capacity (ra_output r) = c"
    using reasm_capacity [OF ra_inv_init [OF assms(1)] assms(2)] by (simp add: r_def byte_stream_def)
  then show ?thesis
    using facts(1-3) by (simp add: assembled_def writer_is_closed_def reader_peek_def)
qed

text \<open>Three overlapping pieces of a four-byte stream, out of order, with a read in between.\<close>

theorem reassembler_prefix_witness:
  "admissible reasm_step (reasm_ok [7, 8, 9, 10]) (reassembler (byte_stream 4))
     [Arrive 2 [9, 10] True, Arrive 0 [7, 8] False, Consume 1, Arrive 1 [8, 9] False]
   \<and> reader_peek (ra_output (run reasm_step (reassembler (byte_stream 4))
     [Arrive 2 [9, 10] True, Arrive 0 [7, 8] False, Consume 1, Arrive 1 [8, 9] False])) = [8, 9, 10]"
proof -
  let ?S = "[7, 8, 9, 10] :: byte list"
  let ?es = "[Arrive 2 [9, 10] True, Arrive 0 [7, 8] False, Consume 1, Arrive 1 [8, 9] False]"
  let ?r = "run reasm_step (reassembler (byte_stream 4)) ?es"
  have adm: "admissible reasm_step (reasm_ok ?S) (reassembler (byte_stream 4)) ?es"
    by (simp add: consistent_def)
  have out: "collect reasm_step reasm_out (reassembler (byte_stream 4)) ?es = [7]"
    and pushed: "bytes_pushed (ra_output ?r) = 4"
    by code_simp+
  have "[7] @ reader_peek (ra_output ?r) = take 4 ?S"
    using reassembler_prefix [OF _ adm] unfolding out pushed by simp
  then show ?thesis using adm by simp
qed

text \<open>
  C11: completeness. Once substrings covering all of \<open>S\<close> have arrived, one of them marked as
  the last, a reassembler whose capacity admits the whole stream has assembled exactly \<open>S\<close> and
  closed its output, whatever the order, the overlaps, the repetitions and the reads in between.
\<close>
theorem reassembler_complete:
  assumes "length S + unat c < 2 ^ 64" and "length S \<le> unat c"
    and "admissible reasm_step (reasm_ok S) (reassembler (byte_stream c)) es"
    and "{..<length S} \<subseteq> (\<Union>e \<in> set es. brings e)"
    and "Arrive i data True \<in> set es"
  defines "r \<equiv> run reasm_step (reassembler (byte_stream c)) es"
  shows "collect reasm_step reasm_out (reassembler (byte_stream c)) es @ reader_peek (ra_output r) = S
    \<and> writer_is_closed (ra_output r)"
proof -
  note init = ra_inv_init [OF assms(1)]
  note facts = reasm_output [OF assms(1,3), folded r_def]
  have all: "assembled r = length S"
    unfolding r_def using assms(2,4) by (intro reasm.run_complete [OF init assms(3)]) simp_all
  have "ra_total_size r \<noteq> None"
    unfolding r_def by (rule reasm_total_known [OF init assms(3,5)])
  then show ?thesis using facts(1,2) all by (simp add: writer_is_closed_def)
qed

theorem reassembler_complete_witness:
  "collect reasm_step reasm_out (reassembler (byte_stream 4))
      [Arrive 2 [9, 10] True, Arrive 1 [8, 9] False, Arrive 0 [7] False, Consume 3]
     @ reader_peek (ra_output (run reasm_step (reassembler (byte_stream 4))
      [Arrive 2 [9, 10] True, Arrive 1 [8, 9] False, Arrive 0 [7] False, Consume 3])) = [7, 8, 9, 10]"
proof -
  let ?S = "[7, 8, 9, 10] :: byte list"
  let ?es = "[Arrive 2 [9, 10] True, Arrive 1 [8, 9] False, Arrive 0 [7] False, Consume 3]"
  have adm: "admissible reasm_step (reasm_ok ?S) (reassembler (byte_stream 4)) ?es"
    by (simp add: consistent_def)
  have cover: "{..<length ?S} \<subseteq> (\<Union>e \<in> set ?es. brings e)"
    by auto
  show ?thesis
    using reassembler_complete [OF _ _ adm cover, of 2 "[9, 10]"] by simp
qed

text \<open>
  C12: one \<open>insert\<close> makes known exactly the new bytes that lie below the end of the window,
  forgets none, moves the longest known run at the front to the output and leaves the
  invariant intact.
\<close>
theorem insert_exact:
  assumes "ra_inv S r" and "consistent S first_index data is_last"
  shows "ra_inv S (reassembler_insert r first_index data is_last)
    \<and> known (reassembler_insert r first_index data is_last)
      = known r \<union> ({unat first_index..<unat first_index + length data} \<inter> {..<window_end r})
    \<and> {..<assembled (reassembler_insert r first_index data is_last)}
        \<subseteq> known (reassembler_insert r first_index data is_last)
    \<and> assembled (reassembler_insert r first_index data is_last)
        \<notin> known (reassembler_insert r first_index data is_last)"
  using insert_inv [OF assms] insert_known [OF assms] known_bounds(1,2) [OF insert_inv [OF assms]]
  by blast

theorem insert_exact_witness:
  "known (reassembler_insert (reassembler (byte_stream 2)) 1 [8, 9, 10] True) = {1}"
proof -
  have inv: "ra_inv [7, 8, 9, 10] (reassembler (byte_stream 2))"
    by (rule ra_inv_init) simp
  have con: "consistent [7, 8, 9, 10] 1 [8, 9, 10] True" by (simp add: consistent_def)
  have k: "known (reassembler (byte_stream 2)) = {}"
    by (auto simp: known_def reassembler_def assembled_def bytes_pushed_def byte_stream_def)
  show ?thesis using insert_exact [OF inv con] by (auto simp: k)
qed

text \<open>
  C13: every byte range that \<open>insert\<close> copies lies inside its source and its destination, for
  every first index and every data, consistent or not: the two ranges are nonempty and of equal
  length, the one read ends within the data, the one written within the resized buffers.
\<close>
theorem insert_copies_in_bounds:
  assumes "window_end r < 2 ^ 64" and "fits data"
    and "insert_ranges (ra_resize (ra_mark_last first_index data is_last r)) first_index data
      = Some ((left_in_data, right_in_data), (left_in_buf, right_in_buf))"
  defines "r' \<equiv> ra_resize (ra_mark_last first_index data is_last r)"
  shows "unat left_in_data < unat right_in_data \<and> unat right_in_data \<le> length data
    \<and> unat left_in_buf < unat right_in_buf \<and> unat right_in_buf \<le> length (ra_buf r')
    \<and> length (ra_occupancy r') = length (ra_buf r')
    \<and> unat right_in_buf - unat left_in_buf = unat right_in_data - unat left_in_data"
proof -
  have "window_end r' < 2 ^ 64" using assms(1) by (simp add: r'_def window_end_def)
  note safe = insert_ranges_safe [OF this assms(2) assms(3) [folded r'_def]]
  moreover have "unat (available_capacity (ra_output r')) = length (ra_buf r')"
    "length (ra_occupancy r') = length (ra_buf r')"
    by (simp_all add: r'_def)
  ultimately show ?thesis by simp
qed

theorem insert_copies_in_bounds_witness:
  "window_end (reassembler (byte_stream 2)) < 2 ^ 64
   \<and> length (ra_buf (ra_resize (ra_mark_last 1 [8, 9, 10] True (reassembler (byte_stream 2))))) \<ge> 2"
proof -
  have win: "window_end (reassembler (byte_stream 2)) < 2 ^ 64" by simp
  have ir: "insert_ranges (ra_resize (ra_mark_last 1 [8, 9, 10] True (reassembler (byte_stream 2)))) 1
      [8, 9, 10] = Some ((0, 1), (1, 2))"
    by code_simp
  show ?thesis using insert_copies_in_bounds [OF win _ ir] win by (simp add: fits_def)
qed

text \<open>
  \<open>count_bytes_pending\<close> counts the known bytes that are not assembled yet, and there are
  never more of them than the output stream has room for.
\<close>
lemma pending_counts_known:
  assumes "ra_inv S r"
  shows "unat (count_bytes_pending r) = card (known r - {..<assembled r})
    \<and> unat (count_bytes_pending r) \<le> unat (available_capacity (ra_output r))"
proof -
  note cnt = count_pending_known [OF assms]
  have "card (known r - {..<assembled r}) < 2 ^ 64"
    using cnt(2) u64_bound [of "available_capacity (ra_output r)"] by linarith
  then show ?thesis using cnt(2) by (simp add: cnt(1) unat_of_nat64)
qed

end
