(* ===== verification/TCP_Receiver.thy ===== *)
theory TCP_Receiver
  imports Reassembler TCP_Messages
begin

text \<open>
  \<open>src/tcp_receiver.hh\<close> and \<open>src/tcp_receiver.cc\<close>: the half of an endpoint that places
  the peer's segments in the stream and says what it needs next. \<open>tcp_receiver_receive\<close> has
  the value \<open>None\<close> where the code would read an empty \<open>std::optional\<close>, which is
  undefined. Its lines on \<open>std::cerr\<close> and \<open>std::cout\<close> are not modelled, except that
  their evaluation reads \<open>*ISN\<close>.
\<close>

record TCPReceiver =
  rv_reassembler :: Reassembler
  rv_ISN :: "Wrap32 option"
  rv_ackno :: "Wrap32 option"
  rv_checkpoint :: u64
  rv_received_SYN :: bool
  rv_rst :: bool

definition tcp_receiver :: "Reassembler \<Rightarrow> TCPReceiver" where
  "tcp_receiver r = \<lparr>rv_reassembler = r, rv_ISN = None, rv_ackno = None, rv_checkpoint = 0,
     rv_received_SYN = False, rv_rst = False\<rparr>"

text \<open>\<open>receive\<close> in three parts: the first SYN, placing the payload, and the whole.\<close>

definition receiver_syn :: "TCPReceiver \<Rightarrow> TCPSenderMessage \<Rightarrow> TCPReceiver" where
  "receiver_syn r message =
     (if \<not> rv_received_SYN r \<and> sm_SYN message
      then r\<lparr>rv_ISN := Some (sm_seqno message), rv_received_SYN := True,
             rv_ackno := Some (wrap32_add (sm_seqno message) 1)\<rparr>
      else r)"

definition receiver_place :: "TCPReceiver \<Rightarrow> TCPSenderMessage \<Rightarrow> Wrap32 \<Rightarrow> TCPReceiver" where
  "receiver_place r message isn =
     (let absolute_seqn = unwrap (sm_seqno message) isn (rv_checkpoint r);
          reassembler_index = (if sm_SYN message then 0 else absolute_seqn - 1);
          reasm = reassembler_insert (rv_reassembler r) reassembler_index (sm_payload message)
                    (sm_FIN message);
          ackno = wrap32_add (wrap32_add isn (ucast (bytes_pushed (ra_output reasm)))) 1
      in r\<lparr>rv_reassembler := reasm,
           rv_checkpoint := reassembler_index + vsize (sm_payload message),
           rv_ackno := Some (if writer_is_closed (ra_output reasm) then wrap32_add ackno 1
                             else ackno)\<rparr>)"

definition tcp_receiver_receive :: "TCPReceiver \<Rightarrow> TCPSenderMessage \<Rightarrow> TCPReceiver option" where
  "tcp_receiver_receive r message =
     (if sm_RST message
      then Some (r\<lparr>rv_rst := True, rv_reassembler := reassembler_set_error (rv_reassembler r)\<rparr>)
      else if writer_is_closed (ra_output (rv_reassembler r))
      then (if (sm_FIN message \<or> sm_payload message \<noteq> []) \<and> rv_ISN r = None then None else Some r)
      else if rv_received_SYN r \<and> sm_SYN message then Some r
      else
        let r1 = receiver_syn r message
        in if \<not> rv_received_SYN r1 then Some r1
           else if \<not> sm_SYN message \<and> sm_payload message = [] \<and> \<not> sm_FIN message then Some r1
           else if sm_SYN message \<and> sm_payload message = [] \<and> \<not> sm_FIN message then Some r1
           else map_option (receiver_place r1 message) (rv_ISN r1))"

definition tcp_receiver_send :: "TCPReceiver \<Rightarrow> TCPReceiverMessage" where
  "tcp_receiver_send r =
     \<lparr>rm_ackno = rv_ackno r,
      rm_window_size = ucast (min (available_capacity (ra_output (rv_reassembler r))) 65535),
      rm_RST = rv_rst r \<or> has_error (ra_output (rv_reassembler r))\<rparr>"

text \<open>The owner reads and reports an error of its own through \<open>TCPReceiver::reader()\<close>.\<close>

definition tcp_receiver_pop :: "TCPReceiver \<Rightarrow> u64 \<Rightarrow> TCPReceiver" where
  "tcp_receiver_pop r len = r\<lparr>rv_reassembler := reassembler_pop (rv_reassembler r) len\<rparr>"

definition tcp_receiver_fail :: "TCPReceiver \<Rightarrow> TCPReceiver" where
  "tcp_receiver_fail r = r\<lparr>rv_reassembler := reassembler_set_error (rv_reassembler r)\<rparr>"

section \<open>Segments of a stream\<close>

datatype recv_op = Segment u64 "byte list" bool bool | Reset | Take u64 | Break

text \<open>The message an event delivers.\<close>

fun recv_msg :: "Wrap32 \<Rightarrow> recv_op \<Rightarrow> TCPSenderMessage" where
  "recv_msg isn (Segment first_index data syn fin) = peer_segment isn first_index data syn fin"
| "recv_msg isn Reset = sender_message\<lparr>sm_RST := True\<rparr>"
| "recv_msg isn (Take len) = sender_message"
| "recv_msg isn Break = sender_message"

fun recv_step :: "Wrap32 \<Rightarrow> TCPReceiver \<Rightarrow> recv_op \<Rightarrow> TCPReceiver" where
  "recv_step isn r (Take len) = tcp_receiver_pop r len"
| "recv_step isn r Break = tcp_receiver_fail r"
| "recv_step isn r e =
     (case tcp_receiver_receive r (recv_msg isn e) of Some r' \<Rightarrow> r' | None \<Rightarrow> r)"

text \<open>
  The segment holds bytes of \<open>S\<close>, and its sequence number lies within \<open>2 ^ 31\<close> of the
  checkpoint.
\<close>

fun recv_ok :: "byte list \<Rightarrow> TCPReceiver \<Rightarrow> recv_op \<Rightarrow> bool" where
  "recv_ok S r (Segment first_index data syn fin) \<longleftrightarrow>
     consistent S first_index data fin \<and> (syn \<longrightarrow> first_index = 0)
     \<and> (\<not> syn \<longrightarrow> unat first_index + 1 < unat (rv_checkpoint r) + 2 ^ 31
          \<and> unat (rv_checkpoint r) \<le> unat first_index + 1 + 2 ^ 31)"
| "recv_ok S r _ = True"

text \<open>Whether \<open>receive\<close> gets as far as the \<open>Reassembler\<close> with the segment.\<close>

definition dropped :: "TCPReceiver \<Rightarrow> byte list \<Rightarrow> bool \<Rightarrow> bool \<Rightarrow> bool" where
  "dropped r data syn fin \<longleftrightarrow> writer_is_closed (ra_output (rv_reassembler r))
     \<or> (rv_received_SYN r \<longleftrightarrow> syn) \<or> (data = [] \<and> \<not> fin)"

text \<open>The calls of the \<open>Reassembler\<close> that an event causes.\<close>

fun recv_calls :: "TCPReceiver \<Rightarrow> recv_op \<Rightarrow> reasm_op list" where
  "recv_calls r (Segment first_index data syn fin) =
     (if dropped r data syn fin then [] else [Arrive first_index data fin])"
| "recv_calls r Reset = [Abort]"
| "recv_calls r (Take len) = [Consume len]"
| "recv_calls r Break = [Abort]"

definition receiver_inv :: "byte list \<Rightarrow> Wrap32 \<Rightarrow> TCPReceiver \<Rightarrow> bool" where
  "receiver_inv S isn r \<longleftrightarrow> ra_inv S (rv_reassembler r)
     \<and> rv_ISN r = (if rv_received_SYN r then Some isn else None)
     \<and> (\<not> rv_received_SYN r \<longrightarrow> assembled (rv_reassembler r) = 0
          \<and> ra_total_size (rv_reassembler r) = None)
     \<and> rv_ackno r = (if rv_received_SYN r
          then Some (wrap (1 + bytes_pushed (ra_output (rv_reassembler r))
            + of_bool (writer_is_closed (ra_output (rv_reassembler r)))) isn)
          else None)
     \<and> unat (rv_checkpoint r) \<le> length S
     \<and> length S + 2 < 2 ^ 64"

lemma wrap32_add_ucast: "wrap32_add isn (ucast (n :: u64)) = wrap n isn"
  by (simp add: wrap32_add_zero_point wrap_eq_iff nat_simps)

lemma ackno_add:
  "wrap32_add (wrap32_add isn (ucast (n :: u64))) 1 = wrap (1 + n) isn"
  "wrap32_add (wrap32_add (wrap32_add isn (ucast (n :: u64))) 1) 1 = wrap (1 + n + 1) isn"
  by (simp_all add: wrap32_add_ucast wrap32_add_wrap add.commute)

lemma closed_received:
  "receiver_inv S isn r \<Longrightarrow> writer_is_closed (ra_output (rv_reassembler r)) \<Longrightarrow> rv_received_SYN r"
  by (auto simp: receiver_inv_def ra_inv_def writer_is_closed_def)

text \<open>The sequence number of an acceptable segment is read back as the index it came from.\<close>

lemma segment_index:
  assumes "\<not> syn \<Longrightarrow> unat fi + 1 < unat cp + 2 ^ 31 \<and> unat cp \<le> unat fi + 1 + 2 ^ 31"
    and "unat fi + 1 < 2 ^ 64" and "syn \<Longrightarrow> fi = 0"
  shows "(if syn then 0 else unwrap (sm_seqno (peer_segment isn fi data syn fin)) isn cp - 1) = fi"
proof (cases syn)
  case False
  have "unat (fi + 1) = unat fi + 1"
    using assms(2) by (simp add: unat_add64)
  then have "unwrap (wrap (fi + 1) isn) isn cp = fi + 1"
    using assms(1) [OF False] by (intro unwrap_wrap_near) simp_all
  then show ?thesis using False by simp
qed (use assms(3) in simp)

definition placed :: "TCPReceiver \<Rightarrow> Wrap32 \<Rightarrow> u64 \<Rightarrow> byte list \<Rightarrow> bool \<Rightarrow> TCPReceiver" where
  "placed r isn fi data fin =
     (let reasm = reassembler_insert (rv_reassembler r) fi data fin
      in r\<lparr>rv_reassembler := reasm, rv_ISN := Some isn, rv_received_SYN := True,
           rv_checkpoint := fi + vsize data,
           rv_ackno := Some (wrap (1 + bytes_pushed (ra_output reasm)
             + of_bool (writer_is_closed (ra_output reasm))) isn)\<rparr>)"

lemma receiver_place_eq:
  assumes "(if sm_SYN m then 0 else unwrap (sm_seqno m) isn (rv_checkpoint r) - 1) = fi"
    and "rv_ISN r = Some isn" and "rv_received_SYN r"
  shows "receiver_place r m isn = placed r isn fi (sm_payload m) (sm_FIN m)"
proof -
  let ?q = "reassembler_insert (rv_reassembler r) fi (sm_payload m) (sm_FIN m)"
  have ack: "(if writer_is_closed (ra_output ?q)
      then wrap32_add (wrap32_add (wrap32_add isn (ucast (bytes_pushed (ra_output ?q)))) 1) 1
      else wrap32_add (wrap32_add isn (ucast (bytes_pushed (ra_output ?q)))) 1)
    = wrap (1 + bytes_pushed (ra_output ?q) + of_bool (writer_is_closed (ra_output ?q))) isn"
    by (simp add: wrap32_add_ucast wrap32_add_wrap ac_simps)
  show ?thesis
    unfolding receiver_place_def placed_def Let_def assms(1) ack using assms(2,3) by (cases r) simp
qed

lemma placed_syn: "placed (receiver_syn r m) isn fi data fin = placed r isn fi data fin"
  by (simp add: placed_def receiver_syn_def Let_def)

lemma receive_segment:
  assumes inv: "receiver_inv S isn r" and ok: "recv_ok S r (Segment fi data syn fin)"
  shows "tcp_receiver_receive r (peer_segment isn fi data syn fin) =
    Some (if \<not> dropped r data syn fin then placed r isn fi data fin
          else if writer_is_closed (ra_output (rv_reassembler r)) then r
          else receiver_syn r (peer_segment isn fi data syn fin))"
proof -
  let ?m = "peer_segment isn fi data syn fin"
  have isn: "rv_ISN r = (if rv_received_SYN r then Some isn else None)"
    using inv by (simp only: receiver_inv_def)
  show ?thesis
  proof (cases "writer_is_closed (ra_output (rv_reassembler r))")
    case True
    then show ?thesis
      using closed_received [OF inv True] isn
      by (simp add: tcp_receiver_receive_def dropped_def)
  next
    case open': False
    show ?thesis
    proof (cases "dropped r data syn fin")
      case True
      then show ?thesis
        using open' by (auto simp: tcp_receiver_receive_def dropped_def receiver_syn_def Let_def)
    next
      case False
      have small: "unat fi + 1 < 2 ^ 64"
      proof -
        have "unat fi \<le> length S" using ok by (simp add: consistent_def)
        moreover have "length S + 2 < 2 ^ 64" using inv by (simp only: receiver_inv_def)
        ultimately show ?thesis by linarith
      qed
      note index = segment_index [of syn fi "rv_checkpoint r" isn data fin, OF _ small]
      have "(if syn then 0 else unwrap (sm_seqno ?m) isn (rv_checkpoint r) - 1) = fi"
        using ok by (intro index) simp_all
      moreover have rs: "rv_ISN (receiver_syn r ?m) = Some isn" "rv_received_SYN (receiver_syn r ?m)"
        "rv_checkpoint (receiver_syn r ?m) = rv_checkpoint r"
        using False isn by (auto simp: receiver_syn_def dropped_def)
      ultimately have "receiver_place (receiver_syn r ?m) ?m isn = placed r isn fi data fin"
        using receiver_place_eq [of ?m isn "receiver_syn r ?m" fi]
        by (simp only: peer_segment_simps placed_syn)
      then show ?thesis
        using False open' rs by (auto simp: tcp_receiver_receive_def dropped_def Let_def)
    qed
  qed
qed


section \<open>The receiver drives its reassembler\<close>

lemma recv_calls_ok:
  "recv_ok S r e \<Longrightarrow> admissible reasm_step (reasm_ok S) (rv_reassembler r) (recv_calls r e)"
  by (cases e) auto

lemma recv_step_reassembler:
  assumes "receiver_inv S isn r" and "recv_ok S r e"
  shows "rv_reassembler (recv_step isn r e) = run reasm_step (rv_reassembler r) (recv_calls r e)"
proof (cases e)
  case (Segment fi data syn fin)
  then show ?thesis
    using assms receive_segment [of S isn r fi data syn fin]
    by (simp add: placed_def Let_def receiver_syn_def)
next
  case Reset
  then show ?thesis by (simp add: tcp_receiver_receive_def)
next
  case (Take n)
  then show ?thesis by (simp add: tcp_receiver_pop_def)
next
  case Break
  then show ?thesis by (simp add: tcp_receiver_fail_def)
qed

lemma recv_reassembler_inv:
  assumes "receiver_inv S isn r" and "recv_ok S r e"
  shows "ra_inv S (rv_reassembler (recv_step isn r e))"
proof -
  have "ra_inv S (rv_reassembler r)" using assms(1) by (simp only: receiver_inv_def)
  then show ?thesis
    using reasm.run_inv recv_calls_ok [OF assms(2)] by (simp only: recv_step_reassembler [OF assms])
qed

lemma recv_segment_inv:
  assumes inv: "receiver_inv S isn r" and ok: "recv_ok S r (Segment fi data syn fin)"
  shows "receiver_inv S isn (recv_step isn r (Segment fi data syn fin))"
proof -
  let ?r = "recv_step isn r (Segment fi data syn fin)"
  have ra: "ra_inv S (rv_reassembler ?r)" by (rule recv_reassembler_inv [OF inv ok])
  have bound: "length S + 2 < 2 ^ 64" using inv by (simp only: receiver_inv_def)
  have con: "unat fi + length data \<le> length S" using ok by (simp add: consistent_def)
  have cp: "unat (fi + vsize data) \<le> length S"
  proof -
    have "fits data" using con bound by (simp add: fits_def)
    then show ?thesis using con bound by (simp add: unat_add64 unat_vsize)
  qed
  note seg = receive_segment [OF inv ok]
  show ?thesis
  proof (cases "dropped r data syn fin")
    case False
    then show ?thesis
      using ra cp bound seg by (simp add: receiver_inv_def placed_def Let_def)
  next
    case True
    show ?thesis
    proof (cases "writer_is_closed (ra_output (rv_reassembler r)) \<or> rv_received_SYN r \<or> \<not> syn")
      case True
      then have "?r = r"
        using seg \<open>dropped r data syn fin\<close> by (auto simp: receiver_syn_def)
      then show ?thesis using inv by simp
    next
      case False
      then show ?thesis
        using seg \<open>dropped r data syn fin\<close> inv
        by (auto simp: receiver_syn_def receiver_inv_def wrap32_add_zero_point assembled_def
            unat_eq_0)
    qed
  qed
qed

lemma recv_inv:
  assumes inv: "receiver_inv S isn r" and ok: "recv_ok S r e"
  shows "receiver_inv S isn (recv_step isn r e)"
proof (cases e)
  case (Segment fi data syn fin)
  then show ?thesis using recv_segment_inv [OF inv] ok by simp
next
  case Reset
  then show ?thesis
    using inv by (simp add: receiver_inv_def tcp_receiver_receive_def)
      (simp add: reassembler_set_error_def set_error_def bytes_pushed_def writer_is_closed_def)
next
  case (Take n)
  have "bs_inv (ra_output (rv_reassembler r))"
    using inv by (auto simp: receiver_inv_def intro: ra_inv_bs)
  note pop = pop_effect(1,4) [OF this, of n]
  have "bytes_pushed (ra_output (reassembler_pop (rv_reassembler r) n))
      = bytes_pushed (ra_output (rv_reassembler r))"
    using pop(1) by (simp add: assembled_def word_unat_eq_iff)
  then show ?thesis
    using Take inv recv_reassembler_inv [OF inv ok] pop
    by (simp add: receiver_inv_def tcp_receiver_pop_def writer_is_closed_def)
next
  case Break
  then show ?thesis
    using inv by (simp add: receiver_inv_def tcp_receiver_fail_def)
      (simp add: reassembler_set_error_def set_error_def bytes_pushed_def writer_is_closed_def)
qed

interpretation rcv: client "recv_step isn" "recv_ok S" "receiver_inv S isn" rv_reassembler recv_calls
  reasm_step "reasm_ok S" for S isn
  by unfold_locales (simp_all add: recv_inv recv_step_reassembler recv_calls_ok)

fun recv_out :: "TCPReceiver \<Rightarrow> recv_op \<Rightarrow> byte list" where
  "recv_out r (Take len) = take (unat len) (reader_peek (ra_output (rv_reassembler r)))"
| "recv_out r _ = []"

lemma recv_out_calls: "recv_out r e = collect reasm_step reasm_out (rv_reassembler r) (recv_calls r e)"
  by (cases e) auto

definition fresh_receiver :: "u64 \<Rightarrow> TCPReceiver" where
  "fresh_receiver c = tcp_receiver (reassembler (byte_stream c))"

lemma fresh_receiver_simps [simp]:
  "rv_reassembler (fresh_receiver c) = reassembler (byte_stream c)"
  "\<not> rv_received_SYN (fresh_receiver c)" "rv_ISN (fresh_receiver c) = None"
  "rv_ackno (fresh_receiver c) = None" "rv_checkpoint (fresh_receiver c) = 0"
  by (simp_all add: fresh_receiver_def tcp_receiver_def)

lemma receiver_inv_init:
  "length S + unat c < 2 ^ 64 \<Longrightarrow> length S + 2 < 2 ^ 64 \<Longrightarrow> receiver_inv S isn (fresh_receiver c)"
  by (simp add: receiver_inv_def ra_inv_init)

text \<open>What a receiver's run does to the stream, and what it acknowledges.\<close>

lemma receiver_run:
  assumes room: "length S + unat c < 2 ^ 64" "length S + 2 < 2 ^ 64"
    and adm: "admissible (recv_step isn) (recv_ok S) (fresh_receiver c) es"
  defines "r \<equiv> run (recv_step isn) (fresh_receiver c) es"
  shows "receiver_inv S isn r"
    and "collect (recv_step isn) recv_out (fresh_receiver c) es
        @ reader_peek (ra_output (rv_reassembler r)) = take (assembled (rv_reassembler r)) S"
proof -
  note init = receiver_inv_init [OF room]
  show "receiver_inv S isn r" unfolding r_def by (rule rcv.run_inv [OF init adm])
  have "collect (recv_step isn) recv_out (fresh_receiver c) es
      = collect reasm_step reasm_out (rv_reassembler (fresh_receiver c))
          (collect (recv_step isn) recv_calls (fresh_receiver c) es)"
    by (rule rcv.collect_run [OF recv_out_calls init adm])
  moreover have "rv_reassembler r = run reasm_step (rv_reassembler (fresh_receiver c))
      (collect (recv_step isn) recv_calls (fresh_receiver c) es)"
    unfolding r_def by (rule rcv.part_run [OF init adm])
  ultimately show "collect (recv_step isn) recv_out (fresh_receiver c) es
        @ reader_peek (ra_output (rv_reassembler r)) = take (assembled (rv_reassembler r)) S"
    using reasm_output(1) [OF room(1)] rcv.calls_run [OF init adm] by simp
qed

text \<open>No acceptable segment is lost: either its bytes go to the reassembler or all are there.\<close>

lemma closed_stays:
  assumes "receiver_inv S isn r" and "recv_ok S r e"
    and "writer_is_closed (ra_output (rv_reassembler r))"
  shows "writer_is_closed (ra_output (rv_reassembler (recv_step isn r e)))"
proof (cases e)
  case (Segment fi data syn fin)
  then show ?thesis
    using assms receive_segment [of S isn r fi data syn fin] by (simp add: dropped_def)
next
  case Reset
  then show ?thesis
    using assms(3) by (simp add: tcp_receiver_receive_def reassembler_set_error_def set_error_def
        writer_is_closed_def)
next
  case (Take n)
  have "bs_inv (ra_output (rv_reassembler r))"
    using assms(1) by (auto simp: receiver_inv_def intro: ra_inv_bs)
  then show ?thesis
    using assms(3) Take pop_effect(4) by (simp add: tcp_receiver_pop_def writer_is_closed_def)
next
  case Break
  then show ?thesis
    using assms(3) by (simp add: tcp_receiver_fail_def reassembler_set_error_def set_error_def
        writer_is_closed_def)
qed

lemma closed_run:
  assumes "receiver_inv S isn r" and "admissible (recv_step isn) (recv_ok S) r es"
    and "writer_is_closed (ra_output (rv_reassembler r))"
  shows "writer_is_closed (ra_output (rv_reassembler (run (recv_step isn) r es)))"
  using closed_stays assms
  by (rule rcv.run_stable [where P = "\<lambda>q. writer_is_closed (ra_output (rv_reassembler q))"])

lemma received_stays:
  assumes "receiver_inv S isn r" and "recv_ok S r e" and "rv_received_SYN r"
  shows "rv_received_SYN (recv_step isn r e)"
proof (cases e)
  case (Segment fi data syn fin)
  then show ?thesis
    using assms receive_segment [of S isn r fi data syn fin]
    by (simp add: placed_def receiver_syn_def Let_def)
qed (use assms(3) in \<open>simp_all add: tcp_receiver_receive_def tcp_receiver_pop_def tcp_receiver_fail_def\<close>)

lemma calls_not_lost:
  assumes "receiver_inv S isn r" and "admissible (recv_step isn) (recv_ok S) r es"
    and "rv_received_SYN r" and "Segment fi data False fin \<in> set es" and "data \<noteq> [] \<or> fin"
    and "\<not> writer_is_closed (ra_output (rv_reassembler (run (recv_step isn) r es)))"
  shows "Arrive fi data fin \<in> set (collect (recv_step isn) recv_calls r es)"
  using assms
proof (induction es arbitrary: r)
  case (Cons e es)
  let ?r = "recv_step isn r e"
  have inv: "receiver_inv S isn ?r" and rec: "rv_received_SYN ?r"
    and adm: "admissible (recv_step isn) (recv_ok S) ?r es"
    using Cons.prems by (auto intro: recv_inv received_stays)
  show ?case
  proof (cases "e = Segment fi data False fin")
    case True
    have "\<not> writer_is_closed (ra_output (rv_reassembler r))"
    proof
      assume "writer_is_closed (ra_output (rv_reassembler r))"
      then have "writer_is_closed (ra_output (rv_reassembler (run (recv_step isn) r (e # es))))"
        by (rule closed_run [OF Cons.prems(1,2)])
      then show False using Cons.prems(6) by simp
    qed
    then show ?thesis using True Cons.prems(3,5) by (auto simp: dropped_def)
  next
    case False
    then show ?thesis using Cons.IH [OF inv adm rec _ Cons.prems(5)] Cons.prems(4,6) by auto
  qed
qed simp

text \<open>The stream indices that a segment after the first SYN brings.\<close>

fun seg_brings :: "recv_op \<Rightarrow> nat set" where
  "seg_brings (Segment first_index data syn fin) =
     (if syn then {} else {unat first_index..<unat first_index + length data})"
| "seg_brings _ = {}"

lemma receiver_closes:
  assumes room: "length S + unat c < 2 ^ 64" "length S + 2 < 2 ^ 64" and cap: "length S \<le> unat c"
    and adm: "admissible (recv_step isn) (recv_ok S) (fresh_receiver c) (Segment 0 d0 True f0 # es)"
    and cover: "{..<length S} \<subseteq> {..<length d0} \<union> (\<Union>e \<in> set es. seg_brings e)"
    and fin: "f0 \<or> (\<exists>fi data. Segment fi data False True \<in> set es)"
  shows "writer_is_closed (ra_output (rv_reassembler
    (run (recv_step isn) (fresh_receiver c) (Segment 0 d0 True f0 # es))))"
proof (rule ccontr)
  let ?es = "Segment 0 d0 True f0 # es" and ?r0 = "fresh_receiver c"
  let ?r1 = "recv_step isn ?r0 (Segment 0 d0 True f0)"
  let ?calls = "collect (recv_step isn) recv_calls ?r0 ?es"
  assume open': "\<not> writer_is_closed (ra_output (rv_reassembler (run (recv_step isn) ?r0 ?es)))"
  note init = receiver_inv_init [OF room, of isn]
  have ok: "recv_ok S ?r0 (Segment 0 d0 True f0)" using adm by simp
  have inv: "receiver_inv S isn ?r1" by (rule recv_inv [OF init ok])
  have rec: "rv_received_SYN ?r1"
    using receive_segment [OF init ok]
    by (simp add: placed_def receiver_syn_def Let_def) (simp add: writer_is_closed_def byte_stream_def)
  have adm1: "admissible (recv_step isn) (recv_ok S) ?r1 es" using adm by simp
  have calls0: "d0 \<noteq> [] \<or> f0 \<Longrightarrow> Arrive 0 d0 f0 \<in> set ?calls"
    by (auto simp: dropped_def writer_is_closed_def byte_stream_def)
  have calls1: "Segment fi data False fin \<in> set es \<Longrightarrow> data \<noteq> [] \<or> fin \<Longrightarrow> Arrive fi data fin \<in> set ?calls"
    for fi data fin
    using calls_not_lost [OF inv adm1 rec] open' by auto
  note cadm = rcv.calls_run [OF init adm]
  have "{..<length S} \<subseteq> (\<Union>e \<in> set ?calls. brings e)"
  proof
    fix k assume "k \<in> {..<length S}"
    then consider "k < length d0" | e where "e \<in> set es" "k \<in> seg_brings e" using cover by auto
    then show "k \<in> (\<Union>e \<in> set ?calls. brings e)"
    proof cases
      case 1
      then have "d0 \<noteq> []" by auto
      then have "Arrive 0 d0 f0 \<in> set ?calls" using calls0 by blast
      then show ?thesis by (rule UN_I) (use 1 in simp)
    next
      case 2
      obtain fi data fin where e: "e = Segment fi data False fin"
        by (cases e) (use 2(2) in \<open>auto split: if_splits\<close>)
      then have seg: "Segment fi data False fin \<in> set es" "k \<in> seg_brings (Segment fi data False fin)"
        using 2 by (simp_all add: e)
      then have "data \<noteq> []" by auto
      then have "Arrive fi data fin \<in> set ?calls" using calls1 [OF seg(1)] by blast
      then show ?thesis by (rule UN_I) (use seg(2) in simp)
    qed
  qed
  then have all: "assembled (run reasm_step (rv_reassembler ?r0) ?calls) = length S"
    using ra_inv_init [OF room(1)] cadm cap by (intro reasm.run_complete) simp_all
  have "\<exists>fi data l. l \<and> Arrive fi data l \<in> set ?calls"
    using fin calls0 calls1 by blast
  then obtain fi data l where l: "l" "Arrive fi data l \<in> set ?calls" by blast
  have "Arrive fi data True \<in> set ?calls" using l by (metis (full_types))
  then have "ra_total_size (run reasm_step (rv_reassembler ?r0) ?calls) \<noteq> None"
    using reasm_total_known [OF _ cadm] ra_inv_init [OF room(1)] by simp
  moreover have "rv_reassembler (run (recv_step isn) ?r0 ?es) = run reasm_step (rv_reassembler ?r0) ?calls"
    by (rule rcv.part_run [OF init adm])
  moreover have "ra_inv S (rv_reassembler (run (recv_step isn) ?r0 ?es))"
    using rcv.run_inv [OF init adm] by (simp only: receiver_inv_def)
  ultimately have "writer_is_closed (ra_output (rv_reassembler (run (recv_step isn) ?r0 ?es)))"
    using all unfolding ra_inv_def writer_is_closed_def by argo
  then show False using open' by blast
qed

section \<open>The advertised window\<close>

definition advertised_edge :: "TCPReceiver \<Rightarrow> nat" where
  "advertised_edge r =
     assembled (rv_reassembler r) + unat (rm_window_size (tcp_receiver_send r))"

lemma unat_window:
  "unat (rm_window_size (tcp_receiver_send r)) =
     min (unat (available_capacity (ra_output (rv_reassembler r)))) 65535"
proof -
  let ?a = "available_capacity (ra_output (rv_reassembler r))"
  have "unat (min ?a 65535) = min (unat ?a) 65535" by (simp only: unat_min unat_numeral) simp
  moreover have "unat (ucast (min ?a 65535) :: u16) = unat (min ?a 65535) mod 2 ^ 16"
    by (simp add: unsigned_ucast_eq take_bit_eq_mod)
  moreover have "min (unat ?a) 65535 < 2 ^ 16" by simp
  ultimately show ?thesis by (simp add: tcp_receiver_send_def)
qed

lemma edge_mono:
  assumes "a \<le> (a' :: nat)" and "a + w \<le> a' + w'"
  shows "a + min w m \<le> a' + min w' m"
  using assms by (simp add: min_def)

lemma recv_edge_mono:
  assumes inv: "receiver_inv S isn r" and ok: "recv_ok S r e"
  shows "advertised_edge r \<le> advertised_edge (recv_step isn r e)"
proof -
  have ra: "ra_inv S (rv_reassembler r)" using inv by (simp only: receiver_inv_def)
  have mono: "assembled (rv_reassembler r) \<le> assembled (run reasm_step (rv_reassembler r) (recv_calls r e))"
    by (rule reasm.run_mono [OF reasm_step_mono ra recv_calls_ok [OF ok]])
  have win: "window_end (rv_reassembler r) \<le> window_end (run reasm_step (rv_reassembler r) (recv_calls r e))"
    by (rule reasm.run_mono [OF reasm.limit_step ra recv_calls_ok [OF ok]])
  show ?thesis
    unfolding advertised_edge_def unat_window recv_step_reassembler [OF inv ok]
    using mono win by (intro edge_mono) (simp_all add: window_end_def)
qed

section \<open>Any message at all\<close>

text \<open>What keeps \<open>*ISN\<close> defined, whatever the peer sends.\<close>

definition receiver_sane :: "TCPReceiver \<Rightarrow> bool" where
  "receiver_sane r \<longleftrightarrow> (rv_received_SYN r \<longleftrightarrow> rv_ISN r \<noteq> None)
     \<and> (rv_received_SYN r \<longleftrightarrow> rv_ackno r \<noteq> None)
     \<and> (writer_is_closed (ra_output (rv_reassembler r)) \<longrightarrow> rv_received_SYN r)"

lemma receiver_place_simps [simp]:
  "rv_ISN (receiver_place r m isn) = rv_ISN r"
  "rv_received_SYN (receiver_place r m isn) = rv_received_SYN r"
  "rv_rst (receiver_place r m isn) = rv_rst r"
  "rv_ackno (receiver_place r m isn) \<noteq> None"
  by (simp_all add: receiver_place_def Let_def)

lemma receiver_syn_simps [simp]:
  "rv_rst (receiver_syn r m) = rv_rst r"
  "rv_reassembler (receiver_syn r m) = rv_reassembler r"
  "rv_received_SYN (receiver_syn r m) \<longleftrightarrow> rv_received_SYN r \<or> sm_SYN m"
  "rv_received_SYN r \<Longrightarrow> rv_ISN (receiver_syn r m) = rv_ISN r"
  by (auto simp: receiver_syn_def)

lemma receiver_syn_sane: "receiver_sane r \<Longrightarrow> receiver_sane (receiver_syn r m)"
  by (auto simp: receiver_sane_def receiver_syn_def)

lemma receiver_place_sane:
  "receiver_sane r \<Longrightarrow> rv_received_SYN r \<Longrightarrow> receiver_sane (receiver_place r m isn)"
  by (auto simp: receiver_sane_def)

lemma receive_sane:
  assumes sane: "receiver_sane r"
  shows "\<exists>r'. tcp_receiver_receive r m = Some r' \<and> receiver_sane r'
    \<and> (rv_rst r' \<longleftrightarrow> rv_rst r \<or> sm_RST m) \<and> (rv_received_SYN r \<longrightarrow> rv_ISN r' = rv_ISN r)"
proof (cases "sm_RST m")
  case True
  then show ?thesis
    using assms by (auto simp: tcp_receiver_receive_def receiver_sane_def reassembler_set_error_def
        set_error_def writer_is_closed_def)
next
  case no_rst: False
  let ?r1 = "receiver_syn r m"
  have isn: "rv_received_SYN ?r1 \<Longrightarrow> \<exists>i. rv_ISN ?r1 = Some i"
    using receiver_syn_sane [OF sane, of m] by (auto simp: receiver_sane_def)
  have "tcp_receiver_receive r m = Some r \<or> tcp_receiver_receive r m = Some ?r1
    \<or> rv_received_SYN ?r1
        \<and> tcp_receiver_receive r m = map_option (receiver_place ?r1 m) (rv_ISN ?r1)
    \<or> writer_is_closed (ra_output (rv_reassembler r)) \<and> rv_ISN r = None"
    using no_rst by (simp add: tcp_receiver_receive_def Let_def)
  then consider "tcp_receiver_receive r m = Some r" | "tcp_receiver_receive r m = Some ?r1"
    | "rv_received_SYN ?r1"
      "tcp_receiver_receive r m = map_option (receiver_place ?r1 m) (rv_ISN ?r1)"
    | "writer_is_closed (ra_output (rv_reassembler r))" "rv_ISN r = None"
    by (elim disjE conjE) assumption+
  then show ?thesis
  proof cases
    case 1
    then show ?thesis using sane no_rst by simp
  next
    case 2
    then show ?thesis using no_rst receiver_syn_sane [OF sane, of m] by simp
  next
    case 3
    then obtain i where "tcp_receiver_receive r m = Some (receiver_place ?r1 m i)"
      using isn by auto
    then show ?thesis
      using no_rst receiver_place_sane [OF receiver_syn_sane [OF sane] 3(1), of m i] by simp
  next
    case 4
    then show ?thesis using sane by (auto simp: receiver_sane_def)
  qed
qed

section \<open>Two segments outside every honest stream\<close>

text \<open>
  The checkpoint is the end of the last segment placed, even of one the window rejects. After
  one segment far ahead of the window, the next byte the receiver waits for is taken for the
  one \<open>2 ^ 32\<close> later, and is not assembled.
\<close>

definition after_syn :: TCPReceiver where
  "after_syn = recv_step (Wrap32 7) (fresh_receiver 4) (Segment 0 [] True False)"

lemma far_segment_moves_checkpoint:
  "bytes_pushed (ra_output (rv_reassembler
      (run (recv_step (Wrap32 7)) after_syn [Segment 0 [8] False False]))) = 1
   \<and> bytes_pushed (ra_output (rv_reassembler
      (run (recv_step (Wrap32 7)) after_syn
        [Segment 2147483660 [1] False False, Segment 0 [8] False False]))) = 0"
  by (rule conjI; code_simp)

text \<open>
  A segment without SYN whose sequence number is the initial one gets the index \<open>2 ^ 64 - 1\<close>;
  with one byte and a FIN its end wraps to 0, and the empty stream is closed.
\<close>

lemma isn_segment_closes_stream:
  "writer_is_closed (ra_output (rv_reassembler
      (run (recv_step (Wrap32 7)) after_syn [Segment (- 1) [8] False True])))"
  by code_simp

section \<open>Properties\<close>

text \<open>
  C14: the receiver of a stream \<open>S\<close>. Whatever segments of \<open>S\<close> arrive (in any order, split
  in any way, repeated, before the SYN or after the end; each within \<open>2 ^ 31\<close> sequence numbers
  of the checkpoint), interleaved with resets and reads: the bytes handed to the reader are a
  prefix of \<open>S\<close>, and the acknowledgment is the sequence number after the SYN, the assembled
  bytes and, once the stream is closed, the FIN; there is none before the SYN.
\<close>
theorem receiver_delivers_prefix:
  assumes "length S + unat c < 2 ^ 64" and "length S + 2 < 2 ^ 64"
    and "admissible (recv_step isn) (recv_ok S) (fresh_receiver c) es"
  defines "r \<equiv> run (recv_step isn) (fresh_receiver c) es"
  defines "w \<equiv> ra_output (rv_reassembler r)"
  shows "collect (recv_step isn) recv_out (fresh_receiver c) es @ reader_peek w
      = take (unat (bytes_pushed w)) S
    \<and> (writer_is_closed w \<longrightarrow> unat (bytes_pushed w) = length S)
    \<and> rm_ackno (tcp_receiver_send r) = (if rv_received_SYN r
        then Some (wrap (1 + bytes_pushed w + of_bool (writer_is_closed w)) isn) else None)"
proof -
  have inv: "receiver_inv S isn r" unfolding r_def by (rule receiver_run(1) [OF assms(1-3)])
  have "rm_ackno (tcp_receiver_send r) = (if rv_received_SYN r
        then Some (wrap (1 + bytes_pushed w + of_bool (writer_is_closed w)) isn) else None)"
    using inv by (simp add: receiver_inv_def tcp_receiver_send_def w_def)
  moreover have "writer_is_closed w \<longrightarrow> unat (bytes_pushed w) = length S"
    using inv by (simp add: receiver_inv_def ra_inv_def writer_is_closed_def w_def assembled_def)
  ultimately show ?thesis
    using receiver_run(2) [OF assms(1-3)] by (simp add: r_def w_def assembled_def)
qed

text \<open>The segments of a two-byte stream, the second one before the first.\<close>

theorem receiver_delivers_prefix_witness:
  "reader_peek (ra_output (rv_reassembler (run (recv_step (Wrap32 (- 1))) (fresh_receiver 4)
     [Segment 0 [] True False, Segment 1 [9] False True, Segment 0 [8] False False]))) = [8, 9]"
proof -
  let ?es = "[Segment 0 [] True False, Segment 1 [9] False True, Segment 0 [8] False False]"
  let ?w = "ra_output (rv_reassembler (run (recv_step (Wrap32 (- 1))) (fresh_receiver 4) ?es))"
  have step1: "rv_checkpoint (recv_step (Wrap32 (- 1)) (fresh_receiver 4) (Segment 0 [] True False)) = 0"
    by code_simp
  have step2: "rv_checkpoint (recv_step (Wrap32 (- 1)) (recv_step (Wrap32 (- 1)) (fresh_receiver 4)
      (Segment 0 [] True False)) (Segment 1 [9] False True)) = 2"
    by code_simp
  have adm: "admissible (recv_step (Wrap32 (- 1))) (recv_ok [8, 9]) (fresh_receiver 4) ?es"
    using step1 step2 by (simp add: consistent_def del: recv_step.simps)
  have pushed: "bytes_pushed ?w = 2" by code_simp
  have out: "collect (recv_step (Wrap32 (- 1))) recv_out (fresh_receiver 4) ?es = []" by simp
  show ?thesis
    using receiver_delivers_prefix [OF _ _ adm] unfolding pushed out by simp
qed

text \<open>
  C15: completeness. After a SYN, once segments covering all of \<open>S\<close> have arrived, one of them
  with the FIN, a receiver whose capacity admits the stream has delivered exactly \<open>S\<close>, has
  closed its output and acknowledges everything, the FIN included.
\<close>
theorem receiver_completes:
  assumes "length S + unat c < 2 ^ 64" and "length S + 2 < 2 ^ 64" and "length S \<le> unat c"
    and "admissible (recv_step isn) (recv_ok S) (fresh_receiver c) (Segment 0 d0 True f0 # es)"
    and "{..<length S} \<subseteq> {..<length d0} \<union> (\<Union>e \<in> set es. seg_brings e)"
    and "f0 \<or> (\<exists>first_index data. Segment first_index data False True \<in> set es)"
  defines "r \<equiv> run (recv_step isn) (fresh_receiver c) (Segment 0 d0 True f0 # es)"
  shows "collect (recv_step isn) recv_out (fresh_receiver c) (Segment 0 d0 True f0 # es)
        @ reader_peek (ra_output (rv_reassembler r)) = S
    \<and> writer_is_closed (ra_output (rv_reassembler r))
    \<and> rm_ackno (tcp_receiver_send r) = Some (wrap (of_nat (length S + 2)) isn)"
proof -
  have closed: "writer_is_closed (ra_output (rv_reassembler r))"
    unfolding r_def by (rule receiver_closes [OF assms(1-6)])
  note rr = receiver_run [OF assms(1,2,4), folded r_def]
  have all: "assembled (rv_reassembler r) = length S" and rec: "rv_received_SYN r"
    using rr(1) closed closed_received [OF rr(1) closed]
    by (simp_all add: receiver_inv_def ra_inv_def writer_is_closed_def)
  have "bytes_pushed (ra_output (rv_reassembler r)) = of_nat (length S)"
    using all assms(2) by (intro unat_eqI) (simp add: assembled_def unat_of_nat64)
  then have "rm_ackno (tcp_receiver_send r) = Some (wrap (of_nat (length S + 2)) isn)"
    using rr(1) rec closed by (simp add: receiver_inv_def tcp_receiver_send_def add.commute)
  then show ?thesis using closed all rr(2) by simp
qed

theorem receiver_completes_witness:
  "writer_is_closed (ra_output (rv_reassembler (run (recv_step (Wrap32 7)) (fresh_receiver 4)
      [Segment 0 [8] True False, Segment 1 [9] False True])))
   \<and> rm_ackno (tcp_receiver_send (run (recv_step (Wrap32 7)) (fresh_receiver 4)
      [Segment 0 [8] True False, Segment 1 [9] False True])) = Some (Wrap32 11)"
proof -
  let ?es = "[Segment 0 [8] True False, Segment 1 [9] False True]"
  have cp: "rv_checkpoint (recv_step (Wrap32 7) (fresh_receiver 4) (Segment 0 [8] True False)) = 1"
    by code_simp
  have adm: "admissible (recv_step (Wrap32 7)) (recv_ok [8, 9]) (fresh_receiver 4) ?es"
    using cp by (simp add: consistent_def del: recv_step.simps)
  have cover: "{..<length [8, 9 :: byte]} \<subseteq> {..<length [8 :: byte]}
      \<union> (\<Union>e \<in> set [Segment 1 [9] False True]. seg_brings e)"
    by auto
  have "wrap 4 (Wrap32 7) = Wrap32 11" by (simp add: wrap_def)
  then show ?thesis
    using receiver_completes [OF _ _ _ adm cover] by simp
qed

text \<open>
  No message can make \<open>receive\<close> read an empty \<open>std::optional\<close>: from any state that is
  consistent about the SYN every message, in or out of any window, is handled and leaves such a
  state, in which the reset flag is set exactly if it was or the message resets, and an initial
  sequence number once learned never changes. A fresh receiver is in such a state.
\<close>
lemma receive_always_defined:
  "(\<forall>r m. receiver_sane r \<longrightarrow>
      (\<exists>r'. tcp_receiver_receive r m = Some r' \<and> receiver_sane r'
        \<and> (rv_rst r' \<longleftrightarrow> rv_rst r \<or> sm_RST m)
        \<and> (rv_received_SYN r \<longrightarrow> rv_ISN r' = rv_ISN r)))
   \<and> receiver_sane (fresh_receiver c)"
proof -
  have "receiver_sane (fresh_receiver c)"
    by (simp add: receiver_sane_def writer_is_closed_def byte_stream_def)
  then show ?thesis using receive_sane by blast
qed

text \<open>
  C16: the advertised window is the free capacity of the stream, cut at 65535, and the right
  edge it promises (acknowledged bytes plus window) never moves back along any run: the
  receiver never withdraws room it has offered.
\<close>
theorem window_edge_monotone:
  assumes "receiver_inv S isn r" and "admissible (recv_step isn) (recv_ok S) r es"
  shows "unat (rm_window_size (tcp_receiver_send r))
      = min (unat (available_capacity (ra_output (rv_reassembler r)))) 65535
    \<and> advertised_edge r \<le> advertised_edge (run (recv_step isn) r es)"
proof -
  have "advertised_edge r \<le> advertised_edge (run (recv_step isn) r es)"
    using recv_edge_mono assms by (rule rcv.run_mono)
  then show ?thesis using unat_window by blast
qed

theorem window_edge_monotone_witness:
  "advertised_edge (fresh_receiver 70000)
     \<le> advertised_edge (run (recv_step (Wrap32 7)) (fresh_receiver 70000) [Segment 0 [8] True False])"
proof -
  have inv: "receiver_inv [8, 9] (Wrap32 7) (fresh_receiver 70000)"
    by (rule receiver_inv_init) simp_all
  have adm: "admissible (recv_step (Wrap32 7)) (recv_ok [8, 9]) (fresh_receiver 70000)
      [Segment 0 [8] True False]"
    by (simp add: consistent_def)
  show ?thesis using window_edge_monotone [OF inv adm] by blast
qed

end
