(* ===== verification/Ref.thy ===== *)
theory Ref
  imports Prelude "HOL-Library.Monad_Syntax"
begin

text \<open>
  \<open>util/ref.hh\<close>: a \<open>Ref<T>\<close> owns its object or borrows another's. A borrowed one is
  modelled by the value of the object it points to, which the code keeps alive and unchanged
  while it is borrowed. \<open>None\<close> is the \<open>runtime_error\<close> of a mutable access to a
  borrowed object.
\<close>

datatype 'a Ref = Owned 'a | Borrowed 'a

text \<open>\<open>Ref(T&&)\<close> and \<open>borrow(const T&)\<close>.\<close>

definition ref_of :: "'a \<Rightarrow> 'a Ref" where
  "ref_of obj = Owned obj"

definition borrow :: "'a \<Rightarrow> 'a Ref" where
  "borrow obj = Borrowed obj"

fun is_owned :: "'a Ref \<Rightarrow> bool" where
  "is_owned (Owned x) = True"
| "is_owned (Borrowed x) = False"

definition is_borrowed :: "'a Ref \<Rightarrow> bool" where
  "is_borrowed r = (\<not> is_owned r)"

fun ref_get :: "'a Ref \<Rightarrow> 'a" where
  "ref_get (Owned x) = x"
| "ref_get (Borrowed x) = x"

text \<open>\<open>get_mut()\<close> with the change \<open>f\<close> made through it.\<close>

definition ref_get_mut :: "('a \<Rightarrow> 'a) \<Rightarrow> 'a Ref \<Rightarrow> 'a Ref option" where
  "ref_get_mut f r = (case r of Owned x \<Rightarrow> Some (Owned (f x)) | Borrowed x \<Rightarrow> None)"

text \<open>The member \<open>borrow()\<close>, the implicit copy and \<open>release()\<close>.\<close>

definition ref_borrow :: "'a Ref \<Rightarrow> 'a Ref" where
  "ref_borrow r = (case r of Owned x \<Rightarrow> Borrowed x | Borrowed x \<Rightarrow> Borrowed x)"

definition ref_copy :: "'a Ref \<Rightarrow> 'a Ref" where
  "ref_copy r = Owned (ref_get r)"

definition ref_release :: "'a Ref \<Rightarrow> 'a" where
  "ref_release r = (if is_owned r then ref_get r else ref_get r)"

lemma ref_simps [simp]:
  "ref_get (ref_of x) = x" "ref_get (borrow x) = x" "ref_get (ref_borrow r) = ref_get r"
  "ref_get (ref_copy r) = ref_get r" "ref_release r = ref_get r"
  "is_owned (ref_of x)" "\<not> is_owned (borrow x)" "\<not> is_owned (ref_borrow r)" "is_owned (ref_copy r)"
  by (cases r; simp add: ref_of_def borrow_def ref_borrow_def ref_copy_def ref_release_def)+

text \<open>The bytes of a sequence of buffers.\<close>

definition bytes_of :: "byte list Ref list \<Rightarrow> byte list" where
  "bytes_of bufs = concat (map ref_get bufs)"

lemma bytes_of_simps [simp]:
  "bytes_of [] = []" "bytes_of (b # bs) = ref_get b @ bytes_of bs"
  "bytes_of (bs @ bs') = bytes_of bs @ bytes_of bs'"
  by (simp_all add: bytes_of_def)

lemma bytes_of_borrow [simp]: "bytes_of (map ref_borrow bs) = bytes_of bs"
  and bytes_of_copy [simp]: "bytes_of (map ref_copy bs) = bytes_of bs"
  by (induction bs) simp_all

text \<open>Empty buffers only at the end.\<close>

fun no_gap :: "byte list Ref list \<Rightarrow> bool" where
  "no_gap [] = True"
| "no_gap (b # bs) = (if ref_get b = [] then bytes_of bs = [] else no_gap bs)"

lemma no_gap_tl: "no_gap (b # bs) \<Longrightarrow> no_gap bs"
proof -
  have "bytes_of bs = [] \<Longrightarrow> no_gap bs" by (induction bs) auto
  then show "no_gap (b # bs) \<Longrightarrow> no_gap bs" by (simp split: if_splits)
qed

lemma no_gap_nonempty: "\<forall>b \<in> set bs. ref_get b \<noteq> [] \<Longrightarrow> no_gap bs"
  by (induction bs) auto

end
