(* ===== verification/Parser.thy ===== *)
theory Parser
  imports Ref
begin

text \<open>
  \<open>util/parser.hh\<close> and \<open>util/parser.cc\<close>: reading integers and payloads from a sequence
  of buffers, and writing them to one. An operation has the value \<open>None\<close> where the code
  throws (\<open>peek\<close> on an empty list, \<open>substr\<close> beyond the end) or reads the front of an
  empty view, which is undefined. The lemmas show that neither happens on lists whose empty
  buffers are at the end, and that there the operations are those of the flat byte string.
\<close>

unbundle bit_operations_syntax

section \<open>Parser::BufferList\<close>

record BufferList =
  bl_size :: u64
  bl_buffer :: "byte list Ref list"
  bl_skip :: u64

text \<open>The constructor: \<open>None\<close> for \<open>cannot parse borrowed string\<close>.\<close>

fun buffer_list_from :: "BufferList \<Rightarrow> byte list Ref list \<Rightarrow> BufferList option" where
  "buffer_list_from bl [] = Some bl"
| "buffer_list_from bl (x # xs) =
     (if is_borrowed x then None
      else buffer_list_from (bl\<lparr>bl_buffer := bl_buffer bl @ [x],
                                bl_size := bl_size bl + vsize (ref_get x)\<rparr>) xs)"

definition buffer_list :: "byte list Ref list \<Rightarrow> BufferList option" where
  "buffer_list buffers = buffer_list_from \<lparr>bl_size = 0, bl_buffer = [], bl_skip = 0\<rparr> buffers"

definition bl_empty :: "BufferList \<Rightarrow> bool" where
  "bl_empty bl \<longleftrightarrow> bl_size bl = 0"

definition bl_peek :: "BufferList \<Rightarrow> byte list option" where
  "bl_peek bl =
     (case bl_buffer bl of
        [] \<Rightarrow> None
      | x # _ \<Rightarrow> if bl_skip bl > vsize (ref_get x) then None
                 else Some (drop (unat (bl_skip bl)) (ref_get x)))"

lemma skip_reaches_end:
  assumes "bl_peek bl = Some view"
  shows "bl_skip bl + vsize view = vsize (ref_get (hd (bl_buffer bl)))"
proof -
  obtain x xs where b: "bl_buffer bl = x # xs" and le: "\<not> bl_skip bl > vsize (ref_get x)"
    and view: "view = drop (unat (bl_skip bl)) (ref_get x)"
    using assms by (auto simp: bl_peek_def split: list.splits if_splits)
  have "unat (bl_skip bl) \<le> length (ref_get x)"
    using le unat_vsize_le [of "ref_get x"] by (simp add: not_less word_le_nat_alt)
  then have "length (ref_get x) = unat (bl_skip bl) + length view"
    by (simp add: view)
  then have "vsize (ref_get x) = of_nat (unat (bl_skip bl)) + vsize view"
    by (simp add: vsize_def)
  then show ?thesis by (simp add: b)
qed

function bl_remove_prefix :: "u64 \<Rightarrow> BufferList \<Rightarrow> BufferList option" where
  "bl_remove_prefix len bl =
     (if len \<noteq> 0 \<and> bl_buffer bl \<noteq> []
      then case bl_peek bl of
             None \<Rightarrow> None
           | Some view \<Rightarrow>
               (let to_pop_now = min len (vsize view);
                    skip = bl_skip bl + to_pop_now;
                    bl' = bl\<lparr>bl_skip := skip, bl_size := bl_size bl - to_pop_now\<rparr>
                in bl_remove_prefix (len - to_pop_now)
                     (if skip = vsize (ref_get (hd (bl_buffer bl)))
                      then bl'\<lparr>bl_buffer := tl (bl_buffer bl), bl_skip := 0\<rparr> else bl'))
      else Some bl)"
  by pat_completeness auto

termination
proof (relation "measures [\<lambda>(len, bl). length (bl_buffer bl), \<lambda>(len, bl). unat len]")
  fix len :: u64 and bl view to_pop_now skip bl'
  assume run: "len \<noteq> 0 \<and> bl_buffer bl \<noteq> []" and peek: "bl_peek bl = Some view"
    and eqs: "to_pop_now = min len (vsize view)" "skip = bl_skip bl + to_pop_now"
      "bl' = bl\<lparr>bl_skip := skip, bl_size := bl_size bl - to_pop_now\<rparr>"
  show "((len - to_pop_now, if skip = vsize (ref_get (hd (bl_buffer bl)))
          then bl'\<lparr>bl_buffer := tl (bl_buffer bl), bl_skip := 0\<rparr> else bl'), (len, bl))
      \<in> measures [\<lambda>(len, bl). length (bl_buffer bl), \<lambda>(len, bl). unat len]"
  proof (cases "skip = vsize (ref_get (hd (bl_buffer bl)))")
    case True
    then show ?thesis using run eqs by simp
  next
    case False
    then have "to_pop_now = len"
      using skip_reaches_end [OF peek] eqs by (auto simp: min_def)
    then show ?thesis using False run eqs by (simp add: unat_gt_0)
  qed
qed simp

declare bl_remove_prefix.simps [simp del]

text \<open>
  The loop of \<open>truncate\<close> from its first buffer on, with the bytes counted so far: the
  buffers it leaves in the list. Where a buffer is cut, the loop breaks with the iterator still
  at it, and the erasing loop that follows starts there.
\<close>

fun bl_truncate_loop :: "u64 \<Rightarrow> u64 \<Rightarrow> byte list Ref list \<Rightarrow> byte list Ref list option" where
  "bl_truncate_loop len size_so_far [] = Some []"
| "bl_truncate_loop len size_so_far (x # xs) =
     (if size_so_far + vsize (ref_get x) < len
      then map_option ((#) x) (bl_truncate_loop len (size_so_far + vsize (ref_get x)) xs)
      else if size_so_far + vsize (ref_get x) = len then Some [x]
      else if ref_get x = [] \<or> \<not> len > size_so_far \<or> \<not> len - size_so_far < vsize (ref_get x)
      then None
      else map_option (\<lambda>_. [])
             (ref_get_mut (resize 0 (unat (len - size_so_far))) x))"

definition bl_truncate :: "u64 \<Rightarrow> BufferList \<Rightarrow> BufferList option" where
  "bl_truncate len bl =
     (if bl_size bl \<le> len then Some bl
      else if len = 0 then Some (bl\<lparr>bl_buffer := [], bl_size := 0\<rparr>)
      else map_option (\<lambda>buf. bl\<lparr>bl_buffer := buf, bl_size := len\<rparr>)
             (bl_truncate_loop len 0 (bl_buffer bl)))"

text \<open>\<open>dump_all\<close> moves the buffers out; what it leaves behind is not read again.\<close>

definition bl_dump_all :: "BufferList \<Rightarrow> byte list Ref list option" where
  "bl_dump_all bl =
     (if bl_empty bl then Some []
      else case bl_buffer bl of
             [] \<Rightarrow> None
           | x # xs \<Rightarrow>
               if bl_skip bl \<noteq> 0
               then (if bl_skip bl > vsize (ref_get x) then None
                     else Some (ref_of (drop (unat (bl_skip bl)) (ref_get x)) # xs))
               else Some (x # xs))"

definition bl_views :: "BufferList \<Rightarrow> byte list list option" where
  "bl_views bl =
     (if bl_empty bl then Some []
      else case bl_buffer bl of
             [] \<Rightarrow> Some []
           | x # xs \<Rightarrow> if bl_skip bl > vsize (ref_get x) then None
                       else Some (drop (unat (bl_skip bl)) (ref_get x) # map ref_get xs))"

section \<open>Parser\<close>

record Parser =
  pr_input :: BufferList
  pr_error :: bool

definition parser :: "byte list Ref list \<Rightarrow> Parser option" where
  "parser buffers = map_option (\<lambda>bl. \<lparr>pr_input = bl, pr_error = False\<rparr>) (buffer_list buffers)"

definition parser_set_error :: "Parser \<Rightarrow> Parser" where
  "parser_set_error p = p\<lparr>pr_error := True\<rparr>"

definition parser_has_error :: "Parser \<Rightarrow> bool" where
  "parser_has_error p = pr_error p"

definition check_size :: "u64 \<Rightarrow> Parser \<Rightarrow> Parser" where
  "check_size n p = (if n > bl_size (pr_input p) then p\<lparr>pr_error := True\<rparr> else p)"

definition parser_remove_prefix :: "u64 \<Rightarrow> Parser \<Rightarrow> Parser option" where
  "parser_remove_prefix n p =
     map_option (\<lambda>bl. p\<lparr>pr_input := bl\<rparr>) (bl_remove_prefix n (pr_input p))"

definition parser_truncate :: "u64 \<Rightarrow> Parser \<Rightarrow> Parser option" where
  "parser_truncate len p = map_option (\<lambda>bl. p\<lparr>pr_input := bl\<rparr>) (bl_truncate len (pr_input p))"

definition all_remaining :: "Parser \<Rightarrow> byte list Ref list option" where
  "all_remaining p = bl_dump_all (pr_input p)"

definition parser_buffer :: "Parser \<Rightarrow> byte list list option" where
  "parser_buffer p = bl_views (pr_input p)"

definition concatenate_all_remaining :: "Parser \<Rightarrow> byte list option" where
  "concatenate_all_remaining p =
     map_option (\<lambda>bufs. case bufs of
         [] \<Rightarrow> []
       | b # bs \<Rightarrow> foldl (\<lambda>out x. out @ ref_get x) (ref_release b) bs) (all_remaining p)"

text \<open>\<open>input_.peek().front()\<close> and \<open>remove_prefix(1)\<close>.\<close>

definition next_byte :: "Parser \<Rightarrow> (byte \<times> Parser) option" where
  "next_byte p =
     do { view \<leftarrow> bl_peek (pr_input p);
          (if view = [] then None
           else do { p' \<leftarrow> parser_remove_prefix 1 p; Some (hd view, p') }) }"

fun read_bytes :: "nat \<Rightarrow> 'a :: len word \<Rightarrow> Parser \<Rightarrow> ('a word \<times> Parser) option" where
  "read_bytes 0 out p = Some (out, p)"
| "read_bytes (Suc n) out p =
     do { (b, p') \<leftarrow> next_byte p; read_bytes n (push_bit 8 out OR ucast b) p' }"

text \<open>\<open>integer(out)\<close>, for a word of \<open>8 * sizeof(T)\<close> bits; \<open>out\<close> stays on an error.\<close>

definition parser_integer :: "'a :: len word \<Rightarrow> Parser \<Rightarrow> ('a word \<times> Parser) option" where
  "parser_integer out p =
     (let size = LENGTH('a) div 8; p = check_size (of_nat size) p
      in if parser_has_error p then Some (out, p)
         else if size = 1 then do { (b, p') \<leftarrow> next_byte p; Some (ucast b, p') }
         else read_bytes size 0 p)"

section \<open>Serializer\<close>

record Serializer =
  sz_output :: "byte list Ref list"
  sz_buffer :: "byte list"

definition serializer :: Serializer where
  "serializer = \<lparr>sz_output = [], sz_buffer = []\<rparr>"

definition serializer_flush :: "Serializer \<Rightarrow> Serializer" where
  "serializer_flush s =
     (if sz_buffer s \<noteq> []
      then s\<lparr>sz_output := sz_output s @ [ref_of (sz_buffer s)], sz_buffer := []\<rparr> else s)"

definition serializer_integer :: "'a :: len word \<Rightarrow> Serializer \<Rightarrow> Serializer" where
  "serializer_integer val s =
     (let len = LENGTH('a) div 8
      in s\<lparr>sz_buffer := sz_buffer s @ map (\<lambda>i. ucast (drop_bit ((len - i - 1) * 8) val)) [0..<len]\<rparr>)"

text \<open>\<open>buffer(string)\<close>, \<open>buffer(Ref<string>)\<close> and \<open>buffer(const vector<Ref<string>>&)\<close>.\<close>

definition serializer_string :: "byte list \<Rightarrow> Serializer \<Rightarrow> Serializer" where
  "serializer_string buf s =
     (if buf \<noteq> []
      then (serializer_flush s)\<lparr>sz_output := sz_output (serializer_flush s) @ [ref_of buf]\<rparr> else s)"

definition serializer_ref :: "byte list Ref \<Rightarrow> Serializer \<Rightarrow> Serializer" where
  "serializer_ref buf s =
     (if ref_get buf \<noteq> []
      then (serializer_flush s)\<lparr>sz_output := sz_output (serializer_flush s) @ [buf]\<rparr> else s)"

definition serializer_buffers :: "byte list Ref list \<Rightarrow> Serializer \<Rightarrow> Serializer" where
  "serializer_buffers bufs s = fold (\<lambda>b. serializer_ref (ref_borrow b)) bufs s"

definition serializer_finish :: "Serializer \<Rightarrow> byte list Ref list" where
  "serializer_finish s = sz_output (serializer_flush s)"

section \<open>The flat contents\<close>

definition bl_bytes :: "BufferList \<Rightarrow> byte list" where
  "bl_bytes bl = drop (unat (bl_skip bl)) (bytes_of (bl_buffer bl))"

text \<open>Sizes agree, the skipped part lies in the first buffer, and no gap comes before a byte.\<close>

definition bl_ok :: "BufferList \<Rightarrow> bool" where
  "bl_ok bl \<longleftrightarrow> unat (bl_size bl) = length (bl_bytes bl) \<and> no_gap (bl_buffer bl)
     \<and> length (bytes_of (bl_buffer bl)) < 2 ^ 64
     \<and> (case bl_buffer bl of [] \<Rightarrow> bl_skip bl = 0
        | x # xs \<Rightarrow> unat (bl_skip bl) < length (ref_get x) \<or> bl_skip bl = 0 \<and> ref_get x = [])
     \<and> (\<forall>x \<in> set (bl_buffer bl). is_owned x)"

lemma bl_bytes_Cons:
  "bl_ok bl \<Longrightarrow> bl_buffer bl = x # xs \<Longrightarrow>
     bl_bytes bl = drop (unat (bl_skip bl)) (ref_get x) @ bytes_of xs"
  by (auto simp: bl_ok_def bl_bytes_def)

lemma bl_peek_ok:
  assumes ok: "bl_ok bl" and ne: "bl_bytes bl \<noteq> []"
  shows "\<exists>view rest. bl_peek bl = Some view \<and> view \<noteq> [] \<and> bl_bytes bl = view @ rest"
proof -
  obtain x xs where b: "bl_buffer bl = x # xs"
    using ne by (cases "bl_buffer bl") (auto simp: bl_bytes_def)
  have fx: "fits (ref_get x)" using ok b by (simp add: bl_ok_def fits_def)
  have "ref_get x \<noteq> []"
    using ok ne b by (auto simp: bl_ok_def bl_bytes_def split: if_splits)
  then have lt: "unat (bl_skip bl) < length (ref_get x)"
    using ok b by (auto simp: bl_ok_def)
  then have "\<not> bl_skip bl > vsize (ref_get x)"
    using fx by (simp add: word_less_nat_alt unat_vsize)
  then show ?thesis
    using bl_bytes_Cons [OF ok b] lt b by (simp add: bl_peek_def)
qed

lemma bl_bytes_exhausted:
  assumes "bl_ok bl" and "bl_bytes bl = []" and "bl_buffer bl \<noteq> []"
  shows "bl_peek bl = Some []" and "bl_skip bl = 0"
    and "vsize (ref_get (hd (bl_buffer bl))) = 0" and "bl_size bl = 0"
proof -
  obtain x xs where b: "bl_buffer bl = x # xs" using assms(3) by (cases "bl_buffer bl") auto
  have x: "ref_get x = [] \<and> bl_skip bl = 0"
    using assms(1,2) b bl_bytes_Cons [OF assms(1) b] by (auto simp: bl_ok_def)
  then show "bl_peek bl = Some []" "bl_skip bl = 0" "vsize (ref_get (hd (bl_buffer bl))) = 0"
    using b by (simp_all add: bl_peek_def)
  show "bl_size bl = 0"
    using assms(1,2) by (simp add: bl_ok_def unat_eq_zero)
qed

text \<open>One round of \<open>remove_prefix\<close>: the first view, or what is to be removed of it.\<close>

definition remove_round :: "u64 \<Rightarrow> byte list \<Rightarrow> BufferList \<Rightarrow> BufferList" where
  "remove_round n view bl =
     (let skip = bl_skip bl + n; bl' = bl\<lparr>bl_skip := skip, bl_size := bl_size bl - n\<rparr>
      in if skip = vsize (ref_get (hd (bl_buffer bl)))
         then bl'\<lparr>bl_buffer := tl (bl_buffer bl), bl_skip := 0\<rparr> else bl')"

lemma remove_prefix_round:
  assumes "len \<noteq> 0" and "bl_buffer bl \<noteq> []" and "bl_peek bl = Some view"
  shows "bl_remove_prefix len bl =
    bl_remove_prefix (len - min len (vsize view)) (remove_round (min len (vsize view)) view bl)"
  using assms by (subst bl_remove_prefix.simps) (simp add: remove_round_def Let_def)

lemma remove_round_ok:
  assumes ok: "bl_ok bl" and b: "bl_buffer bl = x # xs" and peek: "bl_peek bl = Some view"
    and n: "unat n \<le> length view"
  shows "bl_ok (remove_round n view bl) \<and> bl_bytes (remove_round n view bl) = drop (unat n) (bl_bytes bl)"
proof -
  have fx: "fits (ref_get x)" using ok b by (simp add: bl_ok_def fits_def)
  have view: "view = drop (unat (bl_skip bl)) (ref_get x)"
    and le: "unat (bl_skip bl) \<le> length (ref_get x)"
    using peek b fx by (auto simp: bl_peek_def word_less_nat_alt unat_vsize not_less split: if_splits)
  have flat: "bl_bytes bl = view @ bytes_of xs"
    using bl_bytes_Cons [OF ok b] by (simp add: view)
  have sum: "unat (bl_skip bl) + unat n \<le> length (ref_get x)"
    using n le by (simp add: view)
  then have us: "unat (bl_skip bl + n) = unat (bl_skip bl) + unat n"
    using fx by (simp add: unat_add64 fits_def)
  have size: "unat (bl_size bl - n) = length (bl_bytes bl) - unat n"
    using ok n by (simp add: unat_sub_nat bl_ok_def flat)
  have eq: "bl_skip bl + n = vsize (ref_get x) \<longleftrightarrow> unat (bl_skip bl) + unat n = length (ref_get x)"
    using us fx by (simp add: word_unat_eq_iff unat_vsize)
  show ?thesis
  proof (cases "unat (bl_skip bl) + unat n = length (ref_get x)")
    case True
    have "bl_bytes (remove_round n view bl) = bytes_of xs"
      using True by (simp add: remove_round_def Let_def b eq bl_bytes_def)
    moreover have "unat n = length view" using True by (simp add: view)
    moreover have "no_gap xs" using ok b no_gap_tl by (auto simp: bl_ok_def simp del: no_gap.simps)
    moreover have "case xs of [] \<Rightarrow> True | y # ys \<Rightarrow> 0 < length (ref_get y) \<or> ref_get y = []"
      by (cases xs) auto
    ultimately show ?thesis
      using ok size True by (auto simp: bl_ok_def b flat remove_round_def Let_def eq split: list.splits)
  next
    case False
    then have "unat (bl_skip bl) + unat n < length (ref_get x)" using sum by simp
    moreover have "remove_round n view bl = bl\<lparr>bl_skip := bl_skip bl + n, bl_size := bl_size bl - n\<rparr>"
      using False by (simp add: remove_round_def Let_def b eq)
    moreover from this have "bl_bytes (remove_round n view bl) = drop (unat n) (bl_bytes bl)"
      using us by (simp add: bl_bytes_def add.commute [of "unat n"])
    ultimately show ?thesis
      using ok size False by (simp add: bl_ok_def b remove_round_def Let_def eq us)
  qed
qed

lemma remove_prefix_exhausted:
  assumes "bl_ok bl" and "bl_bytes bl = []"
  shows "\<exists>bl'. bl_remove_prefix n bl = Some bl' \<and> bl_ok bl' \<and> bl_bytes bl' = []"
  using assms
proof (induction "length (bl_buffer bl)" arbitrary: bl)
  case 0
  then show ?case by (subst bl_remove_prefix.simps) simp
next
  case (Suc k)
  obtain x xs where b: "bl_buffer bl = x # xs" using Suc(2) by (cases "bl_buffer bl") auto
  note ex = bl_bytes_exhausted [OF Suc(3,4)]
  have peek: "bl_peek bl = Some []" using ex(1) b by simp
  let ?bl = "remove_round 0 [] bl"
  have ok: "bl_ok ?bl \<and> bl_bytes ?bl = []"
    using remove_round_ok [OF Suc(3) b peek, of 0] Suc(4) by simp
  show ?case
  proof (cases "n = 0")
    case False
    have "length (bl_buffer ?bl) = k"
      using Suc(2) ex(2,3) b by (simp add: remove_round_def Let_def)
    then have "\<exists>bl'. bl_remove_prefix n ?bl = Some bl' \<and> bl_ok bl' \<and> bl_bytes bl' = []"
      using Suc(1) [of ?bl] ok by blast
    then show ?thesis using remove_prefix_round [OF False _ peek] b by simp
  qed (use Suc(3,4) in \<open>subst bl_remove_prefix.simps, simp\<close>)
qed

text \<open>\<open>remove_prefix\<close> never fails, and drops that many bytes, or all.\<close>

lemma remove_prefix_ok:
  "bl_ok bl \<Longrightarrow> \<exists>bl'. bl_remove_prefix n bl = Some bl' \<and> bl_ok bl' \<and> bl_bytes bl' = drop (unat n) (bl_bytes bl)"
proof (induction "length (bl_buffer bl)" arbitrary: bl n rule: less_induct)
  case less
  show ?case
  proof (cases "n = 0 \<or> bl_bytes bl = []")
    case True
    then show ?thesis
      using less.prems remove_prefix_exhausted [OF less.prems, of n]
      by (cases "n = 0") (simp_all add: bl_remove_prefix.simps [of 0])
  next
    case False
    obtain view rest where peek: "bl_peek bl = Some view" and ne: "view \<noteq> []"
      and split: "bl_bytes bl = view @ rest"
      using bl_peek_ok [OF less.prems] False by blast
    obtain x xs where b: "bl_buffer bl = x # xs"
      using peek by (cases "bl_buffer bl") (auto simp: bl_peek_def)
    have "fits (ref_get x)" using less.prems b by (simp add: bl_ok_def fits_def)
    moreover have "view = drop (unat (bl_skip bl)) (ref_get x)"
      using peek b by (auto simp: bl_peek_def split: if_splits)
    ultimately have uv: "unat (vsize view) = length view" by (simp add: unat_vsize fits_drop)
    let ?k = "min n (vsize view)"
    have k: "unat ?k = min (unat n) (length view)" by (simp add: unat_min uv)
    let ?bl = "remove_round ?k view bl"
    have ok: "bl_ok ?bl" "bl_bytes ?bl = drop (unat ?k) (bl_bytes bl)"
      using remove_round_ok [OF less.prems b peek, of ?k] k by simp_all
    have step: "bl_remove_prefix n bl = bl_remove_prefix (n - ?k) ?bl"
      using remove_prefix_round [OF _ _ peek, of n] False b by simp
    show ?thesis
    proof (cases "unat n \<le> length view")
      case True
      then have "?k = n" using k by (intro unat_eqI) simp
      then show ?thesis using step ok by (simp add: bl_remove_prefix.simps [of 0])
    next
      case False
      then have kv: "?k = vsize view" "unat ?k = length view"
        using k uv by (simp_all add: min_def word_le_nat_alt)
      have "bl_skip bl + ?k = vsize (ref_get (hd (bl_buffer bl)))"
        using skip_reaches_end [OF peek] kv(1) by simp
      then have "length (bl_buffer ?bl) < length (bl_buffer bl)"
        using b by (simp add: remove_round_def Let_def)
      then obtain bl' where "bl_remove_prefix (n - ?k) ?bl = Some bl'" "bl_ok bl'"
        "bl_bytes bl' = drop (unat (n - ?k)) (bl_bytes ?bl)"
        using less.hyps ok(1) by blast
      moreover have "unat (n - ?k) + unat ?k = unat n"
        using False kv(2) by (simp add: unat_sub_nat)
      ultimately show ?thesis using step ok(2) by simp
    qed
  qed
qed

lemma next_byte_ok:
  assumes ok: "bl_ok (pr_input p)" and b: "bl_bytes (pr_input p) = b # bs"
  shows "\<exists>p'. next_byte p = Some (b, p') \<and> bl_ok (pr_input p') \<and> bl_bytes (pr_input p') = bs
    \<and> pr_error p' = pr_error p"
proof -
  obtain view rest where peek: "bl_peek (pr_input p) = Some view" "view \<noteq> []"
    and split: "bl_bytes (pr_input p) = view @ rest"
    using bl_peek_ok [OF ok] b by auto
  obtain bl' where "bl_remove_prefix 1 (pr_input p) = Some bl'" "bl_ok bl'" "bl_bytes bl' = bs"
    using remove_prefix_ok [OF ok, of 1] b by auto
  moreover have "hd view = b" using peek(2) split b by (cases view) auto
  ultimately show ?thesis
    using peek by (simp add: next_byte_def parser_remove_prefix_def)
qed

section \<open>Big-endian integers\<close>

definition be_value :: "byte list \<Rightarrow> 'a :: len word \<Rightarrow> 'a word" where
  "be_value bs acc = foldl (\<lambda>out b. push_bit 8 out OR ucast b) acc bs"

definition be_bytes :: "'a :: len word \<Rightarrow> byte list" where
  "be_bytes val = (let len = LENGTH('a) div 8
     in map (\<lambda>i. ucast (drop_bit ((len - i - 1) * 8) val)) [0..<len])"

lemma length_be_bytes [simp]: "length (be_bytes (val :: 'a :: len word)) = LENGTH('a) div 8"
  by (simp add: be_bytes_def Let_def)

lemma read_bytes_ok:
  "bl_ok (pr_input p) \<Longrightarrow> n \<le> length (bl_bytes (pr_input p)) \<Longrightarrow>
     \<exists>p'. read_bytes n out p = Some (be_value (take n (bl_bytes (pr_input p))) out, p')
       \<and> bl_ok (pr_input p') \<and> bl_bytes (pr_input p') = drop n (bl_bytes (pr_input p))
       \<and> pr_error p' = pr_error p"
proof (induction n arbitrary: out p)
  case (Suc n)
  obtain b bs where b: "bl_bytes (pr_input p) = b # bs" using Suc.prems(2) by (cases "bl_bytes (pr_input p)") auto
  obtain p1 where p1: "next_byte p = Some (b, p1)" "bl_ok (pr_input p1)" "bl_bytes (pr_input p1) = bs"
    "pr_error p1 = pr_error p"
    using next_byte_ok [OF Suc.prems(1) b] by blast
  then obtain p2 where "read_bytes n (push_bit 8 out OR ucast b) p1
      = Some (be_value (take n bs) (push_bit 8 out OR ucast b), p2)"
    "bl_ok (pr_input p2)" "bl_bytes (pr_input p2) = drop n bs" "pr_error p2 = pr_error p"
    using Suc.IH [of p1 "push_bit 8 out OR ucast b"] Suc.prems(2) b by auto
  then show ?case using p1 b by (simp add: be_value_def)
qed (simp add: be_value_def)

text \<open>Bit \<open>i\<close> of the value is bit \<open>i mod 8\<close> of the byte \<open>i div 8\<close> from the end.\<close>

lemma bit_be_value:
  "bit (be_value bs 0 :: 'a :: len word) i \<longleftrightarrow>
     i < LENGTH('a) \<and> i div 8 < length bs \<and> bit (bs ! (length bs - 1 - i div 8)) (i mod 8)"
proof (induction bs arbitrary: i rule: rev_induct)
  case Nil
  then show ?case by (simp add: be_value_def)
next
  case (snoc b bs)
  have eq: "be_value (bs @ [b]) 0 = (push_bit 8 (be_value bs 0) OR ucast b :: 'a word)"
    by (simp add: be_value_def)
  have small: "bit b j \<Longrightarrow> j < 8" for j using bit_imp_le_length [of b j] by simp
  show ?case
  proof (cases "i < 8")
    case True
    then show ?thesis by (simp add: eq bit_simps nth_append)
  next
    case False
    then have i: "i = (i - 8) + 8" "(i - 8) div 8 = i div 8 - 1" "(i - 8) mod 8 = i mod 8" "1 \<le> i div 8"
      by (simp_all add: le_div_geq le_mod_geq)
    have "bit (be_value (bs @ [b]) 0 :: 'a word) i \<longleftrightarrow>
        i < LENGTH('a) \<and> bit (be_value bs 0 :: 'a word) (i - 8)"
      using False small [of i] by (auto simp: eq bit_simps)
    also have "\<dots> \<longleftrightarrow> i < LENGTH('a) \<and> i div 8 - 1 < length bs
        \<and> bit (bs ! (length bs - 1 - (i div 8 - 1))) (i mod 8)"
      using snoc.IH [of "i - 8"] i by auto
    also have "\<dots> \<longleftrightarrow> i < LENGTH('a) \<and> i div 8 < length (bs @ [b])
        \<and> bit ((bs @ [b]) ! (length (bs @ [b]) - 1 - i div 8)) (i mod 8)"
      using i(4) by (auto simp: nth_append)
    finally show ?thesis .
  qed
qed

lemma nth_be_bytes:
  "i < LENGTH('a) div 8 \<Longrightarrow>
     be_bytes (v :: 'a :: len word) ! i = ucast (drop_bit ((LENGTH('a) div 8 - i - 1) * 8) v)"
  by (simp add: be_bytes_def Let_def)

lemma be_value_bytes:
  assumes len: "LENGTH('a) = 8 * k"
  shows "be_value (be_bytes (v :: 'a :: len word)) 0 = v"
proof (rule bit_word_eqI)
  fix i assume i: "i < LENGTH('a)"
  have k: "LENGTH('a) div 8 = k" "0 < k" using len by (auto intro: gr0I)
  have d: "i div 8 < k" using i len by simp
  define j where "j = k - 1 - i div 8"
  have j: "j < k" "k - j - 1 = i div 8" using d k(2) by (simp_all add: j_def)
  have "bit (be_value (be_bytes v) 0 :: 'a word) i \<longleftrightarrow> bit (be_bytes v ! j) (i mod 8)"
    using i d by (simp add: bit_be_value k(1) j_def)
  also have "be_bytes v ! j = ucast (drop_bit ((i div 8) * 8) v)"
    using j k(1) by (simp add: nth_be_bytes)
  also have "bit (ucast (drop_bit ((i div 8) * 8) v) :: byte) (i mod 8) \<longleftrightarrow> bit v i"
    by (simp add: bit_simps)
  finally show "bit (be_value (be_bytes v) 0 :: 'a word) i \<longleftrightarrow> bit v i" .
qed

lemma be_bytes_value:
  assumes len: "LENGTH('a) = 8 * length bs"
  shows "be_bytes (be_value bs 0 :: 'a :: len word) = bs"
proof (rule nth_equalityI)
  have k: "LENGTH('a) div 8 = length bs" using len by simp
  then show "length (be_bytes (be_value bs 0 :: 'a word)) = length bs" by simp
  fix i assume "i < length (be_bytes (be_value bs 0 :: 'a word))"
  then have i: "i < length bs" using k by simp
  show "be_bytes (be_value bs 0 :: 'a word) ! i = bs ! i"
  proof (rule bit_word_eqI)
    fix n assume n: "n < LENGTH(8)"
    define m where "m = (length bs - i - 1) * 8 + n"
    have m: "m div 8 = length bs - i - 1" "m mod 8 = n" using n by (simp_all add: m_def)
    have "m < LENGTH('a)"
    proof -
      have "(length bs - i - 1) * 8 + n < (length bs - i) * 8" using n i by simp
      also have "\<dots> \<le> LENGTH('a)" using len by simp
      finally show ?thesis by (simp add: m_def)
    qed
    then have "bit (be_value bs 0 :: 'a word) m \<longleftrightarrow> bit (bs ! i) n"
      using i by (auto simp: bit_be_value m)
    then show "bit (be_bytes (be_value bs 0 :: 'a word) ! i) n \<longleftrightarrow> bit (bs ! i) n"
      using i n k by (simp add: nth_be_bytes bit_simps m_def)
  qed
qed

section \<open>Running a parser\<close>

text \<open>The computation returns, with a result that satisfies \<open>Q\<close>.\<close>

definition yields :: "'a option \<Rightarrow> ('a \<Rightarrow> bool) \<Rightarrow> bool" where
  "yields m Q \<longleftrightarrow> (\<exists>r. m = Some r \<and> Q r)"

named_theorems parse_rules \<open>weakest-precondition style rules for the parser's operations\<close>

lemma yields_Some [parse_rules]: "Q r \<Longrightarrow> yields (Some r) Q"
  by (simp add: yields_def)

lemma yields_bind [parse_rules]:
  "yields m (\<lambda>r. yields (f r) Q) \<Longrightarrow> yields (Option.bind m f) Q"
  by (auto simp: yields_def)

lemma yields_map [parse_rules]: "yields m (\<lambda>r. Q (f r)) \<Longrightarrow> yields (map_option f m) Q"
  by (auto simp: yields_def)

lemma yields_mono: "yields m Q \<Longrightarrow> (\<And>r. Q r \<Longrightarrow> R r) \<Longrightarrow> yields m R"
  by (auto simp: yields_def)

lemma yields_split [parse_rules]: "(\<And>x y. r = (x, y) \<Longrightarrow> yields (f x y) Q) \<Longrightarrow> yields (case r of (x, y) \<Rightarrow> f x y) Q"
  by (cases r) simp

text \<open>A parser without an error, before these bytes; and a parser in any consistent state.\<close>

definition at :: "Parser \<Rightarrow> byte list \<Rightarrow> bool" where
  "at p bs \<longleftrightarrow> bl_ok (pr_input p) \<and> bl_bytes (pr_input p) = bs \<and> \<not> pr_error p"

definition pr_ok :: "Parser \<Rightarrow> bool" where
  "pr_ok p \<longleftrightarrow> bl_ok (pr_input p)"

lemma at_ok: "at p bs \<Longrightarrow> pr_ok p"
  by (simp add: at_def pr_ok_def)

lemma check_size_simps:
  assumes "pr_ok p" and "n < 2 ^ 64"
  shows "pr_error (check_size (of_nat n) p) \<longleftrightarrow> pr_error p \<or> length (bl_bytes (pr_input p)) < n"
    and "pr_input (check_size (of_nat n) p) = pr_input p"
  using assms by (simp_all add: check_size_def pr_ok_def bl_ok_def word_less_nat_alt unat_of_nat64)

text \<open>What \<open>integer\<close> does on every consistent parser.\<close>

lemma parser_integer_effect:
  fixes out :: "'a :: len word"
  assumes ok: "pr_ok p" and size: "LENGTH('a) \<le> 64"
  defines "k \<equiv> LENGTH('a) div 8"
  shows "pr_error p \<or> length (bl_bytes (pr_input p)) < k \<Longrightarrow>
      parser_integer out p = Some (out, p\<lparr>pr_error := True\<rparr>)"
    and "\<not> pr_error p \<Longrightarrow> k \<le> length (bl_bytes (pr_input p)) \<Longrightarrow>
      \<exists>p'. parser_integer out p = Some (be_value (take k (bl_bytes (pr_input p))) 0, p')
        \<and> pr_ok p' \<and> bl_bytes (pr_input p') = drop k (bl_bytes (pr_input p)) \<and> \<not> pr_error p'"
proof -
  have "k \<le> 64 div 8" unfolding k_def using size by (rule div_le_mono)
  then have "k < 2 ^ 64" by simp
  note cs = check_size_simps [OF ok this]
  show "pr_error p \<or> length (bl_bytes (pr_input p)) < k \<Longrightarrow>
      parser_integer out p = Some (out, p\<lparr>pr_error := True\<rparr>)"
  proof -
    assume e: "pr_error p \<or> length (bl_bytes (pr_input p)) < k"
    then have "check_size (of_nat k) p = p\<lparr>pr_error := True\<rparr>"
      using cs by (cases p) (auto simp: check_size_def split: if_splits)
    then show ?thesis by (simp add: parser_integer_def parser_has_error_def Let_def flip: k_def)
  qed
  show "\<exists>p'. parser_integer out p = Some (be_value (take k (bl_bytes (pr_input p))) 0, p')
        \<and> pr_ok p' \<and> bl_bytes (pr_input p') = drop k (bl_bytes (pr_input p)) \<and> \<not> pr_error p'"
    if ne: "\<not> pr_error p" and le: "k \<le> length (bl_bytes (pr_input p))"
  proof -
    have c: "check_size (of_nat k) p = p"
      using cs ne le by (auto simp: check_size_def split: if_splits)
    show ?thesis
    proof (cases "k = 1")
      case True
      obtain b bs where b: "bl_bytes (pr_input p) = b # bs"
        using le True by (cases "bl_bytes (pr_input p)") auto
      obtain p' where "next_byte p = Some (b, p')" "bl_ok (pr_input p')" "bl_bytes (pr_input p') = bs"
        "pr_error p' = pr_error p"
        using next_byte_ok [OF _ b] ok by (auto simp: pr_ok_def)
      then show ?thesis
        using True b ne c by (simp add: parser_integer_def parser_has_error_def Let_def be_value_def
            pr_ok_def flip: k_def)
    next
      case False
      then show ?thesis
        using read_bytes_ok [of p k 0] ok ne le c
        by (auto simp: parser_integer_def parser_has_error_def Let_def pr_ok_def simp flip: k_def)
    qed
  qed
qed

lemma integer_total:
  fixes out :: "'a :: len word"
  assumes "pr_ok p" and "LENGTH('a) \<le> 64" and "\<And>v p'. pr_ok p' \<Longrightarrow> Q (v, p')"
  shows "yields (parser_integer out p) Q"
proof (cases "pr_error p \<or> length (bl_bytes (pr_input p)) < LENGTH('a) div 8")
  case True
  then show ?thesis
    using parser_integer_effect(1) [OF assms(1,2) True] assms by (simp add: yields_def pr_ok_def)
next
  case False
  then show ?thesis
    using parser_integer_effect(2) [OF assms(1,2), of out] assms(3) by (auto simp: yields_def)
qed

lemmas total_rules =
  integer_total [where 'a = 8, simplified] integer_total [where 'a = 16, simplified]
  integer_total [where 'a = 32, simplified]

text \<open>On its own encoding an integer is read back.\<close>

lemma integer_at:
  fixes v :: "'a :: len word"
  assumes "at p (be_bytes v @ rest)" and "LENGTH('a) \<le> 64" and "8 dvd LENGTH('a)"
    and "\<And>p'. at p' rest \<Longrightarrow> Q (v, p')"
  shows "yields (parser_integer out p) Q"
proof -
  obtain k where k: "LENGTH('a) = 8 * k" using assms(3) by (auto elim: dvdE)
  have "\<exists>p'. parser_integer out p = Some (be_value (take k (bl_bytes (pr_input p))) 0, p')
        \<and> pr_ok p' \<and> bl_bytes (pr_input p') = drop k (bl_bytes (pr_input p)) \<and> \<not> pr_error p'"
    using parser_integer_effect(2) [OF at_ok [OF assms(1)] assms(2), of out] assms(1) k
    by (simp add: at_def)
  moreover have "take k (bl_bytes (pr_input p)) = be_bytes v" "drop k (bl_bytes (pr_input p)) = rest"
    using assms(1) k by (simp_all add: at_def)
  ultimately show ?thesis
    using assms(4) be_value_bytes [OF k, of v] by (auto simp: yields_def at_def pr_ok_def)
qed

lemmas at_rules =
  integer_at [where 'a = 8, simplified] integer_at [where 'a = 16, simplified]
  integer_at [where 'a = 32, simplified]

text \<open>In general: the value of the bytes read, or an error when they run out.\<close>

lemma integer_reads:
  fixes out :: "'a :: len word"
  assumes "at p bs" and "LENGTH('a) \<le> 64" and "8 dvd LENGTH('a)"
  shows "LENGTH('a) div 8 \<le> length bs \<Longrightarrow> \<exists>v p'. parser_integer out p = Some (v, p')
      \<and> at p' (drop (LENGTH('a) div 8) bs) \<and> bs = be_bytes v @ drop (LENGTH('a) div 8) bs"
    and "length bs < LENGTH('a) div 8 \<Longrightarrow>
      parser_integer out p = Some (out, p\<lparr>pr_error := True\<rparr>)"
proof -
  let ?k = "LENGTH('a) div 8"
  show "\<exists>v p'. parser_integer out p = Some (v, p') \<and> at p' (drop ?k bs) \<and> bs = be_bytes v @ drop ?k bs"
    if le: "?k \<le> length bs"
  proof -
    obtain p' where "parser_integer out p = Some (be_value (take ?k bs) 0, p')" "at p' (drop ?k bs)"
      using parser_integer_effect(2) [OF at_ok [OF assms(1)] assms(2), of out] assms(1) le
      by (auto simp: at_def pr_ok_def)
    moreover have "LENGTH('a) = 8 * length (take ?k bs)" using assms(3) le by simp
    then have "be_bytes (be_value (take ?k bs) 0 :: 'a word) = take ?k bs" by (rule be_bytes_value)
    ultimately show ?thesis by (metis append_take_drop_id)
  qed
  show "length bs < ?k \<Longrightarrow> parser_integer out p = Some (out, p\<lparr>pr_error := True\<rparr>)"
    using parser_integer_effect(1) [OF at_ok [OF assms(1)] assms(2)] assms(1) by (simp add: at_def)
qed

text \<open>The same as rules for a step of a \<open>do\<close> block.\<close>

lemma at_bind:
  fixes v :: "'a :: len word"
  assumes "at p (be_bytes v @ rest)" and "LENGTH('a) \<le> 64" and "8 dvd LENGTH('a)"
    and "\<And>p'. at p' rest \<Longrightarrow> yields (f v p') Q"
  shows "yields (Option.bind (parser_integer out p) (\<lambda>(x, y). f x y)) Q"
  using assms by (intro yields_bind integer_at [OF assms(1-3)]) simp

lemma total_bind:
  fixes out :: "'a :: len word"
  assumes "pr_ok p" and "LENGTH('a) \<le> 64" and "\<And>v p'. pr_ok p' \<Longrightarrow> yields (f v p') Q"
  shows "yields (Option.bind (parser_integer out p) (\<lambda>(x, y). f x y)) Q"
  using assms by (intro yields_bind integer_total [OF assms(1,2)]) simp

lemma yields_let [parse_rules]: "yields (f x) Q \<Longrightarrow> yields (Option.bind (Some x) f) Q"
  by (simp add: yields_def)

lemmas at_binds = at_bind [where 'a = 8, simplified] at_bind [where 'a = 16, simplified]
  at_bind [where 'a = 32, simplified]

lemmas total_binds = total_bind [where 'a = 8, simplified] total_bind [where 'a = 16, simplified]
  total_bind [where 'a = 32, simplified]

lemma remove_prefix_at:
  assumes "at p bs" and "\<And>p'. at p' (drop (unat n) bs) \<Longrightarrow> Q p'"
  shows "yields (parser_remove_prefix n p) Q"
  using remove_prefix_ok [of "pr_input p" n] assms
  by (fastforce simp: yields_def parser_remove_prefix_def at_def)

lemma remove_prefix_total:
  assumes "pr_ok p" and "\<And>p'. pr_ok p' \<Longrightarrow> pr_error p' = pr_error p \<Longrightarrow> Q p'"
  shows "yields (parser_remove_prefix n p) Q"
  using remove_prefix_ok [of "pr_input p" n] assms
  by (fastforce simp: yields_def parser_remove_prefix_def pr_ok_def)

lemma parser_at:
  assumes "\<forall>b \<in> set bufs. is_owned b" and "no_gap bufs" and "length (bytes_of bufs) < 2 ^ 64"
  shows "\<exists>p. parser bufs = Some p \<and> at p (bytes_of bufs)"
proof -
  have from_list: "\<forall>b \<in> set xs. is_owned b \<Longrightarrow>
      buffer_list_from bl xs = Some (bl\<lparr>bl_buffer := bl_buffer bl @ xs,
        bl_size := bl_size bl + of_nat (length (bytes_of xs))\<rparr>)" for bl xs
    by (induction xs arbitrary: bl) (simp_all add: is_borrowed_def vsize_def add.assoc)
  have "unat (of_nat (length (bytes_of bufs)) :: u64) = length (bytes_of bufs)"
    using assms(3) by (rule unat_of_nat64)
  then show ?thesis
    using assms by (auto simp: parser_def buffer_list_def from_list at_def bl_ok_def bl_bytes_def
        split: list.split)
qed

text \<open>All that remains, on every consistent parser.\<close>

lemma dump_all_ok:
  assumes "bl_ok bl"
  shows "\<exists>bufs. bl_dump_all bl = Some bufs \<and> bytes_of bufs = bl_bytes bl
    \<and> (\<forall>b \<in> set bufs. is_owned b) \<and> no_gap bufs"
proof (cases "bl_buffer bl")
  case Nil
  then show ?thesis
    using assms by (auto simp: bl_dump_all_def bl_empty_def bl_ok_def bl_bytes_def unat_eq_zero)
next
  case (Cons x xs)
  have fx: "fits (ref_get x)" using assms Cons by (simp add: bl_ok_def fits_def)
  have skip: "\<not> bl_skip bl > vsize (ref_get x)" and d: "bl_skip bl \<noteq> 0 \<Longrightarrow> drop (unat (bl_skip bl)) (ref_get x) \<noteq> []"
    using assms Cons fx by (auto simp: bl_ok_def word_less_nat_alt unat_vsize)
  have ng: "no_gap xs" using assms Cons no_gap_tl by (auto simp: bl_ok_def simp del: no_gap.simps)
  show ?thesis
  proof (cases "bl_empty bl")
    case True
    then have "bl_bytes bl = []" using assms by (auto simp: bl_empty_def bl_ok_def)
    then show ?thesis using True by (simp add: bl_dump_all_def)
  next
    case False
    then show ?thesis
      using skip d ng assms Cons bl_bytes_Cons [OF assms Cons]
      by (auto simp: bl_dump_all_def bl_ok_def)
  qed
qed

lemma views_ok:
  assumes "bl_ok bl"
  shows "\<exists>views. bl_views bl = Some views \<and> concat views = bl_bytes bl"
proof (cases "bl_buffer bl")
  case Nil
  then show ?thesis
    using assms by (auto simp: bl_views_def bl_ok_def bl_bytes_def)
next
  case (Cons x xs)
  have "fits (ref_get x)" using assms Cons by (simp add: bl_ok_def fits_def)
  then have "\<not> bl_skip bl > vsize (ref_get x)"
    using assms Cons by (auto simp: bl_ok_def word_less_nat_alt unat_vsize)
  moreover have "bl_empty bl \<Longrightarrow> bl_bytes bl = []" using assms by (auto simp: bl_empty_def bl_ok_def)
  ultimately show ?thesis
    using Cons bl_bytes_Cons [OF assms Cons] by (auto simp: bl_views_def bytes_of_def)
qed

lemma all_remaining_at:
  assumes "at p bs" and "\<And>bufs. bytes_of bufs = bs \<Longrightarrow> \<forall>b \<in> set bufs. is_owned b \<Longrightarrow> no_gap bufs \<Longrightarrow> Q bufs"
  shows "yields (all_remaining p) Q"
  using dump_all_ok [of "pr_input p"] assms by (auto simp: all_remaining_def yields_def at_def)

lemma concatenate_ok:
  assumes "pr_ok p"
  shows "concatenate_all_remaining p = Some (bl_bytes (pr_input p))"
proof -
  obtain bufs where bufs: "all_remaining p = Some bufs" "bytes_of bufs = bl_bytes (pr_input p)"
    using dump_all_ok assms by (auto simp: all_remaining_def pr_ok_def)
  have "foldl (\<lambda>out x. out @ ref_get x) a bs = a @ bytes_of bs" for a bs
    by (induction bs arbitrary: a) simp_all
  then show ?thesis
    using bufs by (cases bufs) (simp_all add: concatenate_all_remaining_def)
qed

section \<open>What a serializer has written\<close>

definition sz_bytes :: "Serializer \<Rightarrow> byte list" where
  "sz_bytes s = bytes_of (sz_output s) @ sz_buffer s"

definition sz_ok :: "Serializer \<Rightarrow> bool" where
  "sz_ok s \<longleftrightarrow> (\<forall>b \<in> set (sz_output s). ref_get b \<noteq> [])"

lemma flush_simps [simp]:
  "sz_bytes (serializer_flush s) = sz_bytes s" "sz_buffer (serializer_flush s) = []"
  "sz_ok (serializer_flush s) = sz_ok s"
  by (auto simp: serializer_flush_def sz_bytes_def sz_ok_def)

lemma serializer_simps [simp]:
  "sz_bytes serializer = []" "sz_ok serializer"
  "sz_bytes (serializer_integer v s) = sz_bytes s @ be_bytes v"
  "sz_ok (serializer_integer v s) = sz_ok s"
  "sz_output (serializer_integer v s) = sz_output s"
  by (simp_all add: serializer_def serializer_integer_def sz_bytes_def sz_ok_def be_bytes_def Let_def)

lemma serializer_ref_simps [simp]:
  "sz_bytes (serializer_ref b s) = sz_bytes s @ ref_get b" "sz_ok (serializer_ref b s) = sz_ok s"
proof -
  have "sz_bytes s = bytes_of (sz_output (serializer_flush s))"
    using flush_simps(1,2) [of s] by (metis append_Nil2 sz_bytes_def)
  then show "sz_bytes (serializer_ref b s) = sz_bytes s @ ref_get b"
    by (simp add: serializer_ref_def sz_bytes_def)
  show "sz_ok (serializer_ref b s) = sz_ok s"
    using flush_simps(3) [of s] by (auto simp: serializer_ref_def sz_ok_def)
qed

lemma serializer_string_ref: "serializer_string buf s = serializer_ref (ref_of buf) s"
  by (simp add: serializer_string_def serializer_ref_def)

lemma serializer_string_simps [simp]:
  "sz_bytes (serializer_string buf s) = sz_bytes s @ buf" "sz_ok (serializer_string buf s) = sz_ok s"
  by (simp_all add: serializer_string_ref)

lemma serializer_buffers_simps [simp]:
  "sz_bytes (serializer_buffers bufs s) = sz_bytes s @ bytes_of bufs"
  "sz_ok (serializer_buffers bufs s) = sz_ok s"
  by (induction bufs arbitrary: s) (simp_all add: serializer_buffers_def)

lemma finish_bytes [simp]: "bytes_of (serializer_finish s) = sz_bytes s"
  using flush_simps(1,2) [of s] by (metis append_Nil2 serializer_finish_def sz_bytes_def)

lemma finish_no_gap: "sz_ok s \<Longrightarrow> no_gap (serializer_finish s)"
  using flush_simps(3) [of s] by (intro no_gap_nonempty) (simp add: serializer_finish_def sz_ok_def)

text \<open>
  What a receiver parses is a copy of what was serialized: the frames of a network, the clones
  of \<open>helpers.hh\<close>.
\<close>

lemma no_gap_copy [simp]: "no_gap (map ref_copy bs) = no_gap bs"
  by (induction bs) simp_all

lemma parser_of_copy:
  assumes "sz_ok s" and "length (sz_bytes s) < 2 ^ 64"
  shows "\<exists>p. parser (map ref_copy (serializer_finish s)) = Some p \<and> at p (sz_bytes s)"
  using parser_at [of "map ref_copy (serializer_finish s)"] assms finish_no_gap by auto

text \<open>Parsing what is still borrowed throws, which is what copying is for.\<close>

lemma parser_borrowed:
  assumes "b \<in> set bufs" and "is_borrowed b"
  shows "parser bufs = None"
proof -
  have "buffer_list_from bl bufs = None" for bl
    using assms by (induction bufs arbitrary: bl) auto
  then show ?thesis by (simp add: parser_def buffer_list_def)
qed

text \<open>What a parser that exists is before, when its buffers have no gap.\<close>

lemma parser_consistent:
  assumes "parser bufs = Some p" and "no_gap bufs" and "length (bytes_of bufs) < 2 ^ 64"
  shows "pr_ok p" and "at p (bytes_of bufs)"
proof -
  have "\<forall>b \<in> set bufs. is_owned b"
    using parser_borrowed [of _ bufs] assms(1) by (auto simp: is_borrowed_def)
  then show "at p (bytes_of bufs)" using parser_at [OF _ assms(2,3)] assms(1) by auto
  then show "pr_ok p" by (rule at_ok)
qed

section \<open>truncate\<close>

lemma truncate_short: "pr_ok p \<Longrightarrow> unat n < 2 ^ 64 \<Longrightarrow> length (bl_bytes (pr_input p)) \<le> unat n \<Longrightarrow>
    parser_truncate n p = Some p"
  by (simp add: parser_truncate_def bl_truncate_def word_le_nat_alt pr_ok_def bl_ok_def)

text \<open>
  When the buffer that contains the cut is the first one, all buffers are erased, but the
  recorded size is not zero: the next \<open>dump_all\<close> takes the front of an empty deque.
\<close>

lemma truncate_loses_first:
  assumes "bl_buffer bl = x # xs" and "is_owned x" and "0 < len" and "len < vsize (ref_get x)"
    and "len < bl_size bl"
  shows "\<exists>bl'. bl_truncate len bl = Some bl' \<and> bl_buffer bl' = [] \<and> bl_dump_all bl' = None"
proof -
  have ne: "ref_get x \<noteq> []" using assms(4) by auto
  obtain y where x: "x = Owned y" using assms(2) by (cases x) auto
  have "bl_truncate_loop len 0 (x # xs) = Some []"
    using assms ne by (auto simp: x ref_get_mut_def)
  then have "bl_truncate len bl = Some (bl\<lparr>bl_buffer := [], bl_size := len\<rparr>)"
    using assms by (simp add: bl_truncate_def)
  moreover have "bl_dump_all (bl\<lparr>bl_buffer := [], bl_size := len\<rparr>) = None"
    using assms(3) by (simp add: bl_dump_all_def bl_empty_def)
  ultimately show ?thesis by simp
qed

section \<open>Properties\<close>

text \<open>
  An integer of any width up to 64 bits followed by a payload, serialized, copied and
  parsed, is read back exactly, and the remaining bytes are the payload's, however the payload
  was split into buffers.
\<close>
lemma message_roundtrip:
  fixes v out :: "'a :: len word"
  assumes "8 dvd LENGTH('a)" and "LENGTH('a) \<le> 64" and "length (bytes_of payload) < 2 ^ 63"
    and "bufs = serializer_finish (serializer_buffers payload (serializer_integer v serializer))"
  shows "\<exists>p p' rest. parser (map ref_copy bufs) = Some p \<and> parser_integer out p = Some (v, p')
    \<and> \<not> parser_has_error p' \<and> all_remaining p' = Some rest \<and> bytes_of rest = bytes_of payload"
proof -
  let ?s = "serializer_buffers payload (serializer_integer v serializer)"
  have "length (sz_bytes ?s) < 2 ^ 64" using assms(2,3) by simp
  then obtain p where p: "parser (map ref_copy bufs) = Some p"
    and "at p (be_bytes v @ bytes_of payload)"
    using parser_of_copy [of ?s] assms(4) by auto
  then have "yields (parser_integer out p) (\<lambda>(x, p'). x = v \<and> \<not> parser_has_error p'
      \<and> yields (all_remaining p') (\<lambda>rest. bytes_of rest = bytes_of payload))"
    by (elim integer_at [OF _ assms(2,1)])
       (auto simp: parser_has_error_def at_def intro: all_remaining_at)
  then show ?thesis using p by (auto simp: yields_def)
qed

text \<open>
  Parsing an integer from any buffers a message can have (owned, with no empty buffer
  before a byte) is always defined: with enough bytes it is the big-endian value of the first
  ones, which are consumed; with too few the target is unchanged and the parser's error is set,
  and every later integer leaves its target unchanged too.
\<close>
lemma integer_defined:
  fixes out :: "'a :: len word" and later :: "'b :: len word"
  assumes "parser bufs = Some p" and "no_gap bufs" and "length (bytes_of bufs) < 2 ^ 64"
    and "8 dvd LENGTH('a)" and "LENGTH('a) \<le> 64" and "LENGTH('b) \<le> 64"
  shows "if LENGTH('a) div 8 \<le> length (bytes_of bufs)
    then \<exists>v p'. parser_integer out p = Some (v, p') \<and> \<not> parser_has_error p'
      \<and> concatenate_all_remaining p' = Some (drop (LENGTH('a) div 8) (bytes_of bufs))
      \<and> bytes_of bufs = be_bytes v @ drop (LENGTH('a) div 8) (bytes_of bufs)
    else \<exists>p'. parser_integer out p = Some (out, p') \<and> parser_has_error p'
      \<and> parser_integer later p' = Some (later, p')"
proof -
  have at: "at p (bytes_of bufs)" using assms(1-3) by (rule parser_consistent)
  note reads = integer_reads [OF at assms(5,4), of out]
  show ?thesis
  proof (cases "LENGTH('a) div 8 \<le> length (bytes_of bufs)")
    case True
    then show ?thesis
      using reads(1) concatenate_ok [OF at_ok] by (fastforce simp: at_def parser_has_error_def)
  next
    case False
    let ?p' = "p\<lparr>pr_error := True\<rparr>"
    have "pr_ok ?p'" using at by (simp add: at_def pr_ok_def)
    from parser_integer_effect(1) [OF this assms(6), of later]
    have "parser_integer later ?p' = Some (later, ?p')" by simp
    then show ?thesis using False reads(2) by (simp add: parser_has_error_def)
  qed
qed

end
