(* ===== verification/Checksum.thy ===== *)
theory Checksum
  imports Ref
begin

text \<open>
  \<open>util/checksum.hh\<close>: the internet checksum, a 32-bit sum of 16-bit words that is folded
  and complemented. The lemmas give the value modulo 65535 and the fact every receiver relies
  on: bytes that contain their own checksum sum up to 0.
\<close>

unbundle bit_operations_syntax

record InternetChecksum =
  ck_sum :: u32
  ck_parity :: bool

definition internet_checksum :: "u32 \<Rightarrow> InternetChecksum" where
  "internet_checksum initial = \<lparr>ck_sum = initial, ck_parity = False\<rparr>"

definition checksum_byte :: "InternetChecksum \<Rightarrow> byte \<Rightarrow> InternetChecksum" where
  "checksum_byte c i =
     (let val = (ucast i :: u16);
          val = (if \<not> ck_parity c then push_bit 8 val else val)
      in c\<lparr>ck_sum := ck_sum c + ucast val, ck_parity := \<not> ck_parity c\<rparr>)"

definition checksum_add :: "byte list \<Rightarrow> InternetChecksum \<Rightarrow> InternetChecksum" where
  "checksum_add data c = foldl checksum_byte c data"

definition checksum_add_all :: "byte list list \<Rightarrow> InternetChecksum \<Rightarrow> InternetChecksum" where
  "checksum_add_all data c = foldl (\<lambda>c x. checksum_add x c) c data"

lemma fold_step:
  fixes ret :: u32
  shows "unat (drop_bit 16 ret + ucast (ucast ret :: u16)) = unat ret div 65536 + unat ret mod 65536"
proof -
  have "unat (drop_bit 16 ret) = unat ret div 65536"
    by (simp add: drop_bit_eq_div unat_div_distrib)
  moreover have "unat (ucast (ucast ret :: u16) :: u32) = unat ret mod 65536"
    by (simp add: unsigned_ucast_eq take_bit_eq_mod mod_mod_cancel unat_mod_distrib)
  moreover have "unat ret div 65536 + unat ret mod 65536 < 2 ^ 32"
    using u32_bound [of ret] by simp
  ultimately show ?thesis by (simp add: unat_word_ariths)
qed

function checksum_fold :: "u32 \<Rightarrow> u32" where
  "checksum_fold ret =
     (if ret > 0xffff then checksum_fold (drop_bit 16 ret + ucast (ucast ret :: u16)) else ret)"
  by pat_completeness auto
termination
proof (relation "measure unat")
  fix ret :: u32 assume "ret > 0xffff"
  then have "65535 < unat ret" by (simp add: word_less_nat_alt)
  then have "unat ret div 65536 + unat ret mod 65536 < unat ret"
    using div_mult_mod_eq [of "unat ret" 65536] div_greater_zero_iff [of "unat ret" 65536] by linarith
  then show "(drop_bit 16 ret + ucast (ucast ret :: u16), ret) \<in> measure unat"
    by (simp only: in_measure fold_step)
qed simp

declare checksum_fold.simps [simp del]

definition checksum_value :: "InternetChecksum \<Rightarrow> u16" where
  "checksum_value c = ucast (NOT (checksum_fold (ck_sum c)))"

section \<open>The value\<close>

lemma checksum_fold_facts:
  "unat (checksum_fold r) < 65536 \<and> unat (checksum_fold r) mod 65535 = unat r mod 65535
   \<and> (checksum_fold r = 0 \<longleftrightarrow> r = 0)"
proof (induction r rule: checksum_fold.induct)
  case (1 r)
  let ?s = "drop_bit 16 r + ucast (ucast r :: u16) :: u32"
  show ?case
  proof (cases "r > 0xffff")
    case True
    have eq: "checksum_fold r = checksum_fold ?s" using True by (simp add: checksum_fold.simps [of r])
    have big: "65535 < unat r" using True by (simp add: word_less_nat_alt)
    have "unat r = 65535 * (unat r div 65536) + (unat r div 65536 + unat r mod 65536)"
      using div_mult_mod_eq [of "unat r" 65536] by simp
    then have m: "unat ?s mod 65535 = unat r mod 65535"
      unfolding fold_step by (metis mod_mult_self4)
    have "0 < unat r div 65536" using big by simp
    then have "unat ?s \<noteq> 0" unfolding fold_step by simp
    then have "?s \<noteq> 0" "r \<noteq> 0" using big by auto
    then show ?thesis using 1 [OF True] m by (simp add: eq)
  next
    case False
    then have "unat r \<le> 65535" by (simp add: word_less_nat_alt)
    then show ?thesis using False by (simp add: checksum_fold.simps [of r])
  qed
qed

lemma unat_checksum_value: "unat (checksum_value c) = 65535 - unat (checksum_fold (ck_sum c))"
proof -
  let ?f = "checksum_fold (ck_sum c)"
  have small: "unat ?f < 65536" using checksum_fold_facts by blast
  have "NOT ?f = (- 1) - ?f" by (simp add: not_eq_complement)
  then have "unat (NOT ?f) = unat (- 1 :: u32) - unat ?f"
    by (simp add: unat_sub)
  moreover have "unat (- 1 :: u32) = 2 ^ 32 - 1" by (simp add: unsigned_minus_1_eq_mask mask_eq_exp_minus_1)
  ultimately have "unat (checksum_value c) = (2 ^ 32 - 1 - unat ?f) mod 65536"
    by (simp add: checksum_value_def unsigned_ucast_eq take_bit_eq_mod)
  also have "2 ^ 32 - 1 - unat ?f = 65536 * 65535 + (65535 - unat ?f)"
    using small by simp
  also have "\<dots> mod 65536 = (65535 - unat ?f) mod 65536" by (rule mod_mult_self4)
  also have "\<dots> = 65535 - unat ?f" by simp
  finally show ?thesis .
qed

text \<open>The sum of the 16-bit words of a byte string; an odd byte is a high byte.\<close>

fun words :: "bool \<Rightarrow> byte list \<Rightarrow> nat" where
  "words low [] = 0"
| "words low (b # bs) = (if low then unat b else unat b * 256) + words (\<not> low) bs"

fun parity_after :: "bool \<Rightarrow> byte list \<Rightarrow> bool" where
  "parity_after low [] = low"
| "parity_after low (b # bs) = parity_after (\<not> low) bs"

lemma parity_after_even: "parity_after low bs = (low \<longleftrightarrow> even (length bs))"
  by (induction bs arbitrary: low) auto

lemma words_append: "words low (xs @ ys) = words low xs + words (parity_after low xs) ys"
  by (induction xs arbitrary: low) simp_all

lemma words_bound: "words low bs \<le> 65280 * length bs"
proof (induction bs arbitrary: low)
  case (Cons b bs)
  have "unat b \<le> 255" using u8_bound [of b] by simp
  then show ?case using Cons [of "\<not> low"] by (cases low) simp_all
qed simp

lemma unat_checksum_word:
  "unat (ucast (if \<not> low then push_bit 8 (ucast (b :: byte) :: u16) else ucast b) :: u32)
     = (if low then unat b else unat b * 256)"
proof -
  have b: "unat b < 256" using u8_bound [of b] by simp
  have u: "unat (ucast b :: u16) = unat b"
    using b by (simp add: unsigned_ucast_eq take_bit_nat_eq_self_iff)
  have "unat (push_bit 8 (ucast b :: u16)) = unat b * 256"
    using b u by (simp add: push_bit_eq_mult unat_word_ariths)
  moreover have "unat (ucast (w :: u16) :: u32) = unat w" for w
    using u16_bound [of w] by (simp add: unsigned_ucast_eq take_bit_nat_eq_self_iff)
  ultimately show ?thesis using u by simp
qed

lemma checksum_add_sum:
  assumes "unat (ck_sum c) + words (ck_parity c) data < 2 ^ 32"
  shows "unat (ck_sum (checksum_add data c)) = unat (ck_sum c) + words (ck_parity c) data"
    and "ck_parity (checksum_add data c) = parity_after (ck_parity c) data"
proof -
  have "unat (ck_sum (checksum_add data c)) = unat (ck_sum c) + words (ck_parity c) data
      \<and> ck_parity (checksum_add data c) = parity_after (ck_parity c) data"
    using assms
  proof (induction data arbitrary: c)
    case (Cons b data)
    let ?w = "ucast (if \<not> ck_parity c then push_bit 8 (ucast b :: u16) else ucast b) :: u32"
    have w: "unat ?w = (if ck_parity c then unat b else unat b * 256)" by (rule unat_checksum_word)
    have step: "checksum_byte c b = c\<lparr>ck_sum := ck_sum c + ?w, ck_parity := \<not> ck_parity c\<rparr>"
      by (simp add: checksum_byte_def Let_def)
    have "unat (ck_sum c) + unat ?w < 2 ^ 32" using Cons.prems unfolding w by simp
    then have s: "unat (ck_sum c + ?w) = unat (ck_sum c) + unat ?w" by (simp add: unat_word_ariths)
    have "unat (ck_sum c + ?w) + words (\<not> ck_parity c) data < 2 ^ 32"
      using Cons.prems unfolding s w by simp
    then show ?case
      using Cons.IH [of "checksum_byte c b"] unfolding step
      by (simp add: checksum_add_def step s w)
  qed (simp add: checksum_add_def)
  then show "unat (ck_sum (checksum_add data c)) = unat (ck_sum c) + words (ck_parity c) data"
    and "ck_parity (checksum_add data c) = parity_after (ck_parity c) data"
    by blast+
qed

lemma checksum_add_all_concat: "checksum_add_all data c = checksum_add (concat data) c"
  by (induction data arbitrary: c) (simp_all add: checksum_add_all_def checksum_add_def)

text \<open>The checksum of a message, for an initial sum.\<close>

definition checksum_of :: "u32 \<Rightarrow> byte list \<Rightarrow> u16" where
  "checksum_of initial data = checksum_value (checksum_add data (internet_checksum initial))"

lemma checksum_of_zero_iff:
  assumes "unat initial + words False data < 2 ^ 32"
  shows "checksum_of initial data = 0 \<longleftrightarrow>
    (unat initial + words False data) mod 65535 = 0 \<and> 0 < unat initial + words False data"
proof -
  let ?c = "checksum_add data (internet_checksum initial)"
  have s: "unat (ck_sum ?c) = unat initial + words False data"
    using checksum_add_sum(1) [of "internet_checksum initial" data] assms
    by (simp add: internet_checksum_def)
  let ?f = "checksum_fold (ck_sum ?c)"
  have f: "unat ?f < 65536" "unat ?f mod 65535 = unat (ck_sum ?c) mod 65535"
    "?f = 0 \<longleftrightarrow> ck_sum ?c = 0"
    using checksum_fold_facts by blast+
  have "checksum_of initial data = 0 \<longleftrightarrow> unat (checksum_of initial data) = 0"
    by (simp add: unat_eq_zero)
  also have "\<dots> \<longleftrightarrow> unat ?f = 65535"
    using f(1) by (auto simp: checksum_of_def unat_checksum_value)
  also have "\<dots> \<longleftrightarrow> unat ?f mod 65535 = 0 \<and> 0 < unat ?f"
    using f(1) by (cases "unat ?f = 65535") (auto simp: mod_less)
  also have "\<dots> \<longleftrightarrow> unat (ck_sum ?c) mod 65535 = 0 \<and> 0 < unat (ck_sum ?c)"
    using f(2,3) by (simp add: unat_gt_0)
  finally show ?thesis unfolding s .
qed

text \<open>
  The checksum over a message whose checksum field (two bytes, at an even place) is zero, put
  into the field, makes the checksum over the whole message 0.
\<close>

lemma checksum_verifies:
  assumes even: "even (length pre)" and pos: "0 < unat initial + words False (pre @ post)"
    and small: "unat initial + words False (pre @ post) + 65535 < 2 ^ 32"
    and c: "c = checksum_of initial (pre @ [0, 0] @ post)"
    and hi: "hi = (ucast (drop_bit 8 c) :: byte)" and lo: "lo = (ucast c :: byte)"
  shows "checksum_of initial (pre @ [hi, lo] @ post) = 0"
proof -
  have par: "parity_after False pre = False" using even by (simp add: parity_after_even)
  define n where "n = unat initial + words False (pre @ post)"
  have ins: "words False (pre @ [x, y] @ post) = words False (pre @ post) + unat x * 256 + unat y" for x y
    by (simp add: words_append par)
  have field: "unat hi * 256 + unat lo = unat c"
  proof -
    have "unat hi = unat c div 256"
    proof -
      have "unat (drop_bit 8 c) = unat c div 256"
        by (simp add: drop_bit_eq_div unat_div_distrib)
      moreover have "unat c div 256 < 256"
        using u16_bound [of c] by (simp add: div_less_iff_less_mult)
      ultimately show ?thesis by (simp add: hi unsigned_ucast_eq take_bit_nat_eq_self_iff)
    qed
    moreover have "unat lo = unat c mod 256" by (simp add: lo unsigned_ucast_eq take_bit_eq_mod)
    ultimately show ?thesis by simp
  qed
  let ?z = "checksum_add (pre @ [0, 0] @ post) (internet_checksum initial)"
  have "unat (ck_sum ?z) = n"
    using checksum_add_sum(1) [of "internet_checksum initial" "pre @ [0, 0] @ post"] small ins [of 0 0]
    by (simp add: internet_checksum_def n_def)
  then have f: "unat (checksum_fold (ck_sum ?z)) < 65536"
    "unat (checksum_fold (ck_sum ?z)) mod 65535 = n mod 65535"
    using checksum_fold_facts [of "ck_sum ?z"] by auto
  have cv: "unat c = 65535 - unat (checksum_fold (ck_sum ?z))"
    by (simp add: c checksum_of_def unat_checksum_value)
  then have "unat c + unat (checksum_fold (ck_sum ?z)) = 65535" using f(1) by linarith
  then have cong: "(n + unat c) mod 65535 = 0"
    using f(2) by (metis mod_add_left_eq mod_self add.commute)
  have total: "unat initial + words False (pre @ [hi, lo] @ post) = n + unat c"
    using ins [of hi lo] field by (simp add: n_def)
  have "unat c \<le> 65535" using cv by simp
  then have fits: "unat initial + words False (pre @ [hi, lo] @ post) < 2 ^ 32"
    unfolding total using small by (simp add: n_def)
  show ?thesis
    using checksum_of_zero_iff [OF fits] pos cong unfolding total by (auto simp: n_def)
qed

text \<open>Where one byte differs, the word sums differ by less than 65535.\<close>

lemma words_byte_changed:
  assumes "b \<noteq> b'"
  shows "(n + words False (pre @ [b] @ post)) mod 65535 \<noteq> (n + words False (pre @ [b'] @ post)) mod 65535"
proof -
  let ?k = "if parity_after False pre then 1 else 256 :: nat"
  have d: "words False (pre @ [x] @ post)
      = words False pre + unat x * ?k + words (\<not> parity_after False pre) post" for x
    by (simp add: words_append)
  have b: "unat b < 256" "unat b' < 256" using u8_bound [of b] u8_bound [of b'] by simp_all
  have ne: "unat b \<noteq> unat b'" using assms by (metis unat_eqI)
  have sym: "\<not> (i :: nat) mod 65535 = j mod 65535" if "i < j" "j < i + 65535" for i j
  proof
    assume "i mod 65535 = j mod 65535"
    then have "65535 dvd j - i" using that(1) mod_eq_dvd_iff_nat [of i j 65535] by simp
    then show False using that by (auto dest!: dvd_imp_le)
  qed
  have w: "unat x * ?k < unat y * ?k \<and> unat y * ?k < unat x * ?k + 65535"
    if "unat x < unat y" "unat y < 256" for x y :: byte
    using that by simp
  show ?thesis
  proof (cases "unat b < unat b'")
    case True
    show ?thesis using w [OF True b(2)] unfolding d by (intro sym) linarith+
  next
    case False
    then have "unat b' < unat b" using ne by simp
    then show ?thesis using w [OF _ b(1)] unfolding d by (intro not_sym [OF sym]) fastforce+
  qed
qed

text \<open>So at most one of two messages that differ in one byte has the checksum 0.\<close>

lemma byte_change_detected:
  assumes "unat initial + 65280 * length (pre @ [b] @ post) < 2 ^ 32" and "b \<noteq> b'"
    and "checksum_of initial (pre @ [b] @ post) = 0"
  shows "checksum_of initial (pre @ [b'] @ post) \<noteq> 0"
proof -
  have fits: "unat initial + words False (pre @ [x] @ post) < 2 ^ 32" for x
    using assms(1) words_bound [of False "pre @ [x] @ post"] by simp
  show ?thesis
    using assms(3) words_byte_changed [OF assms(2), of "unat initial" pre post]
    unfolding checksum_of_zero_iff [OF fits] by metis
qed

section \<open>Properties\<close>

text \<open>
  A message accepts its own checksum. Computed over the message with a zero checksum field
  (at an even place) and written into the field, it makes the checksum of the whole message 0,
  however the message is split into buffers.
\<close>
lemma checksum_accepts_own:
  assumes "even (length pre)" and "initial \<noteq> 0"
    and "unat initial + 65280 * length (pre @ post) + 65535 < 2 ^ 32"
    and "c = checksum_value (checksum_add (pre @ [0, 0] @ post) (internet_checksum initial))"
    and "concat views = pre @ [ucast (drop_bit 8 c), ucast c] @ post"
  shows "checksum_value (checksum_add_all views (internet_checksum initial)) = 0"
proof -
  have "unat initial + words False (pre @ post) + 65535 < 2 ^ 32"
    using assms(3) words_bound [of False "pre @ post"] by linarith
  moreover have "0 < unat initial + words False (pre @ post)"
    using assms(2) by (simp add: unat_gt_0)
  ultimately show ?thesis
    using checksum_verifies [OF assms(1) _ _ _ refl refl, of initial post c] assms(4,5)
    by (simp add: checksum_of_def checksum_add_all_concat)
qed

text \<open>
  No corruption of a single byte passes: of two messages that differ in one byte at most
  one has the checksum 0.
\<close>
lemma checksum_detects_byte:
  assumes "unat initial + 65280 * length (pre @ [b] @ post) < 2 ^ 32" and "b \<noteq> b'"
    and "checksum_value (checksum_add_all views (internet_checksum initial)) = 0"
    and "concat views = pre @ [b] @ post" and "concat views' = pre @ [b'] @ post"
  shows "checksum_value (checksum_add_all views' (internet_checksum initial)) \<noteq> 0"
  using byte_change_detected [OF assms(1,2)] assms(3-5)
  by (simp add: checksum_of_def checksum_add_all_concat)

end
