(* ===== verification/TCP_Segment.thy ===== *)
theory TCP_Segment
  imports TCP_Messages Parser Checksum
begin

text \<open>
  \<open>util/tcp_segment.hh\<close>, \<open>util/tcp_segment.cc\<close> and \<open>util/udinfo.hh\<close>: the wire format
  of a TCP segment. The lemmas show that a segment whose checksum was computed is accepted and
  read back (the reset flag for both halves of the message), and that parsing any buffers
  without a gap is defined. \<open>to_string\<close> is in the theory \<open>Summary\<close>.
\<close>

unbundle bit_operations_syntax

record UserDatagramInfo =
  ud_src_port :: u16
  ud_dst_port :: u16
  ud_cksum :: u16

record TCPMessage =
  tm_sender :: "TCPSenderMessage Ref"
  tm_receiver :: "TCPReceiverMessage Ref"

record TCPSegment =
  ts_message :: TCPMessage
  ts_udinfo :: UserDatagramInfo

definition tcp_message :: TCPMessage where
  "tcp_message = \<lparr>tm_sender = Owned sender_message, tm_receiver = Owned receiver_message\<rparr>"

definition tcp_segment :: TCPSegment where
  "tcp_segment = \<lparr>ts_message = tcp_message,
     ts_udinfo = \<lparr>ud_src_port = 0, ud_dst_port = 0, ud_cksum = 0\<rparr>\<rparr>"

definition TCP_HEADER_LENGTH :: u8 where
  "TCP_HEADER_LENGTH = 20"

text \<open>
  An assignment through \<open>message.sender->\<close> or \<open>message.receiver->\<close>: \<open>None\<close> where the
  half is borrowed.
\<close>

definition set_sender :: "(TCPSenderMessage \<Rightarrow> TCPSenderMessage) \<Rightarrow> TCPMessage \<Rightarrow> TCPMessage option" where
  "set_sender f m = map_option (\<lambda>r. m\<lparr>tm_sender := r\<rparr>) (ref_get_mut f (tm_sender m))"

definition set_receiver :: "(TCPReceiverMessage \<Rightarrow> TCPReceiverMessage) \<Rightarrow> TCPMessage \<Rightarrow> TCPMessage option" where
  "set_receiver f m = map_option (\<lambda>r. m\<lparr>tm_receiver := r\<rparr>) (ref_get_mut f (tm_receiver m))"

text \<open>
  The part after the checksum. \<open>window_size\<close> is read into the receiver's half, so its old
  value stays on an error.
\<close>

definition segment_fields :: "TCPSegment \<Rightarrow> Parser \<Rightarrow> (TCPSegment \<times> Parser) option" where
  "segment_fields seg p =
     do { (src_port, p) \<leftarrow> parser_integer (ud_src_port (ts_udinfo seg)) p;
          (dst_port, p) \<leftarrow> parser_integer (ud_dst_port (ts_udinfo seg)) p;
          (raw32, p) \<leftarrow> parser_integer (0 :: u32) p;
          m \<leftarrow> set_sender (\<lambda>s. s\<lparr>sm_seqno := Wrap32 raw32\<rparr>) (ts_message seg);
          (raw32, p) \<leftarrow> parser_integer raw32 p;
          m \<leftarrow> set_receiver (\<lambda>r. r\<lparr>rm_ackno := Some (Wrap32 raw32)\<rparr>) m;
          (octet, p) \<leftarrow> parser_integer (0 :: u8) p;
          data_offset \<leftarrow> Some (drop_bit 4 octet);
          (octet, p) \<leftarrow> parser_integer octet p;
          m \<leftarrow> (if octet AND 0x10 = 0 then set_receiver (\<lambda>r. r\<lparr>rm_ackno := None\<rparr>) m else Some m);
          m \<leftarrow> set_receiver (\<lambda>r. r\<lparr>rm_RST := (octet AND 0x04 \<noteq> 0)\<rparr>) m;
          m \<leftarrow> set_sender (\<lambda>s. s\<lparr>sm_RST := (octet AND 0x04 \<noteq> 0)\<rparr>) m;
          m \<leftarrow> set_sender (\<lambda>s. s\<lparr>sm_SYN := (octet AND 0x02 \<noteq> 0)\<rparr>) m;
          m \<leftarrow> set_sender (\<lambda>s. s\<lparr>sm_FIN := (octet AND 0x01 \<noteq> 0)\<rparr>) m;
          (window_size, p) \<leftarrow> parser_integer (rm_window_size (ref_get (tm_receiver m))) p;
          m \<leftarrow> set_receiver (\<lambda>r. r\<lparr>rm_window_size := window_size\<rparr>) m;
          (cksum, p) \<leftarrow> parser_integer (ud_cksum (ts_udinfo seg)) p;
          (urgent, p) \<leftarrow> parser_integer (0 :: u16) p;
          seg \<leftarrow> Some \<lparr>ts_message = m,
            ts_udinfo = \<lparr>ud_src_port = src_port, ud_dst_port = dst_port, ud_cksum = cksum\<rparr>\<rparr>;
          (if data_offset < drop_bit 2 TCP_HEADER_LENGTH then Some (seg, parser_set_error p)
           else do { p \<leftarrow> parser_remove_prefix (ucast data_offset * 4 - ucast TCP_HEADER_LENGTH) p;
                     payload \<leftarrow> concatenate_all_remaining p;
                     m \<leftarrow> set_sender (\<lambda>s. s\<lparr>sm_payload := payload\<rparr>) (ts_message seg);
                     Some (seg\<lparr>ts_message := m\<rparr>, p) }) }"

definition tcp_segment_parse :: "u32 \<Rightarrow> TCPSegment \<Rightarrow> Parser \<Rightarrow> (TCPSegment \<times> Parser) option" where
  "tcp_segment_parse datagram_layer_pseudo_checksum seg p =
     do { views \<leftarrow> parser_buffer p;
          (if checksum_value (checksum_add_all views (internet_checksum datagram_layer_pseudo_checksum)) \<noteq> 0
           then Some (seg, parser_set_error p)
           else segment_fields seg p) }"

definition tcp_segment_serialize :: "TCPSegment \<Rightarrow> Serializer \<Rightarrow> Serializer" where
  "tcp_segment_serialize seg s =
     (let snd = ref_get (tm_sender (ts_message seg)); rcv = ref_get (tm_receiver (ts_message seg));
          ud = ts_udinfo seg;
          reset = sm_RST snd \<or> rm_RST rcv;
          flags = (if rm_ackno rcv \<noteq> None then 0x10 else 0) OR (if reset then 0x04 else 0)
                  OR (if sm_SYN snd then 0x02 else 0) OR (if sm_FIN snd then 0x01 else 0);
          s = serializer_integer (ud_src_port ud) s;
          s = serializer_integer (ud_dst_port ud) s;
          s = serializer_integer (raw_value (sm_seqno snd)) s;
          s = serializer_integer (raw_value (case rm_ackno rcv of None \<Rightarrow> Wrap32 0 | Some a \<Rightarrow> a)) s;
          s = serializer_integer (push_bit 4 (drop_bit 2 TCP_HEADER_LENGTH)) s;
          s = serializer_integer (flags :: u8) s;
          s = serializer_integer (rm_window_size rcv) s;
          s = serializer_integer (ud_cksum ud) s;
          s = serializer_integer (0 :: u16) s
      in serializer_string (sm_payload snd) s)"

definition segment_compute_checksum :: "u32 \<Rightarrow> TCPSegment \<Rightarrow> TCPSegment" where
  "segment_compute_checksum datagram_layer_pseudo_checksum seg =
     (let seg = seg\<lparr>ts_udinfo := (ts_udinfo seg)\<lparr>ud_cksum := 0\<rparr>\<rparr>;
          s = tcp_segment_serialize seg serializer;
          check = checksum_add_all (map ref_get (serializer_finish s))
                    (internet_checksum datagram_layer_pseudo_checksum)
      in seg\<lparr>ts_udinfo := (ts_udinfo seg)\<lparr>ud_cksum := checksum_value check\<rparr>\<rparr>)"

text \<open>\<open>serialize\<close> and \<open>parse\<close> of \<open>util/helpers.hh\<close> at this type.\<close>

definition serialize_segment :: "TCPSegment \<Rightarrow> byte list Ref list" where
  "serialize_segment seg = serializer_finish (tcp_segment_serialize seg serializer)"

definition parse_segment :: "u32 \<Rightarrow> byte list Ref list \<Rightarrow> (TCPSegment \<times> bool) option" where
  "parse_segment pseudo buffers =
     do { p \<leftarrow> parser buffers;
          (seg, p) \<leftarrow> tcp_segment_parse pseudo tcp_segment p;
          Some (seg, \<not> parser_has_error p) }"

section \<open>Bytes of a segment\<close>

definition segment_reset :: "TCPSegment \<Rightarrow> bool" where
  "segment_reset seg \<longleftrightarrow> sm_RST (ref_get (tm_sender (ts_message seg)))
     \<or> rm_RST (ref_get (tm_receiver (ts_message seg)))"

definition segment_flags :: "TCPSegment \<Rightarrow> u8" where
  "segment_flags seg =
     (if rm_ackno (ref_get (tm_receiver (ts_message seg))) \<noteq> None then 0x10 else 0)
     OR (if segment_reset seg then 0x04 else 0)
     OR (if sm_SYN (ref_get (tm_sender (ts_message seg))) then 0x02 else 0)
     OR (if sm_FIN (ref_get (tm_sender (ts_message seg))) then 0x01 else 0)"

definition raw_ackno :: "TCPSegment \<Rightarrow> u32" where
  "raw_ackno seg = raw_value
     (case rm_ackno (ref_get (tm_receiver (ts_message seg))) of None \<Rightarrow> Wrap32 0 | Some a \<Rightarrow> a)"

text \<open>The bytes before the checksum field.\<close>

definition segment_head :: "TCPSegment \<Rightarrow> byte list" where
  "segment_head seg = be_bytes (ud_src_port (ts_udinfo seg)) @ be_bytes (ud_dst_port (ts_udinfo seg))
     @ be_bytes (raw_value (sm_seqno (ref_get (tm_sender (ts_message seg)))))
     @ be_bytes (raw_ackno seg) @ be_bytes (0x50 :: u8) @ be_bytes (segment_flags seg)
     @ be_bytes (rm_window_size (ref_get (tm_receiver (ts_message seg))))"

definition segment_tail :: "TCPSegment \<Rightarrow> byte list" where
  "segment_tail seg = be_bytes (0 :: u16) @ sm_payload (ref_get (tm_sender (ts_message seg)))"

definition segment_bytes :: "TCPSegment \<Rightarrow> byte list" where
  "segment_bytes seg = segment_head seg @ be_bytes (ud_cksum (ts_udinfo seg)) @ segment_tail seg"

lemma length_segment [simp]:
  "length (segment_head seg) = 16"
  "length (segment_tail seg) = 2 + length (sm_payload (ref_get (tm_sender (ts_message seg))))"
  by (simp_all add: segment_head_def segment_tail_def)

lemma segment_serialize_simps [simp]:
  "sz_bytes (tcp_segment_serialize seg s) = sz_bytes s @ segment_bytes seg"
  "sz_ok (tcp_segment_serialize seg s) = sz_ok s"
  by (simp_all add: tcp_segment_serialize_def Let_def segment_bytes_def segment_head_def
      segment_tail_def segment_flags_def segment_reset_def raw_ackno_def TCP_HEADER_LENGTH_def)

lemma segment_flags_bits:
  "segment_flags seg AND 0x10 = 0 \<longleftrightarrow> rm_ackno (ref_get (tm_receiver (ts_message seg))) = None"
  "segment_flags seg AND 0x04 \<noteq> 0 \<longleftrightarrow> segment_reset seg"
  "segment_flags seg AND 0x02 \<noteq> 0 \<longleftrightarrow> sm_SYN (ref_get (tm_sender (ts_message seg)))"
  "segment_flags seg AND 0x01 \<noteq> 0 \<longleftrightarrow> sm_FIN (ref_get (tm_sender (ts_message seg)))"
proof -
  have bits: "((if a then 0x10 else 0) OR (if r then 0x04 else 0) OR (if s then 0x02 else 0)
      OR (if f then 0x01 else 0) :: u8) AND 0x10 = 0 \<longleftrightarrow> \<not> a"
    "((if a then 0x10 else 0) OR (if r then 0x04 else 0) OR (if s then 0x02 else 0)
      OR (if f then 0x01 else 0) :: u8) AND 0x04 \<noteq> 0 \<longleftrightarrow> r"
    "((if a then 0x10 else 0) OR (if r then 0x04 else 0) OR (if s then 0x02 else 0)
      OR (if f then 0x01 else 0) :: u8) AND 0x02 \<noteq> 0 \<longleftrightarrow> s"
    "((if a then 0x10 else 0) OR (if r then 0x04 else 0) OR (if s then 0x02 else 0)
      OR (if f then 0x01 else 0) :: u8) AND 0x01 \<noteq> 0 \<longleftrightarrow> f" for a r s f
    by (cases a; cases r; cases s; cases f; simp)+
  show "segment_flags seg AND 0x10 = 0 \<longleftrightarrow> rm_ackno (ref_get (tm_receiver (ts_message seg))) = None"
    "segment_flags seg AND 0x04 \<noteq> 0 \<longleftrightarrow> segment_reset seg"
    "segment_flags seg AND 0x02 \<noteq> 0 \<longleftrightarrow> sm_SYN (ref_get (tm_sender (ts_message seg)))"
    "segment_flags seg AND 0x01 \<noteq> 0 \<longleftrightarrow> sm_FIN (ref_get (tm_sender (ts_message seg)))"
    unfolding segment_flags_def bits by simp_all
qed

text \<open>Assignments to a message whose halves are owned.\<close>

lemma set_sender_bind:
  assumes "is_owned (tm_sender m)"
    and "yields (f (m\<lparr>tm_sender := Owned (g (ref_get (tm_sender m)))\<rparr>)) Q"
  shows "yields (Option.bind (set_sender g m) f) Q"
  using assms by (cases "tm_sender m") (simp_all add: set_sender_def ref_get_mut_def yields_def)

lemma set_receiver_bind:
  assumes "is_owned (tm_receiver m)"
    and "yields (f (m\<lparr>tm_receiver := Owned (g (ref_get (tm_receiver m)))\<rparr>)) Q"
  shows "yields (Option.bind (set_receiver g m) f) Q"
  using assms by (cases "tm_receiver m") (simp_all add: set_receiver_def ref_get_mut_def yields_def)

lemma set_receiver_if_bind:
  assumes "is_owned (tm_receiver m)"
    and "yields (f (m\<lparr>tm_receiver := Owned ((if c then g else id) (ref_get (tm_receiver m)))\<rparr>)) Q"
  shows "yields (Option.bind (if c then set_receiver g m else Some m) f) Q"
  using assms
  by (cases "tm_receiver m"; cases m) (auto simp: set_receiver_def ref_get_mut_def yields_def)

lemmas set_binds = set_sender_bind set_receiver_bind set_receiver_if_bind

text \<open>What the other side gets: owned halves, and the reset in both.\<close>

definition received_segment :: "TCPSegment \<Rightarrow> TCPSegment" where
  "received_segment seg = seg\<lparr>ts_message :=
     \<lparr>tm_sender = Owned ((ref_get (tm_sender (ts_message seg)))\<lparr>sm_RST := segment_reset seg\<rparr>),
      tm_receiver = Owned ((ref_get (tm_receiver (ts_message seg)))\<lparr>rm_RST := segment_reset seg\<rparr>)\<rparr>\<rparr>"

lemma concatenate_at:
  assumes "at p bs" and "yields (f bs) Q"
  shows "yields (Option.bind (concatenate_all_remaining p) f) Q"
  using concatenate_ok [OF at_ok [OF assms(1)]] assms by (simp add: at_def yields_def)

lemma concatenate_total:
  assumes "pr_ok p" and "\<And>bs. yields (f bs) Q"
  shows "yields (Option.bind (concatenate_all_remaining p) f) Q"
  using concatenate_ok [OF assms(1)] assms by (simp add: yields_def)

lemma segment_fields_at:
  assumes at: "at p (segment_bytes seg)"
    and owned: "is_owned (tm_sender (ts_message seg0))" "is_owned (tm_receiver (ts_message seg0))"
  shows "yields (segment_fields seg0 p) (\<lambda>(seg', p'). seg' = received_segment seg \<and> \<not> parser_has_error p')"
proof -
  let ?s = "ref_get (tm_sender (ts_message seg))" and ?r = "ref_get (tm_receiver (ts_message seg))"
  have "at p (be_bytes (ud_src_port (ts_udinfo seg)) @ be_bytes (ud_dst_port (ts_udinfo seg))
     @ be_bytes (raw_value (sm_seqno ?s)) @ be_bytes (raw_ackno seg) @ be_bytes (0x50 :: u8)
     @ be_bytes (segment_flags seg) @ be_bytes (rm_window_size ?r)
     @ be_bytes (ud_cksum (ts_udinfo seg)) @ be_bytes (0 :: u16) @ sm_payload ?s)"
    using at by (simp add: segment_bytes_def segment_head_def segment_tail_def)
  then show ?thesis
    unfolding segment_fields_def
    apply -
    apply (elim at_binds | rule yields_let | rule set_binds, simp add: owned)+
    apply (simp add: TCP_HEADER_LENGTH_def segment_flags_bits if_bool_eq_conj [symmetric] split del: if_split)
    apply (rule yields_bind, rule remove_prefix_at, assumption)
    apply (rule concatenate_at, simp, rule set_sender_bind, simp)
    apply (auto simp: yields_def received_segment_def raw_ackno_def at_def parser_has_error_def
        intro!: TCPSegment.equality TCPMessage.equality TCPSenderMessage.equality
          TCPReceiverMessage.equality UserDatagramInfo.equality split: option.splits)
    done
qed

lemma segment_fields_total:
  assumes ok: "pr_ok p"
    and owned: "is_owned (tm_sender (ts_message seg0))" "is_owned (tm_receiver (ts_message seg0))"
  shows "yields (segment_fields seg0 p) (\<lambda>_. True)"
  using ok unfolding segment_fields_def
  apply -
  apply (elim total_binds | rule yields_let | rule set_binds, simp add: owned)+
  apply (rule if_split [THEN iffD2], intro conjI impI)
   apply (simp add: yields_def)
  apply (rule yields_bind, erule remove_prefix_total)
  apply (erule concatenate_total, rule set_sender_bind)
   apply (simp_all add: owned yields_def)
  done

section \<open>The checksum of a segment\<close>

lemma be_bytes_u16: "be_bytes (c :: u16) = [ucast (drop_bit 8 c), ucast c]"
  by (simp add: be_bytes_def upt_rec)

definition checksum_zero :: "u32 \<Rightarrow> byte list \<Rightarrow> bool" where
  "checksum_zero pseudo bs \<longleftrightarrow> checksum_of pseudo bs = 0"

lemma tcp_segment_parse_unfold:
  assumes "at p bs"
  shows "tcp_segment_parse pseudo seg0 p =
    (if checksum_zero pseudo bs then segment_fields seg0 p else Some (seg0, parser_set_error p))"
proof -
  obtain views where "parser_buffer p = Some views" "concat views = bs"
    using views_ok assms by (fastforce simp: parser_buffer_def at_def)
  then show ?thesis
    by (simp add: tcp_segment_parse_def checksum_add_all_concat checksum_zero_def checksum_of_def)
qed

lemma words_positive: "b \<in> set bs \<Longrightarrow> b \<noteq> 0 \<Longrightarrow> 0 < words low bs"
  by (induction bs arbitrary: low) (auto simp: unat_gt_0)

abbreviation segment_payload :: "TCPSegment \<Rightarrow> byte list" where
  "segment_payload seg \<equiv> sm_payload (ref_get (tm_sender (ts_message seg)))"

lemma compute_checksum_bytes:
  assumes "unat pseudo < 2 ^ 20" and "length (segment_payload seg) < 2 ^ 16"
  shows "checksum_zero pseudo (segment_bytes (segment_compute_checksum pseudo seg))"
proof -
  let ?h = "segment_head seg" and ?t = "segment_tail seg"
  define c where "c = checksum_of pseudo (?h @ [0, 0] @ ?t)"
  have head: "segment_head (seg\<lparr>ts_udinfo := (ts_udinfo seg)\<lparr>ud_cksum := x\<rparr>\<rparr>) = ?h"
    "segment_tail (seg\<lparr>ts_udinfo := (ts_udinfo seg)\<lparr>ud_cksum := x\<rparr>\<rparr>) = ?t" for x
    by (simp_all add: segment_head_def segment_tail_def segment_flags_def raw_ackno_def segment_reset_def)
  have seg: "segment_compute_checksum pseudo seg = seg\<lparr>ts_udinfo := (ts_udinfo seg)\<lparr>ud_cksum := c\<rparr>\<rparr>"
    by (simp add: segment_compute_checksum_def Let_def checksum_add_all_concat c_def checksum_of_def
        segment_bytes_def head be_bytes_u16 flip: bytes_of_def)
  have "0x50 \<in> set (?h @ ?t)" by (simp add: segment_head_def be_bytes_def)
  then have pos: "0 < unat pseudo + words False (?h @ ?t)"
    using words_positive [of "0x50" "?h @ ?t" False] by simp
  have small: "unat pseudo + words False (?h @ ?t) + 65535 < 2 ^ 32"
    using words_bound [of False "?h @ ?t"] assms by simp
  have "checksum_of pseudo (?h @ [ucast (drop_bit 8 c), ucast c] @ ?t) = 0"
    by (rule checksum_verifies [OF _ pos small c_def refl refl]) simp
  then show ?thesis by (simp add: checksum_zero_def seg segment_bytes_def head be_bytes_u16)
qed

lemma segment_bytes_length: "length (segment_bytes seg) = 20 + length (segment_payload seg)"
  by (simp add: segment_bytes_def)

lemma received_simps [simp]:
  "is_owned (tm_sender (ts_message tcp_segment))" "is_owned (tm_receiver (ts_message tcp_segment))"
  by (simp_all add: tcp_segment_def tcp_message_def)

text \<open>What \<open>parse\<close> gives on buffers with the bytes of a segment, by the checksum.\<close>

lemma parse_segment_bytes:
  assumes "parser bufs = Some p" and "no_gap bufs" and "length (bytes_of bufs) < 2 ^ 64"
  shows "\<not> checksum_zero pseudo (bytes_of bufs) \<Longrightarrow> parse_segment pseudo bufs = Some (tcp_segment, False)"
    and "checksum_zero pseudo (bytes_of bufs) \<Longrightarrow> bytes_of bufs = segment_bytes seg \<Longrightarrow>
      parse_segment pseudo bufs = Some (received_segment seg, True)"
    and "\<exists>seg ok. parse_segment pseudo bufs = Some (seg, ok)"
proof -
  have at: "at p (bytes_of bufs)" using assms by (rule parser_consistent)
  note parse = tcp_segment_parse_unfold [OF at, of pseudo tcp_segment]
  show "parse_segment pseudo bufs = Some (tcp_segment, False)" if "\<not> checksum_zero pseudo (bytes_of bufs)"
    using that by (simp add: parse_segment_def assms(1) parse parser_has_error_def parser_set_error_def)
  show "parse_segment pseudo bufs = Some (received_segment seg, True)"
    if "checksum_zero pseudo (bytes_of bufs)" "bytes_of bufs = segment_bytes seg"
    using that segment_fields_at [of p seg tcp_segment] at
    by (auto simp: parse_segment_def assms(1) parse yields_def)
  show "\<exists>seg ok. parse_segment pseudo bufs = Some (seg, ok)"
    using segment_fields_total [OF at_ok [OF at], of tcp_segment]
    by (auto simp: parse_segment_def assms(1) parse yields_def)
qed

lemma segment_copy:
  assumes "length (segment_payload seg) < 2 ^ 16"
  shows "\<exists>p. parser (map ref_copy (serialize_segment seg)) = Some p
    \<and> no_gap (map ref_copy (serialize_segment seg))
    \<and> bytes_of (map ref_copy (serialize_segment seg)) = segment_bytes seg
    \<and> length (segment_bytes seg) < 2 ^ 64"
  using parser_of_copy [of "tcp_segment_serialize seg serializer"]
    finish_no_gap [of "tcp_segment_serialize seg serializer"] assms
  by (auto simp: serialize_segment_def segment_bytes_length)

lemma compute_checksum_fields:
  "received_segment (segment_compute_checksum pseudo seg) = (received_segment seg)
     \<lparr>ts_udinfo := ts_udinfo (segment_compute_checksum pseudo seg)\<rparr>"
  "segment_payload (segment_compute_checksum pseudo seg) = segment_payload seg"
  "ts_udinfo (segment_compute_checksum pseudo seg)
     = (ts_udinfo seg)\<lparr>ud_cksum := ud_cksum (ts_udinfo (segment_compute_checksum pseudo seg))\<rparr>"
  by (simp_all add: segment_compute_checksum_def received_segment_def segment_reset_def Let_def)

section \<open>Properties\<close>

text \<open>
  A segment whose checksum was computed for a pseudo header is accepted by the receiving
  side: from a copy of its serialization \<open>parse\<close> gives its ports, sequence number,
  acknowledgment, flags, window and payload, with a reset of either half set in both.
\<close>
lemma segment_copy_roundtrip:
  assumes "unat pseudo < 2 ^ 20" and "length (sm_payload s) < 2 ^ 16"
    and "seg = segment_compute_checksum pseudo \<lparr>ts_message = \<lparr>tm_sender = Owned s, tm_receiver = Owned r\<rparr>,
        ts_udinfo = ud\<rparr>"
    and "rst = (sm_RST s \<or> rm_RST r)"
  shows "parse_segment pseudo (map ref_copy (serialize_segment seg))
    = Some (\<lparr>ts_message = \<lparr>tm_sender = Owned (s\<lparr>sm_RST := rst\<rparr>), tm_receiver = Owned (r\<lparr>rm_RST := rst\<rparr>)\<rparr>,
        ts_udinfo = ud\<lparr>ud_cksum := ud_cksum (ts_udinfo seg)\<rparr>\<rparr>, True)"
proof -
  let ?m = "\<lparr>ts_message = \<lparr>tm_sender = Owned s, tm_receiver = Owned r\<rparr>, ts_udinfo = ud\<rparr>"
  have len: "length (segment_payload seg) < 2 ^ 16"
    using assms(2) by (simp add: assms(3) compute_checksum_fields)
  have "checksum_zero pseudo (segment_bytes seg)"
    unfolding assms(3) by (rule compute_checksum_bytes) (use assms in simp_all)
  moreover have "received_segment seg =
      \<lparr>ts_message = \<lparr>tm_sender = Owned (s\<lparr>sm_RST := rst\<rparr>), tm_receiver = Owned (r\<lparr>rm_RST := rst\<rparr>)\<rparr>,
        ts_udinfo = ud\<lparr>ud_cksum := ud_cksum (ts_udinfo seg)\<rparr>\<rparr>"
    using compute_checksum_fields(3) [of pseudo ?m]
    by (simp add: assms(3) compute_checksum_fields(1)) (simp add: received_segment_def segment_reset_def assms(4))
  ultimately show ?thesis
    using segment_copy [OF len] parse_segment_bytes(2) [of "map ref_copy (serialize_segment seg)"]
    by auto
qed

text \<open>
  C28: a segment in which one byte was changed on the way is rejected, whichever byte it is:
  \<open>parse\<close> sets the error and leaves the segment as it was constructed.
\<close>
theorem segment_corruption_rejected:
  assumes "unat pseudo < 2 ^ 20" and "length (segment_payload seg) < 2 ^ 16"
    and "sent = bytes_of (serialize_segment (segment_compute_checksum pseudo seg))"
    and "k < length sent" and "b \<noteq> sent ! k"
    and "\<forall>x \<in> set bufs. is_owned x" and "no_gap bufs" and "bytes_of bufs = sent[k := b]"
  shows "parse_segment pseudo bufs = Some (tcp_segment, False)"
proof -
  have sent: "sent = segment_bytes (segment_compute_checksum pseudo seg)"
    by (simp add: assms(3) serialize_segment_def)
  have split: "sent = take k sent @ [sent ! k] @ drop (Suc k) sent"
    using id_take_nth_drop [OF assms(4)] by simp
  have bufs: "bytes_of bufs = take k sent @ [b] @ drop (Suc k) sent"
    using upd_conv_take_nth_drop [OF assms(4)] assms(8) by simp
  have len: "length sent = 20 + length (segment_payload seg)"
    by (simp add: sent segment_bytes_length compute_checksum_fields)
  have "unat pseudo + 65280 * length sent < 2 ^ 32" using assms(1,2) len by simp
  then have fits: "unat pseudo + 65280 * length (take k sent @ [sent ! k] @ drop (Suc k) sent) < 2 ^ 32"
    by (simp only: split [symmetric])
  have "checksum_of pseudo (take k sent @ [sent ! k] @ drop (Suc k) sent) = 0"
    using compute_checksum_bytes [OF assms(1,2)]
    by (simp only: split [symmetric] sent [symmetric] checksum_zero_def)
  then have bad: "\<not> checksum_zero pseudo (bytes_of bufs)"
    unfolding checksum_zero_def bufs using byte_change_detected [OF fits] assms(5) by simp
  have short: "length (bytes_of bufs) < 2 ^ 64" using assms(2,8) len by simp
  then obtain p where "parser bufs = Some p" using parser_at [OF assms(6,7)] by blast
  then show ?thesis using parse_segment_bytes(1) [OF _ assms(7) short bad] by simp
qed

theorem segment_corruption_rejected_witness:
  "parse_segment 99 [Owned [0, 80, 0, 81, 0, 0, 0], Owned [1, 0, 0, 0, 0, 0x50, 0, 0, 0, 0xAE, 0xFB, 0, 0]]
     = Some (tcp_segment, False)"
proof -
  let ?seg = "tcp_segment\<lparr>ts_udinfo := \<lparr>ud_src_port = 80, ud_dst_port = 81, ud_cksum = 0\<rparr>\<rparr>"
  have "bytes_of (serialize_segment (segment_compute_checksum 99 ?seg))
      = [0, 80, 0, 81, 0, 0, 0, 0, 0, 0, 0, 0, 0x50, 0, 0, 0, 0xAE, 0xFB, 0, 0]"
    by code_simp
  from segment_corruption_rejected [OF _ _ this [symmetric], of 7 1
      "[Owned [0, 80, 0, 81, 0, 0, 0], Owned [1, 0, 0, 0, 0, 0x50, 0, 0, 0, 0xAE, 0xFB, 0, 0]]"]
  show ?thesis by (simp add: tcp_segment_def tcp_message_def)
qed

text \<open>
  Parsing a segment is defined on any owned buffers without a gap, whatever their bytes:
  it returns a segment, or the error for a wrong checksum, a data offset below five words or a
  truncated header.
\<close>
lemma segment_parse_defined:
  assumes "parser bufs = Some p" and "no_gap bufs" and "length (bytes_of bufs) < 2 ^ 64"
  shows "\<exists>seg ok. parse_segment pseudo bufs = Some (seg, ok)
    \<and> (checksum_value (checksum_add_all (map ref_get bufs) (internet_checksum pseudo)) \<noteq> 0
       \<longrightarrow> seg = tcp_segment \<and> \<not> ok)"
  using parse_segment_bytes(1,3) [OF assms, of pseudo]
  by (auto simp: checksum_zero_def checksum_of_def checksum_add_all_concat simp flip: bytes_of_def)

end
