(* ===== verification/TCP_Peer.thy ===== *)
theory TCP_Peer
  imports TCP_Receiver TCP_Sender TCP_Segment "HOL-Library.Sublist"
begin

text \<open>
  \<open>util/tcp_peer.hh\<close>: a TCP endpoint, a sender and a receiver that share their messages,
  with the decision when to reply and when the connection is over. The messages handed to
  \<open>transmit\<close> are returned in order. \<open>None\<close> is the exception of a mutable access to a
  borrowed half of a message, or an undefined read in the receiver.
\<close>

record TCPPeer =
  tp_cfg :: TCPConfig
  tp_sender :: TCPSender
  tp_receiver :: TCPReceiver
  tp_need_send :: bool
  tp_linger :: bool
  tp_cumulative_time :: u64
  tp_time_of_last_receipt :: u64

definition tcp_peer :: "TCPConfig \<Rightarrow> TCPPeer" where
  "tcp_peer cfg =
     \<lparr>tp_cfg = cfg,
      tp_sender = tcp_sender (byte_stream (cfg_send_capacity cfg)) (cfg_isn cfg) (ucast (cfg_rt_timeout cfg)),
      tp_receiver = tcp_receiver (reassembler (byte_stream (cfg_recv_capacity cfg))),
      tp_need_send = False, tp_linger = True, tp_cumulative_time = 0, tp_time_of_last_receipt = 0\<rparr>"

text \<open>\<open>send\<close>, and \<open>make_send\<close> over the messages that the sender transmits.\<close>

definition peer_send :: "TCPPeer \<Rightarrow> TCPSenderMessage \<Rightarrow> TCPPeer \<times> TCPMessage" where
  "peer_send p msg =
     (p\<lparr>tp_need_send := False\<rparr>,
      \<lparr>tm_sender = borrow msg, tm_receiver = ref_of (tcp_receiver_send (tp_receiver p))\<rparr>)"

fun peer_send_all :: "TCPPeer \<Rightarrow> TCPSenderMessage list \<Rightarrow> TCPPeer \<times> TCPMessage list" where
  "peer_send_all p [] = (p, [])"
| "peer_send_all p (msg # msgs) =
     (let (p, t) = peer_send p msg; (p, ts) = peer_send_all p msgs in (p, t # ts))"

definition peer_push :: "TCPPeer \<Rightarrow> TCPPeer \<times> TCPMessage list" where
  "peer_push p =
     (let (s, msgs) = tcp_sender_push (tp_sender p) in peer_send_all (p\<lparr>tp_sender := s\<rparr>) msgs)"

definition peer_tick :: "TCPPeer \<Rightarrow> u64 \<Rightarrow> TCPPeer \<times> TCPMessage list" where
  "peer_tick p t =
     (let p = p\<lparr>tp_cumulative_time := tp_cumulative_time p + t\<rparr>;
          (s, msgs) = tcp_sender_tick (tp_sender p) t
      in peer_send_all (p\<lparr>tp_sender := s\<rparr>) msgs)"

definition has_ackno :: "TCPPeer \<Rightarrow> bool" where
  "has_ackno p \<longleftrightarrow> rm_ackno (tcp_receiver_send (tp_receiver p)) \<noteq> None"

definition peer_lingering :: "TCPPeer \<Rightarrow> bool" where
  "peer_lingering p \<longleftrightarrow> tp_linger p
     \<and> tp_cumulative_time p < tp_time_of_last_receipt p + 10 * ucast (cfg_rt_timeout (tp_cfg p))"

definition peer_active :: "TCPPeer \<Rightarrow> bool" where
  "peer_active p \<longleftrightarrow>
     (let any_errors = has_error (ra_output (rv_reassembler (tp_receiver p))) \<or> has_error (sn_input (tp_sender p));
          sender_active = sequence_numbers_in_flight (tp_sender p) \<noteq> 0
            \<or> \<not> reader_is_finished (sn_input (tp_sender p));
          receiver_active = \<not> writer_is_closed (ra_output (rv_reassembler (tp_receiver p)))
      in \<not> any_errors \<and> (sender_active \<or> receiver_active \<or> peer_lingering p))"

text \<open>Whether \<open>receive\<close> owes a reply to a message.\<close>

definition wants_reply :: "TCPPeer \<Rightarrow> TCPSenderMessage \<Rightarrow> bool" where
  "wants_reply p msg \<longleftrightarrow> sequence_length msg > 0
     \<or> (case rm_ackno (tcp_receiver_send (tp_receiver p)) of
          None \<Rightarrow> False | Some our_ackno \<Rightarrow> wrap32_eq (wrap32_add (sm_seqno msg) 1) our_ackno)"

text \<open>The calls of the two halves, and what \<open>receive\<close> does after them.\<close>

definition peer_take :: "TCPPeer \<Rightarrow> TCPSenderMessage \<Rightarrow> TCPReceiverMessage \<Rightarrow> TCPPeer option" where
  "peer_take p msg ack =
     (let p = p\<lparr>tp_time_of_last_receipt := tp_cumulative_time p,
                tp_need_send := tp_need_send p \<or> wants_reply p msg\<rparr>
      in do { r \<leftarrow> tcp_receiver_receive (tp_receiver p) msg;
              Some (p\<lparr>tp_receiver := r, tp_sender := tcp_sender_receive (tp_sender p) ack\<rparr>) })"

definition peer_reply :: "TCPPeer \<Rightarrow> TCPPeer \<times> TCPMessage list" where
  "peer_reply p =
     (let (p, out) = peer_push p
      in if tp_need_send p
         then let (p, t) = peer_send p (make_empty_message (tp_sender p)) in (p, out @ [t])
         else (p, out))"

definition peer_finish :: "TCPPeer \<Rightarrow> TCPPeer" where
  "peer_finish p =
     (if writer_is_closed (ra_output (rv_reassembler (tp_receiver p)))
         \<and> \<not> reader_is_finished (sn_input (tp_sender p))
      then p\<lparr>tp_linger := False\<rparr> else p)"

definition peer_receive :: "TCPPeer \<Rightarrow> TCPMessage \<Rightarrow> (TCPPeer \<times> TCPMessage list) option" where
  "peer_receive p msg =
     (if \<not> peer_active p then Some (p, [])
      else if \<not> is_owned (tm_sender msg) \<or> \<not> is_owned (tm_receiver msg) then None
      else do { p \<leftarrow> peer_take p (ref_get (tm_sender msg)) (ref_get (tm_receiver msg));
                (p, out) \<leftarrow> Some (peer_reply p);
                Some (peer_finish p, out) })"

text \<open>The owner's calls through \<open>outbound_writer()\<close> and \<open>inbound_reader()\<close>.\<close>

definition on_outbound :: "(ByteStream \<Rightarrow> ByteStream) \<Rightarrow> TCPPeer \<Rightarrow> TCPPeer" where
  "on_outbound f p = p\<lparr>tp_sender := (tp_sender p)\<lparr>sn_input := f (sn_input (tp_sender p))\<rparr>\<rparr>"

definition on_inbound :: "(TCPReceiver \<Rightarrow> TCPReceiver) \<Rightarrow> TCPPeer \<Rightarrow> TCPPeer" where
  "on_inbound f p = p\<lparr>tp_receiver := f (tp_receiver p)\<rparr>"

section \<open>What a peer sends\<close>

lemma peer_send_all_eq:
  "peer_send_all p msgs =
     (p\<lparr>tp_need_send := (if msgs = [] then tp_need_send p else False)\<rparr>,
      map (\<lambda>m. \<lparr>tm_sender = Borrowed m, tm_receiver = Owned (tcp_receiver_send (tp_receiver p))\<rparr>) msgs)"
proof (induction msgs arbitrary: p)
  case (Cons m msgs)
  show ?case by (simp add: peer_send_def borrow_def ref_of_def Let_def Cons.IH)
qed simp

text \<open>The messages of the sender with the receiver's current acknowledgment and window.\<close>

definition with_ack :: "TCPReceiver \<Rightarrow> TCPSenderMessage \<Rightarrow> TCPMessage" where
  "with_ack r m = \<lparr>tm_sender = Borrowed m, tm_receiver = Owned (tcp_receiver_send r)\<rparr>"

lemma with_ack_simps [simp]:
  "ref_get (tm_sender (with_ack r m)) = m" "ref_get (tm_receiver (with_ack r m)) = tcp_receiver_send r"
  by (simp_all add: with_ack_def)

lemma peer_push_eq:
  "peer_push p = (p\<lparr>tp_sender := send_step (tp_sender p) Send,
      tp_need_send := (if transmitted (tp_sender p) Send = [] then tp_need_send p else False)\<rparr>,
    map (with_ack (tp_receiver p)) (transmitted (tp_sender p) Send))"
  by (simp add: peer_push_def send_step_def transmitted_def peer_send_all_eq with_ack_def [abs_def]
      split: prod.split)

lemma peer_tick_eq:
  "peer_tick p t = (p\<lparr>tp_cumulative_time := tp_cumulative_time p + t,
      tp_sender := send_step (tp_sender p) (Wait t),
      tp_need_send := (if transmitted (tp_sender p) (Wait t) = [] then tp_need_send p else False)\<rparr>,
    map (with_ack (tp_receiver p)) (transmitted (tp_sender p) (Wait t)))"
  by (simp add: peer_tick_def send_step_def transmitted_def peer_send_all_eq with_ack_def [abs_def] Let_def
      split: prod.split)

text \<open>The messages of \<open>receive\<close>: what the sender pushes, or else the empty message that is owed.\<close>

definition replies :: "TCPPeer \<Rightarrow> TCPSenderMessage list" where
  "replies p =
     (let out = transmitted (tp_sender p) Send
      in if out = [] \<and> tp_need_send p then [make_empty_message (send_step (tp_sender p) Send)] else out)"

lemma peer_reply_eq:
  "peer_reply p = (p\<lparr>tp_sender := send_step (tp_sender p) Send, tp_need_send := False\<rparr>,
    map (with_ack (tp_receiver p)) (replies p))"
  by (cases "tp_need_send p")
     (auto simp: peer_reply_def peer_push_eq peer_send_def replies_def with_ack_def borrow_def ref_of_def Let_def)

lemma peer_finish_simps [simp]:
  "tp_sender (peer_finish p) = tp_sender p" "tp_receiver (peer_finish p) = tp_receiver p"
  "tp_need_send (peer_finish p) = tp_need_send p" "tp_cfg (peer_finish p) = tp_cfg p"
  "tp_cumulative_time (peer_finish p) = tp_cumulative_time p"
  "tp_time_of_last_receipt (peer_finish p) = tp_time_of_last_receipt p"
  by (simp_all add: peer_finish_def)

text \<open>A message that an active peer takes.\<close>

lemma peer_receive_eq:
  assumes "peer_active p" and "tcp_receiver_receive (tp_receiver p) m = Some r"
  shows "peer_receive p \<lparr>tm_sender = Owned m, tm_receiver = Owned a\<rparr> =
    (let q = p\<lparr>tp_time_of_last_receipt := tp_cumulative_time p,
               tp_need_send := tp_need_send p \<or> wants_reply p m,
               tp_receiver := r, tp_sender := send_step (tp_sender p) (Ack a)\<rparr>
     in Some (peer_finish (q\<lparr>tp_sender := send_step (tp_sender q) Send, tp_need_send := False\<rparr>),
              map (with_ack r) (replies q)))"
  using assms by (simp add: peer_receive_def peer_take_def peer_reply_eq Let_def wants_reply_def send_step_def)

section \<open>Events\<close>

datatype peer_op =
  App_write "byte list" | App_close | App_fail | App_read u64 | App_break
  | Net_push | Net_tick u64 | Net_receive TCPMessage

fun peer_event :: "TCPPeer \<Rightarrow> peer_op \<Rightarrow> (TCPPeer \<times> TCPMessage list) option" where
  "peer_event p (App_write data) = Some (on_outbound (\<lambda>w. writer_push w data) p, [])"
| "peer_event p App_close = Some (on_outbound writer_close p, [])"
| "peer_event p App_fail = Some (on_outbound set_error p, [])"
| "peer_event p (App_read len) = Some (on_inbound (\<lambda>r. tcp_receiver_pop r len) p, [])"
| "peer_event p App_break = Some (on_inbound tcp_receiver_fail p, [])"
| "peer_event p Net_push = Some (peer_push p)"
| "peer_event p (Net_tick t) = Some (peer_tick p t)"
| "peer_event p (Net_receive msg) = peer_receive p msg"

definition peer_step :: "TCPPeer \<Rightarrow> peer_op \<Rightarrow> TCPPeer" where
  "peer_step p e = (case peer_event p e of None \<Rightarrow> p | Some (p', out) \<Rightarrow> p')"

definition peer_out :: "TCPPeer \<Rightarrow> peer_op \<Rightarrow> TCPMessage list" where
  "peer_out p e = (case peer_event p e of None \<Rightarrow> [] | Some (p', out) \<Rightarrow> out)"

text \<open>A configuration for the examples.\<close>

definition small_config :: TCPConfig where
  "small_config = tcp_config\<lparr>cfg_recv_capacity := 4, cfg_send_capacity := 4\<rparr>"

text \<open>
  A peer that received the other side's FIN before its own stream was finished no longer
  lingers. If the other side's window is closed when the application closes, the FIN is not
  sent, and with all bytes acknowledged the peer counts as inactive: its FIN never goes out.
\<close>

definition abandoned :: TCPPeer where
  "abandoned = run peer_step (tcp_peer small_config)
     [Net_push,
      Net_receive \<lparr>tm_sender = Owned (sender_message\<lparr>sm_seqno := Wrap32 7, sm_SYN := True, sm_FIN := True\<rparr>),
                   tm_receiver = Owned \<lparr>rm_ackno = Some (Wrap32 138), rm_window_size = 0, rm_RST = False\<rparr>\<rparr>,
      App_close, Net_push]"

definition over_without_fin :: "TCPPeer \<Rightarrow> bool" where
  "over_without_fin p \<longleftrightarrow> \<not> peer_active p \<and> \<not> sn_fin_set (tp_sender p) \<and> \<not> has_error (sn_input (tp_sender p))"

lemma abandoned_without_fin: "over_without_fin abandoned"
  by code_simp

section \<open>A peer drives its two halves\<close>

text \<open>The calls of its sender that an event makes.\<close>

fun sender_calls :: "TCPPeer \<Rightarrow> peer_op \<Rightarrow> send_op list" where
  "sender_calls p (App_write data) = [Write data]"
| "sender_calls p App_close = [Finish]"
| "sender_calls p App_fail = [Fail]"
| "sender_calls p Net_push = [Send]"
| "sender_calls p (Net_tick t) = [Wait t]"
| "sender_calls p (Net_receive msg) =
     (if peer_active p then [Ack (ref_get (tm_receiver msg)), Send] else [])"
| "sender_calls p _ = []"

text \<open>Messages arrive with both halves owned.\<close>

fun owned_op :: "peer_op \<Rightarrow> bool" where
  "owned_op (Net_receive msg) = (is_owned (tm_sender msg) \<and> is_owned (tm_receiver msg))"
| "owned_op _ = True"

text \<open>A message with both halves owned, given to an active peer.\<close>

lemma peer_receive_owned:
  assumes "receiver_sane (tp_receiver p)" and "peer_active p"
    and "is_owned (tm_sender msg)" and "is_owned (tm_receiver msg)"
  shows "\<exists>p' r out. peer_receive p msg = Some (p', map (with_ack r) out)
    \<and> tcp_receiver_receive (tp_receiver p) (ref_get (tm_sender msg)) = Some r \<and> tp_receiver p' = r \<and> receiver_sane r
    \<and> tp_sender p' = send_step (send_step (tp_sender p) (Ack (ref_get (tm_receiver msg)))) Send
    \<and> (out = transmitted (send_step (tp_sender p) (Ack (ref_get (tm_receiver msg)))) Send
       \<or> out = [make_empty_message (tp_sender p')])"
proof -
  obtain m a where msg: "msg = \<lparr>tm_sender = Owned m, tm_receiver = Owned a\<rparr>"
    using assms(3,4) by (cases msg, cases "tm_sender msg", cases "tm_receiver msg") auto
  obtain r where r: "tcp_receiver_receive (tp_receiver p) m = Some r" "receiver_sane r"
    using receive_sane [OF assms(1)] by blast
  show ?thesis
    unfolding msg peer_receive_eq [OF assms(2) r(1)] Let_def
    by (intro exI conjI, rule refl) (simp_all add: r replies_def Let_def)
qed

lemma active_no_error: "peer_active p \<Longrightarrow> \<not> bs_error (sn_input (tp_sender p))"
  by (simp add: peer_active_def has_error_def Let_def)

lemma peer_step_inactive: "\<not> peer_active p \<Longrightarrow> peer_step p (Net_receive msg) = p \<and> peer_out p (Net_receive msg) = []"
  by (simp add: peer_step_def peer_out_def peer_receive_def)

lemma sender_step:
  assumes "receiver_sane (tp_receiver p)" and "owned_op e"
  shows "tp_sender (peer_step p e) = run send_step (tp_sender p) (sender_calls p e)"
proof (cases e)
  case (Net_receive msg)
  show ?thesis
  proof (cases "peer_active p")
    case True
    then show ?thesis
      using peer_receive_owned [of p msg] assms Net_receive by (auto simp: peer_step_def)
  qed (simp add: Net_receive peer_step_inactive)
qed (simp_all add: peer_step_def on_outbound_def on_inbound_def peer_push_eq peer_tick_eq send_step_def)

lemma reading_sane [simp]:
  "receiver_sane (tcp_receiver_pop r n) = receiver_sane r" "receiver_sane (tcp_receiver_fail r) = receiver_sane r"
  by (simp_all add: receiver_sane_def tcp_receiver_pop_def tcp_receiver_fail_def reassembler_pop_def
      reassembler_set_error_def set_error_def writer_is_closed_def)

lemma sane_step:
  assumes "receiver_sane (tp_receiver p)" and "owned_op e"
  shows "receiver_sane (tp_receiver (peer_step p e))"
proof (cases e)
  case (Net_receive msg)
  show ?thesis
  proof (cases "peer_active p")
    case True
    then show ?thesis
      using peer_receive_owned [of p msg] assms Net_receive by (auto simp: peer_step_def)
  qed (use assms(1) in \<open>simp add: Net_receive peer_step_inactive\<close>)
qed (use assms(1) in \<open>simp_all add: peer_step_def on_outbound_def on_inbound_def peer_push_eq
  peer_tick_eq\<close>)

section \<open>The end of a connection\<close>

lemma send_step_wait_simps [simp]:
  "sn_input (send_step s (Wait t)) = sn_input s" "sn_bytes_unack (send_step s (Wait t)) = sn_bytes_unack s"
  by (simp_all add: send_step_def tcp_sender_tick_def Let_def)

lemma peer_step_tick [simp]:
  "tp_receiver (peer_step p (Net_tick t)) = tp_receiver p" "tp_cfg (peer_step p (Net_tick t)) = tp_cfg p"
  "tp_linger (peer_step p (Net_tick t)) = tp_linger p"
  "tp_time_of_last_receipt (peer_step p (Net_tick t)) = tp_time_of_last_receipt p"
  "tp_cumulative_time (peer_step p (Net_tick t)) = tp_cumulative_time p + t"
  "sn_input (tp_sender (peer_step p (Net_tick t))) = sn_input (tp_sender p)"
  "sn_bytes_unack (tp_sender (peer_step p (Net_tick t))) = sn_bytes_unack (tp_sender p)"
  by (simp_all add: peer_step_def peer_tick_eq)

text \<open>Both streams are over: everything sent is acknowledged and everything expected is here.\<close>

definition streams_over :: "TCPPeer \<Rightarrow> bool" where
  "streams_over p \<longleftrightarrow> \<not> has_error (ra_output (rv_reassembler (tp_receiver p)))
     \<and> \<not> has_error (sn_input (tp_sender p)) \<and> sequence_numbers_in_flight (tp_sender p) = 0
     \<and> reader_is_finished (sn_input (tp_sender p)) \<and> writer_is_closed (ra_output (rv_reassembler (tp_receiver p)))"

lemma active_over: "streams_over p \<Longrightarrow> peer_active p \<longleftrightarrow> peer_lingering p"
  by (simp add: streams_over_def peer_active_def)

lemma ticks_simps [simp]:
  "streams_over (run peer_step p (map Net_tick ts)) = streams_over p"
  "tp_cfg (run peer_step p (map Net_tick ts)) = tp_cfg p"
  "tp_linger (run peer_step p (map Net_tick ts)) = tp_linger p"
  "tp_time_of_last_receipt (run peer_step p (map Net_tick ts)) = tp_time_of_last_receipt p"
  "tp_cumulative_time (run peer_step p (map Net_tick ts)) = tp_cumulative_time p + sum_list ts"
  by (induction ts arbitrary: p) (simp_all add: streams_over_def sequence_numbers_in_flight_def add.assoc)

text \<open>The end of the time to linger; \<open>10UL * rt_timeout\<close> stays far below \<open>2 ^ 64\<close>.\<close>

definition linger_end :: "TCPPeer \<Rightarrow> nat" where
  "linger_end p = unat (tp_time_of_last_receipt p) + 10 * unat (cfg_rt_timeout (tp_cfg p))"

lemma lingering_iff:
  assumes "linger_end p < 2 ^ 64"
  shows "peer_lingering p \<longleftrightarrow> tp_linger p \<and> unat (tp_cumulative_time p) < linger_end p"
proof -
  let ?rt = "cfg_rt_timeout (tp_cfg p)"
  have "unat (10 * ucast ?rt :: u64) = 10 * unat ?rt"
    using u16_bound [of ?rt] by (simp add: unat_word_ariths unat_ucast_16_64)
  then have "unat (tp_time_of_last_receipt p + 10 * ucast ?rt) = linger_end p"
    using assms unat_add64 [of "tp_time_of_last_receipt p" "10 * ucast ?rt"] by (simp add: linger_end_def)
  then show ?thesis by (simp add: peer_lingering_def word_less_nat_alt)
qed

lemma sum_list_unat:
  assumes "unat (c :: u64) + (\<Sum>t \<leftarrow> ts. unat t) < 2 ^ 64"
  shows "unat (c + sum_list ts) = unat c + (\<Sum>t \<leftarrow> ts. unat t)"
  using assms
proof (induction ts arbitrary: c)
  case (Cons t ts)
  then have "unat (c + t) = unat c + unat t" by (simp add: unat_add64)
  then show ?case using Cons.IH [of "c + t"] Cons.prems by (simp add: add.assoc)
qed simp

section \<open>The history behind the fields that end a connection\<close>

text \<open>The inbound stream has ended; the outbound stream is sent to its end.\<close>

definition peer_inbound_over :: "TCPPeer \<Rightarrow> bool" where
  "peer_inbound_over p \<longleftrightarrow> writer_is_closed (ra_output (rv_reassembler (tp_receiver p)))"

definition peer_outbound_over :: "TCPPeer \<Rightarrow> bool" where
  "peer_outbound_over p \<longleftrightarrow> reader_is_finished (sn_input (tp_sender p))"

text \<open>The time that passes in a run, and the time at which an active peer last received a message.\<close>

fun op_time :: "peer_op \<Rightarrow> nat" where
  "op_time (Net_tick t) = unat t"
| "op_time _ = 0"

definition clock :: "peer_op list \<Rightarrow> nat" where
  "clock es = (\<Sum>e \<leftarrow> es. op_time e)"

fun is_receive :: "peer_op \<Rightarrow> bool" where
  "is_receive (Net_receive msg) = True"
| "is_receive _ = False"

fun last_receipt :: "nat \<Rightarrow> nat \<Rightarrow> TCPPeer \<Rightarrow> peer_op list \<Rightarrow> nat" where
  "last_receipt now receipt p [] = receipt"
| "last_receipt now receipt p (e # es) =
     last_receipt (now + op_time e) (if is_receive e \<and> peer_active p then now else receipt) (peer_step p e) es"

lemma last_receipt_le: "receipt \<le> now \<Longrightarrow> last_receipt now receipt p es \<le> now + clock es"
proof (induction es arbitrary: now receipt p)
  case (Cons e es)
  then show ?case
    using Cons.IH [of _ "now + op_time e" "peer_step p e"] by (simp add: clock_def add.assoc [symmetric])
qed (simp add: clock_def)

lemma peer_receive_fields:
  assumes "receiver_sane (tp_receiver p)" and "owned_op (Net_receive msg)" and "peer_active p"
  defines "p' \<equiv> peer_step p (Net_receive msg)"
  shows "tp_time_of_last_receipt p' = tp_cumulative_time p" "tp_cumulative_time p' = tp_cumulative_time p"
    "tp_cfg p' = tp_cfg p" "tp_linger p' \<longleftrightarrow> tp_linger p \<and> \<not> (peer_inbound_over p' \<and> \<not> peer_outbound_over p')"
proof -
  obtain m a where msg: "msg = \<lparr>tm_sender = Owned m, tm_receiver = Owned a\<rparr>"
    using assms(2) by (cases msg, cases "tm_sender msg", cases "tm_receiver msg") auto
  obtain r where r: "tcp_receiver_receive (tp_receiver p) m = Some r"
    using receive_sane [OF assms(1)] by blast
  note eq = peer_receive_eq [OF assms(3) r, of a]
  show "tp_time_of_last_receipt p' = tp_cumulative_time p" "tp_cumulative_time p' = tp_cumulative_time p"
    "tp_cfg p' = tp_cfg p" "tp_linger p' \<longleftrightarrow> tp_linger p \<and> \<not> (peer_inbound_over p' \<and> \<not> peer_outbound_over p')"
    by (simp_all add: p'_def peer_step_def msg eq Let_def peer_finish_def peer_inbound_over_def peer_outbound_over_def)
qed

lemma peer_step_quiet:
  assumes "\<not> (is_receive e \<and> peer_active p)"
  shows "tp_time_of_last_receipt (peer_step p e) = tp_time_of_last_receipt p"
    "unat (tp_cumulative_time p) + op_time e < 2 ^ 64 \<Longrightarrow>
       unat (tp_cumulative_time (peer_step p e)) = unat (tp_cumulative_time p) + op_time e"
    "tp_cfg (peer_step p e) = tp_cfg p" "tp_linger (peer_step p e) = tp_linger p"
    "peer_inbound_over (peer_step p e) = peer_inbound_over p"
proof -
  consider msg where "e = Net_receive msg" "\<not> peer_active p" | "\<not> is_receive e"
    using assms by (cases e) auto
  then have "tp_time_of_last_receipt (peer_step p e) = tp_time_of_last_receipt p
      \<and> tp_cfg (peer_step p e) = tp_cfg p \<and> tp_linger (peer_step p e) = tp_linger p
      \<and> peer_inbound_over (peer_step p e) = peer_inbound_over p
      \<and> (unat (tp_cumulative_time p) + op_time e < 2 ^ 64 \<longrightarrow>
         unat (tp_cumulative_time (peer_step p e)) = unat (tp_cumulative_time p) + op_time e)"
  proof cases
    case 1
    then show ?thesis by (simp add: peer_step_inactive)
  next
    case 2
    then show ?thesis
      by (cases e) (simp_all add: peer_step_def on_outbound_def on_inbound_def peer_push_eq peer_tick_eq
        peer_inbound_over_def tcp_receiver_pop_def tcp_receiver_fail_def reassembler_pop_def reassembler_set_error_def
        writer_is_closed_def set_error_def unat_add64)
  qed
  then show "tp_time_of_last_receipt (peer_step p e) = tp_time_of_last_receipt p"
    "tp_cfg (peer_step p e) = tp_cfg p" "tp_linger (peer_step p e) = tp_linger p"
    "peer_inbound_over (peer_step p e) = peer_inbound_over p"
    "unat (tp_cumulative_time p) + op_time e < 2 ^ 64 \<Longrightarrow>
       unat (tp_cumulative_time (peer_step p e)) = unat (tp_cumulative_time p) + op_time e"
    by blast+
qed

lemma peer_outbound_over_stays:
  assumes "receiver_sane (tp_receiver p)" and "owned_op e" and "peer_outbound_over p"
  shows "peer_outbound_over (peer_step p e)"
  using assms(3) finished_stays_run by (simp add: peer_outbound_over_def sender_step [OF assms(1,2)])

lemma run_times:
  assumes "receiver_sane (tp_receiver p)" and "admissible peer_step (\<lambda>_. owned_op) p es"
    and "unat (tp_cumulative_time p) + clock es < 2 ^ 64"
  shows "tp_cfg (run peer_step p es) = tp_cfg p
    \<and> unat (tp_cumulative_time (run peer_step p es)) = unat (tp_cumulative_time p) + clock es
    \<and> unat (tp_time_of_last_receipt (run peer_step p es))
        = last_receipt (unat (tp_cumulative_time p)) (unat (tp_time_of_last_receipt p)) p es"
  using assms
proof (induction es arbitrary: p)
  case (Cons e es)
  let ?p = "peer_step p e"
  have sane: "receiver_sane (tp_receiver ?p)" using sane_step Cons.prems(1,2) by simp
  have small: "unat (tp_cumulative_time p) + op_time e < 2 ^ 64" using Cons.prems(3) by (simp add: clock_def)
  have f: "tp_cfg ?p = tp_cfg p \<and> unat (tp_cumulative_time ?p) = unat (tp_cumulative_time p) + op_time e
    \<and> unat (tp_time_of_last_receipt ?p) =
       (if is_receive e \<and> peer_active p then unat (tp_cumulative_time p) else unat (tp_time_of_last_receipt p))"
  proof (cases "is_receive e \<and> peer_active p")
    case True
    then obtain msg where "e = Net_receive msg" by (cases e) auto
    then show ?thesis using peer_receive_fields [OF Cons.prems(1), of msg] True Cons.prems(2) by simp
  qed (use peer_step_quiet [of e p] small in auto)
  then show ?case using Cons.IH [OF sane] Cons.prems(2,3) by (simp add: clock_def add.assoc)
qed (simp add: clock_def)

text \<open>
  A peer stops lingering at the first moment at which only the inbound stream is over;
  \<open>only_inbound\<close> looks for one.
\<close>

fun only_inbound :: "TCPPeer \<Rightarrow> peer_op list \<Rightarrow> bool" where
  "only_inbound p [] \<longleftrightarrow> peer_inbound_over p \<and> \<not> peer_outbound_over p"
| "only_inbound p (e # es) \<longleftrightarrow> (peer_inbound_over p \<and> \<not> peer_outbound_over p) \<or> only_inbound (peer_step p e) es"

lemma only_inbound_iff:
  "only_inbound p es \<longleftrightarrow>
     (\<exists>q. prefix q es \<and> peer_inbound_over (run peer_step p q) \<and> \<not> peer_outbound_over (run peer_step p q))"
proof (induction es arbitrary: p)
  case (Cons e es)
  have "(\<exists>q. prefix q (e # es) \<and> peer_inbound_over (run peer_step p q) \<and> \<not> peer_outbound_over (run peer_step p q))
      \<longleftrightarrow> (peer_inbound_over p \<and> \<not> peer_outbound_over p) \<or> (\<exists>q. prefix q es
        \<and> peer_inbound_over (run peer_step (peer_step p e) q) \<and> \<not> peer_outbound_over (run peer_step (peer_step p e) q))"
    by (auto simp: prefix_Cons)
  then show ?case by (simp add: Cons.IH)
qed simp

lemma run_linger:
  assumes "receiver_sane (tp_receiver p)" and "admissible peer_step (\<lambda>_. owned_op) p es"
    and "tp_linger p \<longrightarrow> \<not> (peer_inbound_over p \<and> \<not> peer_outbound_over p)"
  shows "tp_linger (run peer_step p es) \<longleftrightarrow> tp_linger p \<and> \<not> only_inbound p es"
  using assms
proof (induction es arbitrary: p)
  case (Cons e es)
  let ?p = "peer_step p e"
  have sane: "receiver_sane (tp_receiver ?p)" using sane_step Cons.prems(1,2) by simp
  have step: "tp_linger ?p \<longleftrightarrow> tp_linger p \<and> \<not> (peer_inbound_over ?p \<and> \<not> peer_outbound_over ?p)"
  proof (cases "is_receive e \<and> peer_active p")
    case True
    then obtain msg where "e = Net_receive msg" by (cases e) auto
    then show ?thesis using peer_receive_fields(4) [OF Cons.prems(1), of msg] True Cons.prems(2) by simp
  next
    case False
    then show ?thesis
      using peer_step_quiet(4,5) [OF False] Cons.prems(2,3) peer_outbound_over_stays [OF Cons.prems(1), of e] by auto
  qed
  have "only_inbound ?p es" if "peer_inbound_over ?p \<and> \<not> peer_outbound_over ?p"
    using that by (cases es) simp_all
  then show ?case using Cons.IH [OF sane] Cons.prems(2,3) step by auto
qed auto

lemma fresh_sane: "receiver_sane (tp_receiver (tcp_peer cfg))"
  by (simp add: tcp_peer_def tcp_receiver_def receiver_sane_def writer_is_closed_def byte_stream_def)

section \<open>Properties\<close>

text \<open>
  C25: what a peer does with a message, in every state that its runs keep (\<open>receiver_sane\<close>). An inactive peer ignores it. An active one, if both halves
  of the message are its own, never reads an undefined value, gives the halves to its receiver and
  sender, then pushes, and leaves no reply owed. It sends exactly what the sender pushed or, if
  that is nothing and a reply is owed, one empty message; a reply is owed if the message
  occupied a sequence number or was a keep-alive (one before the acknowledged number), or one was
  owed before. Each carries the acknowledgment and window its receiver has after the message.
\<close>
theorem peer_answers:
  assumes "receiver_sane (tp_receiver p)"
  shows "(\<not> peer_active p \<longrightarrow> (\<forall>msg. peer_receive p msg = Some (p, [])))
    \<and> (peer_active p \<longrightarrow> (\<exists>p' r out.
      peer_receive p \<lparr>tm_sender = Owned m, tm_receiver = Owned a\<rparr> = Some (p', map (with_ack r) out)
      \<and> tcp_receiver_receive (tp_receiver p) m = Some r \<and> tp_receiver p' = r \<and> receiver_sane r
      \<and> tp_sender p' = send_step (send_step (tp_sender p) (Ack a)) Send
      \<and> \<not> tp_need_send p' \<and> tp_time_of_last_receipt p' = tp_cumulative_time p
      \<and> tp_cumulative_time p' = tp_cumulative_time p \<and> tp_cfg p' = tp_cfg p
      \<and> out = (if transmitted (send_step (tp_sender p) (Ack a)) Send = [] \<and> (wants_reply p m \<or> tp_need_send p)
              then [make_empty_message (tp_sender p')] else transmitted (send_step (tp_sender p) (Ack a)) Send)
      \<and> (tp_linger p' \<longleftrightarrow> tp_linger p \<and> \<not> (writer_is_closed (ra_output (rv_reassembler r))
          \<and> \<not> reader_is_finished (sn_input (tp_sender p'))))))"
proof (cases "peer_active p")
  case True
  obtain r where r: "tcp_receiver_receive (tp_receiver p) m = Some r" "receiver_sane r"
    using receive_sane [OF assms] by blast
  have "\<exists>p' r out.
      peer_receive p \<lparr>tm_sender = Owned m, tm_receiver = Owned a\<rparr> = Some (p', map (with_ack r) out)
      \<and> tcp_receiver_receive (tp_receiver p) m = Some r \<and> tp_receiver p' = r \<and> receiver_sane r
      \<and> tp_sender p' = send_step (send_step (tp_sender p) (Ack a)) Send
      \<and> \<not> tp_need_send p' \<and> tp_time_of_last_receipt p' = tp_cumulative_time p
      \<and> tp_cumulative_time p' = tp_cumulative_time p \<and> tp_cfg p' = tp_cfg p
      \<and> out = (if transmitted (send_step (tp_sender p) (Ack a)) Send = [] \<and> (wants_reply p m \<or> tp_need_send p)
              then [make_empty_message (tp_sender p')] else transmitted (send_step (tp_sender p) (Ack a)) Send)
      \<and> (tp_linger p' \<longleftrightarrow> tp_linger p \<and> \<not> (writer_is_closed (ra_output (rv_reassembler r))
          \<and> \<not> reader_is_finished (sn_input (tp_sender p'))))"
    unfolding peer_receive_eq [OF True r(1)] Let_def
    by (intro exI conjI, rule refl) (auto simp: r peer_finish_def replies_def Let_def)
  then show ?thesis using True by simp
qed (simp add: peer_receive_def)

theorem peer_answers_witness:
  "(\<exists>p' r. peer_receive (tcp_peer small_config)
      \<lparr>tm_sender = Owned (sender_message\<lparr>sm_SYN := True\<rparr>), tm_receiver = Owned receiver_message\<rparr>
    = Some (p', map (with_ack r) [sender_message\<lparr>sm_seqno := Wrap32 137, sm_SYN := True\<rparr>]) \<and> tp_receiver p' = r)
   \<and> peer_receive abandoned \<lparr>tm_sender = Owned sender_message, tm_receiver = Owned receiver_message\<rparr>
     = Some (abandoned, [])"
proof -
  have t: "transmitted (send_step (tp_sender (tcp_peer small_config)) (Ack receiver_message)) Send
      = [sender_message\<lparr>sm_seqno := Wrap32 137, sm_SYN := True\<rparr>]"
    by code_simp
  have "peer_active (tcp_peer small_config)" by code_simp
  moreover have "receiver_sane (tp_receiver abandoned)" "\<not> peer_active abandoned" by code_simp+
  ultimately show ?thesis
    using peer_answers [OF fresh_sane, of small_config "sender_message\<lparr>sm_SYN := True\<rparr>" receiver_message]
      peer_answers [of abandoned] by (simp add: t) blast
qed

text \<open>
  C26: the end of a connection. Whatever the application, the clock and the network did to a new
  peer, once both streams are over, however the time that follows is cut into ticks, the peer is
  active exactly as long as it lingers: not at all if there was a moment at which the inbound
  stream had ended and the outbound one was not yet sent to its end, and else until ten
  retransmission timeouts after the last message that it received while active. Messages came
  with both halves owned, and time stays ten of the longest timeouts below \<open>2 ^ 64\<close> ms.
\<close>
theorem lingers_ten_timeouts:
  assumes "admissible peer_step (\<lambda>_. owned_op) (tcp_peer cfg) es"
    and "streams_over (run peer_step (tcp_peer cfg) es)"
    and "clock es + (\<Sum>t \<leftarrow> ts. unat t) + 10 * 2 ^ 16 \<le> 2 ^ 64"
  shows "peer_active (run peer_step (tcp_peer cfg) (es @ map Net_tick ts)) \<longleftrightarrow>
    \<not> (\<exists>q. prefix q es \<and> peer_inbound_over (run peer_step (tcp_peer cfg) q)
        \<and> \<not> peer_outbound_over (run peer_step (tcp_peer cfg) q))
    \<and> clock es + (\<Sum>t \<leftarrow> ts. unat t) < last_receipt 0 0 (tcp_peer cfg) es + 10 * unat (cfg_rt_timeout cfg)"
proof -
  let ?p = "run peer_step (tcp_peer cfg) es" and ?q = "run peer_step (tcp_peer cfg) (es @ map Net_tick ts)"
  have q: "?q = run peer_step ?p (map Net_tick ts)" by (rule run_append)
  have z: "tp_cumulative_time (tcp_peer cfg) = 0" "tp_time_of_last_receipt (tcp_peer cfg) = 0"
    "tp_cfg (tcp_peer cfg) = cfg" "tp_linger (tcp_peer cfg)" "\<not> peer_inbound_over (tcp_peer cfg)"
    by (simp_all add: tcp_peer_def peer_inbound_over_def tcp_receiver_def reassembler_def writer_is_closed_def byte_stream_def)
  have t: "tp_cfg ?p = cfg" "unat (tp_cumulative_time ?p) = clock es"
    "unat (tp_time_of_last_receipt ?p) = last_receipt 0 0 (tcp_peer cfg) es"
    using run_times [OF fresh_sane assms(1)] assms(3) by (simp_all add: z)
  have le: "last_receipt 0 0 (tcp_peer cfg) es \<le> clock es" using last_receipt_le [of 0 0] by simp
  have e: "linger_end ?p = last_receipt 0 0 (tcp_peer cfg) es + 10 * unat (cfg_rt_timeout cfg)"
    by (simp add: linger_end_def t)
  have "linger_end ?p < 2 ^ 64"
    using le assms(3) u16_bound [of "cfg_rt_timeout cfg"] unfolding e by simp
  moreover have "linger_end ?q = linger_end ?p" by (simp add: linger_end_def q)
  ultimately have "peer_active ?q \<longleftrightarrow> tp_linger ?p \<and> unat (tp_cumulative_time ?q) < linger_end ?p"
    using active_over [of ?q] lingering_iff [of ?q] assms(2) by (simp add: q)
  moreover have "unat (tp_cumulative_time ?q) = clock es + (\<Sum>t \<leftarrow> ts. unat t)"
    using sum_list_unat [of "tp_cumulative_time ?p" ts] assms(3) by (simp add: q t)
  moreover have "tp_linger ?p \<longleftrightarrow> \<not> (\<exists>q. prefix q es \<and> peer_inbound_over (run peer_step (tcp_peer cfg) q)
        \<and> \<not> peer_outbound_over (run peer_step (tcp_peer cfg) q))"
    using run_linger [OF fresh_sane assms(1)] z by (simp add: only_inbound_iff)
  ultimately show ?thesis by (simp add: e)
qed

text \<open>A peer that closed first and whose FIN is acknowledged.\<close>

definition demo_ending :: "peer_op list" where
  "demo_ending =
     [Net_push,
      Net_receive \<lparr>tm_sender = Owned (sender_message\<lparr>sm_seqno := Wrap32 7, sm_SYN := True\<rparr>),
                   tm_receiver = Owned \<lparr>rm_ackno = Some (Wrap32 138), rm_window_size = 9, rm_RST = False\<rparr>\<rparr>,
      App_close, Net_push, Net_tick 20,
      Net_receive \<lparr>tm_sender = Owned (sender_message\<lparr>sm_seqno := Wrap32 8, sm_FIN := True\<rparr>),
                   tm_receiver = Owned \<lparr>rm_ackno = Some (Wrap32 139), rm_window_size = 9, rm_RST = False\<rparr>\<rparr>]"

theorem lingers_ten_timeouts_witness:
  "peer_active (run peer_step (tcp_peer small_config) (demo_ending @ map Net_tick [4000, 5999]))
   \<and> \<not> peer_active (run peer_step (tcp_peer small_config) (demo_ending @ map Net_tick [4000, 5999, 1]))"
proof -
  have ok: "admissible peer_step (\<lambda>_. owned_op) (tcp_peer small_config) demo_ending"
    by (simp add: demo_ending_def)
  have over: "streams_over (run peer_step (tcp_peer small_config) demo_ending)" by code_simp
  have v: "clock demo_ending = 20" "last_receipt 0 0 (tcp_peer small_config) demo_ending = 20"
    "unat (cfg_rt_timeout small_config) = 1000"
    by code_simp+
  have "\<not> only_inbound (tcp_peer small_config) demo_ending" by code_simp
  then have "\<not> (\<exists>q. prefix q demo_ending \<and> peer_inbound_over (run peer_step (tcp_peer small_config) q)
      \<and> \<not> peer_outbound_over (run peer_step (tcp_peer small_config) q))"
    by (simp only: only_inbound_iff) blast
  then show ?thesis
    using lingers_ten_timeouts [OF ok over, of "[4000, 5999]"] lingers_ten_timeouts [OF ok over, of "[4000, 5999, 1]"]
    by (simp add: v)
qed

end
