(* ===== verification/Address.thy ===== *)
theory Address
  imports Prelude
begin

text \<open>
  The values of \<open>util/address.cc\<close> that the rest computes with: socket addresses by family,
  with the numeric IP address and port of an IPv4 one in host byte order. \<open>None\<close> is the
  \<open>runtime_error\<close> of an access that the family does not have. The structures
  these values are read from, with the resolution of names and the texts, are in the theory
  \<open>Socket_Address\<close>.
\<close>

datatype Address = IPv4_address u32 u16 | IPv6_address "byte list" u16 | Other_address

fun ipv4_numeric :: "Address \<Rightarrow> u32 option" where
  "ipv4_numeric (IPv4_address ip port) = Some ip"
| "ipv4_numeric (IPv6_address ip port) = None"
| "ipv4_numeric Other_address = None"

definition from_ipv4_numeric :: "u32 \<Rightarrow> Address" where
  "from_ipv4_numeric ip_address = IPv4_address ip_address 0"

text \<open>The port of \<open>ip_port\<close>.\<close>

fun address_port :: "Address \<Rightarrow> u16 option" where
  "address_port (IPv4_address ip port) = Some port"
| "address_port (IPv6_address ip port) = Some port"
| "address_port Other_address = None"

lemma numeric_from_numeric [simp]: "ipv4_numeric (from_ipv4_numeric ip) = Some ip"
  by (simp add: from_ipv4_numeric_def)

end
