(* ===== verification/IPv4.thy ===== *)
theory IPv4
  imports Parser Checksum
begin

text \<open>
  \<open>util/ipv4_header.hh\<close>, \<open>util/ipv4_header.cc\<close> and \<open>util/ipv4_datagram.hh\<close>: the
  IPv4 header without options, its checksum, and datagrams. The header's default values are
  those of \<open>ipv4_header\<close>. \<open>to_string\<close> is in the theory \<open>Summary\<close>.
\<close>

unbundle bit_operations_syntax

record IPv4Header =
  ip_ver :: u8
  ip_hlen :: u8
  ip_tos :: u8
  ip_len :: u16
  ip_id :: u16
  ip_df :: bool
  ip_mf :: bool
  ip_offset :: u16
  ip_ttl :: u8
  ip_proto :: u8
  ip_cksum :: u16
  ip_src :: u32
  ip_dst :: u32

definition IPV4_LENGTH :: u8 where
  "IPV4_LENGTH = 20"

definition PROTO_TCP :: u8 where
  "PROTO_TCP = 6"

definition ipv4_header :: IPv4Header where
  "ipv4_header = \<lparr>ip_ver = 4, ip_hlen = IPV4_LENGTH div 4, ip_tos = 0, ip_len = 0, ip_id = 0,
     ip_df = True, ip_mf = False, ip_offset = 0, ip_ttl = 128, ip_proto = PROTO_TCP, ip_cksum = 0,
     ip_src = 0, ip_dst = 0\<rparr>"

definition payload_length :: "IPv4Header \<Rightarrow> u16" where
  "payload_length h = ip_len h - 4 * ucast (ip_hlen h)"

definition pseudo_checksum :: "IPv4Header \<Rightarrow> u32" where
  "pseudo_checksum h =
     drop_bit 16 (ip_src h) + ucast (ucast (ip_src h) :: u16)
     + (drop_bit 16 (ip_dst h) + ucast (ucast (ip_dst h) :: u16))
     + ucast (ip_proto h) + ucast (payload_length h)"

definition fragment_field :: "IPv4Header \<Rightarrow> u16" where
  "fragment_field h =
     (if ip_df h then 0x4000 else 0) OR (if ip_mf h then 0x2000 else 0) OR (ip_offset h AND 0x1fff)"

text \<open>\<open>None\<close> for \<open>wrong IP version\<close>.\<close>

definition ipv4_serialize :: "IPv4Header \<Rightarrow> Serializer \<Rightarrow> Serializer option" where
  "ipv4_serialize h s =
     (if ip_ver h \<noteq> 4 then None
      else
        let first_byte = (ucast (push_bit 4 (ucast (ip_ver h) :: u32) OR (ucast (ip_hlen h) AND 0xf)) :: u8)
        in Some (serializer_integer (ip_dst h) (serializer_integer (ip_src h)
             (serializer_integer (ip_cksum h) (serializer_integer (ip_proto h)
             (serializer_integer (ip_ttl h) (serializer_integer (fragment_field h)
             (serializer_integer (ip_id h) (serializer_integer (ip_len h)
             (serializer_integer (ip_tos h) (serializer_integer first_byte s)))))))))))"

definition compute_checksum :: "IPv4Header \<Rightarrow> IPv4Header option" where
  "compute_checksum h =
     do { s \<leftarrow> ipv4_serialize (h\<lparr>ip_cksum := 0\<rparr>) serializer;
          Some (h\<lparr>ip_cksum := checksum_value
            (checksum_add_all (map ref_get (serializer_finish s)) (internet_checksum 0))\<rparr>) }"

definition ipv4_parse :: "IPv4Header \<Rightarrow> Parser \<Rightarrow> (IPv4Header \<times> Parser) option" where
  "ipv4_parse h p =
     do { (first_byte, p) \<leftarrow> parser_integer (0 :: u8) p;
          h \<leftarrow> Some (h\<lparr>ip_ver := drop_bit 4 first_byte, ip_hlen := first_byte AND 0x0f\<rparr>);
          (tos, p) \<leftarrow> parser_integer (ip_tos h) p;
          (len, p) \<leftarrow> parser_integer (ip_len h) p;
          (ident, p) \<leftarrow> parser_integer (ip_id h) p;
          (fo_val, p) \<leftarrow> parser_integer (0 :: u16) p;
          (ttl, p) \<leftarrow> parser_integer (ip_ttl h) p;
          (proto, p) \<leftarrow> parser_integer (ip_proto h) p;
          (cksum, p) \<leftarrow> parser_integer (ip_cksum h) p;
          (src, p) \<leftarrow> parser_integer (ip_src h) p;
          (dst, p) \<leftarrow> parser_integer (ip_dst h) p;
          h \<leftarrow> Some (h\<lparr>ip_tos := tos, ip_len := len, ip_id := ident, ip_df := (fo_val AND 0x4000 \<noteq> 0),
                ip_mf := (fo_val AND 0x2000 \<noteq> 0), ip_offset := fo_val AND 0x1fff, ip_ttl := ttl,
                ip_proto := proto, ip_cksum := cksum, ip_src := src, ip_dst := dst\<rparr>);
          p \<leftarrow> Some (if ip_ver h \<noteq> 4 then parser_set_error p else p);
          p \<leftarrow> Some (if ip_hlen h < 5 then parser_set_error p else p);
          (if parser_has_error p then Some (h, p)
           else do { p \<leftarrow> parser_remove_prefix (ucast (ip_hlen h) * 4 - ucast IPV4_LENGTH) p;
                     h' \<leftarrow> compute_checksum h;
                     Some (h', if ip_cksum h' \<noteq> ip_cksum h then parser_set_error p else p) }) }"

section \<open>Datagrams\<close>

record IPv4Datagram =
  dg_header :: IPv4Header
  dg_payload :: "byte list Ref list"

definition ipv4_datagram :: IPv4Datagram where
  "ipv4_datagram = \<lparr>dg_header = ipv4_header, dg_payload = []\<rparr>"

definition datagram_parse :: "IPv4Datagram \<Rightarrow> Parser \<Rightarrow> (IPv4Datagram \<times> Parser) option" where
  "datagram_parse d p =
     do { (h, p) \<leftarrow> ipv4_parse (dg_header d) p;
          p \<leftarrow> parser_truncate (ucast (payload_length h)) p;
          payload \<leftarrow> all_remaining p;
          Some (\<lparr>dg_header = h, dg_payload = payload\<rparr>, p) }"

definition datagram_serialize :: "IPv4Datagram \<Rightarrow> Serializer \<Rightarrow> Serializer option" where
  "datagram_serialize d s = map_option (serializer_buffers (dg_payload d)) (ipv4_serialize (dg_header d) s)"

text \<open>\<open>serialize\<close>, \<open>parse\<close> and \<open>clone\<close> of \<open>util/helpers.hh\<close> at this type.\<close>

definition serialize_datagram :: "IPv4Datagram \<Rightarrow> byte list Ref list option" where
  "serialize_datagram d = map_option serializer_finish (datagram_serialize d serializer)"

definition parse_datagram :: "byte list Ref list \<Rightarrow> (IPv4Datagram \<times> bool) option" where
  "parse_datagram buffers =
     do { p \<leftarrow> parser buffers;
          (d, p) \<leftarrow> datagram_parse ipv4_datagram p;
          Some (d, \<not> parser_has_error p) }"

definition clone_datagram :: "IPv4Datagram \<Rightarrow> IPv4Datagram" where
  "clone_datagram d = d\<lparr>dg_payload := map ref_copy (dg_payload d)\<rparr>"

section \<open>Headers\<close>

definition ipv4_bytes :: "IPv4Header \<Rightarrow> byte list" where
  "ipv4_bytes h =
     be_bytes (ucast (push_bit 4 (ucast (ip_ver h) :: u32) OR (ucast (ip_hlen h) AND 0xf)) :: u8)
     @ be_bytes (ip_tos h) @ be_bytes (ip_len h) @ be_bytes (ip_id h) @ be_bytes (fragment_field h)
     @ be_bytes (ip_ttl h) @ be_bytes (ip_proto h) @ be_bytes (ip_cksum h)
     @ be_bytes (ip_src h) @ be_bytes (ip_dst h)"

lemma length_ipv4_bytes [simp]: "length (ipv4_bytes h) = 20"
  by (simp add: ipv4_bytes_def)

lemma ipv4_serialize_ok:
  "ip_ver h = 4 \<Longrightarrow> \<exists>s'. ipv4_serialize h s = Some s' \<and> sz_bytes s' = sz_bytes s @ ipv4_bytes h
     \<and> sz_ok s' = sz_ok s"
  by (simp add: ipv4_serialize_def ipv4_bytes_def Let_def)

lemma compute_checksum_ok:
  assumes "ip_ver h = 4"
  shows "compute_checksum h = Some (h\<lparr>ip_cksum := checksum_of 0 (ipv4_bytes (h\<lparr>ip_cksum := 0\<rparr>))\<rparr>)"
proof -
  obtain s where "ipv4_serialize (h\<lparr>ip_cksum := 0\<rparr>) serializer = Some s"
    "sz_bytes s = ipv4_bytes (h\<lparr>ip_cksum := 0\<rparr>)"
    using ipv4_serialize_ok [of "h\<lparr>ip_cksum := 0\<rparr>" serializer] assms by auto
  then show ?thesis
    by (simp add: compute_checksum_def checksum_add_all_concat checksum_of_def flip: bytes_of_def)
qed

text \<open>A header that \<open>serialize\<close> can write and \<open>parse\<close> can read: version 4, no options.\<close>

definition plain_header :: "IPv4Header \<Rightarrow> bool" where
  "plain_header h \<longleftrightarrow> ip_ver h = 4 \<and> ip_hlen h = 5 \<and> unat (ip_offset h) < 2 ^ 13"

definition checksum_ok :: "IPv4Header \<Rightarrow> bool" where
  "checksum_ok h \<longleftrightarrow> compute_checksum h = Some h"

lemma fragment_field_bits:
  assumes "unat (ip_offset h) < 2 ^ 13"
  shows "(fragment_field h AND 0x4000 \<noteq> 0) = ip_df h" "(fragment_field h AND 0x2000 \<noteq> 0) = ip_mf h"
    "fragment_field h AND 0x1fff = ip_offset h"
proof -
  have "take_bit 13 (ip_offset h) = ip_offset h"
    using assms by (intro unat_eqI) (simp add: unsigned_take_bit_eq take_bit_nat_eq_self_iff)
  then have off: "ip_offset h AND 0x1fff = ip_offset h"
    by (simp add: take_bit_eq_mask mask_eq_exp_minus_1)
  have hi: "bit (ip_offset h) n \<Longrightarrow> n < 13" for n
    using \<open>take_bit 13 (ip_offset h) = ip_offset h\<close> by (metis bit_take_bit_iff)
  have c: "(0x4000 :: u16) = 2 ^ 14" "(0x2000 :: u16) = 2 ^ 13" "(0x1fff :: u16) = mask 13"
    by (simp_all add: mask_eq_exp_minus_1)
  have e: "bit (0x4000 :: u16) n \<longleftrightarrow> n = 14" "bit (0x2000 :: u16) n \<longleftrightarrow> n = 13" for n
    unfolding c bit_exp_iff possible_bit_word by auto
  have b: "bit (fragment_field h) n \<longleftrightarrow> (n = 14 \<and> ip_df h) \<or> (n = 13 \<and> ip_mf h) \<or> bit (ip_offset h) n" for n
  proof -
    have "bit (0 :: u16) n \<longleftrightarrow> False" by simp
    then show ?thesis
      unfolding fragment_field_def off
      by (cases "ip_df h"; cases "ip_mf h") (simp_all only: bit_or_iff e if_True if_False simp_thms disj_ac)
  qed
  have f: "fragment_field h AND 0x4000 \<noteq> 0 \<longleftrightarrow> bit (fragment_field h) 14"
    "fragment_field h AND 0x2000 \<noteq> 0 \<longleftrightarrow> bit (fragment_field h) 13"
    by (simp_all only: c and_exp_eq_0_iff_not_bit not_not)
  show "(fragment_field h AND 0x4000 \<noteq> 0) = ip_df h" "(fragment_field h AND 0x2000 \<noteq> 0) = ip_mf h"
    unfolding f b using hi [of 14] hi [of 13] by auto
  show "fragment_field h AND 0x1fff = ip_offset h"
  proof (rule bit_word_eqI)
    fix n
    show "bit (fragment_field h AND 0x1fff) n \<longleftrightarrow> bit (ip_offset h) n"
      unfolding c bit_and_iff bit_mask_iff b using hi [of n] by auto
  qed
qed

lemma first_byte_fields:
  assumes "ip_ver h = 4" and "ip_hlen h = 5"
  shows "ucast (push_bit 4 (ucast (ip_ver h) :: u32) OR (ucast (ip_hlen h) AND 0xf)) = (0x45 :: u8)"
  using assms by simp

text \<open>What a serialized header parses to, whatever the parser held before.\<close>

lemma ipv4_parse_bytes:
  assumes plain: "plain_header h" and ok: "checksum_ok h" and at: "at p (ipv4_bytes h @ rest)"
    and Q: "\<And>p'. at p' rest \<Longrightarrow> Q (h, p')"
  shows "yields (ipv4_parse h0 p) Q"
proof -
  have h: "ip_ver h = 4" "ip_hlen h = 5" "unat (ip_offset h) < 2 ^ 13"
    using plain by (simp_all add: plain_header_def)
  have ck: "compute_checksum h = Some h" using ok by (simp add: checksum_ok_def)
  have guards: "(ip_ver h \<noteq> 4) = False" "(ip_hlen h < 5) = False" using h by simp_all
  have hdr: "h0\<lparr>ip_ver := drop_bit 4 0x45, ip_hlen := 0x45 AND 0x0f, ip_tos := ip_tos h, ip_len := ip_len h,
      ip_id := ip_id h, ip_df := fragment_field h AND 0x4000 \<noteq> 0,
      ip_mf := fragment_field h AND 0x2000 \<noteq> 0, ip_offset := fragment_field h AND 0x1fff,
      ip_ttl := ip_ttl h, ip_proto := ip_proto h, ip_cksum := ip_cksum h, ip_src := ip_src h,
      ip_dst := ip_dst h\<rparr> = h"
    using h(1,2) unfolding fragment_field_bits [OF h(3)] by (cases h0, cases h) simp
  have checked: "yields (if parser_has_error q then Some (h, q)
      else do { p \<leftarrow> parser_remove_prefix (ucast (ip_hlen h) * 4 - ucast IPV4_LENGTH) q;
                h' \<leftarrow> compute_checksum h;
                Some (h', if ip_cksum h' \<noteq> ip_cksum h then parser_set_error p else p) }) Q"
    if "at q rest" for q
    using remove_prefix_at [OF that, of 0 "\<lambda>p. Q (h, p)"] that Q h(2) ck
    by (auto simp: parser_has_error_def at_def IPV4_LENGTH_def yields_def)
  have "at p (be_bytes (0x45 :: u8) @ be_bytes (ip_tos h) @ be_bytes (ip_len h) @ be_bytes (ip_id h)
      @ be_bytes (fragment_field h) @ be_bytes (ip_ttl h) @ be_bytes (ip_proto h)
      @ be_bytes (ip_cksum h) @ be_bytes (ip_src h) @ be_bytes (ip_dst h) @ rest)"
    using at first_byte_fields [OF h(1,2)] by (simp add: ipv4_bytes_def)
  then show ?thesis
    unfolding ipv4_parse_def
    apply -
    apply (elim at_binds | rule yields_let)+
    apply (simp only: hdr guards if_False)
    apply (erule checked)
    done
qed

text \<open>On any consistent parser, a header is read or the parser's error is set.\<close>

lemma ipv4_parse_total:
  assumes "pr_ok p"
  shows "yields (ipv4_parse h0 p) (\<lambda>(h, p'). pr_ok p' \<and> (\<not> parser_has_error p' \<longrightarrow>
        ip_ver h = 4 \<and> 5 \<le> ip_hlen h \<and> checksum_ok h))"
proof -
  have ce: "pr_ok p \<Longrightarrow> pr_ok (if b then parser_set_error p else p)" for b p
    by (simp add: pr_ok_def parser_set_error_def)
  have checked: "yields (if parser_has_error q then Some (h, q)
      else do { p \<leftarrow> parser_remove_prefix (ucast (ip_hlen h) * 4 - ucast IPV4_LENGTH) q;
                h' \<leftarrow> compute_checksum h;
                Some (h', if ip_cksum h' \<noteq> ip_cksum h then parser_set_error p else p) })
      (\<lambda>(h, p'). pr_ok p' \<and> (\<not> parser_has_error p' \<longrightarrow>
        ip_ver h = 4 \<and> 5 \<le> ip_hlen h \<and> checksum_ok h))"
    if q: "pr_ok q" and v: "parser_has_error q \<or> ip_ver h = 4 \<and> 5 \<le> ip_hlen h" for h q
  proof (cases "parser_has_error q")
    case True
    then show ?thesis using q by (simp add: yields_def)
  next
    case False
    have c: "compute_checksum h = Some h'' \<Longrightarrow> ip_ver h'' = 4 \<and> 5 \<le> ip_hlen h'' \<and> checksum_ok h''" for h''
      using compute_checksum_ok [of h] compute_checksum_ok [of h''] v False
      by (auto simp: checksum_ok_def)
    obtain h' where h': "compute_checksum h = Some h'"
      using compute_checksum_ok v False by blast
    show ?thesis
      using False c [OF h'] h' q
      by (auto intro!: yields_bind remove_prefix_total simp: yields_Some pr_ok_def parser_set_error_def)
  qed
  show ?thesis
    unfolding ipv4_parse_def
    using assms
    apply -
    apply (elim total_binds | rule yields_let)+
    apply (rule checked)
     apply (simp add: ce)
    apply (simp add: parser_has_error_def parser_set_error_def not_less)
    done
qed

section \<open>Datagrams\<close>

lemma serialize_datagram_ok:
  assumes "ip_ver (dg_header d) = 4"
  shows "\<exists>s. serialize_datagram d = Some (serializer_finish s) \<and> sz_ok s
    \<and> sz_bytes s = ipv4_bytes (dg_header d) @ bytes_of (dg_payload d)"
  using ipv4_serialize_ok [OF assms, of serializer]
  by (force simp: serialize_datagram_def datagram_serialize_def)

text \<open>A payload no longer than the header's length says: \<open>truncate\<close> has nothing to do.\<close>

lemma datagram_parse_bytes:
  assumes h: "plain_header h" "checksum_ok h" and at: "at p (ipv4_bytes h @ rest)"
    and len: "length rest \<le> unat (payload_length h)"
    and Q: "\<And>bufs p'. bytes_of bufs = rest \<Longrightarrow> \<forall>b \<in> set bufs. is_owned b \<Longrightarrow> no_gap bufs \<Longrightarrow> at p' rest
      \<Longrightarrow> Q (\<lparr>dg_header = h, dg_payload = bufs\<rparr>, p')"
  shows "yields (datagram_parse d0 p) Q"
  unfolding datagram_parse_def
proof (rule yields_bind, rule ipv4_parse_bytes [OF h at])
  fix p' assume at': "at p' rest"
  have "parser_truncate (ucast (payload_length h)) p' = Some p'"
  proof (rule truncate_short)
    show "pr_ok p'" using at' by (rule at_ok)
    show "unat (ucast (payload_length h) :: u64) < 2 ^ 64"
      using unsigned_less [of "ucast (payload_length h) :: u64"] by simp
    show "length (bl_bytes (pr_input p')) \<le> unat (ucast (payload_length h) :: u64)"
      using at' len by (simp add: at_def unat_ucast_16_64)
  qed
  then show "yields (case (h, p') of (h, p) \<Rightarrow> do { p \<leftarrow> parser_truncate (ucast (payload_length h)) p;
      payload \<leftarrow> all_remaining p; Some (\<lparr>dg_header = h, dg_payload = payload\<rparr>, p) }) Q"
    by (simp) (intro yields_bind all_remaining_at [OF at'] yields_Some Q at')
qed

lemma datagram_roundtrip:
  assumes "plain_header (dg_header d)" and "checksum_ok (dg_header d)"
    and "length (bytes_of (dg_payload d)) \<le> unat (payload_length (dg_header d))"
    and "serialize_datagram d = Some bufs"
  shows "\<exists>d'. parse_datagram (map ref_copy bufs) = Some (d', True) \<and> dg_header d' = dg_header d
    \<and> bytes_of (dg_payload d') = bytes_of (dg_payload d)
    \<and> (\<forall>b \<in> set (dg_payload d'). is_owned b) \<and> no_gap (dg_payload d')"
proof -
  have "ip_ver (dg_header d) = 4" using assms(1) by (simp add: plain_header_def)
  then obtain s where s: "bufs = serializer_finish s" "sz_ok s"
    "sz_bytes s = ipv4_bytes (dg_header d) @ bytes_of (dg_payload d)"
    using serialize_datagram_ok assms(4) by fastforce
  have "unat (payload_length (dg_header d)) < 2 ^ 16"
    using unsigned_less [of "payload_length (dg_header d)"] by simp
  then have "length (sz_bytes s) < 2 ^ 64" using s(3) assms(3) by simp
  then obtain p where p: "parser (map ref_copy bufs) = Some p" "at p (sz_bytes s)"
    using parser_of_copy s by blast
  have "yields (datagram_parse ipv4_datagram p) (\<lambda>(d', p'). \<not> parser_has_error p' \<and>
      dg_header d' = dg_header d \<and> bytes_of (dg_payload d') = bytes_of (dg_payload d)
      \<and> (\<forall>b \<in> set (dg_payload d'). is_owned b) \<and> no_gap (dg_payload d'))"
    using p(2) unfolding s(3)
    by (rule datagram_parse_bytes [OF assms(1,2) _ assms(3)]) (simp add: at_def parser_has_error_def)
  then show ?thesis by (auto simp: parse_datagram_def p(1) yields_def)
qed

text \<open>The same from any owned buffers with these bytes, however they are cut.\<close>

lemma datagram_parse_any:
  assumes "plain_header h" and "checksum_ok h" and "length payload \<le> unat (payload_length h)"
    and "\<forall>b \<in> set bufs. is_owned b" and "no_gap bufs" and "bytes_of bufs = ipv4_bytes h @ payload"
  shows "\<exists>d. parse_datagram bufs = Some (d, True) \<and> dg_header d = h \<and> bytes_of (dg_payload d) = payload
    \<and> (\<forall>b \<in> set (dg_payload d). is_owned b) \<and> no_gap (dg_payload d)"
proof -
  have "length (bytes_of bufs) < 2 ^ 64"
    using assms(3,6) u16_bound [of "payload_length h"] by (simp add: ipv4_bytes_def be_bytes_def)
  then obtain p where p: "parser bufs = Some p" "at p (ipv4_bytes h @ payload)"
    using parser_at [OF assms(4,5)] assms(6) by auto
  have "yields (datagram_parse ipv4_datagram p) (\<lambda>(d, p'). \<not> parser_has_error p' \<and>
      dg_header d = h \<and> bytes_of (dg_payload d) = payload
      \<and> (\<forall>b \<in> set (dg_payload d). is_owned b) \<and> no_gap (dg_payload d))"
    using p(2) by (rule datagram_parse_bytes [OF assms(1,2) _ assms(3)]) (simp add: at_def parser_has_error_def)
  then show ?thesis by (auto simp: parse_datagram_def p(1) yields_def)
qed

text \<open>
  A frame's padding after a datagram (here one byte after the two of the payload) is to be cut
  off by \<open>truncate\<close>, which erases the buffer it cuts: the payload is then taken from an
  empty list. The datagram alone is parsed.
\<close>

lemma padded_datagram_undefined:
  "parse_datagram [Owned ([69, 0, 0, 22, 0, 0, 64, 0, 128, 6, 230, 223, 10, 0, 0, 1, 10, 0, 0, 2] @ [1, 2])]
     \<noteq> None"
  "parse_datagram [Owned ([69, 0, 0, 22, 0, 0, 64, 0, 128, 6, 230, 223, 10, 0, 0, 1, 10, 0, 0, 2] @ [1, 2, 0])]
     = None"
  by code_simp+

section \<open>Properties\<close>

text \<open>
  C27: a datagram with any header of version 4 without options, whose payload is no longer than
  the header says, is parsed back from a copy of its serialization: the checksum that
  \<open>compute_checksum\<close> put in is accepted, every field is as it was, and the payload's bytes
  are too.
\<close>
theorem datagram_copy_roundtrip:
  assumes "ip_ver h = 4" and "ip_hlen h = 5" and "unat (ip_offset h) < 2 ^ 13"
    and "length (bytes_of payload) \<le> unat (payload_length h)"
  shows "\<exists>h' bufs payload'. compute_checksum h = Some h' \<and> h'\<lparr>ip_cksum := ip_cksum h\<rparr> = h
    \<and> serialize_datagram \<lparr>dg_header = h', dg_payload = payload\<rparr> = Some bufs
    \<and> parse_datagram (map ref_copy bufs) = Some (\<lparr>dg_header = h', dg_payload = payload'\<rparr>, True)
    \<and> bytes_of payload' = bytes_of payload"
proof -
  obtain h' where h': "compute_checksum h = Some h'" "h'\<lparr>ip_cksum := ip_cksum h\<rparr> = h"
    and ok: "plain_header h'" "checksum_ok h'" "payload_length h' = payload_length h"
    using compute_checksum_ok [OF assms(1)] assms(1-3)
    by (auto simp: plain_header_def checksum_ok_def compute_checksum_ok payload_length_def)
  let ?d = "\<lparr>dg_header = h', dg_payload = payload\<rparr>"
  have "ip_ver (dg_header ?d) = 4" using ok by (simp add: plain_header_def)
  then obtain bufs where bufs: "serialize_datagram ?d = Some bufs"
    using serialize_datagram_ok by blast
  obtain d' where "parse_datagram (map ref_copy bufs) = Some (d', True)" "dg_header d' = h'"
    "bytes_of (dg_payload d') = bytes_of payload"
    using datagram_roundtrip [OF _ _ _ bufs] ok assms(4) by auto
  then show ?thesis using h' bufs by (cases d') auto
qed

theorem datagram_copy_roundtrip_witness:
  "\<exists>h' bufs payload'. compute_checksum (ipv4_header\<lparr>ip_len := 22, ip_src := 1, ip_dst := 2\<rparr>) = Some h'
     \<and> serialize_datagram \<lparr>dg_header = h', dg_payload = [Owned [5], Owned [6]]\<rparr> = Some bufs
     \<and> parse_datagram (map ref_copy bufs) = Some (\<lparr>dg_header = h', dg_payload = payload'\<rparr>, True)
     \<and> bytes_of payload' = [5, 6]"
  using datagram_copy_roundtrip [of "ipv4_header\<lparr>ip_len := 22, ip_src := 1, ip_dst := 2\<rparr>"
      "[Owned [5], Owned [6]]"]
  by (force simp: ipv4_header_def IPV4_LENGTH_def payload_length_def)

text \<open>
  Parsing a header is defined on any bytes: from owned buffers without a gap it returns a
  header, and unless the error is set that header has version 4, a length of at least five
  words and the checksum \<open>compute_checksum\<close> gives it.
\<close>
lemma header_parse_defined:
  assumes "parser bufs = Some p" and "no_gap bufs" and "length (bytes_of bufs) < 2 ^ 64"
  shows "\<exists>h p'. ipv4_parse h0 p = Some (h, p') \<and>
    (\<not> parser_has_error p' \<longrightarrow> ip_ver h = 4 \<and> 5 \<le> ip_hlen h \<and> compute_checksum h = Some h)"
  using ipv4_parse_total [OF parser_consistent(1) [OF assms], of h0]
  by (auto simp: yields_def checksum_ok_def)

end
