(* ===== verification/TCP_Over_IP.thy ===== *)
theory TCP_Over_IP
  imports Address IPv4 TCP_Segment
begin

text \<open>
  \<open>util/tcp_over_ip.cc\<close> with \<open>util/fd_adapter.hh\<close>, and \<open>util/lossy_fd_adapter.hh\<close>:
  wrapping TCP messages in IPv4 datagrams and back, for a connected or listening endpoint, and
  the random dropping of messages. The outer \<open>None\<close> is an exception (an address that is
  not IPv4), the inner one the empty result. The text that \<open>inet_ntoa\<close> writes
  and the constructor of \<open>Address\<close> reads back is left out: it is the address again
  (\<open>text_of_address\<close> of \<open>Socket_Address\<close>). The draws of the random
  engine are arguments.
\<close>

record FdAdapterConfig =
  fd_source :: Address
  fd_destination :: Address
  fd_loss_rate_dn :: u16
  fd_loss_rate_up :: u16

record FdAdapter =
  fd_cfg :: FdAdapterConfig
  fd_listen :: bool

definition fd_adapter :: FdAdapter where
  "fd_adapter = \<lparr>fd_cfg = \<lparr>fd_source = IPv4_address 0 0, fd_destination = IPv4_address 0 0,
      fd_loss_rate_dn = 0, fd_loss_rate_up = 0\<rparr>, fd_listen = False\<rparr>"

definition set_listening :: "bool \<Rightarrow> FdAdapter \<Rightarrow> FdAdapter" where
  "set_listening l fd = fd\<lparr>fd_listen := l\<rparr>"

definition set_config :: "FdAdapterConfig \<Rightarrow> FdAdapter \<Rightarrow> FdAdapter" where
  "set_config cfg fd = fd\<lparr>fd_cfg := cfg\<rparr>"

text \<open>The checks on the addresses of a datagram, which a listening endpoint does not make.\<close>

definition datagram_for_us :: "FdAdapter \<Rightarrow> IPv4Header \<Rightarrow> bool option" where
  "datagram_for_us fd h =
     (if fd_listen fd then Some True
      else do { source \<leftarrow> ipv4_numeric (fd_source (fd_cfg fd));
                (if ip_dst h \<noteq> source then Some False
                 else do { destination \<leftarrow> ipv4_numeric (fd_destination (fd_cfg fd));
                           Some (ip_src h = destination) }) })"

text \<open>A listening endpoint takes the addresses and ports of a SYN.\<close>

definition take_peer :: "FdAdapter \<Rightarrow> IPv4Header \<Rightarrow> u16 \<Rightarrow> u16 \<Rightarrow> FdAdapter" where
  "take_peer fd h own_port peer_port =
     set_listening False (set_config ((fd_cfg fd)\<lparr>fd_source := IPv4_address (ip_dst h) own_port,
                                                  fd_destination := IPv4_address (ip_src h) peer_port\<rparr>) fd)"

definition unwrap_tcp_in_ip :: "FdAdapter \<Rightarrow> IPv4Datagram \<Rightarrow> (FdAdapter \<times> TCPMessage option) option" where
  "unwrap_tcp_in_ip fd ip_dgram =
     do { ours \<leftarrow> datagram_for_us fd (dg_header ip_dgram);
          (if \<not> ours \<or> ip_proto (dg_header ip_dgram) \<noteq> PROTO_TCP then Some (fd, None)
           else do {
             (tcp_seg, ok) \<leftarrow> parse_segment (pseudo_checksum (dg_header ip_dgram)) (dg_payload ip_dgram);
             (if \<not> ok then Some (fd, None)
              else do {
                own_port \<leftarrow> address_port (fd_source (fd_cfg fd));
                (if ud_dst_port (ts_udinfo tcp_seg) \<noteq> own_port then Some (fd, None)
                 else
                   let snd = ref_get (tm_sender (ts_message tcp_seg))
                   in if fd_listen fd \<and> \<not> (sm_SYN snd \<and> \<not> sm_RST snd) then Some (fd, None)
                      else do {
                        fd \<leftarrow> Some (if fd_listen fd
                               then take_peer fd (dg_header ip_dgram) own_port (ud_src_port (ts_udinfo tcp_seg))
                               else fd);
                        peer_port \<leftarrow> address_port (fd_destination (fd_cfg fd));
                        Some (fd, if ud_src_port (ts_udinfo tcp_seg) \<noteq> peer_port then None
                                  else Some (ts_message tcp_seg)) }) }) }) }"

definition wrap_tcp_in_ip :: "FdAdapter \<Rightarrow> TCPMessage \<Rightarrow> IPv4Datagram option" where
  "wrap_tcp_in_ip fd msg =
     (let payload_size = vsize (sm_payload (ref_get (tm_sender msg)))
      in do {
        src_port \<leftarrow> address_port (fd_source (fd_cfg fd));
        dst_port \<leftarrow> address_port (fd_destination (fd_cfg fd));
        seg \<leftarrow> Some \<lparr>ts_message = \<lparr>tm_sender = ref_borrow (tm_sender msg), tm_receiver = ref_borrow (tm_receiver msg)\<rparr>,
                   ts_udinfo = \<lparr>ud_src_port = src_port, ud_dst_port = dst_port, ud_cksum = 0\<rparr>\<rparr>;
        src \<leftarrow> ipv4_numeric (fd_source (fd_cfg fd));
        dst \<leftarrow> ipv4_numeric (fd_destination (fd_cfg fd));
        h \<leftarrow> Some (ipv4_header\<lparr>ip_src := src, ip_dst := dst,
               ip_len := ucast (ucast (ip_hlen ipv4_header) * 4 + 20 + payload_size :: u64)\<rparr>);
        seg \<leftarrow> Some (segment_compute_checksum (pseudo_checksum h) seg);
        h \<leftarrow> compute_checksum h;
        Some \<lparr>dg_header = h, dg_payload = serialize_segment seg\<rparr> })"

section \<open>LossyFdAdapter\<close>

definition should_drop :: "FdAdapter \<Rightarrow> bool \<Rightarrow> u32 \<Rightarrow> bool" where
  "should_drop fd uplink draw =
     (let loss = (if uplink then fd_loss_rate_up (fd_cfg fd) else fd_loss_rate_dn (fd_cfg fd))
      in loss \<noteq> 0 \<and> (ucast draw :: u16) < loss)"

definition lossy_read :: "FdAdapter \<Rightarrow> u32 \<Rightarrow> TCPMessage option \<Rightarrow> TCPMessage option" where
  "lossy_read fd draw ret = (if should_drop fd False draw then None else ret)"

definition lossy_write :: "FdAdapter \<Rightarrow> u32 \<Rightarrow> TCPMessage \<Rightarrow> TCPMessage list" where
  "lossy_write fd draw seg = (if should_drop fd True draw then [] else [seg])"

section \<open>What a wrapped message becomes\<close>

lemma unat_add_le: "unat (a + b) \<le> unat (a :: 'a :: len word) + unat b"
  by (simp add: unat_word_ariths)

lemma unat_ucast_u16: "unat (ucast (x :: u16) :: u32) = unat x"
  using u16_bound [of x] by (simp add: unsigned_ucast_eq take_bit_nat_eq_self_iff)

lemma pseudo_bound: "unat (pseudo_checksum h) < 2 ^ 20"
proof -
  have hi: "unat (drop_bit 16 (x :: u32)) < 65536" for x
  proof -
    have "unat (drop_bit 16 x) = unat x div 2 ^ 16" by (simp add: drop_bit_eq_div unat_div_distrib)
    then show ?thesis using u32_bound [of x] by (simp add: div_less_iff_less_mult)
  qed
  have lo: "unat (ucast (y :: u16) :: u32) < 65536" for y
    using u16_bound [of y] by (simp add: unat_ucast_u16)
  have p: "unat (ucast (ip_proto h) :: u32) < 65536"
    using u8_bound [of "ip_proto h"] le_less_trans [OF take_bit_nat_less_eq_self [of 32 "unat (ip_proto h)"]]
    by (simp add: unsigned_ucast_eq)
  have "unat (pseudo_checksum h) \<le> unat (drop_bit 16 (ip_src h)) + unat (ucast (ucast (ip_src h) :: u16) :: u32)
      + (unat (drop_bit 16 (ip_dst h)) + unat (ucast (ucast (ip_dst h) :: u16) :: u32))
      + unat (ucast (ip_proto h) :: u32) + unat (ucast (payload_length h) :: u32)"
    unfolding pseudo_checksum_def
    by (intro order_trans [OF unat_add_le] add_mono order_refl unat_add_le)
  then have "unat (pseudo_checksum h) < 1048576"
    using hi [of "ip_src h"] hi [of "ip_dst h"] lo [of "ucast (ip_src h)"] lo [of "ucast (ip_dst h)"]
      lo [of "payload_length h"] p by linarith
  then show ?thesis by simp
qed

text \<open>The halves of a message, as the other side gets them.\<close>

definition received_message :: "TCPMessage \<Rightarrow> TCPMessage" where
  "received_message msg =
     (let s = ref_get (tm_sender msg); r = ref_get (tm_receiver msg); rst = sm_RST s \<or> rm_RST r
      in \<lparr>tm_sender = Owned (s\<lparr>sm_RST := rst\<rparr>), tm_receiver = Owned (r\<lparr>rm_RST := rst\<rparr>)\<rparr>)"

text \<open>
  A datagram that carries a message from one address and port to another, whatever buffers its
  payload is in, and whatever its time to live.
\<close>

definition carries :: "TCPMessage \<Rightarrow> u32 \<Rightarrow> u16 \<Rightarrow> u32 \<Rightarrow> u16 \<Rightarrow> IPv4Datagram \<Rightarrow> bool" where
  "carries msg sa sp da dp d \<longleftrightarrow>
     (let h = dg_header d
      in plain_header h \<and> checksum_ok h \<and> ip_src h = sa \<and> ip_dst h = da \<and> ip_proto h = PROTO_TCP
         \<and> length (bytes_of (dg_payload d)) = 20 + length (sm_payload (ref_get (tm_sender msg)))
         \<and> length (bytes_of (dg_payload d)) \<le> unat (payload_length h)
         \<and> (\<forall>bufs. (\<forall>b \<in> set bufs. is_owned b) \<and> no_gap bufs \<and> bytes_of bufs = bytes_of (dg_payload d) \<longrightarrow>
              (\<exists>seg. parse_segment (pseudo_checksum h) bufs = Some (seg, True) \<and> ts_message seg = received_message msg
                 \<and> ud_src_port (ts_udinfo seg) = sp \<and> ud_dst_port (ts_udinfo seg) = dp)))"

lemma wrap_carries:
  assumes "fd_source (fd_cfg fd) = IPv4_address sa sp" and "fd_destination (fd_cfg fd) = IPv4_address da dp"
    and len: "length (sm_payload (ref_get (tm_sender msg))) < 2 ^ 16 - 40"
  shows "\<exists>d. wrap_tcp_in_ip fd msg = Some d \<and> carries msg sa sp da dp d \<and> ip_ttl (dg_header d) = ip_ttl ipv4_header"
proof -
  let ?size = "vsize (sm_payload (ref_get (tm_sender msg)))"
  define h0 where "h0 = ipv4_header\<lparr>ip_src := sa, ip_dst := da,
      ip_len := ucast (ucast (ip_hlen ipv4_header) * 4 + 20 + ?size :: u64)\<rparr>"
  define seg0 where "seg0 = \<lparr>ts_message = \<lparr>tm_sender = ref_borrow (tm_sender msg),
      tm_receiver = ref_borrow (tm_receiver msg)\<rparr>,
      ts_udinfo = \<lparr>ud_src_port = sp, ud_dst_port = dp, ud_cksum = 0\<rparr>\<rparr>"
  define seg where "seg = segment_compute_checksum (pseudo_checksum h0) seg0"
  have fits: "fits (sm_payload (ref_get (tm_sender msg)))" using len by (simp add: fits_def)
  have v: "ip_ver h0 = 4" "ip_hlen h0 = 5" "ip_offset h0 = 0" "ip_proto h0 = PROTO_TCP"
    by (simp_all add: h0_def ipv4_header_def IPV4_LENGTH_def)
  have "unat (ip_len h0) = 40 + length (sm_payload (ref_get (tm_sender msg)))"
  proof -
    have "unat (40 + ?size) = 40 + length (sm_payload (ref_get (tm_sender msg)))"
      using len fits by (simp add: unat_word_ariths unat_vsize)
    then show ?thesis
      using len by (simp add: h0_def ipv4_header_def IPV4_LENGTH_def unsigned_ucast_eq take_bit_nat_eq_self_iff)
  qed
  then have pl: "unat (payload_length h0) = 20 + length (sm_payload (ref_get (tm_sender msg)))"
    using v(2) by (simp add: payload_length_def unat_sub_if')
  define h where "h = h0\<lparr>ip_cksum := checksum_of 0 (ipv4_bytes (h0\<lparr>ip_cksum := 0\<rparr>))\<rparr>"
  have h: "compute_checksum h0 = Some h" unfolding h_def by (rule compute_checksum_ok [OF v(1)])
  have f: "ip_src h0 = sa" "ip_dst h0 = da" by (simp_all add: h0_def)
  have hs: "ip_ver h = 4" "ip_hlen h = 5" "ip_offset h = 0" "ip_proto h = PROTO_TCP" "ip_src h = sa" "ip_dst h = da"
    "payload_length h = payload_length h0" "pseudo_checksum h = pseudo_checksum h0"
    by (simp_all add: h_def v f payload_length_def pseudo_checksum_def)
  have hc: "plain_header h" "checksum_ok h"
    using compute_checksum_ok [OF hs(1)] hs(1-3)
    by (simp_all add: plain_header_def checksum_ok_def h_def)
  let ?d = "\<lparr>dg_header = h, dg_payload = serialize_segment seg\<rparr>"
  have wrap: "wrap_tcp_in_ip fd msg = Some ?d"
    using h by (simp add: wrap_tcp_in_ip_def assms(1,2) h0_def seg0_def seg_def Let_def)
  have payload: "segment_payload seg0 = sm_payload (ref_get (tm_sender msg))" by (simp add: seg0_def)
  have bytes: "bytes_of (serialize_segment seg) = segment_bytes seg" by (simp add: serialize_segment_def)
  have slen: "length (segment_bytes seg) = 20 + length (sm_payload (ref_get (tm_sender msg)))"
    by (simp add: segment_bytes_length seg_def compute_checksum_fields payload)
  have port: "ud_src_port (ts_udinfo (received_segment seg)) = sp" "ud_dst_port (ts_udinfo (received_segment seg)) = dp"
    by (simp_all add: received_segment_def seg_def seg0_def segment_compute_checksum_def Let_def)
  have message: "ts_message (received_segment seg) = received_message msg"
    by (simp add: seg_def compute_checksum_fields(1))
       (simp add: received_segment_def segment_reset_def seg0_def received_message_def Let_def)
  have zero: "checksum_zero (pseudo_checksum h0) (segment_bytes seg)"
    unfolding seg_def by (rule compute_checksum_bytes [OF pseudo_bound]) (use len payload in simp)
  have arrives: "\<exists>seg. parse_segment (pseudo_checksum h) bufs = Some (seg, True) \<and> ts_message seg = received_message msg
      \<and> ud_src_port (ts_udinfo seg) = sp \<and> ud_dst_port (ts_udinfo seg) = dp"
    if b: "\<forall>b \<in> set bufs. is_owned b" "no_gap bufs" "bytes_of bufs = segment_bytes seg" for bufs
  proof -
    have small: "length (bytes_of bufs) < 2 ^ 64" using b(3) slen len by simp
    moreover obtain p where "parser bufs = Some p" using parser_at [OF b(1,2) small] by blast
    ultimately have "parse_segment (pseudo_checksum h) bufs = Some (received_segment seg, True)"
      using parse_segment_bytes(2) [OF _ b(2)] b(3) zero hs(8) by simp
    then show ?thesis using port message by simp
  qed
  then have "carries msg sa sp da dp ?d"
    using hc hs slen pl bytes by (simp add: carries_def Let_def)
  moreover have "ip_ttl h = ip_ttl ipv4_header" by (simp add: h_def h0_def)
  ultimately show ?thesis using wrap by simp
qed

lemma carries_cong:
  "carries msg sa sp da dp d \<Longrightarrow> dg_header d' = dg_header d \<Longrightarrow> bytes_of (dg_payload d') = bytes_of (dg_payload d)
     \<Longrightarrow> carries msg sa sp da dp d'"
  by (simp add: carries_def Let_def)

text \<open>Over the wire, and in buffers of any sizes.\<close>

lemma carries_wire:
  assumes "carries msg sa sp da dp d"
  shows "\<exists>bufs. serialize_datagram d = Some bufs
    \<and> length (bytes_of bufs) = 40 + length (sm_payload (ref_get (tm_sender msg)))
    \<and> (\<forall>bufs'. (\<forall>b \<in> set bufs'. is_owned b) \<and> no_gap bufs' \<and> bytes_of bufs' = bytes_of bufs \<longrightarrow>
        (\<exists>d'. parse_datagram bufs' = Some (d', True) \<and> dg_header d' = dg_header d
           \<and> bytes_of (dg_payload d') = bytes_of (dg_payload d)
           \<and> (\<forall>b \<in> set (dg_payload d'). is_owned b) \<and> no_gap (dg_payload d')))"
proof -
  have h: "plain_header (dg_header d)" "checksum_ok (dg_header d)"
    "length (bytes_of (dg_payload d)) \<le> unat (payload_length (dg_header d))"
    "length (bytes_of (dg_payload d)) = 20 + length (sm_payload (ref_get (tm_sender msg)))"
    using assms by (simp_all add: carries_def Let_def)
  obtain s where s: "serialize_datagram d = Some (serializer_finish s)" "sz_ok s"
      "sz_bytes s = ipv4_bytes (dg_header d) @ bytes_of (dg_payload d)"
    using serialize_datagram_ok [of d] h(1) by (auto simp: plain_header_def)
  then have "bytes_of (serializer_finish s) = ipv4_bytes (dg_header d) @ bytes_of (dg_payload d)"
    using finish_bytes by simp
  then show ?thesis using s(1) datagram_parse_any [OF h(1-3)] h(4) by auto
qed

text \<open>A router's change of the time to live.\<close>

lemma carries_ttl:
  assumes "carries msg sa sp da dp d"
  shows "\<exists>h. compute_checksum ((dg_header d)\<lparr>ip_ttl := ttl\<rparr>) = Some h \<and> ip_ttl h = ttl
    \<and> ip_dst h = ip_dst (dg_header d) \<and> ip_ver h = 4 \<and> carries msg sa sp da dp (d\<lparr>dg_header := h\<rparr>)"
proof -
  let ?h = "(dg_header d)\<lparr>ip_ttl := ttl\<rparr>"
  have v: "ip_ver ?h = 4" using assms by (simp add: carries_def Let_def plain_header_def)
  define h where "h = ?h\<lparr>ip_cksum := checksum_of 0 (ipv4_bytes (?h\<lparr>ip_cksum := 0\<rparr>))\<rparr>"
  have c: "compute_checksum ?h = Some h" unfolding h_def by (rule compute_checksum_ok [OF v])
  have "compute_checksum h = Some h" using compute_checksum_ok [of h] v by (simp add: h_def)
  moreover have "payload_length h = payload_length (dg_header d)" "pseudo_checksum h = pseudo_checksum (dg_header d)"
    by (simp_all add: h_def payload_length_def pseudo_checksum_def)
  moreover have "plain_header h" "ip_src h = ip_src (dg_header d)" "ip_dst h = ip_dst (dg_header d)"
    "ip_proto h = ip_proto (dg_header d)"
    using assms by (simp_all add: h_def carries_def Let_def plain_header_def)
  ultimately have "carries msg sa sp da dp (d\<lparr>dg_header := h\<rparr>)"
    using assms by (simp add: carries_def Let_def checksum_ok_def)
  then show ?thesis using c v by (simp add: h_def)
qed

text \<open>What an adapter asks of a datagram and of the segment in it before it passes the message on.\<close>

definition expects :: "FdAdapter \<Rightarrow> IPv4Header \<Rightarrow> TCPSegment \<Rightarrow> bool" where
  "expects fd h seg \<longleftrightarrow>
     (if fd_listen fd
      then address_port (fd_source (fd_cfg fd)) = Some (ud_dst_port (ts_udinfo seg))
        \<and> sm_SYN (ref_get (tm_sender (ts_message seg))) \<and> \<not> sm_RST (ref_get (tm_sender (ts_message seg)))
      else fd_source (fd_cfg fd) = IPv4_address (ip_dst h) (ud_dst_port (ts_udinfo seg))
        \<and> fd_destination (fd_cfg fd) = IPv4_address (ip_src h) (ud_src_port (ts_udinfo seg)))"

text \<open>An adapter that talks to the sender of a datagram.\<close>

definition connected_to :: "IPv4Header \<Rightarrow> TCPSegment \<Rightarrow> FdAdapter \<Rightarrow> bool" where
  "connected_to h seg fd \<longleftrightarrow> \<not> fd_listen fd
     \<and> fd_source (fd_cfg fd) = IPv4_address (ip_dst h) (ud_dst_port (ts_udinfo seg))
     \<and> fd_destination (fd_cfg fd) = IPv4_address (ip_src h) (ud_src_port (ts_udinfo seg))"

lemma unwrap_expected:
  assumes "ip_proto (dg_header d) = PROTO_TCP"
    and "parse_segment (pseudo_checksum (dg_header d)) (dg_payload d) = Some (seg, True)"
    and "expects fd (dg_header d) seg"
  shows "\<exists>fd'. unwrap_tcp_in_ip fd d = Some (fd', Some (ts_message seg)) \<and> connected_to (dg_header d) seg fd'
    \<and> (\<not> fd_listen fd \<longrightarrow> fd' = fd)"
proof (cases "fd_listen fd")
  case True
  then show ?thesis using assms
    by (simp add: unwrap_tcp_in_ip_def datagram_for_us_def expects_def connected_to_def take_peer_def
        set_listening_def set_config_def Let_def)
next
  case False
  then show ?thesis using assms
    by (simp add: unwrap_tcp_in_ip_def datagram_for_us_def expects_def connected_to_def Let_def)
qed

text \<open>The adapter that is to get the message of a datagram.\<close>

definition listens_for :: "TCPMessage \<Rightarrow> u32 \<Rightarrow> u16 \<Rightarrow> u32 \<Rightarrow> u16 \<Rightarrow> FdAdapter \<Rightarrow> bool" where
  "listens_for msg sa sp da dp fd \<longleftrightarrow>
     (if fd_listen fd
      then address_port (fd_source (fd_cfg fd)) = Some dp \<and> sm_SYN (ref_get (tm_sender msg))
        \<and> \<not> sm_RST (ref_get (tm_sender msg)) \<and> \<not> rm_RST (ref_get (tm_receiver msg))
      else fd_source (fd_cfg fd) = IPv4_address da dp \<and> fd_destination (fd_cfg fd) = IPv4_address sa sp)"

lemma unwrap_carried:
  assumes "carries msg sa sp da dp d" and "\<forall>b \<in> set (dg_payload d). is_owned b" and "no_gap (dg_payload d)"
    and "listens_for msg sa sp da dp fd"
  shows "\<exists>fd'. unwrap_tcp_in_ip fd d = Some (fd', Some (received_message msg)) \<and> \<not> fd_listen fd'
    \<and> fd_source (fd_cfg fd') = IPv4_address da dp \<and> fd_destination (fd_cfg fd') = IPv4_address sa sp
    \<and> (\<not> fd_listen fd \<longrightarrow> fd' = fd)"
proof -
  have h: "ip_src (dg_header d) = sa" "ip_dst (dg_header d) = da" "ip_proto (dg_header d) = PROTO_TCP"
    using assms(1) by (simp_all add: carries_def Let_def)
  obtain seg where seg: "parse_segment (pseudo_checksum (dg_header d)) (dg_payload d) = Some (seg, True)"
    "ts_message seg = received_message msg" "ud_src_port (ts_udinfo seg) = sp" "ud_dst_port (ts_udinfo seg) = dp"
    using assms(1-3) unfolding carries_def Let_def by blast
  have "expects fd (dg_header d) seg"
    using assms(4) by (simp add: listens_for_def expects_def h seg(2-4) received_message_def Let_def split: if_splits)
  from unwrap_expected [OF h(3) seg(1) this] show ?thesis by (auto simp: connected_to_def h seg(2-4))
qed

lemma address_eq: "ipv4_numeric a = Some ip \<Longrightarrow> address_port a = Some p \<Longrightarrow> a = IPv4_address ip p"
  by (cases a) auto

section \<open>Properties\<close>

text \<open>
  C36: whatever datagram arrives, an adapter that does not throw passes a message on only if
  the datagram says it carries TCP, its payload parses as a segment with a correct checksum and
  the segment is what the adapter expects (from the peer's address and port to its own, or a
  SYN to the port it listens on), it is then connected to the sender, and an adapter that passes
  nothing on is unchanged.
\<close>
theorem unwrap_passes_only_expected:
  assumes "unwrap_tcp_in_ip fd d = Some (fd', result)"
  shows "case result of
      None \<Rightarrow> fd' = fd
    | Some msg \<Rightarrow> ip_proto (dg_header d) = PROTO_TCP
        \<and> (\<exists>seg. parse_segment (pseudo_checksum (dg_header d)) (dg_payload d) = Some (seg, True)
             \<and> msg = ts_message seg \<and> expects fd (dg_header d) seg \<and> connected_to (dg_header d) seg fd')"
proof (cases "fd_listen fd")
  case True
  then show ?thesis using assms
    by (auto simp: unwrap_tcp_in_ip_def datagram_for_us_def expects_def connected_to_def take_peer_def
        set_listening_def set_config_def Let_def split: if_splits prod.splits Option.bind_splits)
next
  case False
  then show ?thesis using assms
    by (auto simp: unwrap_tcp_in_ip_def datagram_for_us_def expects_def connected_to_def Let_def
        intro: address_eq split: if_splits prod.splits Option.bind_splits)
qed

theorem unwrap_passes_only_expected_witness:
  "unwrap_tcp_in_ip (set_listening True fd_adapter) \<lparr>dg_header = ipv4_header\<lparr>ip_proto := 17\<rparr>, dg_payload = []\<rparr>
      = Some (set_listening True fd_adapter, None)"
proof -
  have "\<exists>r. unwrap_tcp_in_ip (set_listening True fd_adapter) \<lparr>dg_header = ipv4_header\<lparr>ip_proto := 17\<rparr>, dg_payload = []\<rparr> = Some r"
    by (simp add: unwrap_tcp_in_ip_def datagram_for_us_def set_listening_def PROTO_TCP_def)
  then show ?thesis using unwrap_passes_only_expected by (fastforce simp: PROTO_TCP_def split: option.splits)
qed

end
