(* ===== verification/TCP_Connection.thy ===== *)
theory TCP_Connection
  imports TCP_Peer TCP_Over_IP "HOL-Library.Sublist"
begin

text \<open>
  Two endpoints and the network between them: every message one of them has sent may be
  delivered to the other at any time, in any order, any number of times or never, in the form
  the adapters hand it over (\<open>received_message\<close>). The invariants of sender and receiver are
  combined into what a connection promises to the two applications.
\<close>

section \<open>A peer drives its sender\<close>

text \<open>
  The application writes the stream \<open>S\<close> and closes it at its end; messages arrive with both
  halves owned.
\<close>

fun peer_ok :: "byte list \<Rightarrow> TCPPeer \<Rightarrow> peer_op \<Rightarrow> bool" where
  "peer_ok S p (App_write data) = send_ok S (tp_sender p) (Write data)"
| "peer_ok S p App_close = send_ok S (tp_sender p) Finish"
| "peer_ok S p (Net_tick t) = send_ok S (tp_sender p) (Wait t)"
| "peer_ok S p (Net_receive msg) = (is_owned (tm_sender msg) \<and> is_owned (tm_receiver msg))"
| "peer_ok S p _ = True"

definition peer_inv :: "byte list \<Rightarrow> Wrap32 \<Rightarrow> TCPPeer \<Rightarrow> bool" where
  "peer_inv S isn p \<longleftrightarrow> length S + 2 < 2 ^ 31 \<and> sender_inv S isn (tp_sender p) \<and> receiver_sane (tp_receiver p)"

lemma ack_ok:
  assumes "peer_inv S isn p" and "peer_active p"
  shows "send_ok S (tp_sender p) (Ack a)"
proof -
  have "core S isn (tp_sender p)"
    using assms active_no_error by (simp add: peer_inv_def sender_inv_def)
  from sender_flight_bound [OF this] show ?thesis using assms(1) by (simp add: peer_inv_def)
qed

lemma peer_ok_owned: "peer_ok S p e \<Longrightarrow> owned_op e"
  by (cases e) simp_all

lemma peer_sender_step:
  assumes "peer_inv S isn p" and "peer_ok S p e"
  shows "tp_sender (peer_step p e) = run send_step (tp_sender p) (sender_calls p e)"
  using sender_step peer_ok_owned [OF assms(2)] assms(1) by (simp add: peer_inv_def)

lemma peer_sender_calls_ok:
  assumes "peer_inv S isn p" and "peer_ok S p e"
  shows "admissible send_step (send_ok S) (tp_sender p) (sender_calls p e)"
  using assms(2) ack_ok [OF assms(1)] by (cases e) auto

lemma peer_inv_step:
  assumes "peer_inv S isn p" and "peer_ok S p e"
  shows "peer_inv S isn (peer_step p e)"
  using assms(1) sane_step peer_ok_owned [OF assms(2)] snd.run_inv [OF _ peer_sender_calls_ok [OF assms]]
  by (simp add: peer_inv_def peer_sender_step [OF assms])

interpretation outbound: client peer_step "peer_ok S" "peer_inv S isn" tp_sender sender_calls
  send_step "send_ok S" for S isn
  by unfold_locales (simp_all add: peer_inv_step peer_sender_step peer_sender_calls_ok)

section \<open>A peer drives its receiver\<close>

text \<open>
  The sender's half of a message is a reset, carries nothing, or is a segment of \<open>S\<close> at its
  place.
\<close>

definition genuine :: "byte list \<Rightarrow> Wrap32 \<Rightarrow> TCPSenderMessage \<Rightarrow> bool" where
  "genuine S isn m \<longleftrightarrow> sm_RST m \<or> (\<not> sm_SYN m \<and> sm_payload m = [] \<and> \<not> sm_FIN m) \<or> (\<exists>a. placed_at S isn a m)"

lemma placed_segment:
  assumes "placed_at S isn a m" and "length S + 2 < 2 ^ 31" and "unat (rv_checkpoint r) \<le> length S"
  shows "m = recv_msg isn (Segment (of_nat (a - 1)) (sm_payload m) (sm_SYN m) (sm_FIN m))"
    and "recv_ok S r (Segment (of_nat (a - 1)) (sm_payload m) (sm_SYN m) (sm_FIN m))"
proof -
  have le: "a + seq_len m \<le> length S + 2" and syn: "sm_SYN m \<longleftrightarrow> a = 0"
    and m: "m = peer_segment isn (of_nat (a - 1)) (sm_payload m) (sm_SYN m) (sm_FIN m)"
    and c: "consistent S (of_nat (a - 1)) (sm_payload m) (sm_FIN m)"
    using assms(1) unfolding placed_at_def by blast+
  have a: "a \<le> length S + 2" using le by linarith
  show "m = recv_msg isn (Segment (of_nat (a - 1)) (sm_payload m) (sm_SYN m) (sm_FIN m))"
    using m by simp
  have u: "unat (of_nat (a - 1) :: u64) = a - 1"
    using a assms(2) by (intro unat_of_nat64) simp
  have "sm_SYN m \<longrightarrow> (of_nat (a - 1) :: u64) = 0" using syn by simp
  then show "recv_ok S r (Segment (of_nat (a - 1)) (sm_payload m) (sm_SYN m) (sm_FIN m))"
    using a c assms(2,3) unfolding recv_ok.simps u by auto
qed

lemma receive_genuine:
  assumes inv: "receiver_inv S isn r" and small: "length S + 2 < 2 ^ 31" and m: "genuine S isn m"
    and r': "tcp_receiver_receive r m = Some r'"
  shows "\<exists>es. admissible (recv_step isn) (recv_ok S) r es \<and> r' = run (recv_step isn) r es
    \<and> collect (recv_step isn) recv_out r es = []"
proof -
  consider "sm_RST m" | "\<not> sm_RST m" "\<not> sm_SYN m" "sm_payload m = []" "\<not> sm_FIN m"
    | a where "\<not> sm_RST m" "placed_at S isn a m"
    using m by (auto simp: genuine_def)
  then show ?thesis
  proof cases
    case 1
    then have "r' = recv_step isn r Reset" using r' by (simp add: tcp_receiver_receive_def)
    then show ?thesis by (intro exI [of _ "[Reset]"]) simp
  next
    case 2
    then have "r' = r" using r' by (auto simp: tcp_receiver_receive_def receiver_syn_def Let_def split: if_splits)
    then show ?thesis by (intro exI [of _ "[]"]) simp
  next
    case 3
    have "unat (rv_checkpoint r) \<le> length S" using inv by (simp only: receiver_inv_def)
    note seg = placed_segment [OF 3(2) small this]
    let ?e = "Segment (of_nat (a - 1)) (sm_payload m) (sm_SYN m) (sm_FIN m)"
    have "r' = recv_step isn r ?e" using seg(1) r' by simp
    then show ?thesis using seg(2) by (intro exI [of _ "[?e]"]) simp
  qed
qed

text \<open>The bytes an event takes from the application, and those it hands to it.\<close>

fun taken_in :: "TCPPeer \<Rightarrow> peer_op \<Rightarrow> byte list" where
  "taken_in p (App_write data) = written (tp_sender p) (Write data)"
| "taken_in p _ = []"

fun given_out :: "TCPPeer \<Rightarrow> peer_op \<Rightarrow> byte list" where
  "given_out p (App_read len) = recv_out (tp_receiver p) (Take len)"
| "given_out p _ = []"

lemma peer_receiver_step:
  assumes p: "receiver_sane (tp_receiver p)" and inv: "receiver_inv S isn (tp_receiver p)"
    and small: "length S + 2 < 2 ^ 31"
    and e: "\<And>msg. e = Net_receive msg \<Longrightarrow>
      is_owned (tm_sender msg) \<and> is_owned (tm_receiver msg) \<and> genuine S isn (ref_get (tm_sender msg))"
  shows "\<exists>es. admissible (recv_step isn) (recv_ok S) (tp_receiver p) es
    \<and> tp_receiver (peer_step p e) = run (recv_step isn) (tp_receiver p) es
    \<and> collect (recv_step isn) recv_out (tp_receiver p) es = given_out p e"
proof (cases e)
  case (Net_receive msg)
  show ?thesis
  proof (cases "peer_active p")
    case True
    then obtain r where r: "tcp_receiver_receive (tp_receiver p) (ref_get (tm_sender msg)) = Some r"
      "tp_receiver (peer_step p e) = r"
      using peer_receive_owned [OF p True, of msg] e [OF Net_receive] by (auto simp: Net_receive peer_step_def)
    then show ?thesis using receive_genuine [OF inv small _ r(1)] e [OF Net_receive] by (simp add: Net_receive)
  next
    case False
    then show ?thesis by (intro exI [of _ "[]"]) (simp add: Net_receive peer_step_inactive)
  qed
next
  case (App_read len)
  then show ?thesis by (intro exI [of _ "[Take len]"]) (simp add: peer_step_def on_inbound_def)
next
  case App_break
  then show ?thesis by (intro exI [of _ "[Break]"]) (simp add: peer_step_def on_inbound_def)
qed (intro exI [of _ "[]"]; simp add: peer_step_def on_outbound_def peer_push_eq peer_tick_eq)+

text \<open>What a peer sends.\<close>

lemma transmitted_genuine:
  "sender_inv S isn s \<Longrightarrow> m \<in> set (transmitted s e) \<Longrightarrow> genuine S isn m"
  using transmitted_placed [of S isn s m e] by (auto simp: genuine_def)

lemma peer_out_genuine:
  assumes inv: "peer_inv S isn p" and ok: "peer_ok S p e" and t: "t \<in> set (peer_out p e)"
  shows "\<exists>m. t = with_ack (tp_receiver (peer_step p e)) m \<and> genuine S isn m"
proof (cases e)
  case (Net_receive msg)
  have active: "peer_active p"
    by (rule ccontr) (use t peer_step_inactive [of p msg] in \<open>simp add: Net_receive\<close>)
  let ?s = "send_step (tp_sender p) (Ack (ref_get (tm_receiver msg)))"
  have s: "sender_inv S isn ?s"
    using inv ack_ok [OF inv active] sender_step_inv by (auto simp: peer_inv_def)
  have "receiver_sane (tp_receiver p)" "is_owned (tm_sender msg)" "is_owned (tm_receiver msg)"
    using inv ok by (simp_all add: peer_inv_def Net_receive)
  from peer_receive_owned [OF this(1) active this(2,3)] obtain p' r out
    where pr: "peer_receive p msg = Some (p', map (with_ack r) out)" "tp_receiver p' = r"
      "tp_sender p' = send_step ?s Send"
      "out = transmitted ?s Send \<or> out = [make_empty_message (tp_sender p')]"
    by blast
  have o: "peer_out p e = map (with_ack r) out" "tp_receiver (peer_step p e) = r"
    using pr(1,2) by (simp_all add: Net_receive peer_out_def peer_step_def)
  have "genuine S isn m" if "m \<in> set out" for m
    using pr(4) that transmitted_genuine [OF s, of m Send] by (auto simp: genuine_def make_empty_message_def)
  then show ?thesis using t o by auto
next
  case Net_push
  then show ?thesis using inv t transmitted_genuine
    by (auto simp: peer_inv_def peer_out_def peer_step_def peer_push_eq)
next
  case (Net_tick d)
  then show ?thesis using inv t transmitted_genuine
    by (auto simp: peer_inv_def peer_out_def peer_step_def peer_tick_eq)
qed (use t in \<open>simp_all add: peer_out_def\<close>)

section \<open>Two hosts and the network\<close>

text \<open>
  A host: its endpoint, and the history of the messages it sent, of the bytes its application
  wrote and of those it read.
\<close>

record Host =
  ho_peer :: TCPPeer
  ho_sent :: "TCPMessage list"
  ho_written :: "byte list"
  ho_read :: "byte list"

definition host :: "TCPConfig \<Rightarrow> Host" where
  "host cfg = \<lparr>ho_peer = tcp_peer cfg, ho_sent = [], ho_written = [], ho_read = []\<rparr>"

definition host_act :: "Host \<Rightarrow> peer_op \<Rightarrow> Host" where
  "host_act h e =
     \<lparr>ho_peer = peer_step (ho_peer h) e, ho_sent = ho_sent h @ peer_out (ho_peer h) e,
      ho_written = ho_written h @ taken_in (ho_peer h) e, ho_read = ho_read h @ given_out (ho_peer h) e\<rparr>"

lemma host_act_simps [simp]:
  "ho_peer (host_act h e) = peer_step (ho_peer h) e"
  "ho_sent (host_act h e) = ho_sent h @ peer_out (ho_peer h) e"
  "ho_written (host_act h e) = ho_written h @ taken_in (ho_peer h) e"
  "ho_read (host_act h e) = ho_read h @ given_out (ho_peer h) e"
  by (simp_all add: host_act_def)

text \<open>
  What can happen to a host: the application writes a string that exists in memory, closes,
  reads or breaks off; time passes, with fewer than \<open>2 ^ 64\<close> retransmissions in a row; and
  any message the other side ever sent arrives.
\<close>

fun possible :: "TCPMessage list \<Rightarrow> TCPPeer \<Rightarrow> peer_op \<Rightarrow> bool" where
  "possible sent p (App_write data) \<longleftrightarrow> fits data"
| "possible sent p (Net_tick t) \<longleftrightarrow> sn_consecutive (tp_sender p) + 1 \<noteq> 0"
| "possible sent p (Net_receive msg) \<longleftrightarrow> msg \<in> received_message ` set sent"
| "possible sent p _ \<longleftrightarrow> True"

inductive conn_step :: "Host \<times> Host \<Rightarrow> Host \<times> Host \<Rightarrow> bool" where
  left: "possible (ho_sent b) (ho_peer a) e \<Longrightarrow> conn_step (a, b) (host_act a e, b)"
| right: "possible (ho_sent a) (ho_peer b) e \<Longrightarrow> conn_step (a, b) (a, host_act b e)"

inductive_cases conn_stepE: "conn_step (a, b) (a', b')"

lemma conn_step_swap: "conn_step (a, b) (a', b') \<Longrightarrow> conn_step (b, a) (b', a')"
  by (auto elim!: conn_stepE intro: conn_step.intros)

definition connection :: "TCPConfig \<Rightarrow> TCPConfig \<Rightarrow> Host \<Rightarrow> Host \<Rightarrow> bool" where
  "connection cfg_a cfg_b a b \<longleftrightarrow> conn_step\<^sup>*\<^sup>* (host cfg_a, host cfg_b) (a, b)"

lemma connection_induct [consumes 1, case_names start left right]:
  assumes "connection cfg_a cfg_b a b"
    and "P (host cfg_a) (host cfg_b)"
    and "\<And>a b e. connection cfg_a cfg_b a b \<Longrightarrow> P a b \<Longrightarrow> possible (ho_sent b) (ho_peer a) e \<Longrightarrow>
      P (host_act a e) b"
    and "\<And>a b e. connection cfg_a cfg_b a b \<Longrightarrow> P a b \<Longrightarrow> possible (ho_sent a) (ho_peer b) e \<Longrightarrow>
      P a (host_act b e)"
  shows "P a b"
  using assms(1) unfolding connection_def
proof (induction "(a, b)" arbitrary: a b rule: rtranclp_induct)
  case (step c)
  obtain a' b' where c: "c = (a', b')" by (cases c)
  have "P a' b'" using step(3) c by simp
  moreover have "connection cfg_a cfg_b a' b'" using step(1) c by (simp add: connection_def)
  ultimately show ?case using step(2) assms(3,4) unfolding c by (auto elim!: conn_stepE)
qed (use assms(2) in simp)

lemma connection_swap:
  assumes "connection cfg_a cfg_b a b"
  shows "connection cfg_b cfg_a b a"
  using assms unfolding connection_def
proof (induction "(a, b)" arbitrary: a b rule: rtranclp_induct)
  case (step c)
  obtain a' b' where c: "c = (a', b')" by (cases c)
  show ?case
    using step(3) [OF c] conn_step_swap [OF step(2) [unfolded c]] by (rule rtranclp.rtrancl_into_rtrancl)
qed simp

lemma connection_left:
  "connection cfg_a cfg_b a b \<Longrightarrow> possible (ho_sent b) (ho_peer a) e \<Longrightarrow> connection cfg_a cfg_b (host_act a e) b"
  unfolding connection_def by (rule rtranclp.rtrancl_into_rtrancl, assumption, rule conn_step.left)

lemma connection_right:
  "connection cfg_a cfg_b a b \<Longrightarrow> possible (ho_sent a) (ho_peer b) e \<Longrightarrow> connection cfg_a cfg_b a (host_act b e)"
  unfolding connection_def by (rule rtranclp.rtrancl_into_rtrancl, assumption, rule conn_step.right)

section \<open>One direction\<close>

text \<open>
  The connection carries the stream \<open>S\<close> from \<open>a\<close> to \<open>b\<close>: what \<open>a\<close> has written is its
  beginning, everything sent is genuine, and the receiver of \<open>b\<close> is in a state that segments of
  \<open>S\<close> and reads of its application lead to.
\<close>

definition received_from :: "byte list \<Rightarrow> Wrap32 \<Rightarrow> u64 \<Rightarrow> Host \<Rightarrow> bool" where
  "received_from S isn c b \<longleftrightarrow>
     (\<exists>es. admissible (recv_step isn) (recv_ok S) (fresh_receiver c) es
        \<and> tp_receiver (ho_peer b) = run (recv_step isn) (fresh_receiver c) es
        \<and> ho_read b = collect (recv_step isn) recv_out (fresh_receiver c) es)"

definition sends :: "byte list \<Rightarrow> Wrap32 \<Rightarrow> Host \<Rightarrow> bool" where
  "sends S isn a \<longleftrightarrow> peer_inv S isn (ho_peer a)
     \<and> ho_written a = take (unat (bs_pushed (sn_input (tp_sender (ho_peer a))))) S
     \<and> (\<forall>t \<in> set (ho_sent a). \<exists>m r. t = with_ack r m \<and> genuine S isn m)"

lemma received_message_simps [simp]:
  "is_owned (tm_sender (received_message t))" "is_owned (tm_receiver (received_message t))"
  by (simp_all add: received_message_def Let_def)

lemma received_genuine: "genuine S isn m \<Longrightarrow> genuine S isn (ref_get (tm_sender (received_message (with_ack r m))))"
proof (cases "sm_RST m \<or> rm_RST (tcp_receiver_send r)")
  case False
  then have "ref_get (tm_sender (received_message (with_ack r m))) = m"
    by (simp add: received_message_def Let_def)
  then show "genuine S isn m \<Longrightarrow> genuine S isn (ref_get (tm_sender (received_message (with_ack r m))))" by simp
qed (simp add: received_message_def Let_def genuine_def)

lemma received_from_step:
  assumes rcv: "received_from S isn c b" and sane: "receiver_sane (tp_receiver (ho_peer b))"
    and small: "length S + 2 < 2 ^ 31" "unat c < 2 ^ 63"
    and snt: "\<forall>t \<in> set sent. \<exists>m r. t = with_ack r m \<and> genuine S isn m" and e: "possible sent (ho_peer b) e"
  shows "received_from S isn c (host_act b e)"
proof -
  obtain es where es: "admissible (recv_step isn) (recv_ok S) (fresh_receiver c) es"
    "tp_receiver (ho_peer b) = run (recv_step isn) (fresh_receiver c) es"
    "ho_read b = collect (recv_step isn) recv_out (fresh_receiver c) es"
    using rcv by (auto simp: received_from_def)
  have inv: "receiver_inv S isn (tp_receiver (ho_peer b))"
    unfolding es(2) by (rule receiver_run(1) [OF _ _ es(1)]) (use small in simp_all)
  have "is_owned (tm_sender msg) \<and> is_owned (tm_receiver msg) \<and> genuine S isn (ref_get (tm_sender msg))"
    if "e = Net_receive msg" for msg
    using e snt received_genuine that by fastforce
  from peer_receiver_step [OF sane inv small(1) this] obtain es'
    where "admissible (recv_step isn) (recv_ok S) (tp_receiver (ho_peer b)) es'"
      "tp_receiver (peer_step (ho_peer b) e) = run (recv_step isn) (tp_receiver (ho_peer b)) es'"
      "collect (recv_step isn) recv_out (tp_receiver (ho_peer b)) es' = given_out (ho_peer b) e"
    by blast
  then show ?thesis
    unfolding received_from_def using es
    by (intro exI [of _ "es @ es'"]) (simp add: admissible_append run_append collect_append)
qed

section \<open>The sender leaves the writer's side of its stream alone\<close>

definition writer_side :: "ByteStream \<Rightarrow> u64 \<times> bool" where
  "writer_side b = (bs_pushed b, bs_closed b)"

lemma writer_side_simps [simp]:
  "writer_side (reader_pop b k) = writer_side b" "writer_side (set_error b) = writer_side b"
  by (simp_all add: writer_side_def set_error_def)

lemma push_side: "writer_side (sn_input (fst (tcp_sender_push s))) = writer_side (sn_input s)"
  by (rule push_keeps) simp_all

text \<open>Only the application moves it, and a closed stream takes nothing.\<close>

fun app_closes :: "peer_op \<Rightarrow> bool" where
  "app_closes App_close = True"
| "app_closes _ = False"

lemma send_step_side:
  assumes "send_ok S s e" and "bs_inv (sn_input s)"
  shows "writer_side (sn_input (send_step s e)) =
    (bs_pushed (sn_input s) + of_nat (length (written s e)), bs_closed (sn_input s) \<or> e = Finish)"
proof (cases e)
  case (Write data)
  then have "writer_push (sn_input s) data =
      (sn_input s)\<lparr>bs_stream := bs_stream (sn_input s) @ take (room (sn_input s)) data,
        bs_pushed := bs_pushed (sn_input s) + of_nat (length (take (room (sn_input s)) data))\<rparr>"
    using writer_push_effect [OF assms(2), of data] assms(1) by (simp add: min_def)
  then show ?thesis by (simp add: Write send_step_def writer_side_def del: length_take)
next
  case (Ack msg)
  then show ?thesis by (simp add: send_step_def receive_input) (simp add: writer_side_def)
next
  case Send
  then show ?thesis using push_side [of s] by (simp add: send_step_def) (simp add: writer_side_def)
qed (simp_all add: send_step_def writer_side_def writer_close_def set_error_def tcp_sender_tick_def Let_def)

lemma peer_step_side:
  assumes inv: "peer_inv S isn p" and ok: "peer_ok S p e"
  shows "writer_side (sn_input (tp_sender (peer_step p e))) =
    (bs_pushed (sn_input (tp_sender p)) + of_nat (length (taken_in p e)),
     bs_closed (sn_input (tp_sender p)) \<or> app_closes e)"
proof -
  have bs: "bs_inv (sn_input s)" if "sender_inv S isn s" for s
    using that input_okD(1) by (auto simp: sender_inv_def)
  have s: "sender_inv S isn (tp_sender p)" using inv by (simp add: peer_inv_def)
  note calls = peer_sender_calls_ok [OF inv ok]
  show ?thesis
  proof (cases e)
    case (Net_receive msg)
    show ?thesis
    proof (cases "peer_active p")
      case True
      let ?a = "Ack (ref_get (tm_receiver msg))"
      have a: "send_ok S (tp_sender p) ?a" by (rule ack_ok [OF inv True])
      have "writer_side (sn_input (send_step (send_step (tp_sender p) ?a) Send))
          = writer_side (sn_input (send_step (tp_sender p) ?a))"
        using send_step_side [of S "send_step (tp_sender p) ?a" Send] sender_step_inv [OF s a] bs
        by (simp add: writer_side_def)
      also have "\<dots> = writer_side (sn_input (tp_sender p))"
        using send_step_side [OF a bs [OF s]] by (simp add: writer_side_def)
      finally show ?thesis
        using peer_sender_step [OF inv ok] True by (simp add: Net_receive) (simp add: writer_side_def)
    qed (simp add: Net_receive peer_step_inactive writer_side_def)
  qed (use peer_sender_step [OF inv ok] calls send_step_side [OF _ bs [OF s]] in \<open>auto simp: writer_side_def\<close>)
qed

section \<open>The sending host\<close>

abbreviation outbound_stream :: "Host \<Rightarrow> ByteStream" where
  "outbound_stream h \<equiv> sn_input (tp_sender (ho_peer h))"

abbreviation inbound_stream :: "Host \<Rightarrow> ByteStream" where
  "inbound_stream h \<equiv> ra_output (rv_reassembler (tp_receiver (ho_peer h)))"

text \<open>
  \<open>S\<close> is a possible rest of the history of what the host writes: all of it once it is closed.
\<close>

definition writes :: "byte list \<Rightarrow> Host \<Rightarrow> bool" where
  "writes S h \<longleftrightarrow> prefix (ho_written h) S \<and> (bs_closed (outbound_stream h) \<longrightarrow> ho_written h = S)"

lemma sends_input:
  assumes "sends S isn a"
  shows "input_ok S (outbound_stream a)" and "length (ho_written a) = unat (bs_pushed (outbound_stream a))"
proof -
  show io: "input_ok S (outbound_stream a)"
    using assms by (simp add: sends_def peer_inv_def sender_inv_def)
  show "length (ho_written a) = unat (bs_pushed (outbound_stream a))"
    using assms input_okD(4) [OF io] by (simp add: sends_def min_def)
qed

lemma sends_peer_ok:
  assumes snt: "sends S isn a" and e: "possible arrived (ho_peer a) e" and w: "writes S (host_act a e)"
  shows "peer_ok S (ho_peer a) e"
proof (cases e)
  case (App_write data)
  let ?b = "outbound_stream a" and ?n = "min (room (outbound_stream a)) (length data)"
  have eq: "ho_written a = take (unat (bs_pushed ?b)) S" using snt by (simp add: sends_def)
  have "prefix (ho_written a @ take (room ?b) data) S"
    using w by (simp add: writes_def App_write)
  then obtain rest where S: "S = ho_written a @ take (room ?b) data @ rest" by (auto simp: prefix_def)
  have "length (take (room ?b) data) = ?n" by simp
  then have n: "unat (bs_pushed ?b) + ?n \<le> length S"
    using sends_input(2) [OF snt] by (subst S) simp
  have "drop (unat (bs_pushed ?b)) S = take (room ?b) data @ rest"
    using sends_input(2) [OF snt] by (subst S) simp
  then have "take ?n data = take ?n (drop (unat (bs_pushed ?b)) S)" by (simp add: min_def)
  then show ?thesis using n e by (simp add: App_write Let_def)
next
  case App_close
  then have "ho_written a = S"
    using w by (simp add: writes_def peer_step_def on_outbound_def writer_close_def)
  then show ?thesis using sends_input(2) [OF snt] by (simp add: App_close)
next
  case (Net_receive msg)
  then show ?thesis using e by auto
qed (use e in simp_all)

lemma sends_step:
  assumes snt: "sends S isn a" and e: "possible arrived (ho_peer a) e" and w: "writes S (host_act a e)"
  shows "sends S isn (host_act a e)"
proof -
  have inv: "peer_inv S isn (ho_peer a)" using snt by (simp add: sends_def)
  note ok = sends_peer_ok [OF snt e w]
  let ?b = "outbound_stream a" and ?b' = "outbound_stream (host_act a e)"
  have inv': "peer_inv S isn (ho_peer (host_act a e))" using peer_inv_step [OF inv ok] by simp
  then have io': "input_ok S ?b'" by (simp add: peer_inv_def sender_inv_def)
  have "bs_pushed ?b' = bs_pushed ?b + of_nat (length (taken_in (ho_peer a) e))"
    using peer_step_side [OF inv ok] by (simp add: writer_side_def)
  moreover have len: "length (ho_written (host_act a e)) \<le> length S"
    using w prefix_length_le [of "ho_written (host_act a e)" S] by (simp add: writes_def)
  moreover have small: "length S + 2 < 2 ^ 31" using inv by (simp add: peer_inv_def)
  ultimately have "unat (bs_pushed ?b') = length (ho_written (host_act a e))"
    using sends_input(2) [OF snt] by (simp add: unat_add64 unat_of_nat64)
  moreover have "ho_written (host_act a e) = take (length (ho_written (host_act a e))) S"
    using w by (auto simp: writes_def prefix_def)
  ultimately have "ho_written (host_act a e) = take (unat (bs_pushed ?b')) S" by simp
  moreover have "\<forall>t \<in> set (ho_sent (host_act a e)). \<exists>m r. t = with_ack r m \<and> genuine S isn m"
    using snt peer_out_genuine [OF inv ok] by (fastforce simp: sends_def)
  ultimately show ?thesis using inv' by (simp add: sends_def)
qed

section \<open>Every run of the connection\<close>

lemma possible_owned: "possible sent p e \<Longrightarrow> owned_op e"
  by (cases e) auto

lemma closed_stays_closed:
  assumes "receiver_sane (tp_receiver p)" and "owned_op e" and "bs_closed (sn_input (tp_sender p))"
  shows "bs_closed (sn_input (tp_sender (peer_step p e))) \<and> taken_in p e = []"
proof -
  have "bs_closed (sn_input (send_step s e))" if "bs_closed (sn_input s)" for s e
    using that push_side [of s]
    by (cases e) (simp_all add: send_step_def writer_side_def writer_push_def writer_close_def set_error_def
        receive_input tcp_sender_tick_def Let_def)
  then have "bs_closed (sn_input (run send_step s es))" if "bs_closed (sn_input s)" for s es
    using that by (induction es arbitrary: s) simp_all
  moreover have "taken_in p e = []" using assms(3) by (cases e) (simp_all add: room_def)
  ultimately show ?thesis using assms by (simp add: sender_step)
qed

lemma writes_before:
  assumes "receiver_sane (tp_receiver (ho_peer a))" and "possible sent (ho_peer a) e" and "writes S (host_act a e)"
  shows "writes S a"
  using assms(3) closed_stays_closed [OF assms(1) possible_owned [OF assms(2)]]
  by (auto simp: writes_def dest: append_prefixD)

lemma connection_sane:
  "connection cfg_a cfg_b a b \<Longrightarrow> receiver_sane (tp_receiver (ho_peer a)) \<and> receiver_sane (tp_receiver (ho_peer b))"
proof (induction rule: connection_induct)
  case start
  show ?case
    by (simp add: host_def tcp_peer_def tcp_receiver_def receiver_sane_def writer_is_closed_def byte_stream_def)
qed (simp_all add: sane_step possible_owned)

text \<open>No event that can happen throws.\<close>

lemma connection_defined:
  assumes "connection cfg_a cfg_b a b" and "possible sent (ho_peer a) e"
  shows "peer_event (ho_peer a) e \<noteq> None"
proof (cases e)
  case (Net_receive msg)
  have o: "is_owned (tm_sender msg)" "is_owned (tm_receiver msg)"
    using possible_owned [OF assms(2)] by (simp_all add: Net_receive)
  show ?thesis
  proof (cases "peer_active (ho_peer a)")
    case True
    then show ?thesis
      using peer_receive_owned [OF _ True o] connection_sane [OF assms(1)] by (auto simp: Net_receive)
  qed (simp add: Net_receive peer_receive_def)
qed simp_all

text \<open>What \<open>a\<close> sends is genuine for every possible rest of its writing.\<close>

lemma connection_sends:
  assumes "connection cfg_a cfg_b a b" and "length S + 2 < 2 ^ 31"
  shows "writes S a \<longrightarrow> sends S (cfg_isn cfg_a) a"
  using assms(1)
proof (induction rule: connection_induct)
  case start
  then show ?case
    using assms(2) sender_inv_init [of S]
    by (simp add: sends_def peer_inv_def host_def tcp_peer_def tcp_receiver_def receiver_sane_def
        writer_is_closed_def byte_stream_def tcp_sender_def)
next
  case (left a b e)
  then show ?case using sends_step writes_before connection_sane [OF left(1)] by blast
qed simp

lemma connection_received:
  assumes "connection cfg_a cfg_b a b" and "length S + 2 < 2 ^ 31" and "unat (cfg_recv_capacity cfg_b) < 2 ^ 63"
  shows "writes S a \<longrightarrow> received_from S (cfg_isn cfg_a) (cfg_recv_capacity cfg_b) b"
  using assms(1)
proof (induction rule: connection_induct)
  case start
  show ?case
    by (simp add: received_from_def host_def tcp_peer_def fresh_receiver_def exI [of _ "[]"])
next
  case (left a b e)
  then show ?case using writes_before connection_sane [OF left(1)] by blast
next
  case (right a b e)
  show ?case
  proof
    assume w: "writes S a"
    have "\<forall>t \<in> set (ho_sent a). \<exists>m r. t = with_ack r m \<and> genuine S (cfg_isn cfg_a) m"
      using connection_sends [OF right(1) assms(2)] w by (simp add: sends_def)
    then show "received_from S (cfg_isn cfg_a) (cfg_recv_capacity cfg_b) (host_act b e)"
      using received_from_step right(2,3) w connection_sane [OF right(1)] assms(2,3) by blast
  qed
qed

text \<open>The state of the receiving side, for every possible rest of what the sender writes.\<close>

lemma connection_stream:
  assumes "connection cfg_a cfg_b a b" and "unat (cfg_recv_capacity cfg_b) < 2 ^ 63"
    and "length S + 2 < 2 ^ 31" and "writes S a"
  shows "receiver_inv S (cfg_isn cfg_a) (tp_receiver (ho_peer b))"
    and "ho_read b @ reader_peek (inbound_stream b) = take (assembled (rv_reassembler (tp_receiver (ho_peer b)))) S"
    and "writer_is_closed (inbound_stream b) \<Longrightarrow> assembled (rv_reassembler (tp_receiver (ho_peer b))) = length S"
proof -
  have "length S + unat (cfg_recv_capacity cfg_b) < 2 ^ 64" "length S + 2 < 2 ^ 64"
    using assms(2,3) by simp_all
  moreover obtain es where es:
    "admissible (recv_step (cfg_isn cfg_a)) (recv_ok S) (fresh_receiver (cfg_recv_capacity cfg_b)) es"
    "tp_receiver (ho_peer b) = run (recv_step (cfg_isn cfg_a)) (fresh_receiver (cfg_recv_capacity cfg_b)) es"
    "ho_read b = collect (recv_step (cfg_isn cfg_a)) recv_out (fresh_receiver (cfg_recv_capacity cfg_b)) es"
    using connection_received [OF assms(1,3,2)] assms(4) by (auto simp: received_from_def)
  ultimately show inv: "receiver_inv S (cfg_isn cfg_a) (tp_receiver (ho_peer b))"
    and "ho_read b @ reader_peek (inbound_stream b) = take (assembled (rv_reassembler (tp_receiver (ho_peer b)))) S"
    using receiver_run [of S "cfg_recv_capacity cfg_b", OF _ _ es(1)] by (simp_all add: es(2,3))
  show "writer_is_closed (inbound_stream b) \<Longrightarrow> assembled (rv_reassembler (tp_receiver (ho_peer b))) = length S"
    using inv by (simp add: receiver_inv_def ra_inv_def writer_is_closed_def)
qed

text \<open>
  What the application at \<open>b\<close> has read or can read is what the one at \<open>a\<close> wrote, up to some
  point; the end of the stream is seen only when \<open>a\<close> has closed and all of it is here.
\<close>

definition delivers :: "Host \<Rightarrow> Host \<Rightarrow> bool" where
  "delivers a b \<longleftrightarrow> prefix (ho_read b @ reader_peek (inbound_stream b)) (ho_written a)
     \<and> (writer_is_closed (inbound_stream b) \<longrightarrow> bs_closed (outbound_stream a)
          \<and> ho_read b @ reader_peek (inbound_stream b) = ho_written a)"

lemma connection_delivers_to:
  assumes "connection cfg_a cfg_b a b" and "unat (cfg_recv_capacity cfg_b) < 2 ^ 63"
    and "length (ho_written a) + 3 < 2 ^ 31"
  shows "delivers a b"
proof -
  let ?W = "ho_written a"
  have w: "writes ?W a" by (simp add: writes_def)
  note st = connection_stream [OF assms(1,2) _ w]
  have "bs_closed (outbound_stream a)" if closed: "writer_is_closed (inbound_stream b)"
  proof (rule ccontr)
    assume "\<not> bs_closed (outbound_stream a)"
    then have "writes (?W @ [0]) a" by (simp add: writes_def)
    from connection_stream(3) [OF assms(1,2) _ this closed] st(3) [OF _ closed] show False
      using assms(3) by simp
  qed
  then show ?thesis using st assms(3) by (simp add: delivers_def take_is_prefix)
qed

text \<open>
  Every \<open>unwrap\<close> of a peer is one that C++ defines: that of its receiver, and, while its outbound
  stream has no error, those of its sender.
\<close>

definition unwraps_defined :: "TCPPeer \<Rightarrow> bool" where
  "unwraps_defined p \<longleftrightarrow> (\<forall>w z. unwrap_defined w z (rv_checkpoint (tp_receiver p)))
     \<and> (\<not> has_error (sn_input (tp_sender p)) \<longrightarrow> (\<forall>w z. unwrap_defined w z (sn_next_seqno (tp_sender p))))"

lemma connection_unwraps:
  assumes "connection cfg_a cfg_b a b" and "unat (cfg_recv_capacity cfg_b) < 2 ^ 63"
    and "length (ho_written a) + 3 < 2 ^ 31"
  shows "unat (rv_checkpoint (tp_receiver (ho_peer b))) < 2 ^ 63"
    and "\<not> has_error (outbound_stream a) \<Longrightarrow> unat (sn_next_seqno (tp_sender (ho_peer a))) < 2 ^ 63"
proof -
  let ?W = "ho_written a"
  have w: "writes ?W a" by (simp add: writes_def)
  have small: "length ?W + 2 < 2 ^ 31" using assms(3) by simp
  have "receiver_inv ?W (cfg_isn cfg_a) (tp_receiver (ho_peer b))"
    by (rule connection_stream(1) [OF assms(1,2) small w])
  then have "unat (rv_checkpoint (tp_receiver (ho_peer b))) \<le> length ?W"
    by (simp only: receiver_inv_def)
  then show "unat (rv_checkpoint (tp_receiver (ho_peer b))) < 2 ^ 63" using small by simp
  assume "\<not> has_error (outbound_stream a)"
  then have "core ?W (cfg_isn cfg_a) (tp_sender (ho_peer a))"
    using connection_sends [OF assms(1) small] w by (simp add: sends_def peer_inv_def sender_inv_def has_error_def)
  from sender_flight_bound(2) [OF this] small
  show "unat (sn_next_seqno (tp_sender (ho_peer a))) < 2 ^ 63" by simp
qed

section \<open>Acknowledgments\<close>

text \<open>The absolute sequence number a receiver waits for.\<close>

definition ack_pos :: "TCPReceiver \<Rightarrow> nat" where
  "ack_pos r = (if rv_received_SYN r
     then 1 + assembled (rv_reassembler r) + of_bool (writer_is_closed (ra_output (rv_reassembler r))) else 0)"

lemma ack_pos_bound: "receiver_inv S isn r \<Longrightarrow> ack_pos r \<le> length S + 2"
  by (simp add: receiver_inv_def ra_inv_def ack_pos_def)

lemma ackno_pos:
  assumes "receiver_inv S isn r" and "rm_ackno (tcp_receiver_send r) = Some w"
  shows "w = wrap (of_nat (ack_pos r)) isn"
  using assms by (auto simp: receiver_inv_def tcp_receiver_send_def ack_pos_def assembled_def split: if_splits)

lemma ack_pos_mono:
  assumes inv: "receiver_inv S isn r" and ok: "recv_ok S r e"
  shows "ack_pos r \<le> ack_pos (recv_step isn r e)"
proof -
  have ra: "ra_inv S (rv_reassembler r)" using inv by (simp only: receiver_inv_def)
  have "assembled (rv_reassembler r) \<le> assembled (rv_reassembler (recv_step isn r e))"
    unfolding recv_step_reassembler [OF inv ok]
    using reasm.run_mono [of S assembled, OF reasm_step_mono ra recv_calls_ok [OF ok]] .
  then show ?thesis
    using closed_stays [OF inv ok] received_stays [OF inv ok] by (simp add: ack_pos_def)
qed

text \<open>The left edge of the sender's flight moves only up to an acknowledgment.\<close>

lemma edge_step:
  assumes inv: "sender_inv S isn s" and ok: "send_ok S s e" and small: "length S + 2 < 2 ^ 31"
    and noerr: "\<not> bs_error (sn_input (send_step s e))"
    and acks: "\<And>msg w. e = Ack msg \<Longrightarrow> rm_ackno msg = Some w \<Longrightarrow> \<exists>n \<le> B. w = wrap (of_nat n) isn"
    and B: "B \<le> length S + 2" and edge: "left_edge s \<le> B"
  shows "left_edge (send_step s e) \<le> B"
proof -
  have err: "\<not> bs_error (sn_input s)" using noerr error_stays by blast
  then have core: "core S isn s" using inv by (simp add: sender_inv_def)
  note bound = sender_flight_bound [OF core]
  show ?thesis
  proof (cases e)
    case Send
    obtain s' ms where "tcp_sender_push s = (s', ms)" "extends S isn s s' ms"
      using push_effect(2) [OF inv err] by blast
    then show ?thesis using edge bound(1) by (simp add: Send send_step_def extends_def left_edge_def)
  next
    case (Ack msg)
    show ?thesis
    proof (cases "\<exists>ackno. new_ack s msg ackno")
      case True
      then obtain ackno where new: "new_ack s msg ackno" by blast
      have "left_edge (send_step s e) \<le> unat ackno"
        using ack_exact_core [OF core _ new] bound small by (auto simp: Ack send_step_def)
      moreover obtain n where "n \<le> B" and ack: "ackno = unwrap (wrap (of_nat n) isn) isn (sn_next_seqno s)"
        using new acks [OF Ack] coreD(2) [OF core] by (auto simp: new_ack_def)
      moreover have u: "unat (of_nat n :: u64) = n"
        using \<open>n \<le> B\<close> B small by (intro unat_of_nat64) simp
      moreover have "ackno = of_nat n"
        unfolding ack by (rule unwrap_wrap_near) (use u \<open>n \<le> B\<close> B small bound in linarith)+
      ultimately show ?thesis by simp
    next
      case False
      have "\<not> rm_RST msg" using noerr by (auto simp: Ack send_step_def receive_input set_error_def)
      then have "send_step s e = update_window s (rm_window_size msg)"
        using receive_other [OF core _ False] by (simp add: Ack send_step_def)
      then show ?thesis using edge by (simp add: left_edge_def)
    qed
  qed (use edge in \<open>simp_all add: send_step_def left_edge_def tcp_sender_tick_def Let_def\<close>)
qed

lemma edge_run:
  assumes "sender_inv S isn s" and "admissible send_step (send_ok S) s es" and "length S + 2 < 2 ^ 31"
    and "\<not> bs_error (sn_input (run send_step s es))"
    and "\<And>msg w. Ack msg \<in> set es \<Longrightarrow> rm_ackno msg = Some w \<Longrightarrow> \<exists>n \<le> B. w = wrap (of_nat n) isn"
    and "B \<le> length S + 2" and "left_edge s \<le> B"
  shows "left_edge (run send_step s es) \<le> B"
  using assms(1,2,4,5,7)
proof (induction es arbitrary: s)
  case (Cons e es)
  have ok: "send_ok S s e" using Cons.prems(2) by simp
  have "\<not> bs_error (sn_input (send_step s e))"
  proof
    assume "bs_error (sn_input (send_step s e))"
    then have "bs_error (sn_input (run send_step (send_step s e) es))"
      by (induction es arbitrary: s e) (simp_all add: error_stays)
    then show False using Cons.prems(3) by simp
  qed
  then have "left_edge (send_step s e) \<le> B"
    using edge_step [OF Cons.prems(1) ok assms(3) _ _ assms(6) Cons.prems(5)] Cons.prems(4) by auto
  then show ?case
    using Cons.IH [of "send_step s e"] Cons.prems sender_step_inv [OF Cons.prems(1) ok] by auto
qed simp

text \<open>
  No acknowledgment under way exceeds what \<open>b\<close> has assembled, and a sender without an error
  keeps everything that \<open>b\<close> has not.
\<close>

definition acks_covered :: "Wrap32 \<Rightarrow> Host \<Rightarrow> Host \<Rightarrow> bool" where
  "acks_covered isn a b \<longleftrightarrow>
     (\<forall>t \<in> set (ho_sent b). \<forall>w. rm_ackno (ref_get (tm_receiver t)) = Some w \<longrightarrow>
        (\<exists>n \<le> ack_pos (tp_receiver (ho_peer b)). w = wrap (of_nat n) isn))
     \<and> (\<not> bs_error (outbound_stream a) \<longrightarrow>
          left_edge (tp_sender (ho_peer a)) \<le> ack_pos (tp_receiver (ho_peer b)))"

lemma received_ackno [simp]: "rm_ackno (ref_get (tm_receiver (received_message t))) = rm_ackno (ref_get (tm_receiver t))"
  by (simp add: received_message_def Let_def)

lemma acks_covered_sender:
  assumes cov: "acks_covered isn a b" and snt: "sends S isn a" and w: "writes S (host_act a e)"
    and e: "possible (ho_sent b) (ho_peer a) e" and rcv: "receiver_inv S isn (tp_receiver (ho_peer b))"
  shows "acks_covered isn (host_act a e) b"
proof -
  have inv: "peer_inv S isn (ho_peer a)" using snt by (simp add: sends_def)
  note ok = sends_peer_ok [OF snt e w]
  let ?B = "ack_pos (tp_receiver (ho_peer b))"
  have "left_edge (tp_sender (ho_peer (host_act a e))) \<le> ?B"
    if noerr: "\<not> bs_error (outbound_stream (host_act a e))"
  proof -
    let ?es = "sender_calls (ho_peer a) e"
    have eq: "tp_sender (ho_peer (host_act a e)) = run send_step (tp_sender (ho_peer a)) ?es"
      using peer_sender_step [OF inv ok] by simp
    have "bs_error (sn_input s) \<Longrightarrow> bs_error (sn_input (run send_step s es))" for s es
      by (induction es arbitrary: s) (simp_all add: error_stays)
    then have "\<not> bs_error (outbound_stream a)" using noerr unfolding eq by blast
    then have "left_edge (tp_sender (ho_peer a)) \<le> ?B" using cov by (simp add: acks_covered_def)
    moreover have "\<exists>n \<le> ?B. w = wrap (of_nat n) isn"
      if "Ack msg \<in> set ?es" "rm_ackno msg = Some w" for msg w
      using that e cov by (cases e) (auto simp: acks_covered_def split: if_splits)
    moreover have "sender_inv S isn (tp_sender (ho_peer a))" "length S + 2 < 2 ^ 31"
      using inv by (simp_all add: peer_inv_def)
    ultimately show ?thesis
      unfolding eq using edge_run [OF _ peer_sender_calls_ok [OF inv ok] _ _ _ ack_pos_bound [OF rcv]]
        noerr [unfolded eq] by blast
  qed
  then show ?thesis using cov by (simp add: acks_covered_def)
qed

lemma acks_covered_receiver:
  assumes cov: "acks_covered isn a b" and snt: "sends S isn a" and sane: "receiver_sane (tp_receiver (ho_peer b))"
    and e: "possible (ho_sent a) (ho_peer b) e" and rcv: "receiver_inv S isn (tp_receiver (ho_peer b))"
    and rcv': "receiver_inv S isn (tp_receiver (ho_peer (host_act b e)))"
    and out: "\<forall>t \<in> set (peer_out (ho_peer b) e). \<exists>m. t = with_ack (tp_receiver (peer_step (ho_peer b) e)) m"
  shows "acks_covered isn a (host_act b e)"
proof -
  have small: "length S + 2 < 2 ^ 31" using snt by (simp add: sends_def peer_inv_def)
  have "is_owned (tm_sender msg) \<and> is_owned (tm_receiver msg) \<and> genuine S isn (ref_get (tm_sender msg))"
    if "e = Net_receive msg" for msg
    using e snt received_genuine that by (fastforce simp: sends_def)
  from peer_receiver_step [OF sane rcv small this] obtain es
    where es: "admissible (recv_step isn) (recv_ok S) (tp_receiver (ho_peer b)) es"
      "tp_receiver (peer_step (ho_peer b) e) = run (recv_step isn) (tp_receiver (ho_peer b)) es"
    by blast
  have mono: "ack_pos (tp_receiver (ho_peer b)) \<le> ack_pos (tp_receiver (peer_step (ho_peer b) e))"
    unfolding es(2) using rcv.run_mono [of S isn ack_pos, OF ack_pos_mono rcv es(1)] .
  have new: "\<exists>n \<le> ack_pos (tp_receiver (peer_step (ho_peer b) e)). w = wrap (of_nat n) isn"
    if "t \<in> set (peer_out (ho_peer b) e)" "rm_ackno (ref_get (tm_receiver t)) = Some w" for t w
    using out that ackno_pos [OF rcv', of w] by fastforce
  show ?thesis
    using cov mono new order_trans [OF _ mono] unfolding acks_covered_def by (fastforce simp del: split_paired_Ex)
qed

lemma connection_acks:
  assumes "connection cfg_a cfg_b a b" and "length S + 2 < 2 ^ 31" and "length T + 2 < 2 ^ 31"
    and "unat (cfg_recv_capacity cfg_b) < 2 ^ 63"
  shows "writes S a \<and> writes T b \<longrightarrow> acks_covered (cfg_isn cfg_a) a b"
  using assms(1)
proof (induction rule: connection_induct)
  case start
  show ?case by (simp add: acks_covered_def host_def tcp_peer_def tcp_sender_def left_edge_def)
next
  case (left a b e)
  show ?case
  proof
    assume w: "writes S (host_act a e) \<and> writes T b"
    have "writes S a" using w writes_before connection_sane [OF left(1)] left(2) by blast
    then show "acks_covered (cfg_isn cfg_a) (host_act a e) b"
      using acks_covered_sender [OF _ _ _ left(2)] left(3) w connection_sends [OF left(1) assms(2)]
        connection_stream(1) [OF left(1) assms(4,2)] by blast
  qed
next
  case (right a b e)
  show ?case
  proof
    assume w: "writes S a \<and> writes T (host_act b e)"
    have conn: "connection cfg_a cfg_b a (host_act b e)"
      using connection_right [OF right(1,2)] .
    have wb: "writes T b" using w writes_before connection_sane [OF right(1)] right(2) by blast
    have snt: "sends T (cfg_isn cfg_b) b"
      using connection_sends [OF connection_swap [OF right(1)] assms(3)] wb by blast
    have "peer_inv T (cfg_isn cfg_b) (ho_peer b)" "peer_ok T (ho_peer b) e"
      using snt sends_peer_ok [OF snt right(2)] w by (simp_all add: sends_def)
    then have out: "\<forall>t \<in> set (peer_out (ho_peer b) e). \<exists>m. t = with_ack (tp_receiver (peer_step (ho_peer b) e)) m"
      using peer_out_genuine by blast
    show "acks_covered (cfg_isn cfg_a) a (host_act b e)"
      using acks_covered_receiver [OF _ _ _ right(2) _ _ out] right(3) w wb connection_sane [OF right(1)]
        connection_sends [OF right(1) assms(2)] connection_stream(1) [OF right(1) assms(4,2)]
        connection_stream(1) [OF conn assms(4,2)] by blast
  qed
qed

section \<open>A short connection\<close>

text \<open>The last message one host sent arrives at the other.\<close>

definition to_right :: "Host \<times> Host \<Rightarrow> Host \<times> Host" where
  "to_right = (\<lambda>(a, b). (a, if ho_sent a = [] then b
     else host_act b (Net_receive (received_message (last (ho_sent a))))))"

definition to_left :: "Host \<times> Host \<Rightarrow> Host \<times> Host" where
  "to_left c = prod.swap (to_right (prod.swap c))"

text \<open>
  The left host writes two bytes; SYN, SYN and acknowledgment, the bytes, a read at the right
  host, and the acknowledgment of the bytes.
\<close>

definition demo_conn :: "Host \<times> Host" where
  "demo_conn = to_left (apsnd (\<lambda>b. host_act b (App_read 2)) (to_right (to_left (to_right
     (host_act (host_act (host small_config) (App_write [1, 2])) Net_push, host small_config)))))"

definition demo_end :: "Host \<times> Host \<Rightarrow> bool" where
  "demo_end = (\<lambda>(a, b). ho_written a = [1, 2] \<and> ho_written b = [] \<and> ho_read b = [1, 2]
     \<and> \<not> has_error (outbound_stream a) \<and> left_edge (tp_sender (ho_peer a)) = 3)"

lemma demo_ends: "demo_end demo_conn"
  by code_simp

lemma demo_facts:
  "ho_written (fst demo_conn) = [1, 2]" "ho_written (snd demo_conn) = []" "ho_read (snd demo_conn) = [1, 2]"
  "\<not> has_error (outbound_stream (fst demo_conn))" "left_edge (tp_sender (ho_peer (fst demo_conn))) = 3"
  using demo_ends by (simp_all add: demo_end_def case_prod_unfold)

lemma small_config_simps [simp]: "cfg_recv_capacity small_config = 4"
  by (simp add: small_config_def)

text \<open>Two hosts, as a pair.\<close>

definition connected :: "TCPConfig \<Rightarrow> TCPConfig \<Rightarrow> Host \<times> Host \<Rightarrow> bool" where
  "connected cfg_a cfg_b c \<longleftrightarrow> connection cfg_a cfg_b (fst c) (snd c)"

lemma connected_to_right: "connected cfg_a cfg_b c \<Longrightarrow> connected cfg_a cfg_b (to_right c)"
  by (auto simp: connected_def to_right_def case_prod_unfold intro!: connection_right)

lemma connected_to_left: "connected cfg_a cfg_b c \<Longrightarrow> connected cfg_a cfg_b (to_left c)"
  using connected_to_right [of cfg_b cfg_a "prod.swap c"] connection_swap
  by (auto simp: connected_def to_left_def)

lemma demo_connection: "connection small_config small_config (fst demo_conn) (snd demo_conn)"
proof -
  have start: "connected small_config small_config (host_act (host_act (host small_config) (App_write [1, 2])) Net_push, host small_config)"
    by (simp add: connected_def) (intro connection_left; simp add: connection_def fits_def)
  have read: "connected small_config small_config (apsnd (\<lambda>b. host_act b (App_read 2)) c)"
    if "connected small_config small_config c" for c
    using that by (simp add: connected_def connection_right)
  have "connected small_config small_config demo_conn"
    unfolding demo_conn_def by (intro connected_to_left connected_to_right read start)
  then show ?thesis by (simp only: connected_def)
qed

section \<open>Properties\<close>

text \<open>
  C4: a connection delivers. Two endpoints start with receive capacities below \<open>2 ^ 63\<close> and any
  configuration otherwise, the network loses, repeats and reorders messages at will, the
  applications write, read, close and break off when they like, time passes (with fewer than
  \<open>2 ^ 64\<close> retransmissions in a row): at every moment until one of the two has written \<open>2 ^ 31 - 3\<close> bytes, what one application has read and can read is a
  prefix of what the other has written so far, and an endpoint shows the end of the stream only if
  the other application closed it and every byte of it is here. Up to then no event that can
  happen finds a borrowed half of a message or an undefined value, and every sequence number is
  unwrapped at a checkpoint at which C++ defines the result.
\<close>
theorem connection_delivers:
  assumes "connection cfg_a cfg_b a b"
    and "unat (cfg_recv_capacity cfg_a) < 2 ^ 63" and "unat (cfg_recv_capacity cfg_b) < 2 ^ 63"
    and "length (ho_written a) + 3 < 2 ^ 31" and "length (ho_written b) + 3 < 2 ^ 31"
  shows "delivers a b \<and> delivers b a
    \<and> (\<forall>e. possible (ho_sent b) (ho_peer a) e \<longrightarrow> peer_event (ho_peer a) e \<noteq> None)
    \<and> (\<forall>e. possible (ho_sent a) (ho_peer b) e \<longrightarrow> peer_event (ho_peer b) e \<noteq> None)
    \<and> unwraps_defined (ho_peer a) \<and> unwraps_defined (ho_peer b)"
  using connection_delivers_to [OF assms(1,3,4)] connection_defined [OF assms(1)]
    connection_delivers_to [OF connection_swap [OF assms(1)] assms(2,5)]
    connection_defined [OF connection_swap [OF assms(1)]]
    connection_unwraps [OF assms(1,3,4)] connection_unwraps [OF connection_swap [OF assms(1)] assms(2,5)]
  by (simp add: unwraps_defined_def)

theorem connection_delivers_witness:
  "ho_written (fst demo_conn) = [1, 2] \<and> ho_read (snd demo_conn) = [1, 2]
   \<and> delivers (fst demo_conn) (snd demo_conn) \<and> delivers (snd demo_conn) (fst demo_conn)"
  using connection_delivers [OF demo_connection] by (simp add: demo_facts)

text \<open>
  C5: nothing acknowledged is lost. In such a run, as long as both applications have written fewer
  than \<open>2 ^ 31 - 3\<close> bytes and with a receive capacity of \<open>b\<close> below \<open>2 ^ 63\<close>, if the outbound
  stream of \<open>a\<close> has no error, every byte below the left edge of its flight, which its sender may
  have forgotten, has been delivered at \<open>b\<close>; and once the FIN is sent and nothing is
  outstanding, \<open>b\<close> has the whole stream and knows its end.
\<close>
theorem acknowledged_is_delivered:
  assumes "connection cfg_a cfg_b a b"
    and "unat (cfg_recv_capacity cfg_b) < 2 ^ 63"
    and "length (ho_written a) + 3 < 2 ^ 31" and "length (ho_written b) + 3 < 2 ^ 31"
    and "\<not> has_error (outbound_stream a)"
  shows "prefix (take (left_edge (tp_sender (ho_peer a)) - 1) (ho_written a))
      (ho_read b @ reader_peek (inbound_stream b))
    \<and> (sn_fin_set (tp_sender (ho_peer a)) \<and> sn_outstanding (tp_sender (ho_peer a)) = [] \<longrightarrow>
        writer_is_closed (inbound_stream b) \<and> ho_read b @ reader_peek (inbound_stream b) = ho_written a)"
proof -
  let ?S = "ho_written a" and ?s = "tp_sender (ho_peer a)" and ?r = "tp_receiver (ho_peer b)"
  have w: "writes ?S a" "writes (ho_written b) b" by (simp_all add: writes_def)
  have small: "length ?S + 2 < 2 ^ 31" "length (ho_written b) + 2 < 2 ^ 31" using assms(3,4) by simp_all
  note st = connection_stream [OF assms(1,2) small(1) w(1)]
  have edge: "left_edge ?s \<le> ack_pos ?r"
    using connection_acks [OF assms(1) small assms(2)] w assms(5) by (simp add: acks_covered_def has_error_def)
  have core: "core ?S (cfg_isn cfg_a) ?s"
    using connection_sends [OF assms(1) small(1)] w(1) assms(5)
    by (simp add: sends_def peer_inv_def sender_inv_def has_error_def)
  have "left_edge ?s - 1 \<le> assembled (rv_reassembler ?r) \<or> assembled (rv_reassembler ?r) = length ?S"
    using edge st(3) by (cases "writer_is_closed (inbound_stream b)") (auto simp: ack_pos_def split: if_splits)
  then have "take (left_edge ?s - 1) ?S = take (left_edge ?s - 1) (ho_read b @ reader_peek (inbound_stream b))"
    unfolding st(2) by (auto simp: min_def)
  then have "prefix (take (left_edge ?s - 1) ?S) (ho_read b @ reader_peek (inbound_stream b))"
    by (metis take_is_prefix)
  moreover have "writer_is_closed (inbound_stream b)"
    if "sn_fin_set ?s" "sn_outstanding ?s = []"
  proof -
    have "left_edge ?s = length ?S + 2"
      using coreD(3,4) [OF core that(1)] coreD(6,7) [OF core] that input_okD(3,6) [OF coreD(1) [OF core]]
      by (simp add: left_edge_def reader_is_finished_def)
    then have "length ?S + 2 \<le> ack_pos ?r" using edge by simp
    moreover have "assembled (rv_reassembler ?r) \<le> length ?S"
      using st(1) by (simp add: receiver_inv_def ra_inv_def)
    ultimately show ?thesis
      by (cases "writer_is_closed (inbound_stream b)") (auto simp: ack_pos_def split: if_splits)
  qed
  ultimately show ?thesis using st(2,3) by simp
qed

theorem acknowledged_is_delivered_witness:
  "left_edge (tp_sender (ho_peer (fst demo_conn))) = 3
   \<and> take (left_edge (tp_sender (ho_peer (fst demo_conn))) - 1) (ho_written (fst demo_conn)) = [1, 2]
   \<and> prefix (take (left_edge (tp_sender (ho_peer (fst demo_conn))) - 1) (ho_written (fst demo_conn)))
      (ho_read (snd demo_conn) @ reader_peek (inbound_stream (snd demo_conn)))"
proof -
  have "prefix (take (left_edge (tp_sender (ho_peer (fst demo_conn))) - 1) (ho_written (fst demo_conn)))
      (ho_read (snd demo_conn) @ reader_peek (inbound_stream (snd demo_conn)))"
    using acknowledged_is_delivered [OF demo_connection] demo_facts(1,2,4) by simp
  then show ?thesis using demo_facts(1,5) by simp
qed

end
