(* ===== verification/Peer_Capacity.thy ===== *)
theory Peer_Capacity
  imports TCP_Connection
begin

text \<open>
  Whatever happens to a peer, its two streams hold no more than the capacities of its
  configuration, and no event throws.
\<close>

section \<open>Streams\<close>

lemma within_insert: "within c (ra_output r) \<Longrightarrow> within c (ra_output (reassembler_insert r first_index data is_last))"
proof -
  assume "within c (ra_output r)"
  moreover have "ra_output (ra_store first_index data (ra_resize (ra_mark_last first_index data is_last r))) = ra_output r"
    by (simp add: ra_store_def ra_resize_def ra_mark_last_def split: option.split)
  ultimately show ?thesis
    by (simp add: reassembler_insert_def ra_close_if_complete_def ra_flush_def Let_def split: option.split)
qed

lemma within_receive:
  "within c (ra_output (rv_reassembler r)) \<Longrightarrow> tcp_receiver_receive r m = Some r' \<Longrightarrow>
     within c (ra_output (rv_reassembler r'))"
  by (auto simp: tcp_receiver_receive_def receiver_syn_def receiver_place_def reassembler_set_error_def Let_def
      within_insert split: if_splits)

lemma within_sender_push: "within c (sn_input s) \<Longrightarrow> within c (sn_input (fst (tcp_sender_push s)))"
  by (rule push_keeps) simp_all

lemma within_send_step: "within c (sn_input s) \<Longrightarrow> within c (sn_input (send_step s e))"
  by (cases e) (simp_all add: send_step_def receive_input within_sender_push tcp_sender_tick_def Let_def)

text \<open>A peer whose streams have the capacities of its configuration and keep to them.\<close>

definition peer_sane :: "TCPConfig \<Rightarrow> TCPPeer \<Rightarrow> bool" where
  "peer_sane cfg p \<longleftrightarrow> receiver_sane (tp_receiver p) \<and> within (cfg_send_capacity cfg) (sn_input (tp_sender p))
     \<and> within (cfg_recv_capacity cfg) (ra_output (rv_reassembler (tp_receiver p)))"

lemma peer_sane_init: "peer_sane cfg (tcp_peer cfg)"
  by (simp add: peer_sane_def tcp_peer_def tcp_sender_def tcp_receiver_def reassembler_def receiver_sane_def
      writer_is_closed_def byte_stream_def within_def)

lemma peer_sane_step:
  assumes "peer_sane cfg p" and "owned_op e"
  shows "peer_sane cfg (peer_step p e)"
proof -
  have s: "receiver_sane (tp_receiver p)" using assms(1) by (simp add: peer_sane_def)
  have "within c (sn_input (run send_step t es))" if "within c (sn_input t)" for c t es
    using that by (induction es arbitrary: t) (simp_all add: within_send_step)
  then have 1: "within (cfg_send_capacity cfg) (sn_input (tp_sender (peer_step p e)))"
    using assms(1) by (simp add: sender_step [OF s assms(2)] peer_sane_def)
  have "within (cfg_recv_capacity cfg) (ra_output (rv_reassembler (tp_receiver (peer_step p e))))"
  proof (cases e)
    case (Net_receive msg)
    show ?thesis
    proof (cases "peer_active p")
      case True
      then show ?thesis
        using peer_receive_owned [OF s True, of msg] assms within_receive
        by (auto simp: Net_receive peer_step_def peer_sane_def)
    qed (use assms(1) in \<open>simp add: Net_receive peer_step_inactive peer_sane_def\<close>)
  qed (use assms(1) in \<open>simp_all add: peer_step_def on_outbound_def on_inbound_def peer_push_eq peer_tick_eq
    tcp_receiver_pop_def tcp_receiver_fail_def reassembler_pop_def reassembler_set_error_def peer_sane_def\<close>)
  then show ?thesis using 1 sane_step [OF s assms(2)] by (simp add: peer_sane_def)
qed

lemma peer_event_defined:
  assumes "peer_sane cfg p" and "owned_op e"
  shows "peer_event p e \<noteq> None"
proof (cases e)
  case (Net_receive msg)
  show ?thesis
  proof (cases "peer_active p")
    case True
    then show ?thesis
      using peer_receive_owned [OF _ True, of msg] assms by (auto simp: Net_receive peer_sane_def)
  qed (simp add: Net_receive peer_receive_def)
qed simp_all

interpretation bounded: machine peer_step "\<lambda>_. owned_op" "peer_sane cfg" for cfg
  by unfold_locales (rule peer_sane_step)

section \<open>Properties\<close>

text \<open>
  C24: whatever the application, the clock and the network do to a peer, as long as messages come
  with both halves owned, the streams keep the capacities of the configuration and never hold
  more bytes than that. If the library's strings and bit vectors can be as long as the receive
  capacity (\<open>max_size\<close>), the next event, whatever it is, throws no exception: no access to a
  borrowed half, no undefined read, and no \<open>length_error\<close> where \<open>insert\<close> resizes its buffers.
\<close>
theorem peer_keeps_capacities:
  assumes "admissible peer_step (\<lambda>_. owned_op) (tcp_peer cfg) es" and "p = run peer_step (tcp_peer cfg) es"
    and "unat (cfg_recv_capacity cfg) \<le> max_size"
  shows "bs_capacity (sn_input (tp_sender p)) = cfg_send_capacity cfg
    \<and> length (reader_peek (sn_input (tp_sender p))) \<le> unat (cfg_send_capacity cfg)
    \<and> bs_capacity (ra_output (rv_reassembler (tp_receiver p))) = cfg_recv_capacity cfg
    \<and> length (reader_peek (ra_output (rv_reassembler (tp_receiver p)))) \<le> unat (cfg_recv_capacity cfg)
    \<and> (\<forall>e. owned_op e \<longrightarrow> peer_event p e \<noteq> None)
    \<and> \<not> resize_throws max_size (rv_reassembler (tp_receiver p))"
proof -
  have p: "peer_sane cfg p"
    unfolding assms(2) by (rule bounded.run_inv [OF peer_sane_init assms(1)])
  then have "unat (available_capacity (ra_output (rv_reassembler (tp_receiver p)))) \<le> unat (cfg_recv_capacity cfg)"
    using within_available by (fastforce simp: peer_sane_def)
  then have "\<not> resize_throws max_size (rv_reassembler (tp_receiver p))"
    using assms(3) by (simp add: resize_throws_def)
  then show ?thesis using p peer_event_defined [OF p] by (simp add: peer_sane_def within_def reader_peek_def)
qed

theorem peer_keeps_capacities_witness:
  "length (reader_peek (sn_input (tp_sender (peer_step (tcp_peer small_config) (App_write [1, 2, 3, 4, 5, 6]))))) \<le> 4
   \<and> \<not> resize_throws 4 (rv_reassembler (tp_receiver
        (peer_step (tcp_peer small_config) (App_write [1, 2, 3, 4, 5, 6]))))"
proof -
  have "admissible peer_step (\<lambda>_. owned_op) (tcp_peer small_config) [App_write [1, 2, 3, 4, 5, 6]]"
    and "unat (cfg_recv_capacity small_config) \<le> 4" "unat (cfg_send_capacity small_config) = 4"
    by (simp_all add: small_config_def)
  then show ?thesis
    using peer_keeps_capacities [of small_config "[App_write [1, 2, 3, 4, 5, 6]]" _ 4, OF _ refl] by simp
qed

text \<open>
  The whole 64-bit range as a receive capacity, which \<open>tcp_ipv4 -w -1\<close> asks for, throws with any
  library whose strings are shorter, in the first \<open>insert\<close>.
\<close>

lemma huge_capacity_throws:
  assumes "max_size < 2 ^ 64 - 1"
  shows "resize_throws max_size (reassembler (byte_stream (- 1)))"
proof -
  have "unat (- 1 :: u64) = 2 ^ 64 - 1" by (simp add: unsigned_minus_1_eq_mask mask_eq_exp_minus_1)
  then have "unat (available_capacity (ra_output (reassembler (byte_stream (- 1))))) = 2 ^ 64 - 1"
    by (simp add: reassembler_def byte_stream_def available_capacity_def)
  then show ?thesis using assms by (simp add: resize_throws_def)
qed

end
