(* ===== verification/Connection_Progress.thy ===== *)
theory Connection_Progress
  imports Sender_Progress Peer_Capacity
begin

text \<open>
  A connection makes progress: no acknowledgment exceeds what was sent; when the oldest outstanding
  segment is retransmitted and it and the answer get through, it is acknowledged; and from every
  state of an open connection without an error everything written can still arrive.
\<close>

section \<open>What is outstanding and what was sent lies before the next sequence number\<close>

definition ends_by :: "byte list \<Rightarrow> Wrap32 \<Rightarrow> nat \<Rightarrow> TCPSenderMessage \<Rightarrow> bool" where
  "ends_by S isn n m \<longleftrightarrow> (\<exists>a. placed_at S isn a m \<and> a + seq_len m \<le> n)"

definition harmless :: "TCPSenderMessage \<Rightarrow> bool" where
  "harmless m \<longleftrightarrow> sm_RST m \<or> (\<not> sm_SYN m \<and> sm_payload m = [] \<and> \<not> sm_FIN m)"

lemma ends_by_mono: "ends_by S isn n m \<Longrightarrow> n \<le> n' \<Longrightarrow> ends_by S isn n' m"
  using le_trans unfolding ends_by_def by blast

lemma chain_ends_by: "chain S isn a ms \<Longrightarrow> m \<in> set ms \<Longrightarrow> ends_by S isn (a + total_len ms) m"
proof (induction ms arbitrary: a)
  case (Cons x ms)
  then show ?case
    by (fastforce simp: ends_by_def add.assoc [symmetric])
qed simp

lemma ends_by_genuine: "ends_by S isn n m \<Longrightarrow> genuine S isn m"
  by (auto simp: ends_by_def genuine_def)

lemma harmless_genuine: "harmless m \<Longrightarrow> genuine S isn m"
  by (auto simp: harmless_def genuine_def)

definition outstanding_sent :: "byte list \<Rightarrow> Wrap32 \<Rightarrow> TCPSender \<Rightarrow> bool" where
  "outstanding_sent S isn s \<longleftrightarrow> (\<forall>m \<in> set (sn_outstanding s). ends_by S isn (unat (sn_next_seqno s)) m)"

lemma sender_ends_by:
  assumes inv: "sender_inv S isn s" and out: "outstanding_sent S isn s"
  shows "unat (sn_next_seqno s) \<le> unat (sn_next_seqno (send_step s e))"
    and "outstanding_sent S isn (send_step s e)"
    and "m \<in> set (transmitted s e) \<Longrightarrow> harmless m \<or> ends_by S isn (unat (sn_next_seqno (send_step s e))) m"
proof -
  define s' where "s' = send_step s e"
  have "unat (sn_next_seqno s) \<le> unat (sn_next_seqno s') \<and> outstanding_sent S isn s'
    \<and> (\<forall>m \<in> set (transmitted s e). harmless m \<or> ends_by S isn (unat (sn_next_seqno s')) m)"
  proof (cases e)
    case Send
    show ?thesis
    proof (cases "bs_error (sn_input s)")
      case True
      then show ?thesis
        using Send out push_effect(1) [OF inv] by (simp add: s'_def send_step_def transmitted_def harmless_def)
    next
      case False
      obtain ms where push: "tcp_sender_push s = (s', ms)" and ex: "extends S isn s s' ms"
        using push_effect(2) [OF inv False] by (auto simp: s'_def Send send_step_def)
      have new: "ends_by S isn (unat (sn_next_seqno s')) m" if "m \<in> set ms" for m
        using chain_ends_by [OF _ that] ex by (simp add: extends_def)
      have le: "unat (sn_next_seqno s) \<le> unat (sn_next_seqno s')" using ex by (simp add: extends_def)
      have "outstanding_sent S isn s'"
        using ex out new ends_by_mono [OF _ le] by (auto simp: outstanding_sent_def extends_def)
      then show ?thesis using le new push by (simp add: Send transmitted_def)
    qed
  next
    case (Wait ms)
    then show ?thesis
      using out by (auto simp: s'_def send_step_def transmitted_def tcp_sender_tick_def Let_def outstanding_sent_def)
  next
    case (Ack msg)
    have "sn_next_seqno (tcp_sender_receive s msg) = sn_next_seqno s"
      by (simp add: tcp_sender_receive_def Let_def split: option.split)
    then show ?thesis
      using out receive_outstanding [of s msg] Ack
      by (auto simp: s'_def send_step_def transmitted_def outstanding_sent_def)
  qed (use out in \<open>simp_all add: s'_def send_step_def transmitted_def outstanding_sent_def\<close>)
  then show "unat (sn_next_seqno s) \<le> unat (sn_next_seqno (send_step s e))" "outstanding_sent S isn (send_step s e)"
    "m \<in> set (transmitted s e) \<Longrightarrow> harmless m \<or> ends_by S isn (unat (sn_next_seqno (send_step s e))) m"
    unfolding s'_def by blast+
qed

text \<open>The same of a peer.\<close>

abbreviation next_of :: "TCPPeer \<Rightarrow> nat" where
  "next_of p \<equiv> unat (sn_next_seqno (tp_sender p))"

lemma peer_ends_by:
  assumes inv: "peer_inv S isn p" and ok: "peer_ok S p e" and out: "outstanding_sent S isn (tp_sender p)"
  shows "next_of p \<le> next_of (peer_step p e) \<and> outstanding_sent S isn (tp_sender (peer_step p e))
    \<and> (\<forall>t \<in> set (peer_out p e). \<exists>m. t = with_ack (tp_receiver (peer_step p e)) m \<and> (harmless m \<or> ends_by S isn (next_of (peer_step p e)) m))"
proof -
  have s: "sender_inv S isn (tp_sender p)" using inv by (simp add: peer_inv_def)
  note eq = peer_sender_step [OF inv ok]
  show ?thesis
  proof (cases e)
    case (Net_receive msg)
    show ?thesis
    proof (cases "peer_active p")
      case True
      let ?s = "send_step (tp_sender p) (Ack (ref_get (tm_receiver msg)))"
      have "sender_inv S isn ?s" using s sender_step_inv ack_ok [OF inv True] by blast
      note up = sender_ends_by [OF s out, where e = "Ack (ref_get (tm_receiver msg))"]
        sender_ends_by [OF this sender_ends_by(2) [OF s out], where e = Send]
      have sane: "receiver_sane (tp_receiver p)" "is_owned (tm_sender msg)" "is_owned (tm_receiver msg)"
        using inv ok by (simp_all add: peer_inv_def Net_receive)
      obtain q r ms where q: "peer_receive p msg = Some (q, map (with_ack r) ms)" "tp_receiver q = r"
        "tp_sender q = send_step ?s Send" "ms = transmitted ?s Send \<or> ms = [make_empty_message (tp_sender q)]"
        using peer_receive_owned [OF sane(1) True sane(2,3)] by blast
      have p': "peer_step p e = q" "peer_out p e = map (with_ack r) ms"
        using q(1) by (simp_all add: Net_receive peer_step_def peer_out_def)
      have "harmless (make_empty_message (tp_sender q))" by (simp add: harmless_def make_empty_message_def sender_message_def)
      then have "harmless m \<or> ends_by S isn (next_of q) m" if "m \<in> set ms" for m
        using q(4) that up(6) [of m] unfolding q(3) by auto
      then show ?thesis using up q(2) unfolding p' q(3) by auto
    next
      case False
      then show ?thesis using out by (simp add: Net_receive peer_step_inactive)
    qed
  next
    case Net_push
    then show ?thesis
      using sender_ends_by [OF s out, where e = Send] by (auto simp: peer_out_def peer_step_def peer_push_eq)
  next
    case (Net_tick d)
    then show ?thesis
      using sender_ends_by [OF s out, where e = "Wait d"] by (auto simp: peer_out_def peer_step_def peer_tick_eq)
  qed (use out eq sender_ends_by [OF s out] in \<open>simp_all add: peer_out_def\<close>)
qed

section \<open>What is received lies before the next sequence number\<close>

definition received_by :: "byte list \<Rightarrow> nat \<Rightarrow> TCPReceiver \<Rightarrow> bool" where
  "received_by S n r \<longleftrightarrow> (\<forall>k \<in> known (rv_reassembler r). k + 1 < n) \<and> (rv_received_SYN r \<longrightarrow> 1 \<le> n)
     \<and> (ra_total_size (rv_reassembler r) \<noteq> None \<longrightarrow> length S + 2 \<le> n)"

lemma received_by_mono: "received_by S n r \<Longrightarrow> n \<le> n' \<Longrightarrow> received_by S n' r"
  by (fastforce simp: received_by_def)

lemma received_by_ack:
  assumes inv: "receiver_inv S isn r" and "received_by S n r"
  shows "ack_pos r \<le> n"
proof (cases "writer_is_closed (ra_output (rv_reassembler r))")
  case True
  then show ?thesis
    using assms ack_pos_bound [OF inv] by (simp add: received_by_def receiver_inv_def ra_inv_def writer_is_closed_def)
next
  case False
  have "{..<assembled (rv_reassembler r)} \<subseteq> known (rv_reassembler r)" by (auto simp: known_def)
  then have "assembled (rv_reassembler r) = 0 \<or> assembled (rv_reassembler r) - 1 \<in> known (rv_reassembler r)"
    by (cases "assembled (rv_reassembler r)") auto
  then show ?thesis using False assms(2) by (fastforce simp: ack_pos_def received_by_def)
qed

text \<open>The step of a segment, seen from the reassembler.\<close>

lemma segment_step:
  assumes inv: "receiver_inv S isn r" and ok: "recv_ok S r (Segment fi data syn fin)"
    and "\<not> dropped r data syn fin"
  defines "r' \<equiv> recv_step isn r (Segment fi data syn fin)"
  shows "known (rv_reassembler r') = known (rv_reassembler r) \<union> ({unat fi..<unat fi + length data} \<inter> {..<window_end (rv_reassembler r)})"
    and "ra_total_size (rv_reassembler r') = (if fin then Some (fi + vsize data) else ra_total_size (rv_reassembler r))"
    and "rv_received_SYN r'"
proof -
  have r': "r' = placed r isn fi data fin" using receive_segment [OF inv ok] assms(3) by (simp add: r'_def)
  have ra: "ra_inv S (rv_reassembler r)" "consistent S fi data fin" using inv ok by (simp_all add: receiver_inv_def)
  show "known (rv_reassembler r') = known (rv_reassembler r) \<union> ({unat fi..<unat fi + length data} \<inter> {..<window_end (rv_reassembler r)})"
    using insert_known [OF ra] by (simp add: r' placed_def Let_def)
  show "ra_total_size (rv_reassembler r') = (if fin then Some (fi + vsize data) else ra_total_size (rv_reassembler r))"
    using insert_effect(9) [OF ra] by (simp add: r' placed_def Let_def)
  show "rv_received_SYN r'" by (simp add: r' placed_def Let_def)
qed

text \<open>A dropped segment can at most be a first SYN.\<close>

lemma dropped_step:
  assumes inv: "receiver_inv S isn r" and ok: "recv_ok S r (Segment fi data syn fin)" and "dropped r data syn fin"
  defines "r' \<equiv> recv_step isn r (Segment fi data syn fin)"
  shows "rv_reassembler r' = rv_reassembler r"
    and "rv_received_SYN r' \<longleftrightarrow> rv_received_SYN r \<or> syn \<and> \<not> writer_is_closed (ra_output (rv_reassembler r))"
  using receive_segment [OF inv ok] assms(3) by (auto simp: r'_def receiver_syn_def)

lemma received_by_receive:
  assumes inv: "receiver_inv S isn r" and small: "length S + 2 < 2 ^ 31"
    and m: "harmless m \<or> ends_by S isn n m" and r: "received_by S n r"
    and r': "tcp_receiver_receive r m = Some r'"
  shows "received_by S n r'"
proof (cases "harmless m")
  case True
  show ?thesis
  proof (cases "sm_RST m")
    case True
    then have "r' = r\<lparr>rv_rst := True, rv_reassembler := reassembler_set_error (rv_reassembler r)\<rparr>"
      using r' by (simp add: tcp_receiver_receive_def)
    then show ?thesis using r by (simp add: received_by_def)
  next
    case False
    then have "r' = r" using \<open>harmless m\<close> r' by (auto simp: harmless_def tcp_receiver_receive_def receiver_syn_def Let_def split: if_splits)
    then show ?thesis using r by simp
  qed
next
  case False
  then obtain a where pl: "placed_at S isn a m" and le: "a + seq_len m \<le> n" using m by (auto simp: ends_by_def)
  have "unat (rv_checkpoint r) \<le> length S" using inv by (simp only: receiver_inv_def)
  note seg = placed_segment [OF pl small this]
  let ?fi = "of_nat (a - 1) :: u64"
  have a: "a \<le> length S + 2" "sm_SYN m \<longleftrightarrow> a = 0" "consistent S ?fi (sm_payload m) (sm_FIN m)" "0 < seq_len m"
    using pl by (simp_all add: placed_at_def)
  have fi: "unat ?fi = a - 1" using a(1) small by (intro unat_of_nat64) simp
  have eq: "r' = recv_step isn r (Segment ?fi (sm_payload m) (sm_SYN m) (sm_FIN m))"
    using seg(1) r' by simp
  have len: "a - 1 + length (sm_payload m) < n" "sm_FIN m \<longrightarrow> length S + 2 \<le> n"
    using le a fi by (auto simp: seq_len_def consistent_def split: if_splits)
  show ?thesis
  proof (cases "dropped r (sm_payload m) (sm_SYN m) (sm_FIN m)")
    case True
    then show ?thesis
      using dropped_step [OF inv seg(2) True] r a(4) le by (auto simp: received_by_def eq)
  next
    case False
    then show ?thesis
      using segment_step [OF inv seg(2) False] r fi len le by (auto simp: received_by_def eq)
  qed
qed

text \<open>The same of a peer.\<close>

lemma received_by_peer:
  assumes sane: "receiver_sane (tp_receiver p)" and inv: "receiver_inv S isn (tp_receiver p)"
    and small: "length S + 2 < 2 ^ 31" and r: "received_by S n (tp_receiver p)"
    and e: "\<And>msg. e = Net_receive msg \<Longrightarrow> is_owned (tm_sender msg) \<and> is_owned (tm_receiver msg)
      \<and> (harmless (ref_get (tm_sender msg)) \<or> ends_by S isn n (ref_get (tm_sender msg)))"
  shows "received_by S n (tp_receiver (peer_step p e))"
proof (cases e)
  case (Net_receive msg)
  show ?thesis
  proof (cases "peer_active p")
    case True
    then obtain r' where "tcp_receiver_receive (tp_receiver p) (ref_get (tm_sender msg)) = Some r'"
      "tp_receiver (peer_step p e) = r'"
      using peer_receive_owned [OF sane True, of msg] e [OF Net_receive] by (auto simp: Net_receive peer_step_def)
    then show ?thesis using received_by_receive [OF inv small _ r] e [OF Net_receive] by blast
  qed (use r in \<open>simp add: Net_receive peer_step_inactive\<close>)
next
  case (App_read len)
  have "bs_inv (ra_output (rv_reassembler (tp_receiver p)))"
    using inv ra_inv_bs by (auto simp: receiver_inv_def)
  then show ?thesis
    using r pop_known by (simp add: App_read peer_step_def on_inbound_def tcp_receiver_pop_def received_by_def)
next
  case App_break
  then show ?thesis using r by (simp add: peer_step_def on_inbound_def tcp_receiver_fail_def received_by_def)
qed (use r in \<open>simp_all add: peer_step_def on_outbound_def peer_push_eq peer_tick_eq\<close>)

section \<open>Every run of the connection\<close>

definition all_sent :: "byte list \<Rightarrow> Wrap32 \<Rightarrow> Host \<Rightarrow> bool" where
  "all_sent S isn a \<longleftrightarrow> outstanding_sent S isn (tp_sender (ho_peer a))
     \<and> (\<forall>t \<in> set (ho_sent a). \<exists>m r. t = with_ack r m \<and> (harmless m \<or> ends_by S isn (next_of (ho_peer a)) m))"

lemma all_sent_step:
  assumes snt: "sends S isn a" and e: "possible arrived (ho_peer a) e" and w: "writes S (host_act a e)"
    and all: "all_sent S isn a"
  shows "all_sent S isn (host_act a e) \<and> next_of (ho_peer a) \<le> next_of (ho_peer (host_act a e))"
proof -
  have inv: "peer_inv S isn (ho_peer a)" using snt by (simp add: sends_def)
  have "outstanding_sent S isn (tp_sender (ho_peer a))" using all by (simp add: all_sent_def)
  note up = peer_ends_by [OF inv sends_peer_ok [OF snt e w] this]
  have "\<exists>m r. t = with_ack r m \<and> (harmless m \<or> ends_by S isn (next_of (ho_peer (host_act a e))) m)"
    if "t \<in> set (ho_sent (host_act a e))" for t
    using that all up ends_by_mono [of S isn "next_of (ho_peer a)"] by (fastforce simp: all_sent_def)
  then show ?thesis using up by (simp add: all_sent_def)
qed

lemma received_harmless:
  assumes "harmless m \<or> ends_by S isn n m"
  shows "harmless (ref_get (tm_sender (received_message (with_ack r m))))
    \<or> ends_by S isn n (ref_get (tm_sender (received_message (with_ack r m))))"
proof (cases "sm_RST m \<or> rm_RST (tcp_receiver_send r)")
  case True
  then show ?thesis by (simp add: received_message_def harmless_def Let_def)
next
  case False
  then have "ref_get (tm_sender (received_message (with_ack r m))) = m" by (simp add: received_message_def Let_def)
  then show ?thesis using assms by simp
qed

text \<open>The receiver has nothing that was not sent.\<close>

definition in_step :: "byte list \<Rightarrow> Wrap32 \<Rightarrow> Host \<Rightarrow> Host \<Rightarrow> bool" where
  "in_step S isn a b \<longleftrightarrow> all_sent S isn a \<and> received_by S (next_of (ho_peer a)) (tp_receiver (ho_peer b))"

lemma connection_in_step:
  assumes "connection cfg_a cfg_b a b" and "length S + 2 < 2 ^ 31" and "unat (cfg_recv_capacity cfg_b) < 2 ^ 63"
  shows "writes S a \<longrightarrow> in_step S (cfg_isn cfg_a) a b"
  using assms(1)
proof (induction rule: connection_induct)
  case start
  show ?case
    by (simp add: in_step_def all_sent_def host_def tcp_peer_def tcp_sender_def outstanding_sent_def received_by_def
        tcp_receiver_def known_def) (simp add: reassembler_def)
next
  case (left a b e)
  show ?case
  proof
    assume w: "writes S (host_act a e)"
    have w0: "writes S a" using writes_before connection_sane [OF left(1)] left(2) w by blast
    then have i: "all_sent S (cfg_isn cfg_a) a" "received_by S (next_of (ho_peer a)) (tp_receiver (ho_peer b))"
      using left(3) by (simp_all add: in_step_def)
    have "sends S (cfg_isn cfg_a) a" using connection_sends [OF left(1) assms(2)] w0 by blast
    note step = all_sent_step [OF this left(2) w i(1)]
    show "in_step S (cfg_isn cfg_a) (host_act a e) b"
      unfolding in_step_def using step received_by_mono [OF i(2)] by blast
  qed
next
  case (right a b e)
  show ?case
  proof
    assume w: "writes S a"
    then have i: "all_sent S (cfg_isn cfg_a) a" "received_by S (next_of (ho_peer a)) (tp_receiver (ho_peer b))"
      using right(3) by (simp_all add: in_step_def)
    have "is_owned (tm_sender msg) \<and> is_owned (tm_receiver msg) \<and> (harmless (ref_get (tm_sender msg))
        \<or> ends_by S (cfg_isn cfg_a) (next_of (ho_peer a)) (ref_get (tm_sender msg)))" if msg: "e = Net_receive msg" for msg
    proof -
      obtain t where t: "t \<in> set (ho_sent a)" "msg = received_message t" using right(2) msg by auto
      obtain m r where m: "t = with_ack r m" "harmless m \<or> ends_by S (cfg_isn cfg_a) (next_of (ho_peer a)) m"
        using i(1) t(1) by (fastforce simp: all_sent_def)
      show ?thesis using received_harmless [OF m(2)] t(2) m(1) by simp
    qed
    then have "received_by S (next_of (ho_peer a)) (tp_receiver (peer_step (ho_peer b) e))"
      using received_by_peer connection_sane [OF right(1)] connection_stream(1) [OF right(1) assms(3,2) w] assms(2) i(2)
      by blast
    then show "in_step S (cfg_isn cfg_a) a (host_act b e)" using i(1) by (simp add: in_step_def)
  qed
qed

section \<open>A reset is remembered as an error\<close>

definition reset_noted :: "TCPReceiver \<Rightarrow> bool" where
  "reset_noted r \<longleftrightarrow> (rv_rst r \<longrightarrow> has_error (ra_output (rv_reassembler r)))"

lemma receive_flags:
  assumes "tcp_receiver_receive r m = Some r'"
  shows "rv_rst r' \<longleftrightarrow> rv_rst r \<or> sm_RST m"
    and "bs_error (ra_output (rv_reassembler r')) \<longleftrightarrow> bs_error (ra_output (rv_reassembler r)) \<or> sm_RST m"
  using assms by (auto simp: tcp_receiver_receive_def receiver_syn_def receiver_place_def reassembler_set_error_def
      set_error_def Let_def split: if_splits)

lemma reset_noted_step:
  assumes sane: "receiver_sane (tp_receiver p)" and e: "owned_op e" and r: "reset_noted (tp_receiver p)"
  shows "reset_noted (tp_receiver (peer_step p e))"
proof (cases e)
  case (Net_receive msg)
  show ?thesis
  proof (cases "peer_active p")
    case True
    then obtain r' where r': "tcp_receiver_receive (tp_receiver p) (ref_get (tm_sender msg)) = Some r'"
      "tp_receiver (peer_step p e) = r'"
      using peer_receive_owned [OF sane True, of msg] e by (auto simp: Net_receive peer_step_def)
    show ?thesis using receive_flags [OF r'(1)] r by (auto simp: r'(2) reset_noted_def has_error_def)
  qed (use r in \<open>simp add: Net_receive peer_step_inactive\<close>)
qed (use r in \<open>simp_all add: peer_step_def on_outbound_def on_inbound_def peer_push_eq peer_tick_eq reset_noted_def
  tcp_receiver_pop_def tcp_receiver_fail_def reassembler_pop_def reassembler_set_error_def set_error_def has_error_def
  reader_pop_def Let_def\<close>)

lemma connection_reset_noted:
  "connection cfg_a cfg_b a b \<Longrightarrow> reset_noted (tp_receiver (ho_peer a)) \<and> reset_noted (tp_receiver (ho_peer b))"
proof (induction rule: connection_induct)
  case start
  show ?case by (simp add: host_def tcp_peer_def tcp_receiver_def reset_noted_def)
next
  case (left a b e)
  then show ?case using connection_sane reset_noted_step possible_owned by simp
next
  case (right a b e)
  then show ?case using connection_sane reset_noted_step possible_owned by simp
qed

lemma active_no_reset:
  "peer_active p \<Longrightarrow> reset_noted (tp_receiver p) \<Longrightarrow> \<not> rm_RST (tcp_receiver_send (tp_receiver p))"
  by (auto simp: tcp_receiver_send_def reset_noted_def peer_active_def Let_def)

section \<open>A segment within the window is covered once it has arrived\<close>

lemma receive_covers:
  assumes inv: "receiver_inv S isn r" and small: "length S + 2 < 2 ^ 31" and pl: "placed_at S isn a m"
    and a: "a \<le> ack_pos r"
    and room: "length (sm_payload m) \<le> unat (available_capacity (ra_output (rv_reassembler r)))"
    and bare: "sm_SYN m \<Longrightarrow> rv_received_SYN r \<Longrightarrow> sm_payload m = [] \<and> \<not> sm_FIN m"
    and r': "tcp_receiver_receive r m = Some r'"
  shows "a + seq_len m \<le> ack_pos r'"
proof -
  let ?fi = "of_nat (a - 1) :: u64" and ?R = "rv_reassembler r" and ?R' = "rv_reassembler r'"
  have p: "a + seq_len m \<le> length S + 2" "sm_SYN m \<longleftrightarrow> a = 0" "consistent S ?fi (sm_payload m) (sm_FIN m)"
    "0 < seq_len m"
    using pl by (simp_all add: placed_at_def)
  have fi: "unat ?fi = a - 1" using p(1) small by (intro unat_of_nat64) simp
  have "unat (rv_checkpoint r) \<le> length S" using inv by (simp only: receiver_inv_def)
  note seg = placed_segment [OF pl small this]
  let ?e = "Segment ?fi (sm_payload m) (sm_SYN m) (sm_FIN m)"
  have eq: "r' = recv_step isn r ?e" using seg(1) r' by simp
  have inv': "receiver_inv S isn r'" unfolding eq by (rule recv_inv [OF inv seg(2)])
  have ra': "ra_inv S ?R'" and le': "assembled ?R' \<le> length S" using inv' by (simp_all add: receiver_inv_def ra_inv_def)
  show ?thesis
  proof (cases "dropped r (sm_payload m) (sm_SYN m) (sm_FIN m)")
    case drop: True
    show ?thesis
    proof (cases "writer_is_closed (ra_output ?R)")
      case True
      then have "ack_pos r = length S + 2"
        using inv closed_received [OF inv True] by (simp add: ack_pos_def receiver_inv_def ra_inv_def writer_is_closed_def)
      then show ?thesis using p(1) ack_pos_mono [OF inv seg(2)] by (simp add: eq)
    next
      case False
      have "rv_received_SYN r" if "a \<noteq> 0" using a that by (auto simp: ack_pos_def split: if_splits)
      then have "sm_SYN m" "sm_payload m = []" "\<not> sm_FIN m"
        using drop False bare p(2,4) by (auto simp: dropped_def seq_len_def)
      moreover from this have "rv_received_SYN r'" using dropped_step(2) [OF inv seg(2) drop] False by (simp add: eq)
      ultimately show ?thesis using p(2) by (simp add: seq_len_def ack_pos_def)
    qed
  next
    case False
    note step = segment_step [OF inv seg(2) False, folded eq, unfolded fi]
    have open': "\<not> writer_is_closed (ra_output ?R)" using False by (simp add: dropped_def)
    then have "a - 1 \<le> assembled ?R" using a by (auto simp: ack_pos_def split: if_splits)
    moreover have "{..<assembled ?R} \<subseteq> known ?R" by (auto simp: known_def)
    ultimately have "k \<in> known ?R'" if "k < a - 1 + length (sm_payload m)" for k
      using room that by (cases "k < assembled ?R") (auto simp: step(1) window_end_def)
    then have as: "a - 1 + length (sm_payload m) \<le> assembled ?R'"
      using known_bounds(2) [OF ra'] by (meson not_le)
    have "writer_is_closed (ra_output ?R')" if "sm_FIN m"
    proof -
      have "a - 1 + length (sm_payload m) = length S" using p(3) that fi by (simp add: consistent_def)
      then show ?thesis using as le' ra' step(2) that by (simp add: ra_inv_def writer_is_closed_def)
    qed
    then show ?thesis using as step(3) p(2) by (auto simp: ack_pos_def seq_len_def)
  qed
qed

section \<open>The steps of a round trip\<close>

lemma received_plain:
  "\<not> sm_RST m \<Longrightarrow> \<not> rm_RST (tcp_receiver_send r) \<Longrightarrow>
     received_message (with_ack r m) = \<lparr>tm_sender = Owned m, tm_receiver = Owned (tcp_receiver_send r)\<rparr>"
  by (cases m, cases "tcp_receiver_send r") (simp add: received_message_def Let_def)

lemma placed_no_reset: "placed_at S isn a m \<Longrightarrow> \<not> sm_RST m"
  unfolding placed_at_def by (metis peer_segment_simps(1))

text \<open>The tick that reaches the timeout sends the oldest segment and leaves the flight as it is.\<close>

lemma tick_resends:
  assumes inv: "peer_inv S isn p" and act: "peer_active p" and out: "sn_outstanding (tp_sender p) = m # ms"
    and t: "sn_RTO (tp_sender p) \<le> sn_timer (tp_sender p) + t"
  defines "p' \<equiv> peer_step p (Net_tick t)"
  shows "peer_out p (Net_tick t) = [with_ack (tp_receiver p) m]"
    and "placed_at S isn (left_edge (tp_sender p)) m"
    and "left_edge (tp_sender p') = left_edge (tp_sender p)" and "sn_outstanding (tp_sender p') = m # ms"
    and "peer_active p'" and "next_of p' = next_of p"
proof -
  let ?s = "tp_sender p"
  have core: "core S isn ?s" using inv active_no_error [OF act] by (simp add: peer_inv_def sender_inv_def)
  have run: "\<not> (sn_outstanding ?s = [] \<or> \<not> sn_timer_active ?s)" using coreD(10) [OF core] out by simp
  note tick = tick_expires [OF run t]
  show "peer_out p (Net_tick t) = [with_ack (tp_receiver p) m]"
    by (simp add: peer_out_def peer_tick_eq transmitted_def tick out)
  show "placed_at S isn (left_edge ?s) m" using coreD(9) [OF core] out by (simp add: left_edge_def)
  have s': "tp_sender p' = fst (tcp_sender_tick ?s t)" by (simp add: p'_def peer_step_def peer_tick_eq send_step_def)
  show "left_edge (tp_sender p') = left_edge ?s" "sn_outstanding (tp_sender p') = m # ms" "next_of p' = next_of p"
    by (simp_all add: s' tick out left_edge_def)
  have "0 < unat (sn_bytes_unack ?s)"
    using coreD(7,9) [OF core] out by (simp add: placed_at_def)
  then have "sn_bytes_unack ?s \<noteq> 0" by auto
  then show "peer_active p'"
    using act by (simp add: peer_active_def p'_def sequence_numbers_in_flight_def Let_def)
qed

text \<open>An active peer answers a segment with its current acknowledgment, and no reset.\<close>

lemma segment_answered:
  assumes inv: "peer_inv T isn p" and act: "peer_active p" and rst: "reset_noted (tp_receiver p)"
    and m: "0 < seq_len m" "seq_len m < 2 ^ 64" "\<not> sm_RST m" and a: "\<not> rm_RST a"
  defines "e \<equiv> Net_receive \<lparr>tm_sender = Owned m, tm_receiver = Owned a\<rparr>"
  shows "tcp_receiver_receive (tp_receiver p) m = Some (tp_receiver (peer_step p e))
    \<and> \<not> rm_RST (tcp_receiver_send (tp_receiver (peer_step p e)))
    \<and> (\<exists>ms m'. peer_out p e = ms @ [with_ack (tp_receiver (peer_step p e)) m'] \<and> \<not> sm_RST m')"
proof -
  have sane: "receiver_sane (tp_receiver p)" using inv by (simp add: peer_inv_def)
  obtain r where r: "tcp_receiver_receive (tp_receiver p) m = Some r" using receive_sane [OF sane] by blast
  define q where "q = p\<lparr>tp_time_of_last_receipt := tp_cumulative_time p,
               tp_need_send := tp_need_send p \<or> wants_reply p m,
               tp_receiver := r, tp_sender := send_step (tp_sender p) (Ack a)\<rparr>"
  have eq: "peer_event p e = Some (peer_finish (q\<lparr>tp_sender := send_step (tp_sender q) Send, tp_need_send := False\<rparr>),
              map (with_ack r) (replies q))"
    using peer_receive_eq [OF act r, of a] by (simp add: e_def q_def Let_def)
  have p': "tp_receiver (peer_step p e) = r" "peer_out p e = map (with_ack r) (replies q)"
    by (simp_all add: peer_step_def peer_out_def eq) (simp add: q_def)
  have need: "tp_need_send q"
    using m(1) unat_sequence_length [OF m(2)] by (simp add: q_def wants_reply_def word_less_nat_alt)
  have noerr: "\<not> bs_error (sn_input (tp_sender q))"
    using active_no_error [OF act] a by (simp add: q_def send_step_def receive_input)
  have q: "sender_inv T isn (tp_sender q)"
    using sender_step_inv [OF _ ack_ok [OF inv act]] inv by (simp add: q_def peer_inv_def)
  have "\<not> sm_RST m'" if "m' \<in> set (transmitted (tp_sender q) Send)" for m'
    using transmitted_placed [OF q that] noerr placed_no_reset by blast
  moreover have "\<not> sm_RST (make_empty_message (send_step (tp_sender q) Send))"
  proof -
    obtain s' ms where "tcp_sender_push (tp_sender q) = (s', ms)" "extends T isn (tp_sender q) s' ms"
      using push_effect(2) [OF q noerr] by blast
    then show ?thesis using noerr by (simp add: send_step_def make_empty_message_def has_error_def extends_def sender_message_def)
  qed
  ultimately have "\<forall>m' \<in> set (replies q). \<not> sm_RST m'" by (simp add: replies_def Let_def)
  moreover have "replies q \<noteq> []" using need by (simp add: replies_def Let_def)
  ultimately obtain ms m' where "replies q = ms @ [m']" "\<not> sm_RST m'"
    by (cases "replies q" rule: rev_cases) auto
  then have "\<exists>ms m'. peer_out p e = ms @ [with_ack r m'] \<and> \<not> sm_RST m'"
    unfolding p'(2) by (intro exI [of _ "map (with_ack r) ms"] exI [of _ m']) simp
  moreover have "\<not> rm_RST (tcp_receiver_send r)"
    using receive_flags [OF r] m(3) active_no_reset [OF act rst] by (simp add: tcp_receiver_send_def has_error_def)
  ultimately show ?thesis using r unfolding p'(1) by blast
qed

text \<open>An acknowledgment that covers the oldest segment moves the left edge past it.\<close>

lemma answer_advances:
  assumes inv: "peer_inv S isn p" and act: "peer_active p" and out: "sn_outstanding (tp_sender p) = m # ms"
    and n: "left_edge (tp_sender p) + seq_len m \<le> n" "n \<le> next_of p"
    and a: "rm_ackno a = Some (wrap (of_nat n) isn)" "\<not> rm_RST a" and pr: "probing (tp_sender p)"
    and s2_def: "s2 = tp_sender (peer_step p (Net_receive \<lparr>tm_sender = Owned m', tm_receiver = Owned a\<rparr>))"
  shows "left_edge (tp_sender p) + seq_len m \<le> left_edge s2" and "sn_consecutive s2 = 0"
    and "sn_outstanding s2 \<noteq> [] \<or> bs_stream (sn_input s2) = []"
proof -
  let ?s = "tp_sender p"
  define s' where "s' = tcp_sender_receive ?s a"
  have core: "core S isn ?s" using inv active_no_error [OF act] by (simp add: peer_inv_def sender_inv_def)
  note flight = sender_flight_bound [OF core]
  have small: "length S + 2 < 2 ^ 31" using inv by (simp add: peer_inv_def)
  have near: "unat (sn_bytes_unack ?s) \<le> 2 ^ 31" using flight small by simp
  have "0 < seq_len m" using coreD(9) [OF core] out by (simp add: placed_at_def)
  have u: "unat (of_nat n :: u64) = n" using n(2) flight(2) small by (intro unat_of_nat64) simp
  have "unwrap (wrap (of_nat n) isn) isn (sn_next_seqno ?s) = of_nat n"
    by (rule unwrap_wrap_near) (use u n(2) flight(2) small in linarith)+
  then have new: "new_ack ?s a (of_nat n)"
    using a n \<open>0 < seq_len m\<close> coreD(2) [OF core] u by (simp add: new_ack_def)
  obtain acked where acked: "m # ms = acked @ sn_outstanding s'" "left_edge s' = left_edge ?s + total_len acked"
    "sn_outstanding s' \<noteq> [] \<longrightarrow> n < left_edge s' + seq_len (hd (sn_outstanding s'))"
    "acked \<noteq> [] \<longrightarrow> sn_consecutive s' = 0"
    using ack_exact_core [OF core near new] unfolding s'_def [symmetric] out u by blast
  have "acked \<noteq> []"
  proof
    assume "acked = []"
    then have "sn_outstanding s' = m # ms" "left_edge s' = left_edge ?s" using acked by simp_all
    then show False using acked(3) n(1) by simp
  qed
  then obtain rest where "acked = m # rest" using acked(1) by (cases acked) auto
  then have edge: "left_edge ?s + seq_len m \<le> left_edge s'" using acked(2) by simp
  have core': "core S isn s'" "sn_input s' = sn_input ?s"
    using receive_new(1,3) [OF core new near] by (simp_all add: s'_def)
  have noerr: "\<not> bs_error (sn_input s')" using core'(2) active_no_error [OF act] by simp
  have push: "tcp_sender_push s' = push_data s'" using noerr by (simp add: tcp_sender_push_def has_error_def)
  obtain s3 ms3 where "push_data s' = (s3, ms3)" "extends S isn s' s3 ms3"
    using push_data_ok [OF core'(1)] by blast
  then have "left_edge (fst (push_data s')) = left_edge s'" using extends_edge [OF core'(1)] by simp
  moreover have s2: "s2 = fst (push_data s')"
    using sender_step [of p "Net_receive \<lparr>tm_sender = Owned m', tm_receiver = Owned a\<rparr>"] inv act
    by (simp add: s2_def peer_inv_def send_step_def push flip: s'_def)
  ultimately show "left_edge (tp_sender p) + seq_len m \<le> left_edge s2" using edge by simp
  note rest = push_data_rest [OF core'(1) small probing_receive [OF core near pr a(2), folded s'_def], folded s2]
  show "sn_consecutive s2 = 0" using rest acked(4) \<open>acked \<noteq> []\<close> by simp
  show "sn_outstanding s2 \<noteq> [] \<or> bs_stream (sn_input s2) = []" using rest by simp
qed

section \<open>A connection without errors\<close>

definition sound :: "TCPPeer \<Rightarrow> bool" where
  "sound p \<longleftrightarrow> \<not> has_error (ra_output (rv_reassembler (tp_receiver p))) \<and> \<not> has_error (sn_input (tp_sender p))"

lemma active_sound: "peer_active p \<Longrightarrow> sound p"
  by (simp add: peer_active_def sound_def Let_def)

lemma sound_receive:
  assumes inv: "peer_inv S isn p" and act: "peer_active p" and rst: "\<not> sm_RST m" "\<not> rm_RST a"
  shows "sound (peer_step p (Net_receive \<lparr>tm_sender = Owned m, tm_receiver = Owned a\<rparr>))"
proof -
  let ?msg = "\<lparr>tm_sender = Owned m, tm_receiver = Owned a\<rparr>"
  have sane: "receiver_sane (tp_receiver p)" using inv by (simp add: peer_inv_def)
  obtain r where r: "tcp_receiver_receive (tp_receiver p) m = Some r"
      "tp_receiver (peer_step p (Net_receive ?msg)) = r"
    using peer_receive_owned [OF sane act, of ?msg] by (auto simp: peer_step_def)
  let ?s = "send_step (tp_sender p) (Ack a)"
  have s: "sender_inv S isn ?s" using sender_step_inv [OF _ ack_ok [OF inv act]] inv by (simp add: peer_inv_def)
  have noerr: "\<not> bs_error (sn_input ?s)"
    using active_no_error [OF act] rst(2) by (simp add: send_step_def receive_input)
  obtain s' ms where "tcp_sender_push ?s = (s', ms)" "extends S isn ?s s' ms"
    using push_effect(2) [OF s noerr] by blast
  then have "\<not> bs_error (sn_input (send_step ?s Send))" using noerr by (simp add: send_step_def extends_def)
  moreover have "tp_sender (peer_step p (Net_receive ?msg)) = send_step ?s Send"
    using sender_step [OF sane, of "Net_receive ?msg"] act by simp
  ultimately show ?thesis
    using receive_flags(2) [OF r(1)] rst(1) active_sound [OF act] by (simp add: sound_def has_error_def r(2))
qed

lemma probing_run:
  assumes "sender_inv S isn s" and "admissible send_step (send_ok S) s es" and "length S + 2 < 2 ^ 31"
    and "\<not> bs_error (sn_input s) \<longrightarrow> probing s"
  shows "\<not> bs_error (sn_input (run send_step s es)) \<longrightarrow> probing (run send_step s es)"
  using assms(1,2,4)
proof (induction es arbitrary: s)
  case (Cons e es)
  have ok: "send_ok S s e" using Cons.prems(2) by simp
  have "\<not> bs_error (sn_input (send_step s e)) \<longrightarrow> probing (send_step s e)"
    using probing_step [OF Cons.prems(1) ok assms(3) Cons.prems(3)] by blast
  then show ?case
    using Cons.IH [of "send_step s e"] Cons.prems(2) sender_step_inv [OF Cons.prems(1) ok] by simp
qed simp

lemma connection_probing:
  assumes "connection cfg_a cfg_b a b" and "length S + 2 < 2 ^ 31"
  shows "writes S a \<and> \<not> bs_error (outbound_stream a) \<longrightarrow> probing (tp_sender (ho_peer a))"
  using assms(1)
proof (induction rule: connection_induct)
  case start
  show ?case by (simp add: host_def tcp_peer_def tcp_sender_def probing_def)
next
  case (left a b e)
  show ?case
  proof
    assume w: "writes S (host_act a e) \<and> \<not> bs_error (outbound_stream (host_act a e))"
    then have w0: "writes S a" using writes_before connection_sane [OF left(1)] left(2) by blast
    then have snt: "sends S (cfg_isn cfg_a) a" using connection_sends [OF left(1) assms(2)] by blast
    then have inv: "peer_inv S (cfg_isn cfg_a) (ho_peer a)" by (simp add: sends_def)
    have ok: "peer_ok S (ho_peer a) e" using sends_peer_ok [OF snt left(2)] w by blast
    have "sender_inv S (cfg_isn cfg_a) (tp_sender (ho_peer a))" using inv by (simp add: peer_inv_def)
    from probing_run [OF this peer_sender_calls_ok [OF inv ok] assms(2)] left(3) w0 w
    show "probing (tp_sender (ho_peer (host_act a e)))" by (simp add: peer_sender_step [OF inv ok])
  qed
qed simp

section \<open>Round trips\<close>

text \<open>
  A tick at the left host, then the last message of either side arrives at the other one. Nothing of
  the network's past has to arrive.
\<close>

definition round_trip :: "u64 \<Rightarrow> Host \<times> Host \<Rightarrow> Host \<times> Host" where
  "round_trip t = (\<lambda>(a, b). to_left (to_right (host_act a (Net_tick t), b)))"

lemma to_right_steps: "conn_step\<^sup>*\<^sup>* c (to_right c)"
proof (cases "ho_sent (fst c) = []")
  case False
  then have "conn_step c (to_right c)"
    by (auto simp: to_right_def case_prod_unfold split_pairs intro!: conn_step.right [of "fst c" "snd c", simplified])
  then show ?thesis by blast
qed (simp add: to_right_def case_prod_unfold)

lemma conn_steps_swap: "conn_step\<^sup>*\<^sup>* c d \<Longrightarrow> conn_step\<^sup>*\<^sup>* (prod.swap c) (prod.swap d)"
proof (induction rule: rtranclp_induct)
  case (step d e)
  have "conn_step (prod.swap d) (prod.swap e)" using conn_step_swap step(2) by (cases d, cases e) auto
  then show ?case using step(3) by auto
qed simp

lemma to_left_steps: "conn_step\<^sup>*\<^sup>* c (to_left c)"
  using conn_steps_swap [OF to_right_steps [of "prod.swap c"]] by (simp add: to_left_def)

lemma round_trip_steps:
  assumes "sn_consecutive (tp_sender (ho_peer a)) + 1 \<noteq> 0"
  shows "conn_step\<^sup>*\<^sup>* (a, b) (round_trip t (a, b))"
proof -
  have "conn_step (a, b) (host_act a (Net_tick t), b)" using assms by (intro conn_step.left) simp
  then show ?thesis
    using rtranclp_trans [OF to_right_steps to_left_steps]
    by (simp add: round_trip_def converse_rtranclp_into_rtranclp)
qed

lemma connection_steps: "connection cfg_a cfg_b a b \<Longrightarrow> conn_step\<^sup>*\<^sup>* (a, b) (a', b') \<Longrightarrow> connection cfg_a cfg_b a' b'"
  unfolding connection_def by (rule rtranclp_trans)

text \<open>What the sequence numbers of a connection say about its two ends.\<close>

lemma connection_ends:
  assumes "connection cfg_a cfg_b a b" and "unat (cfg_recv_capacity cfg_b) < 2 ^ 63"
    and "length (ho_written a) + 2 < 2 ^ 31" and "length (ho_written b) + 2 < 2 ^ 31"
  shows "peer_inv (ho_written a) (cfg_isn cfg_a) (ho_peer a)"
    and "receiver_inv (ho_written a) (cfg_isn cfg_a) (tp_receiver (ho_peer b))"
    and "ack_pos (tp_receiver (ho_peer b)) \<le> next_of (ho_peer a)"
    and "sound (ho_peer a) \<Longrightarrow> left_edge (tp_sender (ho_peer a)) \<le> ack_pos (tp_receiver (ho_peer b))"
proof -
  have w: "writes (ho_written a) a" "writes (ho_written b) b" by (simp_all add: writes_def)
  show "peer_inv (ho_written a) (cfg_isn cfg_a) (ho_peer a)"
    using connection_sends [OF assms(1,3)] w by (simp add: sends_def)
  show rcv: "receiver_inv (ho_written a) (cfg_isn cfg_a) (tp_receiver (ho_peer b))"
    using connection_stream(1) [OF assms(1-3) w(1)] .
  show "ack_pos (tp_receiver (ho_peer b)) \<le> next_of (ho_peer a)"
    using connection_in_step [OF assms(1,3,2)] w received_by_ack [OF rcv] by (simp add: in_step_def)
  show "sound (ho_peer a) \<Longrightarrow> left_edge (tp_sender (ho_peer a)) \<le> ack_pos (tp_receiver (ho_peer b))"
    using connection_acks [OF assms(1,3,4,2)] w by (simp add: acks_covered_def sound_def has_error_def)
qed

lemma round_trip_effect:
  assumes conn: "connection cfg_a cfg_b a b"
    and caps: "unat (cfg_recv_capacity cfg_a) < 2 ^ 63" "unat (cfg_recv_capacity cfg_b) < 2 ^ 63"
    and small: "length (ho_written a) + 2 < 2 ^ 31" "length (ho_written b) + 2 < 2 ^ 31"
    and act: "peer_active (ho_peer a)" "peer_active (ho_peer b)"
    and out: "sn_outstanding (tp_sender (ho_peer a)) = m # ms"
    and t: "sn_RTO (tp_sender (ho_peer a)) \<le> sn_timer (tp_sender (ho_peer a)) + t"
    and few: "sn_consecutive (tp_sender (ho_peer a)) + 1 \<noteq> 0"
    and room: "length (sm_payload m) \<le> unat (available_capacity (inbound_stream b))"
    and bare: "sm_SYN m \<Longrightarrow> rv_received_SYN (tp_receiver (ho_peer b)) \<Longrightarrow> sm_payload m = [] \<and> \<not> sm_FIN m"
  shows "\<exists>a' b'. round_trip t (a, b) = (a', b')
    \<and> left_edge (tp_sender (ho_peer a)) + seq_len m \<le> ack_pos (tp_receiver (ho_peer b'))
    \<and> left_edge (tp_sender (ho_peer a)) + seq_len m \<le> left_edge (tp_sender (ho_peer a'))
    \<and> sn_consecutive (tp_sender (ho_peer a')) = 0
    \<and> (sn_outstanding (tp_sender (ho_peer a')) \<noteq> [] \<or> bs_stream (outbound_stream a') = [])
    \<and> sound (ho_peer a') \<and> sound (ho_peer b')
    \<and> ho_written a' = ho_written a \<and> ho_written b' = ho_written b \<and> ho_read b' = ho_read b"
proof -
  let ?S = "ho_written a" and ?T = "ho_written b" and ?e = "left_edge (tp_sender (ho_peer a))"
  note ends = connection_ends [OF conn caps(2) small] connection_ends [OF connection_swap [OF conn] caps(1) small(2,1)]
  note noted = connection_reset_noted [OF conn]
  note tick = tick_resends [OF ends(1) act(1) out t]
  define a1 where "a1 = host_act a (Net_tick t)"
  have a1: "connection cfg_a cfg_b a1 b" unfolding a1_def by (rule connection_left [OF conn]) (simp add: few)
  have sent1: "ho_sent a1 = ho_sent a @ [with_ack (tp_receiver (ho_peer a)) m]" and
    written1: "ho_written a1 = ?S" and peer1: "ho_peer a1 = peer_step (ho_peer a) (Net_tick t)"
    using tick(1) by (simp_all add: a1_def)
  have m: "0 < seq_len m" "seq_len m < 2 ^ 64" "\<not> sm_RST m"
    using tick(2) small(1) placed_no_reset [OF tick(2)] by (simp_all add: placed_at_def)
  let ?ack = "tcp_receiver_send (tp_receiver (ho_peer a))"
  have ack: "\<not> rm_RST ?ack" using active_no_reset act(1) noted by blast
  let ?to_b = "Net_receive \<lparr>tm_sender = Owned m, tm_receiver = Owned ?ack\<rparr>"
  define b1 where "b1 = host_act b ?to_b"
  have right: "to_right (a1, b) = (a1, b1)"
    using received_plain [OF m(3) ack] by (simp add: to_right_def sent1 b1_def)
  then have "connected cfg_a cfg_b (a1, b1)"
    using connected_to_right [of cfg_a cfg_b "(a1, b)"] a1 by (simp add: connected_def)
  then have b1: "connection cfg_a cfg_b a1 b1" by (simp add: connected_def)
  let ?r = "tp_receiver (ho_peer b1)"
  have r: "?r = tp_receiver (peer_step (ho_peer b) ?to_b)" by (simp add: b1_def)
  from segment_answered [OF ends(5) act(2) _ m ack] noted obtain xs m'
    where ans: "tcp_receiver_receive (tp_receiver (ho_peer b)) m = Some ?r" "\<not> rm_RST (tcp_receiver_send ?r)"
      "peer_out (ho_peer b) ?to_b = xs @ [with_ack ?r m']" "\<not> sm_RST m'"
    unfolding r by blast
  have cover: "?e + seq_len m \<le> ack_pos ?r"
    using receive_covers [OF ends(2) small(1) tick(2) ends(4) [OF active_sound [OF act(1)]] _ bare ans(1)] room by simp
  have written2: "length (ho_written b1) + 2 < 2 ^ 31" using small(2) by (simp add: b1_def)
  have small1: "length (ho_written a1) + 2 < 2 ^ 31" using small(1) by (simp add: written1)
  note ends1 = connection_ends [OF b1 caps(2) small1 written2]
  have "rv_received_SYN ?r" using cover m(1) by (auto simp: ack_pos_def split: if_splits)
  then have "rm_ackno (tcp_receiver_send ?r) = Some (wrap (of_nat (ack_pos ?r)) (cfg_isn cfg_a))"
    using ackno_pos [OF ends1(2)] connection_sane [OF b1] by (auto simp: receiver_sane_def tcp_receiver_send_def)
  have "probing (tp_sender (ho_peer a1))"
    using connection_probing [OF b1 small1] active_no_error [OF tick(5)] by (simp add: writes_def peer1)
  note adv = answer_advances [OF ends1(1) _ _ _ ends1(3) \<open>rm_ackno _ = _\<close> ans(2) this refl, unfolded peer1, OF tick(5,4), unfolded tick(3), OF cover]
  have "ho_sent b1 = ho_sent b @ xs @ [with_ack ?r m']" using ans(3) by (simp add: b1_def)
  then have left: "to_left (a1, b1)
      = (host_act a1 (Net_receive \<lparr>tm_sender = Owned m', tm_receiver = Owned (tcp_receiver_send ?r)\<rparr>), b1)"
    using received_plain [OF ans(4,2)] by (simp add: to_left_def to_right_def)
  have act1: "peer_active (ho_peer a1)" using tick(5) by (simp add: peer1)
  note sound_a = sound_receive [OF ends1(1) act1 ans(4,2)] and sound_b = sound_receive [OF ends(5) act(2) m(3) ack]
  have "round_trip t (a, b)
      = (host_act a1 (Net_receive \<lparr>tm_sender = Owned m', tm_receiver = Owned (tcp_receiver_send ?r)\<rparr>), b1)"
    by (simp only: round_trip_def prod.case left right flip: a1_def)
  then show ?thesis
    using cover adv sound_a sound_b by (simp add: peer1 written1) (simp add: b1_def)
qed

section \<open>Everything written can still arrive\<close>

text \<open>
  A state in which the left host can go on: its SYN is acknowledged, no stream has an error, and if
  there is something to send, something is in flight.
\<close>

definition goes_on :: "Host \<Rightarrow> Host \<Rightarrow> bool" where
  "goes_on a b \<longleftrightarrow> sound (ho_peer a) \<and> sound (ho_peer b) \<and> 0 < left_edge (tp_sender (ho_peer a))
     \<and> sn_consecutive (tp_sender (ho_peer a)) + 1 \<noteq> 0
     \<and> (sn_outstanding (tp_sender (ho_peer a)) \<noteq> [] \<or> bs_stream (outbound_stream a) = [])"

text \<open>The application at the right host reads all that is there.\<close>

abbreviation read_all :: "Host \<Rightarrow> Host" where
  "read_all b \<equiv> host_act b (App_read (- 1))"

lemma read_all_effect:
  assumes "receiver_inv S isn (tp_receiver (ho_peer b))"
  shows "ho_read (read_all b) = ho_read b @ reader_peek (inbound_stream b)"
    and "ho_written (read_all b) = ho_written b" and "sound (ho_peer (read_all b)) = sound (ho_peer b)"
    and "bs_stream (inbound_stream (read_all b)) = []"
    and "assembled (rv_reassembler (tp_receiver (ho_peer (read_all b)))) = assembled (rv_reassembler (tp_receiver (ho_peer b)))"
    and "bs_closed (inbound_stream (read_all b)) = bs_closed (inbound_stream b)"
proof -
  have bs: "bs_inv (inbound_stream b)" using assms ra_inv_bs by (auto simp: receiver_inv_def)
  have all: "length (bs_stream (inbound_stream b)) \<le> unat (- 1 :: u64)"
    using bs_inv_fits [OF bs] by (simp add: fits_def unsigned_minus_1_eq_mask mask_eq_exp_minus_1)
  show "ho_read (read_all b) = ho_read b @ reader_peek (inbound_stream b)"
    using all by (simp add: reader_peek_def)
  show "ho_written (read_all b) = ho_written b" by simp
  show "sound (ho_peer (read_all b)) = sound (ho_peer b)"
    by (simp add: sound_def has_error_def peer_step_def on_inbound_def tcp_receiver_pop_def reassembler_pop_def)
  show "bs_stream (inbound_stream (read_all b)) = []"
    using all reader_pop_all [OF bs, of "- 1"] by (simp add: peer_step_def on_inbound_def tcp_receiver_pop_def reassembler_pop_def)
  show "assembled (rv_reassembler (tp_receiver (ho_peer (read_all b)))) = assembled (rv_reassembler (tp_receiver (ho_peer b)))"
    "bs_closed (inbound_stream (read_all b)) = bs_closed (inbound_stream b)"
    using pop_effect(1,4) [OF bs] by (simp_all add: peer_step_def on_inbound_def tcp_receiver_pop_def)
qed

text \<open>Nothing in flight and nothing to send: everything written is acknowledged, so it was received.\<close>

lemma all_acknowledged:
  assumes inv: "peer_inv S isn (ho_peer a)" and sound: "sound (ho_peer a)" and written: "ho_written a = S"
    and snt: "sends S isn a"
    and edge: "0 < left_edge (tp_sender (ho_peer a))"
    and "sn_outstanding (tp_sender (ho_peer a)) = []" and "bs_stream (outbound_stream a) = []"
  shows "length S + 1 \<le> left_edge (tp_sender (ho_peer a))"
proof -
  let ?s = "tp_sender (ho_peer a)"
  have core: "core S isn ?s" using inv sound by (simp add: peer_inv_def sender_inv_def sound_def has_error_def)
  have "sn_bytes_unack ?s = 0" using coreD(7) [OF core] assms(6) by (simp add: unat_eq_0)
  then have "left_edge ?s = next_of (ho_peer a)" by (simp add: left_edge_def)
  moreover have "sn_syn_sent ?s"
    using calculation edge coreD(3-6) [OF core] by (cases "sn_syn_sent ?s") auto
  moreover have "unat (bs_popped (sn_input ?s)) = length S"
    using input_okD(3) [OF coreD(1) [OF core]] assms(7) sends_input(2) [OF snt] written by simp
  ultimately show ?thesis using coreD(6) [OF core] by simp
qed

lemma connection_peer_sane:
  "connection cfg_a cfg_b a b \<Longrightarrow> peer_sane cfg_a (ho_peer a) \<and> peer_sane cfg_b (ho_peer b)"
proof (induction rule: connection_induct)
  case start
  show ?case by (simp add: host_def peer_sane_init)
qed (simp_all add: peer_sane_step possible_owned)

lemma goes_on_arrives:
  assumes "connection cfg_a cfg_b a b" and "goes_on a b"
    and "unat (cfg_recv_capacity cfg_a) < 2 ^ 63" and "unat (cfg_recv_capacity cfg_b) < 2 ^ 63"
    and "1000 \<le> unat (cfg_recv_capacity cfg_b)"
    and "length (ho_written a) + 2 < 2 ^ 31" and "length (ho_written b) + 2 < 2 ^ 31"
  shows "\<exists>a' b'. conn_step\<^sup>*\<^sup>* (a, b) (a', b') \<and> ho_written a' = ho_written a \<and> ho_written b' = ho_written b
    \<and> ho_read b' = ho_written a"
  using assms(1,2,6,7)
proof (induction "length (ho_written a) + 2 - left_edge (tp_sender (ho_peer a))" arbitrary: a b rule: less_induct)
  case less
  note conn = less(2) and go = less(3) and small = less(4,5)
  let ?S = "ho_written a" and ?s = "tp_sender (ho_peer a)"
  define b0 where "b0 = read_all b"
  have w: "writes ?S a" by (simp add: writes_def)
  note st = connection_stream [OF conn assms(4) small(1) w] and snt = connection_sends [OF conn small(1)]
  note rd = read_all_effect [OF st(1), folded b0_def]
  have conn0: "connection cfg_a cfg_b a b0" unfolding b0_def by (rule connection_right [OF conn]) simp
  have step0: "conn_step\<^sup>*\<^sup>* (a, b) (a, b0)"
    unfolding b0_def by (rule r_into_rtranclp) (rule conn_step.right, simp)
  have small0: "length (ho_written b0) + 2 < 2 ^ 31" using small(2) by (simp add: rd(2))
  note ends = connection_ends [OF conn0 assms(4) small(1) small0]
  have read0: "ho_read b0 = take (assembled (rv_reassembler (tp_receiver (ho_peer b)))) ?S" using rd(1) st(2) by simp
  show ?case
  proof (cases "assembled (rv_reassembler (tp_receiver (ho_peer b))) = length ?S")
    case True
    then show ?thesis using step0 read0 rd(2) by auto
  next
    case False
    have soundab: "sound (ho_peer a)" "sound (ho_peer b0)" and edge: "0 < left_edge ?s"
      and few: "sn_consecutive ?s + 1 \<noteq> 0"
      using go rd(3) by (simp_all add: goes_on_def)
    have open0: "\<not> writer_is_closed (inbound_stream b0)"
      using False st(3) rd(6) by (auto simp: writer_is_closed_def)
    have actb: "peer_active (ho_peer b0)"
      using soundab(2) open0 by (simp add: peer_active_def sound_def)
    have core: "core ?S (cfg_isn cfg_a) ?s"
      using ends(1) soundab(1) by (simp add: peer_inv_def sender_inv_def sound_def has_error_def)
    have "sn_outstanding ?s \<noteq> []"
    proof
      assume none: "sn_outstanding ?s = []"
      then have "length ?S + 1 \<le> left_edge ?s"
        using all_acknowledged [OF ends(1) soundab(1) refl _ edge none] snt w go by (simp add: goes_on_def)
      also have "left_edge ?s \<le> 1 + assembled (rv_reassembler (tp_receiver (ho_peer b0)))"
        using ends(4) [OF soundab(1)] open0 by (simp add: ack_pos_def split: if_splits)
      finally show False using ends(2) False rd(5) by (simp add: receiver_inv_def ra_inv_def)
    qed
    then obtain m ms where out: "sn_outstanding ?s = m # ms" by (cases "sn_outstanding ?s") auto
    have pl: "placed_at ?S (cfg_isn cfg_a) (left_edge ?s) m" using coreD(9) [OF core] out by (simp add: left_edge_def)
    then have m: "\<not> sm_SYN m" "length (sm_payload m) \<le> 1000" "0 < seq_len m" using edge by (simp_all add: placed_at_def)
    have "0 < unat (sn_bytes_unack ?s)" using coreD(7) [OF core] out m(3) by simp
    then have "sn_bytes_unack ?s \<noteq> 0" by auto
    then have acta: "peer_active (ho_peer a)"
      using soundab(1) by (simp add: peer_active_def sound_def sequence_numbers_in_flight_def Let_def)
    have room: "length (sm_payload m) \<le> unat (available_capacity (inbound_stream b0))"
    proof -
      have "peer_sane cfg_b (ho_peer b0)" using connection_peer_sane [OF conn0] by simp
      then show ?thesis using within_available rd(4) m(2) assms(5) by (fastforce simp: peer_sane_def)
    qed
    have t: "sn_RTO ?s \<le> sn_timer ?s + (sn_RTO ?s - sn_timer ?s)" by simp
    obtain a' b' where trip: "round_trip (sn_RTO ?s - sn_timer ?s) (a, b0) = (a', b')"
      "left_edge ?s + seq_len m \<le> left_edge (tp_sender (ho_peer a'))" "goes_on a' b'"
      "ho_written a' = ?S" "ho_written b' = ho_written b0"
      using round_trip_effect [OF conn0 assms(3,4) small(1) small0 acta actb out t few room] m(1,3) edge
      by (auto simp: goes_on_def)
    have steps: "conn_step\<^sup>*\<^sup>* (a, b) (a', b')"
      using rtranclp_trans [OF step0] round_trip_steps [OF few, of b0] trip(1) by metis
    have conn': "connection cfg_a cfg_b a' b'" by (rule connection_steps [OF conn steps])
    have "left_edge ?s \<le> length ?S + 1" using pl m(3) by (simp add: placed_at_def)
    then have "length (ho_written a') + 2 - left_edge (tp_sender (ho_peer a')) < length ?S + 2 - left_edge ?s"
      using trip(2,4) m(3) by simp
    then obtain a'' b'' where "conn_step\<^sup>*\<^sup>* (a', b') (a'', b'')" "ho_written a'' = ho_written a'"
      "ho_written b'' = ho_written b'" "ho_read b'' = ho_written a'"
      using less(1) [OF _ conn' trip(3)] small trip(4,5) rd(2) by auto
    then show ?thesis using rtranclp_trans [OF steps] trip(4,5) rd(2) by auto
  qed
qed

text \<open>A \<open>push\<close> brings a host there.\<close>

lemma push_goes_on:
  assumes conn: "connection cfg_a cfg_b a b" and small: "length (ho_written a) + 2 < 2 ^ 31"
    and sound: "sound (ho_peer a)" "sound (ho_peer b)" and edge: "0 < left_edge (tp_sender (ho_peer a))"
    and few: "sn_consecutive (tp_sender (ho_peer a)) + 1 \<noteq> 0"
  shows "goes_on (host_act a Net_push) b"
proof -
  let ?s = "tp_sender (ho_peer a)" and ?S = "ho_written a"
  have w: "writes ?S a" by (simp add: writes_def)
  have inv: "peer_inv ?S (cfg_isn cfg_a) (ho_peer a)" using connection_sends [OF conn small] w by (simp add: sends_def)
  have noerr: "\<not> bs_error (sn_input ?s)" using sound(1) by (simp add: sound_def has_error_def)
  then have core: "core ?S (cfg_isn cfg_a) ?s" using inv by (simp add: peer_inv_def sender_inv_def)
  have pr: "probing ?s" using connection_probing [OF conn small] w noerr by blast
  note rest = push_data_rest [OF core small pr]
  have eq: "tp_sender (ho_peer (host_act a Net_push)) = fst (push_data ?s)"
    "tp_receiver (ho_peer (host_act a Net_push)) = tp_receiver (ho_peer a)"
    using noerr by (simp_all add: peer_step_def peer_push_eq send_step_def tcp_sender_push_def has_error_def)
  obtain s' ms where "push_data ?s = (s', ms)" "extends ?S (cfg_isn cfg_a) ?s s' ms"
    using push_data_ok [OF core] by blast
  then have "left_edge (fst (push_data ?s)) = left_edge ?s" "\<not> bs_error (sn_input (fst (push_data ?s)))"
    using extends_edge [OF core] noerr by (simp_all add: extends_def)
  then show ?thesis
    using rest sound edge few unfolding goes_on_def sound_def eq has_error_def by simp
qed

section \<open>Properties\<close>

text \<open>The right host has answered the SYN, and the two bytes of the left one have not arrived.\<close>

definition demo_config :: TCPConfig where
  "demo_config = tcp_config\<lparr>cfg_recv_capacity := 1000, cfg_send_capacity := 4\<rparr>"

definition demo_lost :: "Host \<times> Host" where
  "demo_lost = to_left (to_right (host_act (host_act (host demo_config) (App_write [1, 2])) Net_push, host demo_config))"

definition demo_waits :: "Host \<times> Host \<Rightarrow> bool" where
  "demo_waits = (\<lambda>(a, b). let s = tp_sender (ho_peer a) in
     sound (ho_peer a) \<and> sound (ho_peer b) \<and> ho_written a = [1, 2] \<and> ho_written b = [] \<and> peer_active (ho_peer a) \<and> peer_active (ho_peer b)
     \<and> map sm_payload (sn_outstanding s) = [[1, 2]] \<and> \<not> sm_SYN (hd (sn_outstanding s)) \<and> \<not> sm_FIN (hd (sn_outstanding s))
     \<and> sn_RTO s \<le> sn_timer s + 1000 \<and> sn_consecutive s = 0 \<and> left_edge s = 1
     \<and> available_capacity (inbound_stream b) = 1000)"

lemma demo_lost_waits: "demo_waits demo_lost"
  by code_simp

lemma demo_lost_connected: "connected demo_config demo_config demo_lost"
proof -
  have "connected demo_config demo_config (host_act (host_act (host demo_config) (App_write [1, 2])) Net_push, host demo_config)"
    by (simp add: connected_def) (intro connection_left; simp add: connection_def fits_def)
  then show ?thesis unfolding demo_lost_def by (intro connected_to_left connected_to_right)
qed

text \<open>
  C7: losses are repaired. In any state of a connection whose two ends are active, with receive
  capacities below \<open>2 ^ 63\<close> and fewer than \<open>2 ^ 31 - 2\<close> bytes written on either side, let a tick
  of the left host reach the retransmission timeout, its 64-bit count of retransmissions not being
  at its maximum. If the message it then sends and the last message of the
  answer get through, whatever else was lost, repeated or reordered before, then the oldest outstanding
  segment has been received and is acknowledged: the receiver waits for what follows it, and
  the left edge of the sender's flight has moved past it. The segment has to fit the free capacity
  of the receiver; a SYN that carries data must be new to it.
\<close>
theorem retransmission_recovers:
  assumes "connection cfg_a cfg_b a b"
    and "unat (cfg_recv_capacity cfg_a) < 2 ^ 63" and "unat (cfg_recv_capacity cfg_b) < 2 ^ 63"
    and "length (ho_written a) + 2 < 2 ^ 31" and "length (ho_written b) + 2 < 2 ^ 31"
    and "peer_active (ho_peer a)" and "peer_active (ho_peer b)"
    and "sn_outstanding (tp_sender (ho_peer a)) = m # ms"
    and "sn_RTO (tp_sender (ho_peer a)) \<le> sn_timer (tp_sender (ho_peer a)) + t"
    and "sn_consecutive (tp_sender (ho_peer a)) + 1 \<noteq> 0"
    and "length (sm_payload m) \<le> unat (available_capacity (inbound_stream b))"
    and "sm_SYN m \<Longrightarrow> rv_received_SYN (tp_receiver (ho_peer b)) \<Longrightarrow> sm_payload m = [] \<and> \<not> sm_FIN m"
  shows "\<exists>a' b'. round_trip t (a, b) = (a', b') \<and> connection cfg_a cfg_b a' b'
    \<and> left_edge (tp_sender (ho_peer a)) + seq_len m \<le> ack_pos (tp_receiver (ho_peer b'))
    \<and> left_edge (tp_sender (ho_peer a)) + seq_len m \<le> left_edge (tp_sender (ho_peer a'))"
proof -
  obtain a' b' where trip: "round_trip t (a, b) = (a', b')"
    "left_edge (tp_sender (ho_peer a)) + seq_len m \<le> ack_pos (tp_receiver (ho_peer b'))"
    "left_edge (tp_sender (ho_peer a)) + seq_len m \<le> left_edge (tp_sender (ho_peer a'))"
    using round_trip_effect [OF assms] by blast
  moreover have "connection cfg_a cfg_b a' b'"
    using connection_steps [OF assms(1)] round_trip_steps [OF assms(10), of b t] unfolding trip(1) .
  ultimately show ?thesis by blast
qed

theorem retransmission_recovers_witness:
  "3 \<le> left_edge (tp_sender (ho_peer (fst (round_trip 1000 demo_lost))))"
proof -
  obtain a b where c: "demo_lost = (a, b)" by (cases demo_lost)
  have w: "ho_written a = [1, 2]" "ho_written b = []" "peer_active (ho_peer a)" "peer_active (ho_peer b)"
    "map sm_payload (sn_outstanding (tp_sender (ho_peer a))) = [[1, 2]]"
    "\<not> sm_SYN (hd (sn_outstanding (tp_sender (ho_peer a))))"
    "\<not> sm_FIN (hd (sn_outstanding (tp_sender (ho_peer a))))"
    "sn_RTO (tp_sender (ho_peer a)) \<le> sn_timer (tp_sender (ho_peer a)) + 1000"
    "sn_consecutive (tp_sender (ho_peer a)) = 0" "left_edge (tp_sender (ho_peer a)) = 1"
    "available_capacity (inbound_stream b) = 1000"
    using demo_lost_waits by (simp_all add: demo_waits_def c Let_def)
  obtain m where m: "sn_outstanding (tp_sender (ho_peer a)) = [m]" "sm_payload m = [1, 2]" using w(5) by auto
  have "connection demo_config demo_config a b" using demo_lost_connected by (simp add: c connected_def)
  from retransmission_recovers [OF this _ _ _ _ w(3,4) m(1) w(8)] show ?thesis
    using w m by (auto simp: c seq_len_def demo_config_def tcp_config_def)
qed

text \<open>
  C6: everything written can always still arrive. Let a connection, with receive capacities below
  \<open>2 ^ 63\<close>, be in any state it can get into before an application has written \<open>2 ^ 31 - 2\<close> bytes,
  whatever was lost, repeated or reordered and however full the receiver is. If no stream has an
  error, the SYN of the left host is acknowledged and its 64-bit count of retransmissions is not
  at its maximum, then there is a continuation in which the applications write nothing and after
  which the right one has read all that the left one wrote; no such state is a dead end, also not
  behind a closed window. The receiver's capacity has to admit a segment of maximal size.
\<close>
theorem everything_can_arrive:
  assumes "connection cfg_a cfg_b a b"
    and "unat (cfg_recv_capacity cfg_a) < 2 ^ 63" and "unat (cfg_recv_capacity cfg_b) < 2 ^ 63"
    and "MAX_PAYLOAD_SIZE \<le> cfg_recv_capacity cfg_b"
    and "length (ho_written a) + 2 < 2 ^ 31" and "length (ho_written b) + 2 < 2 ^ 31"
    and "\<not> has_error (outbound_stream a)" and "\<not> has_error (inbound_stream a)"
    and "\<not> has_error (outbound_stream b)" and "\<not> has_error (inbound_stream b)"
    and "0 < left_edge (tp_sender (ho_peer a))"
    and "consecutive_retransmissions (tp_sender (ho_peer a)) + 1 \<noteq> 0"
  shows "\<exists>a' b'. conn_step\<^sup>*\<^sup>* (a, b) (a', b') \<and> ho_written a' = ho_written a \<and> ho_written b' = ho_written b
    \<and> ho_read b' = ho_written a"
proof -
  let ?a = "host_act a Net_push"
  have cap: "1000 \<le> unat (cfg_recv_capacity cfg_b)"
    using assms(4) by (simp add: MAX_PAYLOAD_SIZE_def word_le_nat_alt)
  have "goes_on ?a b"
    using push_goes_on [OF assms(1,5)] assms(7-12) by (simp add: sound_def consecutive_retransmissions_def)
  moreover have "connection cfg_a cfg_b ?a b" by (rule connection_left [OF assms(1)]) simp
  ultimately obtain a' b' where "conn_step\<^sup>*\<^sup>* (?a, b) (a', b')" "ho_written a' = ho_written a"
    "ho_written b' = ho_written b" "ho_read b' = ho_written a"
    using goes_on_arrives [OF _ _ assms(2,3) cap, of ?a b] assms(5,6) by auto
  moreover have "conn_step (a, b) (?a, b)" by (rule conn_step.left) simp
  ultimately show ?thesis using converse_rtranclp_into_rtranclp by metis
qed

theorem everything_can_arrive_witness:
  "\<exists>a' b'. conn_step\<^sup>*\<^sup>* demo_lost (a', b') \<and> ho_read b' = [1, 2]"
proof -
  obtain a b where c: "demo_lost = (a, b)" by (cases demo_lost)
  have w: "sound (ho_peer a)" "sound (ho_peer b)" "ho_written a = [1, 2]" "ho_written b = []"
    "sn_consecutive (tp_sender (ho_peer a)) = 0" "left_edge (tp_sender (ho_peer a)) = 1"
    using demo_lost_waits by (simp_all add: demo_waits_def c Let_def)
  have "connection demo_config demo_config a b" using demo_lost_connected by (simp add: c connected_def)
  from everything_can_arrive [OF this] show ?thesis
    using w by (auto simp: c sound_def consecutive_retransmissions_def MAX_PAYLOAD_SIZE_def demo_config_def tcp_config_def)
qed

end
