(* ===== verification/File_Descriptor.thy ===== *)
theory File_Descriptor
  imports Ref
begin

text \<open>
  \<open>util/file_descriptor.hh\<close> and \<open>util/file_descriptor.cc\<close>: the state shared by the
  handles of a kernel file descriptor and the operations that keep it. The system calls are
  arguments: their value is what the kernel returns and, for a read, the bytes it stored.
  \<open>None\<close> is an exception. The handles themselves, with their copies, moves and destruction,
  are in the theory \<open>Descriptor_Handles\<close>.
\<close>

text \<open>
  A call's outcome: a result, the error numbers \<open>EAGAIN\<close> and \<open>EINPROGRESS\<close>, or any other
  error.
\<close>

datatype 'a syscall = Done 'a | Would_block | Failed

record FDWrapper =
  fd_num :: int
  fd_eof :: bool
  fd_closed :: bool
  fd_non_blocking :: bool
  fd_read_count :: u32
  fd_write_count :: u32

text \<open>\<open>CheckSystemCall\<close>: \<open>nothing\<close> is its result 0 when the call would block.\<close>

definition check_system_call :: "'a \<Rightarrow> FDWrapper \<Rightarrow> 'a syscall \<Rightarrow> 'a option" where
  "check_system_call nothing w r =
     (case r of Done x \<Rightarrow> Some x
      | Would_block \<Rightarrow> if fd_non_blocking w then Some nothing else None
      | Failed \<Rightarrow> None)"

text \<open>The constructor: \<open>fcntl\<close> tells whether the descriptor is non-blocking.\<close>

definition fd_wrapper :: "bool syscall \<Rightarrow> int \<Rightarrow> FDWrapper option" where
  "fd_wrapper getfl fd =
     (let w = \<lparr>fd_num = fd, fd_eof = False, fd_closed = False, fd_non_blocking = False,
               fd_read_count = 0, fd_write_count = 0\<rparr>
      in if fd < 0 then None
         else do { non_blocking \<leftarrow> check_system_call False w getfl;
                   Some (w\<lparr>fd_non_blocking := non_blocking\<rparr>) })"

definition fd_close :: "unit syscall \<Rightarrow> FDWrapper \<Rightarrow> FDWrapper option" where
  "fd_close r w =
     do { _ \<leftarrow> check_system_call () w r; Some (w\<lparr>fd_eof := True, fd_closed := True\<rparr>) }"

definition set_eof :: "FDWrapper \<Rightarrow> FDWrapper" where
  "set_eof w = w\<lparr>fd_eof := True\<rparr>"

definition register_read :: "FDWrapper \<Rightarrow> FDWrapper" where
  "register_read w = w\<lparr>fd_read_count := fd_read_count w + 1\<rparr>"

definition register_write :: "FDWrapper \<Rightarrow> FDWrapper" where
  "register_write w = w\<lparr>fd_write_count := fd_write_count w + 1\<rparr>"

definition kReadBufferSize :: nat where
  "kReadBufferSize = 16384"

text \<open>
  \<open>read(string&)\<close>: the call gets the size of the buffer, and the buffer becomes the bytes read.
\<close>

definition read_size :: "byte list \<Rightarrow> nat" where
  "read_size buffer = (if buffer = [] then kReadBufferSize else length buffer)"

definition fd_read :: "(nat \<Rightarrow> byte list syscall) \<Rightarrow> byte list \<Rightarrow> FDWrapper \<Rightarrow> (FDWrapper \<times> byte list) option" where
  "fd_read sys_read buffer w =
     (let size = read_size buffer
      in case sys_read size of
           Failed \<Rightarrow> None
         | Would_block \<Rightarrow> if fd_non_blocking w then Some (w, []) else None
         | Done bytes \<Rightarrow>
             let w = register_read w; w = (if bytes = [] then set_eof w else w)
             in if length bytes > size then None else Some (w, bytes))"

text \<open>
  \<open>read(vector<string>&)\<close>: the last buffer is resized, the bytes fill the buffers in order,
  and the buffers behind them are cut.
\<close>

fun scatter :: "byte list \<Rightarrow> byte list list \<Rightarrow> byte list list" where
  "scatter bytes [] = []"
| "scatter bytes (buf # bufs) =
     (take (length buf) bytes @ drop (length bytes) buf) # scatter (drop (length buf) bytes) bufs"

fun cut_buffers :: "nat \<Rightarrow> byte list list \<Rightarrow> byte list list" where
  "cut_buffers remaining_size [] = []"
| "cut_buffers remaining_size (buf # bufs) =
     (if remaining_size \<ge> length buf then buf # cut_buffers (remaining_size - length buf) bufs
      else take remaining_size buf # cut_buffers 0 bufs)"

definition fd_read_vector ::
    "(nat list \<Rightarrow> byte list syscall) \<Rightarrow> byte list list \<Rightarrow> FDWrapper \<Rightarrow> (FDWrapper \<times> byte list list) option" where
  "fd_read_vector sys_readv buffers w =
     (if buffers = [] then Some (w, [])
      else
        let buffers = butlast buffers @ [replicate kReadBufferSize 0];
            total_size = sum_list (map length buffers)
        in case sys_readv (map length buffers) of
             Failed \<Rightarrow> None
           | Would_block \<Rightarrow> if fd_non_blocking w then Some (w, []) else None
           | Done bytes \<Rightarrow>
               if length bytes > total_size then None
               else Some (register_read w, cut_buffers (length bytes) (scatter bytes buffers)))"

text \<open>\<open>write(const vector<string_view>&)\<close> and the two calls that end there.\<close>

definition fd_write_views :: "(byte list list \<Rightarrow> nat syscall) \<Rightarrow> byte list list \<Rightarrow> FDWrapper \<Rightarrow> (FDWrapper \<times> nat) option" where
  "fd_write_views sys_writev buffers w =
     (let total_size = sum_list (map length buffers)
      in do { bytes_written \<leftarrow> check_system_call 0 w (sys_writev buffers);
              w \<leftarrow> Some (register_write w);
              (if bytes_written = 0 \<and> total_size \<noteq> 0 then None
               else if bytes_written > total_size then None
               else Some (w, bytes_written)) })"

definition fd_write :: "(byte list list \<Rightarrow> nat syscall) \<Rightarrow> byte list \<Rightarrow> FDWrapper \<Rightarrow> (FDWrapper \<times> nat) option" where
  "fd_write sys_writev buffer w = fd_write_views sys_writev [buffer] w"

definition fd_write_refs :: "(byte list list \<Rightarrow> nat syscall) \<Rightarrow> byte list Ref list \<Rightarrow> FDWrapper \<Rightarrow> (FDWrapper \<times> nat) option" where
  "fd_write_refs sys_writev buffers w = fd_write_views sys_writev (map ref_get buffers) w"

text \<open>The two calls of \<open>fcntl\<close> read and store whether the descriptor is non-blocking.\<close>

definition set_blocking :: "bool syscall \<Rightarrow> (bool \<Rightarrow> unit syscall) \<Rightarrow> bool \<Rightarrow> FDWrapper \<Rightarrow> FDWrapper option" where
  "set_blocking getfl setfl blocking w =
     do { _ \<leftarrow> check_system_call False w getfl;
          _ \<leftarrow> check_system_call () w (setfl (\<not> blocking));
          Some (w\<lparr>fd_non_blocking := \<not> blocking\<rparr>) }"

section \<open>Reading and writing\<close>

text \<open>A read that returns has stored what the kernel delivered, up to the size of the buffer.\<close>

lemma fd_read_done:
  assumes "fd_read sys buffer w = Some (w', bytes)"
  shows "length bytes \<le> (if buffer = [] then kReadBufferSize else length buffer)"
    and "fd_eof w' \<longleftrightarrow> fd_eof w \<or> (bytes = [] \<and> fd_read_count w' \<noteq> fd_read_count w)"
    and "bytes \<noteq> [] \<Longrightarrow> fd_read_count w' = fd_read_count w + 1"
  using assms by (auto simp: fd_read_def read_size_def Let_def register_read_def set_eof_def split: syscall.splits if_splits)

text \<open>The buffers of a scattered read hold exactly the bytes read.\<close>

lemma cut_0: "concat (cut_buffers 0 bufs) = []"
  by (induction bufs) auto

lemma cut_scatter:
  "length bytes \<le> sum_list (map length bufs) \<Longrightarrow> concat (cut_buffers (length bytes) (scatter bytes bufs)) = bytes"
proof (induction bytes bufs rule: scatter.induct)
  case (2 bytes buf bufs)
  have len: "length (take (length buf) bytes @ drop (length bytes) buf) = length buf" by simp
  show ?case
  proof (cases "length buf \<le> length bytes")
    case True
    then show ?thesis using 2 by simp
  qed (simp add: cut_0)
qed simp

text \<open>
  The same as dealing out the bytes, the last buffer getting what is left; examples are evaluated
  with this equation, which does not build the buffers.
\<close>

fun deal :: "byte list \<Rightarrow> nat list \<Rightarrow> byte list list" where
  "deal bytes [] = [bytes]"
| "deal bytes (n # ns) = take n bytes # deal (drop n bytes) ns"

lemma cut_empty: "cut_buffers 0 bufs = replicate (length bufs) []"
  by (induction bufs) auto

lemma deal_empty: "deal [] ns = [] # replicate (length ns) []"
  by (induction ns) auto

lemma length_scatter [simp]: "length (scatter bytes bufs) = length bufs"
  by (induction bytes bufs rule: scatter.induct) auto

lemma cut_scatter_deal:
  "length bytes \<le> sum_list (map length bufs) + n \<Longrightarrow>
     cut_buffers (length bytes) (scatter bytes (bufs @ [replicate n 0])) = deal bytes (map length bufs)"
proof (induction bufs arbitrary: bytes)
  case (Cons buf bufs)
  show ?case
  proof (cases "length buf \<le> length bytes")
    case True
    then show ?thesis using Cons(1) [of "drop (length buf) bytes"] Cons(2) by simp
  qed (simp add: cut_empty deal_empty)
qed (cases bytes; auto)

lemma fd_read_vector_deals [code]:
  "fd_read_vector sys_readv buffers w =
     (if buffers = [] then Some (w, [])
      else case sys_readv (map length (butlast buffers) @ [kReadBufferSize]) of
             Failed \<Rightarrow> None
           | Would_block \<Rightarrow> if fd_non_blocking w then Some (w, []) else None
           | Done bytes \<Rightarrow>
               if int (length bytes) > int (sum_list (map length (butlast buffers))) + 16384 then None
               else Some (register_read w, deal bytes (map length (butlast buffers))))"
  using cut_scatter_deal [of _ "butlast buffers" kReadBufferSize]
  by (auto simp: fd_read_vector_def Let_def kReadBufferSize_def split: syscall.split)

lemma fd_read_vector_done:
  assumes "fd_read_vector (\<lambda>_. Done bytes) buffers w = Some (w', buffers')" and "buffers \<noteq> []"
  shows "concat buffers' = bytes" and "fd_eof w' = fd_eof w"
  using assms by (auto simp: fd_read_vector_def Let_def cut_scatter register_read_def split: if_splits)

text \<open>
  A write to a non-blocking descriptor that cannot take a byte now: \<open>CheckSystemCall\<close> turns
  \<open>EAGAIN\<close> into 0, and \<open>write\<close> then throws.
\<close>

lemma blocked_write_throws:
  "fd_non_blocking w \<Longrightarrow> buffer \<noteq> [] \<Longrightarrow> fd_write (\<lambda>_. Would_block) buffer w = None"
  by (simp add: fd_write_def fd_write_views_def check_system_call_def Let_def)

lemma fd_write_done:
  assumes "fd_write sys buffer w = Some (w', n)"
  shows "n \<le> length buffer" and "buffer \<noteq> [] \<Longrightarrow> 0 < n" and "fd_write_count w' = fd_write_count w + 1"
  using assms by (auto simp: fd_write_def fd_write_views_def check_system_call_def register_write_def Let_def
      split: syscall.splits if_splits)

end
