(* ===== verification/Socket.thy ===== *)
theory Socket
  imports File_Descriptor Address
begin

text \<open>
  \<open>util/socket.hh\<close> and \<open>util/socket.cc\<close>: sockets are file descriptors whose kind the
  constructor has checked, with operations that count as reads and writes of the descriptor. The
  outcomes of the system calls are arguments; a socket of this process and its descriptor are the
  one \<open>FDWrapper\<close>. \<open>None\<close> is an exception. The calls that pass addresses and options to
  the kernel are in the theory \<open>Socket_Calls\<close>.
\<close>

text \<open>The constants of the system, with the values they have on Linux.\<close>

definition SHUT_RD :: int where "SHUT_RD = 0"
definition SHUT_WR :: int where "SHUT_WR = 1"
definition SHUT_RDWR :: int where "SHUT_RDWR = 2"

definition AF_UNIX :: int where "AF_UNIX = 1"
definition AF_INET :: int where "AF_INET = 2"
definition SOCK_STREAM :: int where "SOCK_STREAM = 1"
definition SOCK_DGRAM :: int where "SOCK_DGRAM = 2"
definition IPPROTO_TCP :: int where "IPPROTO_TCP = 6"

datatype SocketOption = SO_DOMAIN | SO_TYPE | SO_PROTOCOL | SO_ERROR

text \<open>
  \<open>getsockopt\<close> for an \<open>int\<close> of four bytes: the call yields a length and a value, and leaves
  both as they are when it does not succeed.
\<close>

definition socket_getsockopt ::
    "(SocketOption \<Rightarrow> (nat \<times> int) syscall) \<Rightarrow> SocketOption \<Rightarrow> int \<Rightarrow> FDWrapper \<Rightarrow> (nat \<times> int) option" where
  "socket_getsockopt sys_getsockopt opt option_value w =
     check_system_call (4, option_value) w (sys_getsockopt opt)"

text \<open>The constructor from a file descriptor: domain, type and protocol are checked in turn.\<close>

definition socket_from_fd ::
    "(SocketOption \<Rightarrow> (nat \<times> int) syscall) \<Rightarrow> int \<Rightarrow> int \<Rightarrow> int \<Rightarrow> FDWrapper \<Rightarrow> FDWrapper option" where
  "socket_from_fd sys_getsockopt domain type protocol w =
     do { (len, v) \<leftarrow> socket_getsockopt sys_getsockopt SO_DOMAIN 0 w;
          (if len \<noteq> 4 \<or> v \<noteq> domain then None
           else do { (len, v) \<leftarrow> socket_getsockopt sys_getsockopt SO_TYPE v w;
                     (if len \<noteq> 4 \<or> v \<noteq> type then None
                      else do { (len, v) \<leftarrow> socket_getsockopt sys_getsockopt SO_PROTOCOL v w;
                                (if len \<noteq> 4 \<or> v \<noteq> protocol then None else Some w) }) }) }"

text \<open>The constructor that makes a socket.\<close>

definition socket_open :: "int syscall \<Rightarrow> bool syscall \<Rightarrow> FDWrapper option" where
  "socket_open sys_socket getfl = (case sys_socket of Done fd \<Rightarrow> fd_wrapper getfl fd | _ \<Rightarrow> None)"

text \<open>The classes of sockets by the kind they ask for.\<close>

definition tcp_socket_from_fd :: "(SocketOption \<Rightarrow> (nat \<times> int) syscall) \<Rightarrow> FDWrapper \<Rightarrow> FDWrapper option" where
  "tcp_socket_from_fd sys_getsockopt = socket_from_fd sys_getsockopt AF_INET SOCK_STREAM IPPROTO_TCP"

definition local_stream_socket :: "(SocketOption \<Rightarrow> (nat \<times> int) syscall) \<Rightarrow> FDWrapper \<Rightarrow> FDWrapper option" where
  "local_stream_socket sys_getsockopt = socket_from_fd sys_getsockopt AF_UNIX SOCK_STREAM 0"

definition socket_shutdown :: "(int \<Rightarrow> unit syscall) \<Rightarrow> int \<Rightarrow> FDWrapper \<Rightarrow> FDWrapper option" where
  "socket_shutdown sys_shutdown how w =
     do { _ \<leftarrow> check_system_call () w (sys_shutdown how);
          (if how = SHUT_RD then Some (register_read w)
           else if how = SHUT_WR then Some (register_write w)
           else if how = SHUT_RDWR then Some (register_write (register_read w))
           else None) }"

text \<open>
  \<open>recv\<close>: the kernel takes one datagram with its sender, stores what fits the buffer and, for
  \<open>MSG_TRUNC\<close>, returns the length of the datagram.
\<close>

definition socket_recv :: "(byte list \<times> Address) syscall \<Rightarrow> FDWrapper \<Rightarrow> (FDWrapper \<times> Address \<times> byte list) option" where
  "socket_recv sys_recvfrom w =
     do { (datagram, source) \<leftarrow> check_system_call ([], Other_address) w sys_recvfrom;
          (if length datagram > kReadBufferSize then None
           else Some (register_read w, source, resize 0 (length datagram) (take kReadBufferSize datagram))) }"

definition socket_sendto :: "(Address \<Rightarrow> byte list \<Rightarrow> nat syscall) \<Rightarrow> Address \<Rightarrow> byte list \<Rightarrow> FDWrapper \<Rightarrow> FDWrapper option" where
  "socket_sendto sys_sendto destination payload w =
     do { _ \<leftarrow> check_system_call 0 w (sys_sendto destination payload); Some (register_write w) }"

definition socket_send :: "(byte list \<Rightarrow> nat syscall) \<Rightarrow> byte list \<Rightarrow> FDWrapper \<Rightarrow> FDWrapper option" where
  "socket_send sys_send payload w =
     do { _ \<leftarrow> check_system_call 0 w (sys_send payload); Some (register_write w) }"

text \<open>
  \<open>accept\<close>: the descriptor the kernel returns becomes a checked TCP socket; the one that
  listens has been read.
\<close>

definition socket_accept ::
    "int syscall \<Rightarrow> (int \<Rightarrow> bool syscall) \<Rightarrow> (int \<Rightarrow> SocketOption \<Rightarrow> (nat \<times> int) syscall) \<Rightarrow> FDWrapper
       \<Rightarrow> (FDWrapper \<times> FDWrapper) option" where
  "socket_accept sys_accept getfl sys_getsockopt w =
     (let w = register_read w
      in do { fd \<leftarrow> check_system_call 0 w sys_accept;
              peer \<leftarrow> fd_wrapper (getfl fd) fd;
              peer \<leftarrow> tcp_socket_from_fd (sys_getsockopt fd) peer;
              Some (w, peer) })"

definition throw_if_error :: "(SocketOption \<Rightarrow> (nat \<times> int) syscall) \<Rightarrow> FDWrapper \<Rightarrow> unit option" where
  "throw_if_error sys_getsockopt w =
     do { (len, socket_error) \<leftarrow> socket_getsockopt sys_getsockopt SO_ERROR 0 w;
          (if len \<noteq> 4 then None else if socket_error \<noteq> 0 then None else Some ()) }"

section \<open>What the operations do\<close>

lemma shutdown_counts:
  "socket_shutdown sys how w = Some w' \<Longrightarrow>
     (how = SHUT_RD \<and> w' = register_read w) \<or> (how = SHUT_WR \<and> w' = register_write w)
     \<or> (how = SHUT_RDWR \<and> w' = register_write (register_read w))"
  by (auto simp: socket_shutdown_def split: Option.bind_splits if_splits)

text \<open>A datagram comes out whole or not at all.\<close>

lemma recv_whole:
  "socket_recv (Done (datagram, source)) w =
     (if length datagram \<le> kReadBufferSize then Some (register_read w, source, datagram) else None)"
  by (simp add: socket_recv_def check_system_call_def resize_def)

text \<open>
  A non-blocking socket with no datagram waiting: \<open>CheckSystemCall\<close> turns \<open>EAGAIN\<close> into 0,
  and the caller gets an empty datagram from nobody.
\<close>

lemma recv_from_nobody:
  "fd_non_blocking w \<Longrightarrow> socket_recv Would_block w = Some (register_read w, Other_address, [])"
  by (simp add: socket_recv_def check_system_call_def resize_def)

text \<open>A socket of the wrong kind is refused.\<close>

lemma socket_from_fd_kind:
  assumes "socket_from_fd (\<lambda>opt. Done (4, val opt)) domain type protocol w = Some w'"
  shows "w' = w" and "val SO_DOMAIN = domain" and "val SO_TYPE = type" and "val SO_PROTOCOL = protocol"
  using assms by (auto simp: socket_from_fd_def socket_getsockopt_def check_system_call_def split: if_splits)

text \<open>
  \<open>accept\<close> on a non-blocking socket with no connection waiting: \<open>EAGAIN\<close> becomes the
  descriptor 0, and the standard input is taken for the new socket.
\<close>

lemma accept_takes_input:
  "fd_non_blocking w \<Longrightarrow> socket_accept Would_block getfl sys_getsockopt w =
     do { peer \<leftarrow> fd_wrapper (getfl 0) 0;
          peer \<leftarrow> tcp_socket_from_fd (sys_getsockopt 0) peer;
          Some (register_read w, peer) }"
  by (simp add: socket_accept_def check_system_call_def register_read_def)

end
