(* ===== verification/Text_Output.thy ===== *)
theory Text_Output
  imports Ref
begin

text \<open>
  Bytes and numbers as text, as the \<open>to_string\<close> members and the messages of the programs
  write them: the stream's manipulators for numbers, \<open>inet_ntoa\<close>, and \<open>concat\<close> and
  \<open>pretty_print\<close> of \<open>util/helpers.hh\<close> and \<open>util/helpers.cc\<close>, with the printable
  characters of the C locale. The lemmas say that numbers and addresses can be read back, and how
  long what is shown of a buffer is.
\<close>

section \<open>Characters\<close>

definition char_between :: "nat \<Rightarrow> nat \<Rightarrow> char \<Rightarrow> bool" where
  "char_between a b c \<longleftrightarrow> a \<le> of_char c \<and> of_char c \<le> b"

definition is_space :: "char \<Rightarrow> bool" where
  "is_space c \<longleftrightarrow> char_between 9 13 c \<or> c = CHR '' ''"

definition is_decimal :: "char \<Rightarrow> bool" where
  "is_decimal c \<longleftrightarrow> char_between 48 57 c"

text \<open>The bytes of a C string.\<close>

definition bytes_of_string :: "string \<Rightarrow> byte list" where
  "bytes_of_string s = map (\<lambda>c. of_nat (of_char c)) s"

section \<open>Numbers\<close>

definition digit :: "nat \<Rightarrow> char" where
  "digit d = char_of (if d < 10 then 48 + d else 87 + d)"

text \<open>A number in a stream to which \<open>dec\<close> or \<open>hex\<close> was given.\<close>

fun number_text :: "nat \<Rightarrow> nat \<Rightarrow> string" where
  "number_text base n =
     (if base < 2 \<or> n < base then [digit n] else number_text base (n div base) @ [digit (n mod base)])"

declare number_text.simps [simp del]

abbreviation decimal :: "'a :: len word \<Rightarrow> string" where
  "decimal w \<equiv> number_text 10 (unat w)"

abbreviation hexadecimal :: "'a :: len word \<Rightarrow> string" where
  "hexadecimal w \<equiv> number_text 16 (unat w)"

text \<open>A byte with \<open>hex\<close>, a width of two and the filling character \<open>'0'\<close>.\<close>

definition byte_text :: "byte \<Rightarrow> string" where
  "byte_text b = [digit (unat b div 16), digit (unat b mod 16)]"

text \<open>\<open>inet_ntoa\<close> of an address in network order.\<close>

definition dotted :: "32 word \<Rightarrow> string" where
  "dotted ip = decimal (ucast (drop_bit 24 ip) :: u8) @ ''.'' @ decimal (ucast (drop_bit 16 ip) :: u8) @ ''.''
     @ decimal (ucast (drop_bit 8 ip) :: u8) @ ''.'' @ decimal (ucast ip :: u8)"

subsection \<open>Reading back\<close>

definition digit_of :: "char \<Rightarrow> nat" where
  "digit_of c = (let n = of_char c in if n < 58 then n - 48 else n - 87)"

definition value_of :: "nat \<Rightarrow> string \<Rightarrow> nat" where
  "value_of base s = foldl (\<lambda>v c. v * base + digit_of c) 0 s"

lemma digit_of_digit [simp]: "d < 16 \<Longrightarrow> digit_of (digit d) = d"
  by (auto simp: digit_of_def digit_def Let_def)

lemma value_of_number [simp]: "2 \<le> base \<Longrightarrow> base \<le> 16 \<Longrightarrow> value_of base (number_text base n) = n"
proof (induction base n rule: number_text.induct)
  case (1 base n)
  then have "base \<le> n \<Longrightarrow> n mod base < 16"
    using mod_less_divisor [of base n] by linarith
  then show ?case
    using 1 by (subst number_text.simps) (auto simp: value_of_def)
qed

lemma number_text_inj [simp]:
  "2 \<le> base \<Longrightarrow> base \<le> 16 \<Longrightarrow> number_text base m = number_text base n \<longleftrightarrow> m = n"
  by (metis value_of_number)

definition is_digit :: "char \<Rightarrow> bool" where
  "is_digit c \<longleftrightarrow> is_decimal c \<or> char_between 97 102 c"

lemma is_digit_digit [simp]: "d < 16 \<Longrightarrow> is_digit (digit d)"
  by (auto simp: is_digit_def is_decimal_def char_between_def digit_def)

lemma number_text_digits: "2 \<le> base \<Longrightarrow> base \<le> 16 \<Longrightarrow> c \<in> set (number_text base n) \<Longrightarrow> is_digit c"
proof (induction base n rule: number_text.induct)
  case (1 base n)
  then have "base \<le> n \<Longrightarrow> n mod base < 16"
    using mod_less_divisor [of base n] by linarith
  then show ?case
    using 1 number_text.simps [of base n] by (auto split: if_splits)
qed

text \<open>What follows a number up to a character that is no digit.\<close>

lemma append_cut:
  "c \<notin> set xs \<Longrightarrow> c \<notin> set ys \<Longrightarrow> xs @ c # x = ys @ c # y \<longleftrightarrow> xs = ys \<and> x = y"
proof (induction xs arbitrary: ys)
  case Nil
  then show ?case by (cases ys) auto
next
  case (Cons a xs)
  then show ?case by (cases ys) auto
qed

lemma number_cut [simp]:
  assumes "2 \<le> base" "base \<le> 16" and "\<not> is_digit c"
  shows "number_text base m @ c # x = number_text base n @ c # y \<longleftrightarrow> m = n \<and> x = y"
  using assms number_text_digits [OF assms(1,2), of c] by (subst append_cut) auto

lemma separators [simp]: "\<not> is_digit CHR '',''" "\<not> is_digit CHR ''.''" "\<not> is_digit CHR '' ''" "\<not> is_digit CHR '':''" "\<not> is_digit CHR ''/''"
  by (simp_all add: is_digit_def is_decimal_def char_between_def)

lemma word_of_bytes: "(\<forall>k \<in> {0, 8, 16, 24}. (ucast (drop_bit k v) :: u8) = ucast (drop_bit k w)) \<Longrightarrow> v = (w :: 32 word)"
proof (rule bit_word_eqI)
  fix n
  assume same: "\<forall>k \<in> {0, 8, 16, 24}. (ucast (drop_bit k v) :: u8) = ucast (drop_bit k w)" and n: "n < LENGTH(32)"
  define k where "k = 8 * (n div 8)"
  have "n div 8 \<in> {0, 1, 2, 3}" using n by auto
  then have k: "k \<in> {0, 8, 16, 24}" "n = k + n mod 8" by (auto simp: k_def)
  then have "bit (ucast (drop_bit k v) :: u8) (n mod 8) = bit (ucast (drop_bit k w) :: u8) (n mod 8)"
    using same by metis
  then show "bit v n = bit w n"
    using k(2) by (simp add: bit_unsigned_iff bit_drop_bit_eq)
qed

lemma unat_same [simp]: "unat v = unat w \<longleftrightarrow> v = (w :: 'a :: len word)"
  by (simp add: word_unat_eq_iff)

lemma dotted_inj [simp]: "dotted v = dotted w \<longleftrightarrow> v = w"
proof
  assume "dotted v = dotted w"
  then show "v = w" by (intro word_of_bytes) (simp add: dotted_def)
qed simp

lemma dotted_chars: "c \<in> set (dotted ip) \<Longrightarrow> is_digit c \<or> c = CHR ''.''"
  using number_text_digits [of 10 c] by (auto simp: dotted_def)

lemma dotted_cut [simp]:
  "\<not> is_digit c \<Longrightarrow> c \<noteq> CHR ''.'' \<Longrightarrow> dotted v @ c # x = dotted w @ c # y \<longleftrightarrow> v = w \<and> x = y"
  using dotted_chars [of c] by (subst append_cut) auto

lemma byte_text_inj [simp]: "byte_text a = byte_text b \<longleftrightarrow> a = b"
proof
  assume "byte_text a = byte_text b"
  moreover have "unat w div 16 < 16" for w :: byte
    using unsigned_less [where 'a = nat and w = w] by (simp add: less_mult_imp_div_less)
  ultimately have "unat a div 16 = unat b div 16" "unat a mod 16 = unat b mod 16"
    by (simp_all add: byte_text_def) (metis digit_of_digit mod_less_divisor zero_less_numeral)+
  then have "unat a = unat b" by (metis div_mult_mod_eq)
  then show "a = b" by simp
qed simp

lemma length_byte_text [simp]: "length (byte_text b) = 2"
  by (simp add: byte_text_def)

lemma byte_text_cut [simp]: "byte_text a @ x = byte_text b @ y \<longleftrightarrow> a = b \<and> x = y"
  by simp

section \<open>Buffers\<close>

definition concat_buffers :: "byte list Ref list \<Rightarrow> byte list" where
  "concat_buffers r = concat (map ref_get r)"

definition is_printable :: "byte \<Rightarrow> bool" where
  "is_printable ch \<longleftrightarrow> 0x20 \<le> ch \<and> ch \<le> 0x7e"

definition shown :: "byte \<Rightarrow> string" where
  "shown ch = (if is_printable ch \<and> ch \<noteq> 0x22 then [char_of (unat ch)] else [CHR 0x5c, CHR ''x''] @ byte_text ch)"

text \<open>The loop, which stops before a character when there are already enough; it says so.\<close>

fun pretty_loop :: "nat \<Rightarrow> byte list \<Rightarrow> string \<Rightarrow> string \<times> bool" where
  "pretty_loop max_length [] ss = (ss, False)"
| "pretty_loop max_length (ch # str) ss =
     (if length ss \<ge> max_length then (ss, True) else pretty_loop max_length str (ss @ shown ch))"

definition pretty_print :: "byte list \<Rightarrow> nat \<Rightarrow> string" where
  "pretty_print str max_length =
     (let (ret, truncated) = pretty_loop max_length str []
      in if truncated
         then if length ret \<ge> 3 then take (length ret - 3) ret @ ''...'' else ret @ ''...''
         else ret)"

subsection \<open>Lengths\<close>

lemma shown_length: "1 \<le> length (shown ch)" "length (shown ch) \<le> 4"
  by (simp_all add: shown_def)

lemma pretty_loop_length:
  "pretty_loop m str ss = (ret, truncated) \<Longrightarrow> length ss \<le> m + 3 \<Longrightarrow>
     length ret \<le> m + 3 \<and> (truncated \<longrightarrow> m \<le> length ret)"
proof (induction m str ss rule: pretty_loop.induct)
  case (2 m ch str ss)
  show ?case
  proof (cases "length ss \<ge> m")
    case True
    then show ?thesis using 2 by auto
  next
    case False
    then show ?thesis using 2 shown_length [of ch] by auto
  qed
qed auto

text \<open>
  What is shown has at most three characters more than asked for, and may have that many; nothing is
  lost of a string that is printable and short enough.
\<close>

lemma pretty_print_length:
  assumes "3 \<le> m"
  shows "length (pretty_print str m) \<le> m + 3"
proof -
  obtain ret truncated where r: "pretty_loop m str [] = (ret, truncated)" by (cases "pretty_loop m str []")
  then show ?thesis using pretty_loop_length [OF r] assms by (auto simp: pretty_print_def)
qed

lemma pretty_print_exceeds: "length (pretty_print (replicate 31 0x61 @ [0]) 32) = 35"
  by code_simp

lemma pretty_print_plain:
  assumes "length str \<le> m" and "\<forall>ch \<in> set str. is_printable ch \<and> ch \<noteq> 0x22"
  shows "pretty_print str m = map (\<lambda>ch. char_of (unat ch)) str"
proof -
  have "pretty_loop m str ss = (ss @ map (\<lambda>ch. char_of (unat ch)) str, False)" if "length ss + length str \<le> m" for ss
    using that assms(2) by (induction str arbitrary: ss) (auto simp: shown_def)
  from this [of "[]"] show ?thesis using assms(1) by (simp add: pretty_print_def)
qed

end
