(* ===== verification/Socket_Address.thy ===== *)
theory Socket_Address
  imports Address Text_Output Parser
begin

text \<open>
  \<open>util/address.hh\<close> and \<open>util/address.cc\<close> as they are written: a size and the bytes of
  a \<open>sockaddr_storage\<close>, in the layout of Linux on a little-endian machine. Name resolution and
  \<open>getnameinfo\<close> are arguments. \<open>None\<close> is an exception. The lemmas say that the addresses
  of the theory \<open>Address\<close>, which the rest of the model computes with, are what these bytes mean.
\<close>

section \<open>Structures\<close>

record SocketAddress =
  sa_size :: nat
  sa_storage :: "byte list"

definition STORAGE_SIZE :: nat where "STORAGE_SIZE = 128"

definition FAMILY_INET :: u16 where "FAMILY_INET = 2"
definition FAMILY_INET6 :: u16 where "FAMILY_INET6 = 10"
definition FAMILY_PACKET :: u16 where "FAMILY_PACKET = 17"

text \<open>Integers in network order, and in the order of the machine.\<close>

abbreviation be_word :: "byte list \<Rightarrow> 'a :: len word" where
  "be_word bs \<equiv> be_value bs 0"

definition le_bytes :: "'a :: len word \<Rightarrow> byte list" where
  "le_bytes w = rev (be_bytes w)"

definition le_word :: "byte list \<Rightarrow> 'a :: len word" where
  "le_word bs = be_word (rev bs)"

text \<open>\<open>n\<close> bytes at an offset.\<close>

definition field :: "nat \<Rightarrow> nat \<Rightarrow> 'a list \<Rightarrow> 'a list" where
  "field offset n bs = take n (drop offset bs)"

definition ss_family :: "SocketAddress \<Rightarrow> u16" where
  "ss_family a = le_word (field 0 2 (sa_storage a))"

text \<open>A \<open>sockaddr_in\<close>: family, port, address and eight bytes of zeros.\<close>

definition sockaddr_in :: "u32 \<Rightarrow> u16 \<Rightarrow> byte list" where
  "sockaddr_in ip port = le_bytes FAMILY_INET @ be_bytes port @ be_bytes ip @ replicate 8 0"

section \<open>Operations\<close>

text \<open>The constructor from a raw address, which copies \<open>len\<close> bytes from where \<open>addr\<close> points.\<close>

definition address_from_sockaddr :: "byte list \<Rightarrow> nat \<Rightarrow> SocketAddress option" where
  "address_from_sockaddr addr len =
     (if len > STORAGE_SIZE then None
      else Some \<lparr>sa_size = len, sa_storage = take len addr @ replicate (STORAGE_SIZE - len) 0\<rparr>)"

record addrinfo =
  ai_flags :: int
  ai_family :: u16

definition AI_NUMERICHOST :: int where "AI_NUMERICHOST = 0x4"
definition AI_ALL :: int where "AI_ALL = 0x10"
definition AI_NUMERICSERV :: int where "AI_NUMERICSERV = 0x400"

definition make_hints :: "int \<Rightarrow> u16 \<Rightarrow> addrinfo" where
  "make_hints flags family = \<lparr>ai_flags = flags, ai_family = family\<rparr>"

text \<open>
  The resolver's answer: its return value and the first entry of the list, a raw address and its
  length.
\<close>

type_synonym resolver = "string \<Rightarrow> string \<Rightarrow> addrinfo \<Rightarrow> int \<times> (byte list \<times> nat) option"

definition address_resolved :: "resolver \<Rightarrow> string \<Rightarrow> string \<Rightarrow> addrinfo \<Rightarrow> SocketAddress option" where
  "address_resolved getaddrinfo node service hints =
     (let (gai_ret, resolved_address) = getaddrinfo node service hints
      in if gai_ret \<noteq> 0 then None
         else case resolved_address of
                None \<Rightarrow> None
              | Some (ai_addr, ai_addrlen) \<Rightarrow> address_from_sockaddr ai_addr ai_addrlen)"

definition address_of_names :: "resolver \<Rightarrow> string \<Rightarrow> string \<Rightarrow> SocketAddress option" where
  "address_of_names getaddrinfo hostname service =
     address_resolved getaddrinfo hostname service (make_hints AI_ALL FAMILY_INET)"

definition address_of_ip :: "resolver \<Rightarrow> string \<Rightarrow> u16 \<Rightarrow> SocketAddress option" where
  "address_of_ip getaddrinfo ip port =
     address_resolved getaddrinfo ip (decimal port) (make_hints (AI_NUMERICHOST + AI_NUMERICSERV) FAMILY_INET)"

text \<open>\<open>stoi\<close>: white space, a sign, and as many digits as there are.\<close>

definition stoi :: "string \<Rightarrow> int option" where
  "stoi str =
     (let s = dropWhile is_space str;
          negative = (s \<noteq> [] \<and> hd s = CHR ''-'');
          s = (if s \<noteq> [] \<and> (hd s = CHR ''-'' \<or> hd s = CHR ''+'') then tl s else s);
          digits = takeWhile is_decimal s;
          n = (if negative then - int (value_of 10 digits) else int (value_of 10 digits))
      in if digits = [] \<or> n < - (2 ^ 31) \<or> n \<ge> 2 ^ 31 then None else Some n)"

text \<open>\<open>getnameinfo\<close> for numeric host and service: its return value and the two texts.\<close>

type_synonym namer = "byte list \<Rightarrow> nat \<Rightarrow> int \<times> string \<times> string"

definition ip_port :: "namer \<Rightarrow> SocketAddress \<Rightarrow> (string \<times> u16) option" where
  "ip_port getnameinfo a =
     (if ss_family a \<noteq> FAMILY_INET \<and> ss_family a \<noteq> FAMILY_INET6 then None
      else let (gni_ret, ip, port) = getnameinfo (sa_storage a) (sa_size a)
           in if gni_ret \<noteq> 0 then None else map_option (\<lambda>n. (ip, word_of_int n)) (stoi port))"

definition address_to_string :: "namer \<Rightarrow> SocketAddress \<Rightarrow> string option" where
  "address_to_string getnameinfo a =
     (if ss_family a = FAMILY_INET \<or> ss_family a = FAMILY_INET6
      then map_option (\<lambda>(ip, port). ip @ '':'' @ decimal port) (ip_port getnameinfo a)
      else Some ''(non-Internet address)'')"

definition address_ipv4_numeric :: "SocketAddress \<Rightarrow> u32 option" where
  "address_ipv4_numeric a =
     (if ss_family a \<noteq> FAMILY_INET \<or> sa_size a \<noteq> 16 then None
      else Some (be_word (field 4 4 (sa_storage a))))"

definition address_from_ipv4_numeric :: "u32 \<Rightarrow> SocketAddress option" where
  "address_from_ipv4_numeric ip_address = address_from_sockaddr (sockaddr_in ip_address 0) 16"

definition address_eq :: "SocketAddress \<Rightarrow> SocketAddress \<Rightarrow> bool" where
  "address_eq a other \<longleftrightarrow>
     (if sa_size a \<noteq> sa_size other then False
      else take (sa_size a) (sa_storage a) = take (sa_size a) (sa_storage other))"

text \<open>\<open>as\<close>: the bytes of the structure that the cast address points to.\<close>

datatype sockaddr_type = Sockaddr_in | Sockaddr_in6 | Sockaddr_ll

fun sockaddr_family :: "sockaddr_type \<Rightarrow> u16" where
  "sockaddr_family Sockaddr_in = FAMILY_INET"
| "sockaddr_family Sockaddr_in6 = FAMILY_INET6"
| "sockaddr_family Sockaddr_ll = FAMILY_PACKET"

fun sockaddr_sizeof :: "sockaddr_type \<Rightarrow> nat" where
  "sockaddr_sizeof Sockaddr_in = 16"
| "sockaddr_sizeof Sockaddr_in6 = 28"
| "sockaddr_sizeof Sockaddr_ll = 20"

definition address_as :: "sockaddr_type \<Rightarrow> SocketAddress \<Rightarrow> byte list option" where
  "address_as type a =
     (if sockaddr_sizeof type < sa_size a \<or> ss_family a \<noteq> sockaddr_family type then None
      else Some (field 0 (sockaddr_sizeof type) (sa_storage a)))"

section \<open>What the bytes mean\<close>

text \<open>The invariant of the class: the storage is whole, and zero behind the address.\<close>

definition address_inv :: "SocketAddress \<Rightarrow> bool" where
  "address_inv a \<longleftrightarrow> length (sa_storage a) = STORAGE_SIZE \<and> sa_size a \<le> STORAGE_SIZE
     \<and> drop (sa_size a) (sa_storage a) = replicate (STORAGE_SIZE - sa_size a) 0"

lemma from_sockaddr_inv:
  "address_from_sockaddr addr len = Some a \<Longrightarrow> len \<le> length addr \<Longrightarrow> address_inv a"
  by (auto simp: address_from_sockaddr_def address_inv_def STORAGE_SIZE_def split: if_splits)

text \<open>Equality is equality of the whole storage.\<close>

lemma address_eq_iff:
  assumes "address_inv a" and "address_inv b"
  shows "address_eq a b \<longleftrightarrow> a = b"
proof
  assume "address_eq a b"
  then have "sa_size a = sa_size b" "take (sa_size a) (sa_storage a) = take (sa_size a) (sa_storage b)"
    by (simp_all add: address_eq_def split: if_splits)
  moreover have "sa_storage a = sa_storage b"
    using assms calculation append_take_drop_id [of "sa_size a" "sa_storage a"]
      append_take_drop_id [of "sa_size b" "sa_storage b"]
    by (simp add: address_inv_def)
  ultimately show "a = b" by simp
qed (simp add: address_eq_def)

text \<open>The address a storage holds.\<close>

definition meaning :: "SocketAddress \<Rightarrow> Address" where
  "meaning a =
     (if ss_family a = FAMILY_INET \<and> sa_size a = 16
      then IPv4_address (be_word (field 4 4 (sa_storage a))) (be_word (field 2 2 (sa_storage a)))
      else if ss_family a = FAMILY_INET6
      then IPv6_address (field 8 16 (sa_storage a)) (be_word (field 2 2 (sa_storage a)))
      else Other_address)"

lemma numeric_meaning: "ipv4_numeric (meaning a) = address_ipv4_numeric a"
  by (simp add: meaning_def address_ipv4_numeric_def)

text \<open>A \<open>sockaddr_in\<close> in a storage.\<close>

lemma words_of_bytes [simp]:
  "be_word (be_bytes (v :: u16)) = v" "be_word (be_bytes (w :: u32)) = w" "le_word (le_bytes (v :: u16)) = v"
  "le_word (le_bytes (w :: u32)) = w"
  by (simp_all add: le_word_def le_bytes_def be_value_bytes [of 2] be_value_bytes [of 4])

lemma length_le_bytes [simp]: "length (le_bytes (w :: 'a :: len word)) = LENGTH('a) div 8"
  by (simp add: le_bytes_def)

lemma length_sockaddr_in [simp]: "length (sockaddr_in ip port) = 16"
  by (simp add: sockaddr_in_def)

lemma sockaddr_in_fields [simp]:
  "field 0 2 (sockaddr_in ip port @ rest) = le_bytes FAMILY_INET"
  "field 2 2 (sockaddr_in ip port @ rest) = be_bytes port"
  "field 4 4 (sockaddr_in ip port @ rest) = be_bytes ip"
  by (simp_all add: sockaddr_in_def field_def)

definition internet_address :: "u32 \<Rightarrow> u16 \<Rightarrow> SocketAddress" where
  "internet_address ip port = \<lparr>sa_size = 16, sa_storage = sockaddr_in ip port @ replicate 112 0\<rparr>"

lemma from_sockaddr_in: "address_from_sockaddr (sockaddr_in ip port) 16 = Some (internet_address ip port)"
  by (simp add: address_from_sockaddr_def internet_address_def STORAGE_SIZE_def)

lemma internet_address_simps [simp]:
  "ss_family (internet_address ip port) = FAMILY_INET"
  "address_ipv4_numeric (internet_address ip port) = Some ip"
  "meaning (internet_address ip port) = IPv4_address ip port"
  by (simp_all add: ss_family_def internet_address_def address_ipv4_numeric_def meaning_def)

lemma internet_address_inv: "address_inv (internet_address ip port)"
  by (simp add: address_inv_def internet_address_def STORAGE_SIZE_def)

lemma from_numeric_meaning: "map_option meaning (address_from_ipv4_numeric ip) = Some (from_ipv4_numeric ip)"
  by (simp add: address_from_ipv4_numeric_def from_sockaddr_in from_ipv4_numeric_def)

lemma internet_address_eq: "address_eq (internet_address ip port) (internet_address ip' port') \<longleftrightarrow> ip = ip' \<and> port = port'"
  unfolding address_eq_iff [OF internet_address_inv internet_address_inv]
  by (metis internet_address_simps(3) Address.inject(1))

text \<open>A cast of an address that is an IPv4 one gives the structure back, and no other cast passes.\<close>

lemma internet_address_as:
  "address_as type (internet_address ip port) = (if type = Sockaddr_in then Some (sockaddr_in ip port) else None)"
  by (cases type) (simp_all add: address_as_def FAMILY_INET_def FAMILY_INET6_def FAMILY_PACKET_def,
      simp_all add: internet_address_def field_def)

text \<open>The ports \<open>getnameinfo\<close> writes are read back by \<open>stoi\<close>.\<close>

lemma is_decimal_digit: "d < 10 \<Longrightarrow> is_decimal (digit d)"
  by (auto simp: is_decimal_def char_between_def digit_def)

lemma number_text_decimal: "c \<in> set (number_text 10 n) \<Longrightarrow> is_decimal c"
proof (induction n rule: less_induct)
  case (less n)
  show ?case
  proof (cases "n < 10")
    case True
    then show ?thesis using less.prems number_text.simps [of 10 n] by (simp add: is_decimal_digit)
  next
    case False
    then have "c \<in> set (number_text 10 (n div 10)) \<or> c = digit (n mod 10)"
      using less.prems number_text.simps [of 10 n] by auto
    moreover have "n div 10 < n" using False by simp
    ultimately show ?thesis using less.IH is_decimal_digit [of "n mod 10"] by auto
  qed
qed

lemma number_text_nonempty: "number_text base n \<noteq> []"
  by (subst number_text.simps) simp

lemma stoi_number: "n < 2 ^ 31 \<Longrightarrow> stoi (number_text 10 n) = Some (int n)"
proof -
  assume n: "n < 2 ^ 31"
  have d: "c \<in> set (number_text 10 n) \<Longrightarrow> is_decimal c" for c by (rule number_text_decimal)
  have "is_decimal c \<Longrightarrow> \<not> is_space c \<and> c \<noteq> CHR ''-'' \<and> c \<noteq> CHR ''+''" for c
    by (auto simp: is_decimal_def is_space_def char_between_def)
  then have h: "\<not> is_space (hd (number_text 10 n))" "hd (number_text 10 n) \<noteq> CHR ''-''" "hd (number_text 10 n) \<noteq> CHR ''+''"
    using d number_text_nonempty by (metis hd_in_set)+
  have "dropWhile is_space (number_text 10 n) = number_text 10 n"
    using h(1) number_text_nonempty by (cases "number_text 10 n") auto
  moreover have "takeWhile is_decimal (number_text 10 n) = number_text 10 n"
    using d by (simp add: takeWhile_eq_all_conv)
  moreover have "int n < 2 ^ 31" using n by simp
  ultimately show ?thesis using h number_text_nonempty by (simp add: stoi_def Let_def del: takeWhile_eq_all_conv)
qed

section \<open>Addresses and their texts\<close>

text \<open>
  What the documentation of \<open>getaddrinfo\<close> and \<open>getnameinfo\<close> says of numeric hosts and services
  of IPv4.
\<close>

definition numeric_resolver :: "resolver \<Rightarrow> bool" where
  "numeric_resolver getaddrinfo \<longleftrightarrow>
     (\<forall>ip port. getaddrinfo (dotted ip) (decimal (port :: u16))
        (make_hints (AI_NUMERICHOST + AI_NUMERICSERV) FAMILY_INET) = (0, Some (sockaddr_in ip port, 16)))"

definition numeric_namer :: "namer \<Rightarrow> bool" where
  "numeric_namer getnameinfo \<longleftrightarrow>
     (\<forall>ip port rest. getnameinfo (sockaddr_in ip port @ rest) 16 = (0, dotted ip, decimal port))"

lemma ip_port_internet:
  assumes "numeric_namer getnameinfo"
  shows "ip_port getnameinfo (internet_address ip port) = Some (dotted ip, port)"
proof -
  have "unat port < 2 ^ 31" using unsigned_less [where 'a = nat and w = port] by simp
  then have "stoi (decimal port) = Some (uint port)" by (simp add: stoi_number)
  then show ?thesis
    using assms internet_address_simps(1) [of ip port]
    by (simp add: ip_port_def numeric_namer_def) (simp add: internet_address_def)
qed

lemma text_of_address:
  assumes "numeric_resolver getaddrinfo" and "numeric_namer getnameinfo"
  shows "address_of_ip getaddrinfo (dotted ip) port = Some (internet_address ip port)"
    and "address_to_string getnameinfo (internet_address ip port) = Some (dotted ip @ '':'' @ decimal port)"
  using assms ip_port_internet [OF assms(2)]
  by (simp_all add: address_of_ip_def address_resolved_def numeric_resolver_def from_sockaddr_in address_to_string_def)

text \<open>Functions that have these properties.\<close>

fun split_at :: "char \<Rightarrow> string \<Rightarrow> string \<Rightarrow> string list" where
  "split_at sep [] part = [part]"
| "split_at sep (c # s) part = (if c = sep then part # split_at sep s [] else split_at sep s (part @ [c]))"

definition dotted_value :: "string \<Rightarrow> u32" where
  "dotted_value s = be_word (map (\<lambda>part. of_nat (value_of 10 part)) (split_at CHR ''.'' s []))"

definition read_numeric :: resolver where
  "read_numeric node service hints =
     (0, Some (sockaddr_in (dotted_value node) (of_nat (value_of 10 service)), 16))"

definition write_numeric :: namer where
  "write_numeric addr len = (0, dotted (be_word (field 4 4 addr)), decimal (be_word (field 2 2 addr) :: u16))"

lemma split_at_append: "sep \<notin> set xs \<Longrightarrow> split_at sep (xs @ s) part = split_at sep s (part @ xs)"
  by (induction xs arbitrary: part) auto

lemma dotted_value_dotted: "dotted_value (dotted ip) = ip"
proof -
  have n: "CHR ''.'' \<notin> set (number_text 10 m)" for m using number_text_digits [of 10 "CHR ''.''" m] by auto
  have "split_at CHR ''.'' (dotted ip) []
      = [decimal (ucast (drop_bit 24 ip) :: byte), decimal (ucast (drop_bit 16 ip) :: byte),
         decimal (ucast (drop_bit 8 ip) :: byte), decimal (ucast ip :: byte)]"
    using split_at_append [OF n, where s = "[]"] by (simp add: dotted_def split_at_append n)
  then have "map (\<lambda>part. of_nat (value_of 10 part)) (split_at CHR ''.'' (dotted ip) []) = be_bytes ip"
    by (simp add: be_bytes_def upt_rec)
  then show ?thesis by (simp only: dotted_value_def words_of_bytes)
qed

lemma numeric_examples: "numeric_resolver read_numeric" "numeric_namer write_numeric"
  by (simp_all add: numeric_resolver_def read_numeric_def dotted_value_dotted numeric_namer_def write_numeric_def)

section \<open>Properties\<close>

text \<open>
  C39: an address made from the text of an IPv4 address and a port holds exactly those: it means that
  address and port, \<open>ipv4_numeric\<close>, \<open>ip_port\<close> and \<open>to_string\<close> give them back, and it
  is equal to another one made so exactly when both are the same.
\<close>
theorem address_text_roundtrip:
  assumes "numeric_resolver getaddrinfo" and "numeric_namer getnameinfo"
  shows "\<exists>a. address_of_ip getaddrinfo (dotted ip) port = Some a
    \<and> meaning a = IPv4_address ip port \<and> address_ipv4_numeric a = Some ip
    \<and> ip_port getnameinfo a = Some (dotted ip, port)
    \<and> address_to_string getnameinfo a = Some (dotted ip @ '':'' @ decimal port)
    \<and> (\<exists>b. address_of_ip getaddrinfo (dotted ip') port' = Some b
          \<and> (address_eq a b \<longleftrightarrow> ip' = ip \<and> port' = port))"
  using text_of_address [OF assms] ip_port_internet [OF assms(2)] internet_address_eq by auto

theorem address_text_roundtrip_witness:
  "\<exists>a. address_of_ip read_numeric ''10.144.0.231'' 1024 = Some a
    \<and> meaning a = IPv4_address 0x0a9000e7 1024
    \<and> ip_port write_numeric a = Some (''10.144.0.231'', 1024)
    \<and> address_to_string write_numeric a = Some ''10.144.0.231:1024''"
proof -
  have "dotted 0x0a9000e7 = ''10.144.0.231''" "number_text 10 1024 = ''1024''" by code_simp+
  then show ?thesis
    using address_text_roundtrip [OF numeric_examples, of "0x0a9000e7" 1024 0 0] by auto
qed

end
