(* ===== verification/Socket_Calls.thy ===== *)
theory Socket_Calls
  imports Socket Socket_Address
begin

text \<open>
  The operations of \<open>util/socket.hh\<close> and \<open>util/socket.cc\<close> that pass addresses and
  options to the kernel, over the raw addresses of the theory \<open>Socket_Address\<close>; and the kinds
  that the classes of sockets ask for.
\<close>

section \<open>Addresses\<close>

text \<open>
  \<open>get_address\<close>: the kernel stores at most as many bytes as the storage has and says how long
  the address is; where the call would block, nothing is stored and the size stays.
\<close>

definition socket_get_address :: "(byte list \<times> nat) syscall \<Rightarrow> FDWrapper \<Rightarrow> SocketAddress option" where
  "socket_get_address sys_name w =
     do { (bytes, len) \<leftarrow> check_system_call ([], STORAGE_SIZE) w sys_name;
          address_from_sockaddr (resize 0 STORAGE_SIZE bytes) len }"

definition local_address :: "(byte list \<times> nat) syscall \<Rightarrow> FDWrapper \<Rightarrow> SocketAddress option" where
  "local_address sys_getsockname w = socket_get_address sys_getsockname w"

definition peer_address :: "(byte list \<times> nat) syscall \<Rightarrow> FDWrapper \<Rightarrow> SocketAddress option" where
  "peer_address sys_getpeername w = socket_get_address sys_getpeername w"

text \<open>The address and its size, as the kernel gets them.\<close>

definition raw_name :: "SocketAddress \<Rightarrow> byte list" where
  "raw_name a = take (sa_size a) (sa_storage a)"

definition socket_bind :: "(byte list \<Rightarrow> unit syscall) \<Rightarrow> SocketAddress \<Rightarrow> FDWrapper \<Rightarrow> unit option" where
  "socket_bind sys_bind address w = check_system_call () w (sys_bind (raw_name address))"

definition socket_connect :: "(byte list \<Rightarrow> unit syscall) \<Rightarrow> SocketAddress \<Rightarrow> FDWrapper \<Rightarrow> unit option" where
  "socket_connect sys_connect address w = check_system_call () w (sys_connect (raw_name address))"

definition socket_listen :: "(int \<Rightarrow> unit syscall) \<Rightarrow> int \<Rightarrow> FDWrapper \<Rightarrow> unit option" where
  "socket_listen sys_listen backlog w = check_system_call () w (sys_listen backlog)"

section \<open>Options\<close>

datatype option_name = SO_REUSEADDR | SO_BINDTODEVICE | PACKET_ADD_MEMBERSHIP

datatype option_level = SOL_SOCKET | SOL_PACKET

type_synonym set_option = "option_level \<Rightarrow> option_name \<Rightarrow> byte list \<Rightarrow> unit syscall"

definition socket_setsockopt ::
    "set_option \<Rightarrow> option_level \<Rightarrow> option_name \<Rightarrow> byte list \<Rightarrow> FDWrapper \<Rightarrow> unit option" where
  "socket_setsockopt sys_setsockopt level opt value w =
     check_system_call () w (sys_setsockopt level opt value)"

definition set_reuseaddr :: "set_option \<Rightarrow> FDWrapper \<Rightarrow> unit option" where
  "set_reuseaddr sys_setsockopt w = socket_setsockopt sys_setsockopt SOL_SOCKET SO_REUSEADDR (le_bytes (1 :: u32)) w"

definition bind_to_device :: "set_option \<Rightarrow> byte list \<Rightarrow> FDWrapper \<Rightarrow> unit option" where
  "bind_to_device sys_setsockopt device_name w =
     socket_setsockopt sys_setsockopt SOL_SOCKET SO_BINDTODEVICE device_name w"

text \<open>
  \<open>packet_mreq\<close>: the interface's index, the type 1 (\<open>PACKET_MR_PROMISC\<close>), and an empty
  address. The index stands at offset 4 of a \<open>sockaddr_ll\<close>.
\<close>

definition packet_mreq :: "byte list \<Rightarrow> byte list" where
  "packet_mreq ifindex = ifindex @ le_bytes (1 :: u16) @ le_bytes (0 :: u16) @ replicate 8 0"

definition set_promiscuous :: "set_option \<Rightarrow> (byte list \<times> nat) syscall \<Rightarrow> FDWrapper \<Rightarrow> unit option" where
  "set_promiscuous sys_setsockopt sys_getsockname w =
     do { a \<leftarrow> local_address sys_getsockname w;
          ll \<leftarrow> address_as Sockaddr_ll a;
          socket_setsockopt sys_setsockopt SOL_PACKET PACKET_ADD_MEMBERSHIP (packet_mreq (field 4 4 ll)) w }"

section \<open>The classes\<close>

definition AF_PACKET :: int where "AF_PACKET = 17"

type_synonym socket_call = "int \<Rightarrow> int \<Rightarrow> int \<Rightarrow> int syscall"

definition tcp_socket :: "socket_call \<Rightarrow> bool syscall \<Rightarrow> FDWrapper option" where
  "tcp_socket sys_socket getfl = socket_open (sys_socket AF_INET SOCK_STREAM 0) getfl"

definition udp_socket :: "socket_call \<Rightarrow> bool syscall \<Rightarrow> FDWrapper option" where
  "udp_socket sys_socket getfl = socket_open (sys_socket AF_INET SOCK_DGRAM 0) getfl"

definition packet_socket :: "socket_call \<Rightarrow> bool syscall \<Rightarrow> int \<Rightarrow> int \<Rightarrow> FDWrapper option" where
  "packet_socket sys_socket getfl type protocol = socket_open (sys_socket AF_PACKET type protocol) getfl"

definition local_datagram_socket :: "socket_call \<Rightarrow> bool syscall \<Rightarrow> FDWrapper option" where
  "local_datagram_socket sys_socket getfl = socket_open (sys_socket AF_UNIX SOCK_DGRAM 0) getfl"

definition udp_socket_from_fd :: "(SocketOption \<Rightarrow> (nat \<times> int) syscall) \<Rightarrow> FDWrapper \<Rightarrow> FDWrapper option" where
  "udp_socket_from_fd sys_getsockopt = socket_from_fd sys_getsockopt AF_INET SOCK_DGRAM 0"

definition local_datagram_socket_from_fd ::
    "(SocketOption \<Rightarrow> (nat \<times> int) syscall) \<Rightarrow> FDWrapper \<Rightarrow> FDWrapper option" where
  "local_datagram_socket_from_fd sys_getsockopt = socket_from_fd sys_getsockopt AF_UNIX SOCK_DGRAM 0"

section \<open>What the operations do\<close>

text \<open>The name of an IPv4 socket, as the kernel stores it.\<close>

lemma get_address_internet:
  "socket_get_address (Done (sockaddr_in ip port, 16)) w = Some (internet_address ip port)"
  by (simp add: socket_get_address_def check_system_call_def resize_def address_from_sockaddr_def
      internet_address_def STORAGE_SIZE_def)

lemma get_address_inv: "socket_get_address sys w = Some a \<Longrightarrow> address_inv a"
  by (auto simp: socket_get_address_def address_from_sockaddr_def split: Option.bind_splits if_splits
      intro!: from_sockaddr_inv)

text \<open>What is bound is what the address says.\<close>

lemma raw_name_internet: "raw_name (internet_address ip port) = sockaddr_in ip port"
  by (simp add: raw_name_def internet_address_def)

text \<open>
  The protocol of a UDP socket is \<open>IPPROTO_UDP\<close>, 17: the constructor of a \<open>UDPSocket\<close>
  from a descriptor, which asks for 0, never returns.
\<close>

lemma udp_from_fd_refused:
  "udp_socket_from_fd (\<lambda>opt. Done (4, case opt of SO_DOMAIN \<Rightarrow> AF_INET | SO_TYPE \<Rightarrow> SOCK_DGRAM | SO_PROTOCOL \<Rightarrow> 17 | SO_ERROR \<Rightarrow> 0)) w
     = None"
  by (simp add: udp_socket_from_fd_def socket_from_fd_def socket_getsockopt_def check_system_call_def)

text \<open>
  A non-blocking socket whose \<open>connect\<close> is in progress: the call returns as if it were
  connected; the error shows later in \<open>throw_if_error\<close>.
\<close>

lemma connect_in_progress: "fd_non_blocking w \<Longrightarrow> socket_connect (\<lambda>_. Would_block) a w = Some ()"
  by (simp add: socket_connect_def check_system_call_def)

end
