(* ===== verification/Event_Loop.thy ===== *)
theory Event_Loop
  imports File_Descriptor "HOL-Library.Sublist" "HOL-Library.Multiset"
begin

text \<open>
  \<open>util/eventloop.hh\<close> and \<open>util/eventloop.cc\<close>: rules with callbacks, served one per call of
  \<open>wait_next_event\<close>. The callbacks are functions on a state \<open>'s\<close> that they share, which also
  holds the file descriptors; they do not touch the loop itself. \<open>poll(2)\<close> and the check of
  \<open>getsockopt\<close> are arguments. \<open>None\<close> is an exception, of the loop or of a callback.
\<close>

datatype Direction = In | Out

datatype Result = Success | Timeout | Exit

record 's BasicRule =
  br_id :: nat
  br_category_id :: nat
  br_interest :: "'s \<Rightarrow> bool"
  br_callback :: "'s \<Rightarrow> 's option"
  br_cancel_requested :: bool

record 's FDRule = "'s BasicRule" +
  fr_fd :: "'s \<Rightarrow> FDWrapper"
  fr_direction :: Direction
  fr_cancel :: "'s \<Rightarrow> 's option"
  fr_error :: "'s \<Rightarrow> 's option"

text \<open>
  The loop; \<open>el_reserved\<close> is the capacity the category vector got from \<open>reserve\<close>, and
  \<open>el_next_id\<close> names the rule objects for their handles.
\<close>

record 's EventLoop =
  el_categories :: "string list"
  el_reserved :: nat
  el_fd_rules :: "'s FDRule list"
  el_non_fd_rules :: "'s BasicRule list"
  el_next_id :: nat

definition event_loop :: "nat \<Rightarrow> 's EventLoop" where
  "event_loop reserved =
     \<lparr>el_categories = [], el_reserved = reserved, el_fd_rules = [], el_non_fd_rules = [], el_next_id = 0\<rparr>"

definition service_count :: "'s FDRule \<Rightarrow> 's \<Rightarrow> u32" where
  "service_count rule s =
     (if fr_direction rule = In then fd_read_count (fr_fd rule s) else fd_write_count (fr_fd rule s))"

definition add_category :: "string \<Rightarrow> 's EventLoop \<Rightarrow> ('s EventLoop \<times> nat) option" where
  "add_category name el =
     (if length (el_categories el) \<ge> el_reserved el then None
      else Some (el\<lparr>el_categories := el_categories el @ [name]\<rparr>, length (el_categories el)))"

definition add_fd_rule ::
    "nat \<Rightarrow> ('s \<Rightarrow> FDWrapper) \<Rightarrow> Direction \<Rightarrow> ('s \<Rightarrow> 's option) \<Rightarrow> ('s \<Rightarrow> bool) \<Rightarrow> ('s \<Rightarrow> 's option)
       \<Rightarrow> ('s \<Rightarrow> 's option) \<Rightarrow> 's EventLoop \<Rightarrow> ('s EventLoop \<times> nat) option" where
  "add_fd_rule category_id fd direction callback interest cancel error el =
     (if category_id \<ge> length (el_categories el) then None
      else Some (el\<lparr>el_fd_rules := el_fd_rules el @
             [\<lparr>br_id = el_next_id el, br_category_id = category_id, br_interest = interest, br_callback = callback,
               br_cancel_requested = False, fr_fd = fd, fr_direction = direction, fr_cancel = cancel, fr_error = error\<rparr>],
             el_next_id := el_next_id el + 1\<rparr>, el_next_id el))"

definition add_rule :: "nat \<Rightarrow> ('s \<Rightarrow> 's option) \<Rightarrow> ('s \<Rightarrow> bool) \<Rightarrow> 's EventLoop \<Rightarrow> ('s EventLoop \<times> nat) option" where
  "add_rule category_id callback interest el =
     (if category_id \<ge> length (el_categories el) then None
      else Some (el\<lparr>el_non_fd_rules := el_non_fd_rules el @
             [\<lparr>br_id = el_next_id el, br_category_id = category_id, br_interest = interest, br_callback = callback,
               br_cancel_requested = False\<rparr>],
             el_next_id := el_next_id el + 1\<rparr>, el_next_id el))"

text \<open>The template that adds a category with the rule.\<close>

definition add_named_fd_rule ::
    "string \<Rightarrow> ('s \<Rightarrow> FDWrapper) \<Rightarrow> Direction \<Rightarrow> ('s \<Rightarrow> 's option) \<Rightarrow> ('s \<Rightarrow> bool) \<Rightarrow> ('s \<Rightarrow> 's option)
       \<Rightarrow> ('s \<Rightarrow> 's option) \<Rightarrow> 's EventLoop \<Rightarrow> ('s EventLoop \<times> nat) option" where
  "add_named_fd_rule name fd direction callback interest cancel error el =
     do { (el, category_id) \<leftarrow> add_category name el;
          add_fd_rule category_id fd direction callback interest cancel error el }"

text \<open>\<open>RuleHandle::cancel\<close>; a handle whose rule is gone does nothing.\<close>

definition request_cancel :: "nat \<Rightarrow> ('s, 'b) BasicRule_scheme \<Rightarrow> ('s, 'b) BasicRule_scheme" where
  "request_cancel i rule = (if br_id rule = i then rule\<lparr>br_cancel_requested := True\<rparr> else rule)"

definition handle_cancel :: "nat \<Rightarrow> 's EventLoop \<Rightarrow> 's EventLoop" where
  "handle_cancel i el =
     el\<lparr>el_fd_rules := map (request_cancel i) (el_fd_rules el),
        el_non_fd_rules := map (request_cancel i) (el_non_fd_rules el)\<rparr>"

section \<open>Rules without a file descriptor\<close>

text \<open>The inner loop, with \<open>n\<close> callbacks left before it counts as a busy wait.\<close>

fun serve_interested :: "nat \<Rightarrow> 's BasicRule \<Rightarrow> 's \<Rightarrow> bool \<Rightarrow> ('s \<times> bool) option" where
  "serve_interested 0 rule s fired = (if br_interest rule s then None else Some (s, fired))"
| "serve_interested (Suc n) rule s fired =
     (if br_interest rule s then do { s \<leftarrow> br_callback rule s; serve_interested n rule s True }
      else Some (s, fired))"

fun serve_non_fd_rules :: "'s BasicRule list \<Rightarrow> 's \<Rightarrow> ('s BasicRule list \<times> 's \<times> bool) option" where
  "serve_non_fd_rules [] s = Some ([], s, False)"
| "serve_non_fd_rules (rule # rules) s =
     (if br_cancel_requested rule then serve_non_fd_rules rules s
      else do { (s, rule_fired) \<leftarrow> serve_interested 128 rule s False;
                (if rule_fired then Some (rule # rules, s, True)
                 else do { (rules, s, served) \<leftarrow> serve_non_fd_rules rules s;
                           Some (rule # rules, s, served) }) })"

section \<open>Rules with a file descriptor\<close>

record pollfd =
  pf_fd :: int
  pf_asked :: "Direction option"

text \<open>What \<open>poll\<close> reports for a descriptor.\<close>

record revents =
  re_in :: bool
  re_out :: bool
  re_error :: bool
  re_hup :: bool

definition poll_ready :: "pollfd \<Rightarrow> revents \<Rightarrow> bool" where
  "poll_ready p r = (case pf_asked p of None \<Rightarrow> False | Some In \<Rightarrow> re_in r | Some Out \<Rightarrow> re_out r)"

text \<open>The loop that drops the rules that are over and sets up the \<open>pollfd\<close> of the others.\<close>

fun poll_rules :: "'s FDRule list \<Rightarrow> 's \<Rightarrow> ('s FDRule list \<times> pollfd list \<times> 's) option" where
  "poll_rules [] s = Some ([], [], s)"
| "poll_rules (rule # rules) s =
     (if br_cancel_requested rule then poll_rules rules s
      else if (fr_direction rule = In \<and> fd_eof (fr_fd rule s)) \<or> fd_closed (fr_fd rule s)
      then do { s \<leftarrow> fr_cancel rule s; poll_rules rules s }
      else
        let p = \<lparr>pf_fd = fd_num (fr_fd rule s),
                 pf_asked = (if br_interest rule s then Some (fr_direction rule) else None)\<rparr>
        in do { (rules, ps, s) \<leftarrow> poll_rules rules s; Some (rule # rules, p # ps, s) })"

text \<open>
  The loop over the results. The reports are one per entry of \<open>pollfds\<close>; \<open>pollfds.at\<close> throws
  past their end.
\<close>

fun serve_fd_rules ::
    "(int \<Rightarrow> bool) \<Rightarrow> 's FDRule list \<Rightarrow> (pollfd \<times> revents) list \<Rightarrow> 's \<Rightarrow> ('s FDRule list \<times> 's) option" where
  "serve_fd_rules getsockopt_ok [] ps s = Some ([], s)"
| "serve_fd_rules getsockopt_ok (rule # rules) [] s = None"
| "serve_fd_rules getsockopt_ok (rule # rules) ((p, r) # ps) s =
     (if re_error r
      then (if \<not> getsockopt_ok (fd_num (fr_fd rule s)) then None
            else do { s \<leftarrow> fr_error rule s; s \<leftarrow> fr_cancel rule s; serve_fd_rules getsockopt_ok rules ps s })
      else if re_hup r \<and> ((pf_asked p \<noteq> None \<and> \<not> poll_ready p r) \<or> fr_direction rule = Out)
      then do { s \<leftarrow> fr_cancel rule s; serve_fd_rules getsockopt_ok rules ps s }
      else if poll_ready p r
      then do { s' \<leftarrow> br_callback rule s;
                (if service_count rule s = service_count rule s' \<and> \<not> fd_closed (fr_fd rule s')
                    \<and> br_interest rule s'
                 then None else Some (rule # rules, s')) }
      else do { (rules, s) \<leftarrow> serve_fd_rules getsockopt_ok rules ps s; Some (rule # rules, s) })"

definition wait_next_event ::
    "(pollfd list \<Rightarrow> int \<Rightarrow> (nat \<times> revents list) option) \<Rightarrow> (int \<Rightarrow> bool) \<Rightarrow> int \<Rightarrow> 's EventLoop \<Rightarrow> 's
       \<Rightarrow> ('s EventLoop \<times> 's \<times> Result) option" where
  "wait_next_event poll getsockopt_ok timeout_ms el s =
     do { (non_fd_rules, s, served) \<leftarrow> serve_non_fd_rules (el_non_fd_rules el) s;
          el \<leftarrow> Some (el\<lparr>el_non_fd_rules := non_fd_rules\<rparr>);
          (if served then Some (el, s, Success)
           else do {
             (fd_rules, pollfds, s) \<leftarrow> poll_rules (el_fd_rules el) s;
             el \<leftarrow> Some (el\<lparr>el_fd_rules := fd_rules\<rparr>);
             (if \<forall>p \<in> set pollfds. pf_asked p = None then Some (el, s, Exit)
              else do {
                (ready, reports) \<leftarrow> poll pollfds timeout_ms;
                (if ready = 0 then Some (el, s, Timeout)
                 else do {
                   (fd_rules, s) \<leftarrow> serve_fd_rules getsockopt_ok fd_rules (zip pollfds reports) s;
                   Some (el\<lparr>el_fd_rules := fd_rules\<rparr>, s, Success) }) }) }) }"

section \<open>What a call does\<close>

text \<open>Some callbacks of a rule in a row.\<close>

fun callback_steps :: "nat \<Rightarrow> 's BasicRule \<Rightarrow> 's \<Rightarrow> 's option" where
  "callback_steps 0 rule s = Some s"
| "callback_steps (Suc k) rule s = do { s \<leftarrow> br_callback rule s; callback_steps k rule s }"

lemma serve_interested_steps:
  assumes "serve_interested n rule s fired = Some (s', fired')"
  shows "\<exists>k \<le> n. callback_steps k rule s = Some s' \<and> \<not> br_interest rule s'
    \<and> (fired' \<longleftrightarrow> fired \<or> 0 < k) \<and> (0 < k \<longleftrightarrow> br_interest rule s)"
  using assms
proof (induction n rule s fired rule: serve_interested.induct)
  case (2 n rule s fired)
  show ?case
  proof (cases "br_interest rule s")
    case True
    then obtain t where t: "br_callback rule s = Some t" "serve_interested n rule t True = Some (s', fired')"
      using 2(2) by (auto split: Option.bind_splits)
    then obtain k where "k \<le> n" "callback_steps k rule t = Some s'" "\<not> br_interest rule s'" "fired'"
      using 2(1) [OF True] by blast
    then show ?thesis using t True by (intro exI [of _ "Suc k"]) simp
  qed (use 2(2) in auto)
qed (auto split: if_splits)

lemma serve_interested_busy:
  assumes "\<And>t. P t \<Longrightarrow> br_interest rule t \<and> (\<forall>t'. br_callback rule t = Some t' \<longrightarrow> P t')" and "P s"
  shows "serve_interested n rule s fired = None"
  using assms(2)
proof (induction n arbitrary: s fired)
  case (Suc n)
  then show ?case using assms(1) by (cases "br_callback rule s") auto
qed (use assms(1) in auto)

text \<open>What the loop called, in order.\<close>

datatype 's action = Called "'s FDRule" | Cancelled "'s FDRule" | Reported_error "'s FDRule"

fun act :: "'s action \<Rightarrow> 's \<Rightarrow> 's option" where
  "act (Called rule) s = br_callback rule s"
| "act (Cancelled rule) s = fr_cancel rule s"
| "act (Reported_error rule) s = fr_error rule s"

fun replay :: "'s action list \<Rightarrow> 's \<Rightarrow> 's option" where
  "replay [] s = Some s"
| "replay (a # as) s = do { s \<leftarrow> act a s; replay as s }"

lemma replay_append: "replay (as @ bs) s = do { s \<leftarrow> replay as s; replay bs s }"
  by (induction as arbitrary: s) (auto split: Option.bind_splits)

text \<open>How rules end after \<open>poll\<close>: with the cancellation callback, or that of an error before it.\<close>

inductive endings :: "'s FDRule list \<Rightarrow> 's action list \<Rightarrow> bool" where
  none: "endings [] []"
| hung_up: "endings rules as \<Longrightarrow> endings (rule # rules) (Cancelled rule # as)"
| failed: "endings rules as \<Longrightarrow> endings (rule # rules) (Reported_error rule # Cancelled rule # as)"

inductive_simps endings_simps [simp]: "endings [] as" "endings (rule # rules) as" "endings rules []"

lemma poll_rules_actions:
  assumes "poll_rules rules s = Some (rules', ps, s')"
  shows "\<exists>over. replay (map Cancelled over) s = Some s' \<and> subseq rules' rules
    \<and> mset rules = mset rules' + mset (filter br_cancel_requested rules) + mset over
    \<and> length ps = length rules'"
  using assms
proof (induction rules s arbitrary: rules' ps s' rule: poll_rules.induct)
  case (2 rule rules s)
  consider "br_cancel_requested rule"
    | "\<not> br_cancel_requested rule" "(fr_direction rule = In \<and> fd_eof (fr_fd rule s)) \<or> fd_closed (fr_fd rule s)"
    | "\<not> br_cancel_requested rule" "\<not> ((fr_direction rule = In \<and> fd_eof (fr_fd rule s)) \<or> fd_closed (fr_fd rule s))"
    by blast
  then show ?case
  proof cases
    case 1
    then show ?thesis using 2(1) [OF 1] 2(4) by fastforce
  next
    case 2
    note over = 2
    then obtain t where t: "fr_cancel rule s = Some t" "poll_rules rules t = Some (rules', ps, s')"
      using "2.prems" by (auto split: Option.bind_splits if_splits)
    then obtain rs where "replay (map Cancelled rs) t = Some s'" "subseq rules' rules"
      "mset rules = mset rules' + mset (filter br_cancel_requested rules) + mset rs"
      "length ps = length rules'"
      using "2.IH"(2) [OF over t(1)] by blast
    then show ?thesis using over t(1) by (intro exI [of _ "rule # rs"]) auto
  next
    case 3
    note live = 3
    let ?p = "\<lparr>pf_fd = fd_num (fr_fd rule s),
      pf_asked = (if br_interest rule s then Some (fr_direction rule) else None)\<rparr>"
    obtain rs qs where r: "poll_rules rules s = Some (rs, qs, s')" "rules' = rule # rs" "ps = ?p # qs"
      using "2.prems" live by (auto simp: Let_def split: Option.bind_splits if_splits)
    then show ?thesis using "2.IH"(3) [OF live refl r(1)] live(1) by fastforce
  qed
qed (auto intro: exI [of _ "[]"])

lemma serve_fd_actions:
  assumes "serve_fd_rules ok rules ps s = Some (rules', s')"
  shows "\<exists>gone ends call. replay (ends @ call) s = Some s' \<and> endings gone ends
    \<and> (call = [] \<or> (\<exists>rule \<in> set rules'. call = [Called rule]))
    \<and> subseq rules' rules \<and> mset rules = mset rules' + mset gone"
  using assms
proof (induction ok rules ps s arbitrary: rules' s' rule: serve_fd_rules.induct)
  case (3 ok rule rules p r ps s)
  consider "re_error r"
    | "\<not> re_error r" "re_hup r \<and> ((pf_asked p \<noteq> None \<and> \<not> poll_ready p r) \<or> fr_direction rule = Out)"
    | "\<not> re_error r" "\<not> (re_hup r \<and> ((pf_asked p \<noteq> None \<and> \<not> poll_ready p r) \<or> fr_direction rule = Out))"
      "poll_ready p r"
    | "\<not> re_error r" "\<not> (re_hup r \<and> ((pf_asked p \<noteq> None \<and> \<not> poll_ready p r) \<or> fr_direction rule = Out))"
      "\<not> poll_ready p r"
    by blast
  then show ?case
  proof cases
    case 1
    then obtain t u where t: "ok (fd_num (fr_fd rule s))" "fr_error rule s = Some t" "fr_cancel rule t = Some u"
      "serve_fd_rules ok rules ps u = Some (rules', s')"
      using "3.prems" by (auto split: Option.bind_splits if_splits)
    then obtain gone ends call where "replay (ends @ call) u = Some s'" "endings gone ends"
      "call = [] \<or> (\<exists>rule \<in> set rules'. call = [Called rule])" "subseq rules' rules"
      "mset rules = mset rules' + mset gone"
      using "3.IH"(1) [OF 1 _ t(2,3,4)] by blast
    then show ?thesis using t
      by (intro exI [of _ "rule # gone"] exI [of _ "Reported_error rule # Cancelled rule # ends"] exI [of _ call]) auto
  next
    case 2
    then obtain t where t: "fr_cancel rule s = Some t" "serve_fd_rules ok rules ps t = Some (rules', s')"
      using "3.prems" by (auto split: Option.bind_splits if_splits)
    then obtain gone ends call where "replay (ends @ call) t = Some s'" "endings gone ends"
      "call = [] \<or> (\<exists>rule \<in> set rules'. call = [Called rule])" "subseq rules' rules"
      "mset rules = mset rules' + mset gone"
      using "3.IH"(2) [OF 2 t] by blast
    then show ?thesis using t
      by (intro exI [of _ "rule # gone"] exI [of _ "Cancelled rule # ends"] exI [of _ call]) auto
  next
    case 3
    then have "br_callback rule s = Some s'" "rules' = rule # rules"
      using "3.prems" by (auto split: Option.bind_splits if_splits)
    then show ?thesis by (intro exI [of _ "[]"] exI [of _ "[Called rule]"]) auto
  next
    case 4
    then obtain rs where r: "serve_fd_rules ok rules ps s = Some (rs, s')" "rules' = rule # rs"
      using "3.prems" by (auto split: Option.bind_splits if_splits)
    then show ?thesis using "3.IH"(3) [OF 4 r(1)] by fastforce
  qed
qed (auto intro: exI [of _ "[]"])

text \<open>
  The rules without a descriptor: the first interested one is served, and the rules before it are
  freed of the cancelled ones.
\<close>

definition first_interested :: "'s BasicRule list \<Rightarrow> 's BasicRule \<Rightarrow> 's \<Rightarrow> 's BasicRule list \<Rightarrow> bool" where
  "first_interested rules rule s rules' \<longleftrightarrow> (\<exists>before after. rules = before @ rule # after
     \<and> (\<forall>r \<in> set before. br_cancel_requested r \<or> \<not> br_interest r s)
     \<and> \<not> br_cancel_requested rule \<and> br_interest rule s
     \<and> rules' = filter (\<lambda>r. \<not> br_cancel_requested r) before @ rule # after)"

lemma first_interested_head:
  "\<not> br_cancel_requested rule \<Longrightarrow> br_interest rule s \<Longrightarrow> first_interested (rule # rules) rule s (rule # rules)"
  unfolding first_interested_def by (intro exI [of _ "[]"] exI [of _ rules]) simp

lemma first_interested_skip:
  "first_interested rules r s rules' \<Longrightarrow> br_cancel_requested rule \<or> \<not> br_interest rule s \<Longrightarrow>
     first_interested (rule # rules) r s (if br_cancel_requested rule then rules' else rule # rules')"
  unfolding first_interested_def by (elim exE conjE, rule exI [of _ "rule # _"]) auto

lemma serve_non_fd_served:
  assumes "serve_non_fd_rules rules s = Some (rules', s', served)"
  shows "if served
    then \<exists>rule k. first_interested rules rule s rules' \<and> 1 \<le> k \<and> k \<le> 128
      \<and> callback_steps k rule s = Some s' \<and> \<not> br_interest rule s'
    else s' = s \<and> rules' = filter (\<lambda>rule. \<not> br_cancel_requested rule) rules
      \<and> (\<forall>rule \<in> set rules'. \<not> br_interest rule s)"
  using assms
proof (induction rules s arbitrary: rules' s' served rule: serve_non_fd_rules.induct)
  case (2 rule rules s)
  show ?case
  proof (cases "br_cancel_requested rule")
    case True
    then have "serve_non_fd_rules rules s = Some (rules', s', served)" using 2(3) by simp
    from 2(1) [OF True this] show ?thesis
      using True first_interested_skip [of rules _ s rules' rule] by (cases served) auto
  next
    case live: False
    then obtain t fired where t: "serve_interested 128 rule s False = Some (t, fired)"
      using 2(3) by (auto split: Option.bind_splits)
    then obtain k where k: "k \<le> 128" "callback_steps k rule s = Some t" "\<not> br_interest rule t"
      "fired \<longleftrightarrow> 0 < k" "0 < k \<longleftrightarrow> br_interest rule s"
      using serve_interested_steps by fastforce
    show ?thesis
    proof (cases fired)
      case True
      then have "rules' = rule # rules" "s' = t" "served" using 2(3) live t by auto
      then show ?thesis using True k first_interested_head [OF live, of s rules]
        by (intro if_bool_eq_conj [THEN iffD2]) (auto intro!: exI [of _ rule] exI [of _ k])
    next
      case False
      then have st: "t = s" using k(2,4) by simp
      then obtain rs where r: "serve_non_fd_rules rules s = Some (rs, s', served)" "rules' = rule # rs"
        using 2(3) live t False by (auto split: Option.bind_splits)
      have "\<not> br_interest rule s" using False k(4,5) by simp
      then show ?thesis
        using 2(2) [OF live t [unfolded st] refl, OF _ r(1)] False live r(2)
          first_interested_skip [of rules _ s rs rule]
        by (cases served) auto
    qed
  qed
qed auto

lemma wait_next_event_report:
  assumes "wait_next_event poll ok timeout el s = Some (el', s', res)"
  obtains (non_fd) rules where "serve_non_fd_rules (el_non_fd_rules el) s = Some (rules, s', True)"
      "el' = el\<lparr>el_non_fd_rules := rules\<rparr>" "res = Success"
  | (idle) rules fds ps where "serve_non_fd_rules (el_non_fd_rules el) s = Some (rules, s, False)"
      "poll_rules (el_fd_rules el) s = Some (fds, ps, s')" "res \<noteq> Success"
      "el' = el\<lparr>el_non_fd_rules := rules, el_fd_rules := fds\<rparr>"
  | (fd) rules fds ps t reports fds' where "serve_non_fd_rules (el_non_fd_rules el) s = Some (rules, s, False)"
      "poll_rules (el_fd_rules el) s = Some (fds, ps, t)" "serve_fd_rules ok fds (zip ps reports) t = Some (fds', s')"
      "el' = el\<lparr>el_non_fd_rules := rules, el_fd_rules := fds'\<rparr>" "res = Success"
proof -
  from assms obtain rules u served where n: "serve_non_fd_rules (el_non_fd_rules el) s = Some (rules, u, served)"
    by (auto simp: wait_next_event_def split: Option.bind_splits)
  show thesis
  proof (cases served)
    case True
    then show thesis using assms n by (intro non_fd) (auto simp: wait_next_event_def)
  next
    case False
    then have u: "u = s" using serve_non_fd_served [OF n] by simp
    from assms n False obtain fds ps t where p: "poll_rules (el_fd_rules el) s = Some (fds, ps, t)"
      by (auto simp: wait_next_event_def u split: Option.bind_splits)
    show thesis
    proof (cases "res = Success")
      case True
      then show thesis using assms n p False
        by (auto simp: wait_next_event_def u split: Option.bind_splits if_splits intro: fd)
    next
      case other: False
      then show thesis using assms n p False
        by (auto simp: wait_next_event_def u split: Option.bind_splits if_splits intro: idle)
    qed
  qed
qed

text \<open>A rule without a descriptor that never loses interest is an error, not an endless loop.\<close>

lemma busy_wait_throws:
  assumes "el_non_fd_rules el = rule # rules" and "\<not> br_cancel_requested rule" and "P s"
    and "\<And>t. P t \<Longrightarrow> br_interest rule t \<and> (\<forall>t'. br_callback rule t = Some t' \<longrightarrow> P t')"
  shows "wait_next_event poll ok timeout el s = None"
  using serve_interested_busy [of P rule s, OF assms(4,3)] assms(1,2) by (simp add: wait_next_event_def)

section \<open>Rules that keep an invariant\<close>

text \<open>
  The contract of a set of rules, which the loop holds in the order they were added. A callback
  may count on what made its rule interested: the other callbacks that can run between the
  question and the callback leave that alone. These are the cancellation of any rule that is over
  and the error and cancellation callbacks of the rules added before.
\<close>

definition rule_over :: "'s FDRule \<Rightarrow> 's \<Rightarrow> bool" where
  "rule_over rule s \<longleftrightarrow> (fr_direction rule = In \<and> fd_eof (fr_fd rule s)) \<or> fd_closed (fr_fd rule s)"

locale watched =
  fixes rules :: "'s FDRule set"
    and inv :: "'s \<Rightarrow> bool"
    and live :: "'s FDRule \<Rightarrow> 's \<Rightarrow> bool"
  assumes interest_live: "rule \<in> rules \<Longrightarrow> inv s \<Longrightarrow> br_interest rule s \<Longrightarrow> live rule s"
    and call_inv: "rule \<in> rules \<Longrightarrow> inv s \<Longrightarrow> live rule s \<Longrightarrow> br_callback rule s = Some s' \<Longrightarrow> inv s'"
    and cancel_inv: "rule \<in> rules \<Longrightarrow> inv s \<Longrightarrow> fr_cancel rule s = Some s' \<Longrightarrow> inv s'"
    and error_inv: "rule \<in> rules \<Longrightarrow> inv s \<Longrightarrow> fr_error rule s = Some s' \<Longrightarrow> inv s'"
    and cancel_live: "rule \<in> rules \<Longrightarrow> inv s \<Longrightarrow> fr_cancel rule s = Some s' \<Longrightarrow>
      rule' \<in> rules \<Longrightarrow> br_id rule < br_id rule' \<or> (rule_over rule s \<and> br_id rule \<noteq> br_id rule') \<Longrightarrow>
      live rule' s \<Longrightarrow> live rule' s'"
    and error_live: "rule \<in> rules \<Longrightarrow> inv s \<Longrightarrow> fr_error rule s = Some s' \<Longrightarrow>
      rule' \<in> rules \<Longrightarrow> br_id rule < br_id rule' \<Longrightarrow> live rule' s \<Longrightarrow> live rule' s'"
begin

definition known :: "'s FDRule list \<Rightarrow> bool" where
  "known rs \<longleftrightarrow> set rs \<subseteq> rules \<and> sorted_wrt (<) (map br_id rs)"

text \<open>The entries of \<open>poll\<close> that ask for an event belong to rules that may be called.\<close>

definition asked_live :: "'s \<Rightarrow> 's FDRule list \<Rightarrow> pollfd list \<Rightarrow> bool" where
  "asked_live s rs ps \<longleftrightarrow> list_all2 (\<lambda>rule p. pf_asked p \<noteq> None \<longrightarrow> live rule s) rs ps"

lemma known_Cons: "known (rule # rs) \<longleftrightarrow> rule \<in> rules \<and> (\<forall>r \<in> set rs. br_id rule < br_id r) \<and> known rs"
  by (auto simp: known_def)

lemma poll_rules_keeps:
  assumes "poll_rules rs s = Some (rs', ps, s')" and "known rs" and "inv s"
  shows "inv s' \<and> known rs' \<and> set rs' \<subseteq> set rs \<and> asked_live s' rs' ps
    \<and> (\<forall>rule \<in> rules. (\<forall>r \<in> set rs. br_id r \<noteq> br_id rule) \<longrightarrow> live rule s \<longrightarrow> live rule s')"
  using assms
proof (induction rs s arbitrary: rs' ps s' rule: poll_rules.induct)
  case (1 s)
  then show ?case by (simp add: asked_live_def known_def)
next
  case (2 rule rs s)
  note k = "2.prems"(2) [unfolded known_Cons]
  consider "br_cancel_requested rule"
    | "\<not> br_cancel_requested rule" "(fr_direction rule = In \<and> fd_eof (fr_fd rule s)) \<or> fd_closed (fr_fd rule s)"
    | "\<not> br_cancel_requested rule" "\<not> ((fr_direction rule = In \<and> fd_eof (fr_fd rule s)) \<or> fd_closed (fr_fd rule s))"
    by blast
  then show ?case
  proof cases
    case 1
    then show ?thesis using "2.IH"(1) [OF 1] "2.prems" k by auto
  next
    case 2
    note over = 2
    then obtain t where t: "fr_cancel rule s = Some t" "poll_rules rs t = Some (rs', ps, s')"
      using "2.prems" by (auto split: Option.bind_splits if_splits)
    have i: "inv t" using cancel_inv k "2.prems"(3) t(1) by blast
    have "live rule' t" if "rule' \<in> rules" "br_id rule' \<noteq> br_id rule" "live rule' s" for rule'
      using cancel_live [OF _ "2.prems"(3) t(1) that(1) _ that(3)] k over(2) that(2)
      by (auto simp: rule_over_def)
    then show ?thesis using "2.IH"(2) [OF over t _ i] k by (metis list.set_intros(1) set_subset_Cons subset_trans list.set_intros(2))
  next
    case 3
    let ?p = "\<lparr>pf_fd = fd_num (fr_fd rule s),
      pf_asked = (if br_interest rule s then Some (fr_direction rule) else None)\<rparr>"
    obtain qs ps' where r: "poll_rules rs s = Some (qs, ps', s')" "rs' = rule # qs" "ps = ?p # ps'"
      using "2.prems" 3 by (auto simp: Let_def split: Option.bind_splits if_splits)
    from "2.IH"(3) [OF 3 refl r(1) _ "2.prems"(3)] k
    have ih: "inv s'" "known qs" "set qs \<subseteq> set rs" "asked_live s' qs ps'"
      "\<forall>rule \<in> rules. (\<forall>r \<in> set rs. br_id r \<noteq> br_id rule) \<longrightarrow> live rule s \<longrightarrow> live rule s'" by blast+
    moreover have "\<forall>r \<in> set rs. br_id r \<noteq> br_id rule" using k by auto
    ultimately have "pf_asked ?p \<noteq> None \<longrightarrow> live rule s'" using k interest_live "2.prems"(3) by auto
    then show ?thesis using ih k by (auto simp: r known_Cons asked_live_def)
  qed
qed

lemma serve_fd_keeps:
  assumes "serve_fd_rules ok rs (zip ps reports) s = Some (rs', s')" and "known rs" and "inv s"
    and "asked_live s rs ps"
  shows "inv s' \<and> known rs' \<and> set rs' \<subseteq> set rs"
  using assms
proof (induction rs arbitrary: ps reports s rs' s')
  case (Cons rule rs)
  then obtain p qs r reps where e: "ps = p # qs" "reports = r # reps"
    and live: "pf_asked p \<noteq> None \<longrightarrow> live rule s" "asked_live s rs qs"
    by (cases ps; cases reports) (auto simp: asked_live_def)
  note k = Cons.prems(2) [unfolded known_Cons]
  note run = Cons.prems(1) [unfolded e zip_Cons_Cons]
  have asked: "asked_live t' rs qs"
    if "\<And>rule'. rule' \<in> set rs \<Longrightarrow> live rule' t \<Longrightarrow> live rule' t'" "asked_live t rs qs" for t t'
    using that unfolding asked_live_def by (auto intro: list.rel_mono_strong)
  have others: "rule' \<in> rules \<and> br_id rule < br_id rule'" if "rule' \<in> set rs" for rule'
    using k that by (auto simp: known_def)
  consider "re_error r"
    | "\<not> re_error r" "re_hup r \<and> ((pf_asked p \<noteq> None \<and> \<not> poll_ready p r) \<or> fr_direction rule = Out)"
    | "\<not> re_error r" "\<not> (re_hup r \<and> ((pf_asked p \<noteq> None \<and> \<not> poll_ready p r) \<or> fr_direction rule = Out))"
      "poll_ready p r"
    | "\<not> re_error r" "\<not> (re_hup r \<and> ((pf_asked p \<noteq> None \<and> \<not> poll_ready p r) \<or> fr_direction rule = Out))"
      "\<not> poll_ready p r"
    by blast
  then show ?case
  proof cases
    case 1
    then obtain t u where t: "fr_error rule s = Some t" "fr_cancel rule t = Some u"
      "serve_fd_rules ok rs (zip qs reps) u = Some (rs', s')"
      using run by (auto split: Option.bind_splits if_splits)
    have i: "inv t" "inv u" using error_inv cancel_inv k Cons.prems(3) t(1,2) by blast+
    have "live rule' u" if "rule' \<in> set rs" "live rule' s" for rule'
      using error_live [OF _ Cons.prems(3) t(1), of rule'] cancel_live [OF _ i(1) t(2), of rule'] others [OF that(1)] k that(2)
      by blast
    then have "asked_live u rs qs" using asked live(2) by blast
    from Cons.IH [OF t(3) _ i(2) this] show ?thesis using k by auto
  next
    case 2
    then obtain t where t: "fr_cancel rule s = Some t" "serve_fd_rules ok rs (zip qs reps) t = Some (rs', s')"
      using run by (auto split: Option.bind_splits if_splits)
    have i: "inv t" using cancel_inv k Cons.prems(3) t(1) by blast
    have "live rule' t" if "rule' \<in> set rs" "live rule' s" for rule'
      using cancel_live [OF _ Cons.prems(3) t(1), of rule'] others [OF that(1)] k that(2) by blast
    then have "asked_live t rs qs" using asked live(2) by blast
    from Cons.IH [OF t(2) _ i this] show ?thesis using k by auto
  next
    case 3
    then have r: "br_callback rule s = Some s'" "rs' = rule # rs"
      using run by (auto split: Option.bind_splits if_splits)
    have "live rule s" using live(1) 3(3) by (auto simp: poll_ready_def split: option.splits)
    then show ?thesis using call_inv k Cons.prems(2,3) r by blast
  next
    case 4
    then obtain qs' where r: "serve_fd_rules ok rs (zip qs reps) s = Some (qs', s')" "rs' = rule # qs'"
      using run by (auto split: Option.bind_splits if_splits)
    from Cons.IH [OF r(1) _ Cons.prems(3) live(2)] k show ?thesis by (auto simp: r(2) known_Cons)
  qed
qed (simp add: known_def)

definition loop_ok :: "'s EventLoop \<Rightarrow> bool" where
  "loop_ok el \<longleftrightarrow> known (el_fd_rules el) \<and> el_non_fd_rules el = []"

lemma wait_keeps:
  assumes "wait_next_event poll ok timeout el s = Some (el', s', res)" and "loop_ok el" and "inv s"
  shows "inv s' \<and> loop_ok el'"
  using assms(1)
proof (cases rule: wait_next_event_report)
  case (non_fd rules)
  then show ?thesis using assms(2) by (simp add: loop_ok_def)
next
  case (idle rules fds ps)
  then show ?thesis using poll_rules_keeps [OF idle(2)] assms(2,3) by (simp add: loop_ok_def)
next
  case (fd rules fds ps t reports fds')
  then have "inv t \<and> known fds \<and> asked_live t fds ps"
    using poll_rules_keeps [OF fd(2)] assms(2,3) by (auto simp: loop_ok_def)
  then show ?thesis using serve_fd_keeps [OF fd(3)] fd(1,4) assms(2) by (auto simp: loop_ok_def)
qed

end

section \<open>Properties\<close>


text \<open>A loop with one rule that reads a descriptor, which is ready.\<close>

definition demo_loop :: "FDWrapper EventLoop" where
  "demo_loop = (event_loop 64)\<lparr>el_fd_rules := [\<lparr>br_id = 0, br_category_id = 0, br_interest = (\<lambda>_. True),
     br_callback = (\<lambda>w. Some (register_read w)), br_cancel_requested = False, fr_fd = (\<lambda>w. w), fr_direction = In,
     fr_cancel = Some, fr_error = Some\<rparr>]\<rparr>"

definition demo_fd :: FDWrapper where
  "demo_fd = \<lparr>fd_num = 3, fd_eof = False, fd_closed = False, fd_non_blocking = True, fd_read_count = 0,
     fd_write_count = 0\<rparr>"

definition demo_poll :: "pollfd list \<Rightarrow> int \<Rightarrow> (nat \<times> revents list) option" where
  "demo_poll ps timeout = Some (1, [\<lparr>re_in = True, re_out = False, re_error = False, re_hup = False\<rparr>])"

lemma demo_wait:
  "wait_next_event demo_poll (\<lambda>_. True) 10 demo_loop demo_fd
     = Some (demo_loop, demo_fd\<lparr>fd_read_count := 1\<rparr>, Success)"
  by (simp add: wait_next_event_def demo_loop_def event_loop_def demo_fd_def demo_poll_def poll_ready_def
      service_count_def register_read_def)


end
