(* ===== verification/Minnow_Socket.thy ===== *)
theory Minnow_Socket
  imports TCP_Peer Event_Loop Socket TCP_Over_IP
begin

text \<open>
  \<open>util/tcp_minnow_socket.hh\<close> and \<open>util/tcp_minnow_socket_impl.hh\<close>: the socket that runs a
  \<open>TCPPeer\<close> in an event loop, between a datagram adapter and a local stream socket whose other
  end the application holds. \<open>None\<close> is an exception, or an access to the peer when there is none.
\<close>

section \<open>The adapter and the system\<close>

text \<open>
  The template parameter \<open>AdaptT\<close> with the part of the system it works on, and the system calls
  of the local stream socket. The state \<open>'a\<close> is all that is outside of the socket's own fields:
  the adapter, the network and the application. A system call has an outcome and leaves it changed.
\<close>

record 'a System =
  ad_read :: "'a \<Rightarrow> ('a \<times> TCPMessage option) option"
  ad_write :: "TCPMessage \<Rightarrow> 'a \<Rightarrow> 'a option"
  ad_tick :: "u64 \<Rightarrow> 'a \<Rightarrow> 'a"
  ad_fd :: "'a \<Rightarrow> FDWrapper"
  ad_configure :: "FdAdapterConfig \<Rightarrow> 'a \<Rightarrow> 'a"
  ad_set_listening :: "bool \<Rightarrow> 'a \<Rightarrow> 'a"
  sys_read :: "nat \<Rightarrow> 'a \<Rightarrow> byte list syscall \<times> 'a"
  sys_writev :: "byte list list \<Rightarrow> 'a \<Rightarrow> nat syscall \<times> 'a"
  sys_shutdown :: "int \<Rightarrow> int \<Rightarrow> 'a \<Rightarrow> unit syscall \<times> 'a"

text \<open>\<open>ms_owner\<close> is the application's end, the base class of the socket.\<close>

record 'a MinnowSocket =
  ms_system :: 'a
  ms_owner :: FDWrapper
  ms_thread_data :: FDWrapper
  ms_tcp :: "TCPPeer option"
  ms_inbound_shutdown :: bool
  ms_outbound_shutdown :: bool
  ms_fully_acked :: bool

text \<open>The constructor makes both ends non-blocking.\<close>

definition minnow_socket ::
    "'a \<Rightarrow> (int \<Rightarrow> bool syscall) \<Rightarrow> (int \<Rightarrow> bool \<Rightarrow> unit syscall) \<Rightarrow> FDWrapper \<Rightarrow> FDWrapper \<Rightarrow> 'a MinnowSocket option" where
  "minnow_socket system getfl setfl owner thread_data =
     do { thread_data \<leftarrow> set_blocking (getfl (fd_num thread_data)) (setfl (fd_num thread_data)) False thread_data;
          owner \<leftarrow> set_blocking (getfl (fd_num owner)) (setfl (fd_num owner)) False owner;
          Some \<lparr>ms_system = system, ms_owner = owner, ms_thread_data = thread_data, ms_tcp = None,
            ms_inbound_shutdown = False, ms_outbound_shutdown = False, ms_fully_acked = False\<rparr> }"

text \<open>The operations of the local stream socket, with the system calls at the state they meet.\<close>

definition thread_read :: "'a System \<Rightarrow> byte list \<Rightarrow> 'a MinnowSocket \<Rightarrow> ('a MinnowSocket \<times> byte list) option" where
  "thread_read E buffer s =
     do { (w, data) \<leftarrow> fd_read (\<lambda>n. fst (sys_read E n (ms_system s))) buffer (ms_thread_data s);
          Some (s\<lparr>ms_thread_data := w, ms_system := snd (sys_read E (read_size buffer) (ms_system s))\<rparr>, data) }"

definition thread_write :: "'a System \<Rightarrow> byte list \<Rightarrow> 'a MinnowSocket \<Rightarrow> ('a MinnowSocket \<times> nat) option" where
  "thread_write E buffer s =
     do { (w, n) \<leftarrow> fd_write (\<lambda>views. fst (sys_writev E views (ms_system s))) buffer (ms_thread_data s);
          Some (s\<lparr>ms_thread_data := w, ms_system := snd (sys_writev E [buffer] (ms_system s))\<rparr>, n) }"

definition thread_shutdown :: "'a System \<Rightarrow> int \<Rightarrow> 'a MinnowSocket \<Rightarrow> 'a MinnowSocket option" where
  "thread_shutdown E how s =
     (let call = (\<lambda>how. sys_shutdown E (fd_num (ms_thread_data s)) how (ms_system s))
      in do { w \<leftarrow> socket_shutdown (\<lambda>how. fst (call how)) how (ms_thread_data s);
              Some (s\<lparr>ms_thread_data := w, ms_system := snd (call how)\<rparr>) })"

definition owner_shutdown :: "'a System \<Rightarrow> int \<Rightarrow> 'a MinnowSocket \<Rightarrow> 'a MinnowSocket option" where
  "owner_shutdown E how s =
     (let call = (\<lambda>how. sys_shutdown E (fd_num (ms_owner s)) how (ms_system s))
      in do { w \<leftarrow> socket_shutdown (\<lambda>how. fst (call how)) how (ms_owner s);
              Some (s\<lparr>ms_owner := w, ms_system := snd (call how)\<rparr>) })"

text \<open>The function given to the peer as \<open>transmit\<close>, over the messages of one call.\<close>

fun write_messages :: "'a System \<Rightarrow> TCPMessage list \<Rightarrow> 'a \<Rightarrow> 'a option" where
  "write_messages E [] a = Some a"
| "write_messages E (msg # msgs) a = do { a \<leftarrow> ad_write E msg a; write_messages E msgs a }"

definition peer_writes :: "'a System \<Rightarrow> TCPPeer \<times> TCPMessage list \<Rightarrow> 'a MinnowSocket \<Rightarrow> 'a MinnowSocket option" where
  "peer_writes E r s =
     do { a \<leftarrow> write_messages E (snd r) (ms_system s); Some (s\<lparr>ms_tcp := Some (fst r), ms_system := a\<rparr>) }"

definition on_tcp :: "(TCPPeer \<Rightarrow> TCPPeer) \<Rightarrow> 'a MinnowSocket \<Rightarrow> 'a MinnowSocket option" where
  "on_tcp f s = do { p \<leftarrow> ms_tcp s; Some (s\<lparr>ms_tcp := Some (f p)\<rparr>) }"

section \<open>The rules\<close>

text \<open>
  The interest of a rule is a test that also has a value without a peer; the loop runs only while
  there is one.
\<close>

definition tcp_test :: "(TCPPeer \<Rightarrow> bool) \<Rightarrow> 'a MinnowSocket \<Rightarrow> bool" where
  "tcp_test t s = (case ms_tcp s of None \<Rightarrow> False | Some p \<Rightarrow> t p)"

text \<open>Rule 1: a datagram from the network goes to the peer.\<close>

definition receive_callback :: "'a System \<Rightarrow> 'a MinnowSocket \<Rightarrow> 'a MinnowSocket option" where
  "receive_callback E s =
     do { (a, seg) \<leftarrow> ad_read E (ms_system s);
          s \<leftarrow> Some (s\<lparr>ms_system := a\<rparr>);
          s \<leftarrow> (case seg of
                 None \<Rightarrow> Some s
               | Some seg \<Rightarrow> do { p \<leftarrow> ms_tcp s; r \<leftarrow> peer_receive p seg; peer_writes E r s });
          (if fd_eof (ms_thread_data s)
           then do { p \<leftarrow> ms_tcp s;
                     Some (if sequence_numbers_in_flight (tp_sender p) = 0 \<and> \<not> ms_fully_acked s
                           then s\<lparr>ms_fully_acked := True\<rparr> else s) }
           else Some s) }"

definition receive_interest :: "'a MinnowSocket \<Rightarrow> bool" where
  "receive_interest = tcp_test peer_active"

text \<open>Rule 2: bytes from the application go to the outbound stream, as many as it has room for.\<close>

definition close_outbound :: "'a MinnowSocket \<Rightarrow> 'a MinnowSocket option" where
  "close_outbound s = do { s \<leftarrow> on_tcp (on_outbound writer_close) s; Some (s\<lparr>ms_outbound_shutdown := True\<rparr>) }"

definition push_callback :: "'a System \<Rightarrow> 'a MinnowSocket \<Rightarrow> 'a MinnowSocket option" where
  "push_callback E s =
     do { p \<leftarrow> ms_tcp s;
          (s, data) \<leftarrow> thread_read E (replicate (unat (available_capacity (sn_input (tp_sender p)))) 0) s;
          s \<leftarrow> on_tcp (on_outbound (\<lambda>w. writer_push w data)) s;
          s \<leftarrow> (if fd_eof (ms_thread_data s) then close_outbound s else Some s);
          p \<leftarrow> ms_tcp s;
          peer_writes E (peer_push p) s }"

definition push_interest :: "'a MinnowSocket \<Rightarrow> bool" where
  "push_interest s \<longleftrightarrow> tcp_test peer_active s \<and> \<not> ms_outbound_shutdown s
     \<and> tcp_test (\<lambda>p. available_capacity (sn_input (tp_sender p)) > 0) s"

definition push_error :: "'a MinnowSocket \<Rightarrow> 'a MinnowSocket option" where
  "push_error s = on_tcp (on_outbound set_error) s"

text \<open>Rule 3: bytes of the inbound stream go to the application, as many as its end takes.\<close>

definition inbound_over :: "TCPPeer \<Rightarrow> bool" where
  "inbound_over p \<longleftrightarrow> reader_is_finished (ra_output (rv_reassembler (tp_receiver p)))
     \<or> has_error (ra_output (rv_reassembler (tp_receiver p)))"

definition deliver_callback :: "'a System \<Rightarrow> 'a MinnowSocket \<Rightarrow> 'a MinnowSocket option" where
  "deliver_callback E s =
     do { p \<leftarrow> ms_tcp s;
          s \<leftarrow> (if bytes_buffered (ra_output (rv_reassembler (tp_receiver p))) \<noteq> 0
               then do { (s, bytes_written) \<leftarrow> thread_write E (reader_peek (ra_output (rv_reassembler (tp_receiver p)))) s;
                         on_tcp (on_inbound (\<lambda>r. tcp_receiver_pop r (of_nat bytes_written))) s }
               else Some s);
          p \<leftarrow> ms_tcp s;
          (if inbound_over p
           then do { s \<leftarrow> thread_shutdown E SHUT_WR s; Some (s\<lparr>ms_inbound_shutdown := True\<rparr>) }
           else Some s) }"

definition deliver_interest :: "'a MinnowSocket \<Rightarrow> bool" where
  "deliver_interest s \<longleftrightarrow>
     tcp_test (\<lambda>p. bytes_buffered (ra_output (rv_reassembler (tp_receiver p))) \<noteq> 0) s
     \<or> (tcp_test inbound_over s \<and> \<not> ms_inbound_shutdown s)"

definition deliver_error :: "'a MinnowSocket \<Rightarrow> 'a MinnowSocket option" where
  "deliver_error s = on_tcp (on_inbound tcp_receiver_fail) s"

section \<open>The loop\<close>

definition initialize_TCP ::
    "'a System \<Rightarrow> TCPConfig \<Rightarrow> 'a MinnowSocket EventLoop \<Rightarrow> 'a MinnowSocket
       \<Rightarrow> ('a MinnowSocket EventLoop \<times> 'a MinnowSocket) option" where
  "initialize_TCP E config el s =
     do { s \<leftarrow> Some (s\<lparr>ms_tcp := Some (tcp_peer config)\<rparr>);
          (el, _) \<leftarrow> add_named_fd_rule ''receive TCP segment from the network'' (\<lambda>s. ad_fd E (ms_system s)) In
            (receive_callback E) receive_interest Some Some el;
          (el, _) \<leftarrow> add_named_fd_rule ''push bytes to TCPPeer'' ms_thread_data In
            (push_callback E) push_interest close_outbound push_error el;
          (el, _) \<leftarrow> add_named_fd_rule ''read bytes from inbound stream'' ms_thread_data Out
            (deliver_callback E) deliver_interest Some deliver_error el;
          Some (el, s) }"

text \<open>
  One round of \<open>_tcp_loop\<close> gets from outside what \<open>poll\<close> and \<open>getsockopt\<close> answer, whether the
  owner has asked to abort, and the time.
\<close>

record turn =
  tn_poll :: "pollfd list \<Rightarrow> int \<Rightarrow> (nat \<times> revents list) option"
  tn_getsockopt_ok :: "int \<Rightarrow> bool"
  tn_abort :: bool
  tn_time :: u64

definition TCP_TICK_MS :: int where
  "TCP_TICK_MS = 10"

definition loop_tick :: "'a System \<Rightarrow> u64 \<Rightarrow> u64 \<Rightarrow> 'a MinnowSocket \<Rightarrow> ('a MinnowSocket \<times> u64) option" where
  "loop_tick E base_time next_time s =
     do { p \<leftarrow> ms_tcp s;
          (if peer_active p
           then do { s \<leftarrow> peer_writes E (peer_tick p (next_time - base_time)) s;
                     Some (s\<lparr>ms_system := ad_tick E (next_time - base_time) (ms_system s)\<rparr>, next_time) }
           else Some (s, base_time)) }"

text \<open>The loop over the turns there are; the result says whether it has ended and what is left.\<close>

fun tcp_loop ::
    "'a System \<Rightarrow> ('a MinnowSocket \<Rightarrow> bool) \<Rightarrow> u64 \<Rightarrow> turn list \<Rightarrow> 'a MinnowSocket EventLoop \<Rightarrow> 'a MinnowSocket
       \<Rightarrow> ('a MinnowSocket EventLoop \<times> 'a MinnowSocket \<times> turn list \<times> bool) option" where
  "tcp_loop E condition base_time [] el s = Some (el, s, [], \<not> condition s)"
| "tcp_loop E condition base_time (t # turns) el s =
     (if \<not> condition s then Some (el, s, t # turns, True)
      else do { (el, s, ret) \<leftarrow> wait_next_event (tn_poll t) (tn_getsockopt_ok t) TCP_TICK_MS el s;
                (if ret = Exit \<or> tn_abort t then Some (el, s, turns, True)
                 else do { (s, base_time) \<leftarrow> loop_tick E base_time (tn_time t) s;
                           tcp_loop E condition base_time turns el s }) })"

definition syn_in_flight :: "'a MinnowSocket \<Rightarrow> bool" where
  "syn_in_flight = tcp_test (\<lambda>p. sequence_numbers_in_flight (tp_sender p) = 1)"

definition handshaking :: "'a MinnowSocket \<Rightarrow> bool" where
  "handshaking = tcp_test (\<lambda>p. \<not> has_ackno p \<or> sequence_numbers_in_flight (tp_sender p) \<noteq> 0)"

text \<open>The parts of \<open>connect\<close> and \<open>listen_and_accept\<close> before their loops.\<close>

definition minnow_start ::
    "'a System \<Rightarrow> TCPConfig \<Rightarrow> FdAdapterConfig \<Rightarrow> 'a MinnowSocket EventLoop \<Rightarrow> 'a MinnowSocket
       \<Rightarrow> ('a MinnowSocket EventLoop \<times> 'a MinnowSocket) option" where
  "minnow_start E c_tcp c_ad el s =
     (if ms_tcp s \<noteq> None then None
      else do { (el, s) \<leftarrow> initialize_TCP E c_tcp el s;
                s \<leftarrow> Some (s\<lparr>ms_system := ad_configure E c_ad (ms_system s)\<rparr>);
                p \<leftarrow> ms_tcp s;
                s \<leftarrow> peer_writes E (peer_push p) s;
                p \<leftarrow> ms_tcp s;
                (if sequence_numbers_in_flight (tp_sender p) \<noteq> 1 then None else Some (el, s)) })"

definition minnow_listen ::
    "'a System \<Rightarrow> TCPConfig \<Rightarrow> FdAdapterConfig \<Rightarrow> 'a MinnowSocket EventLoop \<Rightarrow> 'a MinnowSocket
       \<Rightarrow> ('a MinnowSocket EventLoop \<times> 'a MinnowSocket) option" where
  "minnow_listen E c_tcp c_ad el s =
     (if ms_tcp s \<noteq> None then None
      else do { (el, s) \<leftarrow> initialize_TCP E c_tcp el s;
                Some (el, s\<lparr>ms_system := ad_set_listening E True (ad_configure E c_ad (ms_system s))\<rparr>) })"

definition minnow_connect where
  "minnow_connect E c_tcp c_ad base_time turns el s =
     do { (el, s) \<leftarrow> minnow_start E c_tcp c_ad el s; tcp_loop E syn_in_flight base_time turns el s }"

definition listen_and_accept where
  "listen_and_accept E c_tcp c_ad base_time turns el s =
     do { (el, s) \<leftarrow> minnow_listen E c_tcp c_ad el s; tcp_loop E handshaking base_time turns el s }"

text \<open>
  \<open>_tcp_main\<close>, the thread: when its loop has ended it shuts the application's end down and the
  peer is gone.
\<close>

definition tcp_main where
  "tcp_main E base_time turns el s =
     (if ms_tcp s = None then None
      else do { (el, s, turns, ended) \<leftarrow> tcp_loop E (\<lambda>_. True) base_time turns el s;
                (if ended
                 then do { s \<leftarrow> owner_shutdown E SHUT_RDWR s; Some (el, s\<lparr>ms_tcp := None\<rparr>, turns, True) }
                 else Some (el, s, turns, False)) })"

text \<open>
  The owner's ends: \<open>wait_until_closed\<close> shuts its end down and lets the thread run to its end;
  the destructor makes the thread stop after the event it waits for.
\<close>

definition wait_until_closed where
  "wait_until_closed E base_time turns el s = do { s \<leftarrow> owner_shutdown E SHUT_RDWR s; tcp_main E base_time turns el s }"

definition minnow_destroy where
  "minnow_destroy E base_time t el s = tcp_main E base_time [t\<lparr>tn_abort := True\<rparr>] el s"

text \<open>\<open>CS144TCPSocket::connect\<close>: its configurations, with the source address as resolved.\<close>

definition cs144_config :: TCPConfig where
  "cs144_config = tcp_config\<lparr>cfg_rt_timeout := 100\<rparr>"

definition cs144_multiplexer :: "Address \<Rightarrow> Address \<Rightarrow> FdAdapterConfig" where
  "cs144_multiplexer source address = (fd_cfg fd_adapter)\<lparr>fd_source := source, fd_destination := address\<rparr>"

definition cs144_connect where
  "cs144_connect E source address base_time turns el s =
     minnow_connect E cs144_config (cs144_multiplexer source address) base_time turns el s"

text \<open>The destructor sends nothing of its own, also no segment with RST.\<close>

lemma destroy_sends_no_reset:
  assumes "ms_tcp s \<noteq> None"
  shows "minnow_destroy E base_time t el s =
    do { (el, s, ret) \<leftarrow> wait_next_event (tn_poll t) (tn_getsockopt_ok t) TCP_TICK_MS el s;
         s \<leftarrow> owner_shutdown E SHUT_RDWR s; Some (el, s\<lparr>ms_tcp := None\<rparr>, [], True) }"
  using assms by (cases "wait_next_event (tn_poll t) (tn_getsockopt_ok t) TCP_TICK_MS el s")
    (auto simp: minnow_destroy_def tcp_main_def)

end
