(* ===== verification/Minnow_Simulation.thy ===== *)
theory Minnow_Simulation
  imports Minnow_Socket Peer_Capacity
begin

text \<open>
  A \<open>TCPMinnowSocket\<close> is a host of \<open>TCP_Connection\<close>: whatever its loop does amounts to events
  of the peer, in which every byte the socket reads from the application is taken by the outbound
  stream, every byte it pops from the inbound stream has reached the application, and the messages
  written to the adapter are those the peer sent. What the adapter and the system have to promise
  for that is the locale \<open>socket_system\<close>.
\<close>

section \<open>Streams that are over\<close>

text \<open>An inbound stream that is over stays over.\<close>

lemma receive_over:
  assumes "tcp_receiver_receive r m = Some r'"
    and "reader_is_finished (ra_output (rv_reassembler r)) \<or> has_error (ra_output (rv_reassembler r))"
  shows "reader_is_finished (ra_output (rv_reassembler r')) \<or> has_error (ra_output (rv_reassembler r'))"
  using assms by (auto simp: tcp_receiver_receive_def receiver_syn_def receiver_place_def reassembler_set_error_def
      set_error_def has_error_def reader_is_finished_def writer_is_closed_def Let_def split: if_splits)

lemma over_stays:
  assumes "peer_sane cfg p" and "owned_op e" and "inbound_over p"
  shows "inbound_over (peer_step p e)"
proof (cases e)
  case (Net_receive msg)
  show ?thesis
  proof (cases "peer_active p")
    case True
    obtain q where "tcp_receiver_receive (tp_receiver p) (ref_get (tm_sender msg)) = Some (tp_receiver q)"
      "peer_step p e = q"
      using peer_receive_owned [OF _ True, of msg] assms(1,2) by (auto simp: Net_receive peer_step_def peer_sane_def)
    then show ?thesis using receive_over assms(3) unfolding inbound_over_def by blast
  qed (use assms(3) in \<open>simp add: Net_receive peer_step_inactive\<close>)
qed (use assms(3) in \<open>auto simp: peer_step_def on_outbound_def on_inbound_def peer_push_eq peer_tick_eq inbound_over_def
  tcp_receiver_pop_def tcp_receiver_fail_def reassembler_pop_def reassembler_set_error_def set_error_def
  reader_is_finished_def has_error_def reader_pop_def Let_def\<close>)

section \<open>The history of a socket\<close>

text \<open>What went through the adapter and the local stream socket.\<close>

record Log =
  lg_sent :: "TCPMessage list"
  lg_received :: "TCPMessage list"
  lg_from_app :: "byte list"
  lg_to_app :: "byte list"

definition represents :: "Log \<Rightarrow> 'a MinnowSocket \<Rightarrow> Host \<Rightarrow> bool" where
  "represents l s h \<longleftrightarrow> ms_tcp s = Some (ho_peer h) \<and> (\<exists>cfg. peer_sane cfg (ho_peer h))
     \<and> lg_sent l = ho_sent h \<and> lg_from_app l = ho_written h \<and> lg_to_app l = ho_read h
     \<and> (bs_closed (outbound_stream h) \<longrightarrow> ms_outbound_shutdown s)
     \<and> (ms_inbound_shutdown s \<longrightarrow> inbound_over (ho_peer h))"

text \<open>The events of a host whose messages come from the list \<open>arrives\<close>.\<close>

inductive host_step :: "TCPMessage list \<Rightarrow> Host \<Rightarrow> Host \<Rightarrow> bool" for arrives where
  act: "possible arrives (ho_peer h) e \<Longrightarrow> host_step arrives h (host_act h e)"

lemma host_stepI: "possible arrives (ho_peer h) e \<Longrightarrow> (host_step arrives)\<^sup>*\<^sup>* h (host_act h e)"
  by (simp add: host_step.act r_into_rtranclp)

lemma host_steps_connection:
  assumes "(host_step (ho_sent b))\<^sup>*\<^sup>* a a'" and "connection cfg_a cfg_b a b"
  shows "connection cfg_a cfg_b a' b"
  using assms
proof (induction rule: rtranclp_induct)
  case (step h h')
  from step.hyps(2) have "conn_step (h, b) (h', b)" by cases (simp add: left)
  then show ?case using step.IH step.prems by (simp add: connection_def)
qed

text \<open>Most events leave most of a host's history alone.\<close>

lemma quiet_events [simp]:
  "taken_in p Net_push = []" "given_out p Net_push = []" "peer_out p (App_write d) = []"
  "peer_out p App_close = []" "peer_out p App_fail = []" "peer_out p App_break = []" "peer_out p (App_read n) = []"
  by (simp_all add: peer_out_def)

lemma represents_step:
  assumes r: "represents l s h" and e: "possible arrives (ho_peer h) e"
    and s': "ms_tcp s' = Some (peer_step (ho_peer h) e)"
    and l': "lg_sent l' = lg_sent l @ peer_out (ho_peer h) e" "lg_from_app l' = lg_from_app l @ taken_in (ho_peer h) e"
      "lg_to_app l' = lg_to_app l @ given_out (ho_peer h) e"
    and closed: "bs_closed (outbound_stream (host_act h e)) \<longrightarrow> ms_outbound_shutdown s'"
    and over: "ms_inbound_shutdown s' \<longrightarrow> ms_inbound_shutdown s"
  shows "represents l' s' (host_act h e)"
proof -
  obtain cfg where "peer_sane cfg (ho_peer h)" using r by (auto simp: represents_def)
  from peer_sane_step [OF this possible_owned [OF e]] over_stays [OF this possible_owned [OF e]]
  show ?thesis using r s' l' closed over by (auto simp: represents_def)
qed

text \<open>Only the application closes the outbound stream.\<close>

lemma stays_open:
  assumes "receiver_sane (tp_receiver p)" and "owned_op e" and "e \<noteq> App_close"
  shows "bs_closed (sn_input (tp_sender (peer_step p e))) = bs_closed (sn_input (tp_sender p))"
proof -
  have "bs_closed (sn_input (fst (tcp_sender_push t))) = bs_closed (sn_input t)" for t
    using push_side [of t] by (simp add: writer_side_def)
  then have *: "bs_closed (sn_input (send_step t c)) = bs_closed (sn_input t)" if "c \<noteq> Finish" for t c
    using that
    by (cases c) (simp_all add: send_step_def writer_push_def set_error_def receive_input tcp_sender_tick_def Let_def)
  have "bs_closed (sn_input (run send_step t cs)) = bs_closed (sn_input t)" if "Finish \<notin> set cs" for t cs
    using that
  proof (induction cs arbitrary: t)
    case (Cons c cs)
    then show ?case using * [of c t] by auto
  qed simp
  moreover have "Finish \<notin> set (sender_calls p e)" using assms(3) by (cases e) auto
  ultimately show ?thesis by (simp add: sender_step [OF assms(1,2)])
qed

section \<open>What the adapter and the system promise\<close>

locale socket_system =
  fixes E :: "'a System" and log :: "'a \<Rightarrow> Log"
  assumes read_log: "ad_read E a = Some (a', m) \<Longrightarrow>
      log a' = (log a)\<lparr>lg_received := lg_received (log a) @ (case m of None \<Rightarrow> [] | Some msg \<Rightarrow> [msg])\<rparr>"
    and write_log: "ad_write E msg a = Some a' \<Longrightarrow> log a' = (log a)\<lparr>lg_sent := lg_sent (log a) @ [msg]\<rparr>"
    and tick_log: "log (ad_tick E t a) = log a"
    and configure_log: "log (ad_configure E c a) = log a"
    and listening_log: "log (ad_set_listening E b a) = log a"
    and shutdown_log: "log (snd (sys_shutdown E fd how a)) = log a"
    and app_read_log: "log (snd (sys_read E n a)) = (log a)\<lparr>lg_from_app := lg_from_app (log a)
      @ (case fst (sys_read E n a) of Done bytes \<Rightarrow> bytes | _ \<Rightarrow> [])\<rparr>"
    and app_write_log: "log (snd (sys_writev E views a)) = (log a)\<lparr>lg_to_app := lg_to_app (log a)
      @ (case fst (sys_writev E views a) of Done n \<Rightarrow> take n (concat views) | _ \<Rightarrow> [])\<rparr>"
begin

abbreviation history :: "'a MinnowSocket \<Rightarrow> Log" where
  "history s \<equiv> log (ms_system s)"

lemma write_messages_log:
  "write_messages E msgs a = Some a' \<Longrightarrow> log a' = (log a)\<lparr>lg_sent := lg_sent (log a) @ msgs\<rparr>"
  by (induction msgs arbitrary: a) (auto simp: write_log split: Option.bind_splits)

lemma thread_read_log:
  assumes "thread_read E buffer s = Some (s', data)"
  shows "length data \<le> read_size buffer" and "ms_tcp s' = ms_tcp s"
    and "ms_outbound_shutdown s' = ms_outbound_shutdown s"
    and "history s' = (history s)\<lparr>lg_from_app := lg_from_app (history s) @ data\<rparr>"
    and "ms_inbound_shutdown s' = ms_inbound_shutdown s"
  using assms app_read_log [of "read_size buffer" "ms_system s"]
  by (auto simp: thread_read_def fd_read_def Let_def split: Option.bind_splits syscall.splits if_splits)

lemma thread_write_log:
  assumes "thread_write E data s = Some (s', n)"
  shows "n \<le> length data" and "ms_tcp s' = ms_tcp s" and "ms_outbound_shutdown s' = ms_outbound_shutdown s"
    and "history s' = (history s)\<lparr>lg_to_app := lg_to_app (history s) @ take n data\<rparr>"
    and "ms_inbound_shutdown s' = ms_inbound_shutdown s"
  using assms app_write_log [of "[data]" "ms_system s"]
  by (auto simp: thread_write_def fd_write_def fd_write_views_def check_system_call_def Let_def
      split: Option.bind_splits syscall.splits if_splits)

lemma thread_shutdown_log:
  assumes "thread_shutdown E how s = Some s'"
  shows "ms_tcp s' = ms_tcp s" and "ms_outbound_shutdown s' = ms_outbound_shutdown s"
    and "history s' = history s" and "ms_inbound_shutdown s' = ms_inbound_shutdown s"
  using assms by (auto simp: thread_shutdown_def Let_def shutdown_log split: Option.bind_splits)

text \<open>A call of the peer whose messages are written, and one without messages.\<close>

lemma peer_writes_event:
  assumes "represents (history s) s h" and "possible arrives (ho_peer h) e"
    and "peer_event (ho_peer h) e = Some r" and "peer_writes E r s = Some s'"
    and "taken_in (ho_peer h) e = []" and "given_out (ho_peer h) e = []" and "e \<noteq> App_close"
  shows "represents (history s') s' (host_act h e)"
proof -
  obtain p out a where r: "r = (p, out)" "write_messages E out (ms_system s) = Some a"
    "s' = s\<lparr>ms_tcp := Some p, ms_system := a\<rparr>"
    using assms(4) by (cases r) (auto simp: peer_writes_def split: Option.bind_splits)
  have p: "peer_step (ho_peer h) e = p" "peer_out (ho_peer h) e = out"
    using assms(3) by (simp_all add: peer_step_def peer_out_def r)
  have "bs_closed (outbound_stream (host_act h e)) \<longrightarrow> ms_outbound_shutdown s'"
    using stays_open [of "ho_peer h" e] possible_owned [OF assms(2)] assms(1,7)
    by (simp add: represents_def peer_sane_def r)
  then show ?thesis
    using assms(5,6) write_messages_log [OF r(2)]
    by (intro represents_step [OF assms(1,2)]) (simp_all add: r p)
qed

lemma represents_app:
  assumes "represents (history s) s h" and "possible arrives (ho_peer h) e"
    and "s' = t\<lparr>ms_tcp := Some (peer_step (ho_peer h) e)\<rparr>" and "peer_out (ho_peer h) e = []"
    and "history t = (history s)\<lparr>lg_from_app := lg_from_app (history s) @ taken_in (ho_peer h) e,
      lg_to_app := lg_to_app (history s) @ given_out (ho_peer h) e\<rparr>"
    and "ms_outbound_shutdown t \<longleftrightarrow> ms_outbound_shutdown s \<or> e = App_close"
    and "ms_inbound_shutdown t = ms_inbound_shutdown s"
  shows "represents (history s') s' (host_act h e)"
proof (rule represents_step [OF assms(1,2)])
  show "bs_closed (outbound_stream (host_act h e)) \<longrightarrow> ms_outbound_shutdown s'"
    using stays_open [of "ho_peer h" e] possible_owned [OF assms(2)] assms(1,3,6)
    by (auto simp: represents_def peer_sane_def)
qed (use assms(3-5,7) in simp_all)

lemma represents_cong:
  assumes "represents (history s) s h" and "ms_tcp t = ms_tcp s" and "history t = history s"
    and "ms_outbound_shutdown t = ms_outbound_shutdown s"
    and "ms_inbound_shutdown t \<Longrightarrow> ms_inbound_shutdown s \<or> tcp_test inbound_over t"
  shows "represents (history t) t h"
  using assms by (auto simp: represents_def tcp_test_def)

text \<open>
  A transition of the socket: it only adds to the messages received, and if all of those come from
  \<open>arrives\<close> then it amounts to events of the host.
\<close>

definition moves :: "TCPMessage list \<Rightarrow> 'a MinnowSocket \<Rightarrow> 'a MinnowSocket \<Rightarrow> bool" where
  "moves arrives s s' \<longleftrightarrow> set (lg_received (history s)) \<subseteq> set (lg_received (history s'))
     \<and> (\<forall>h. represents (history s) s h \<longrightarrow> set (lg_received (history s')) \<subseteq> received_message ` set arrives \<longrightarrow>
          (\<exists>h'. (host_step arrives)\<^sup>*\<^sup>* h h' \<and> represents (history s') s' h'))"

lemma moves_refl: "moves arrives s s"
  by (auto simp: moves_def)

lemma moves_trans: "moves arrives s t \<Longrightarrow> moves arrives t u \<Longrightarrow> moves arrives s u"
  unfolding moves_def by (meson order_trans rtranclp_trans)

lemma moves_same:
  assumes "ms_tcp t = ms_tcp s" and "history t = history s" and "ms_outbound_shutdown t = ms_outbound_shutdown s"
    and "ms_inbound_shutdown t \<Longrightarrow> ms_inbound_shutdown s \<or> tcp_test inbound_over t"
  shows "moves arrives s t"
  unfolding moves_def using represents_cong [OF _ assms] assms(2) by (metis order_refl rtranclp.rtrancl_refl)

lemma moves_app:
  assumes "ms_tcp s = Some p" and "s' = t\<lparr>ms_tcp := Some (peer_step p e)\<rparr>" and "peer_out p e = []"
    and "possible arrives p e" and "lg_received (history t) = lg_received (history s)"
    and "\<And>h. represents (history s) s h \<Longrightarrow>
      history t = (history s)\<lparr>lg_from_app := lg_from_app (history s) @ taken_in p e,
        lg_to_app := lg_to_app (history s) @ given_out p e\<rparr>"
    and "ms_outbound_shutdown t \<longleftrightarrow> ms_outbound_shutdown s \<or> e = App_close"
    and "ms_inbound_shutdown t = ms_inbound_shutdown s"
  shows "moves arrives s s'"
  unfolding moves_def
proof (intro conjI allI impI)
  show "set (lg_received (history s)) \<subseteq> set (lg_received (history s'))" using assms(2,5) by simp
next
  fix h assume h: "represents (history s) s h"
  then have p: "p = ho_peer h" using assms(1) by (simp add: represents_def)
  then show "\<exists>h'. (host_step arrives)\<^sup>*\<^sup>* h h' \<and> represents (history s') s' h'"
    using represents_app [OF h, of arrives e s' t] host_stepI [of arrives h e] assms(2-4,7,8)
      assms(6) [OF h] by blast
qed

lemma moves_writes:
  assumes "ms_tcp s = Some p" and "peer_event p e = Some r" and "peer_writes E r s = Some s'"
    and "possible arrives p e" and "taken_in p e = []" and "given_out p e = []" and "e \<noteq> App_close"
  shows "moves arrives s s'"
  unfolding moves_def
proof (intro conjI allI impI)
  show "set (lg_received (history s)) \<subseteq> set (lg_received (history s'))"
    using assms(3) by (auto simp: peer_writes_def dest: write_messages_log split: Option.bind_splits)
next
  fix h assume h: "represents (history s) s h"
  then have p: "p = ho_peer h" using assms(1) by (simp add: represents_def)
  then show "\<exists>h'. (host_step arrives)\<^sup>*\<^sup>* h h' \<and> represents (history s') s' h'"
    using peer_writes_event [OF h, of arrives e r s'] host_stepI [of arrives h e] assms(2-7) by blast
qed

section \<open>The callbacks\<close>

lemma close_outbound_moves: "close_outbound s = Some s' \<Longrightarrow> moves arrives s s'"
proof -
  assume "close_outbound s = Some s'"
  then obtain p where p: "ms_tcp s = Some p"
    "s' = s\<lparr>ms_tcp := Some (on_outbound writer_close p), ms_outbound_shutdown := True\<rparr>"
    by (auto simp: close_outbound_def on_tcp_def split: Option.bind_splits)
  show ?thesis
    by (rule moves_app [where t = "s\<lparr>ms_outbound_shutdown := True\<rparr>" and e = App_close, OF p(1)])
       (simp_all add: p peer_step_def)
qed

lemma push_error_moves: "push_error s = Some s' \<Longrightarrow> moves arrives s s'"
proof -
  assume "push_error s = Some s'"
  then obtain p where p: "ms_tcp s = Some p" "s' = s\<lparr>ms_tcp := Some (on_outbound set_error p)\<rparr>"
    by (auto simp: push_error_def on_tcp_def split: Option.bind_splits)
  show ?thesis by (rule moves_app [where t = s and e = App_fail, OF p(1)]) (simp_all add: p peer_step_def)
qed

lemma deliver_error_moves: "deliver_error s = Some s' \<Longrightarrow> moves arrives s s'"
proof -
  assume "deliver_error s = Some s'"
  then obtain p where p: "ms_tcp s = Some p" "s' = s\<lparr>ms_tcp := Some (on_inbound tcp_receiver_fail p)\<rparr>"
    by (auto simp: deliver_error_def on_tcp_def split: Option.bind_splits)
  show ?thesis by (rule moves_app [where t = s and e = App_break, OF p(1)]) (simp_all add: p peer_step_def)
qed

lemma receive_callback_moves: "receive_callback E s = Some s' \<Longrightarrow> moves arrives s s'"
proof -
  assume run: "receive_callback E s = Some s'"
  obtain a seg where a: "ad_read E (ms_system s) = Some (a, seg)"
    using run by (auto simp: receive_callback_def split: Option.bind_splits)
  let ?s = "s\<lparr>ms_system := a\<rparr>"
  obtain t where t: "(case seg of None \<Rightarrow> Some ?s
      | Some seg \<Rightarrow> do { p \<leftarrow> ms_tcp ?s; r \<leftarrow> peer_receive p seg; peer_writes E r ?s }) = Some t"
    and s': "ms_tcp s' = ms_tcp t" "history s' = history t" "ms_outbound_shutdown s' = ms_outbound_shutdown t"
    "ms_inbound_shutdown s' \<Longrightarrow> ms_inbound_shutdown t \<or> tcp_test inbound_over s'"
    using run unfolding receive_callback_def a by (auto split: Option.bind_splits if_splits)
  have "moves arrives s t"
  proof (cases seg)
    case None
    then have eq: "t = ?s" and "log a = history s" using t read_log [OF a] by simp_all
    then show ?thesis unfolding eq by (intro moves_same) simp_all
  next
    case (Some msg)
    then obtain p r where p: "ms_tcp ?s = Some p" "peer_receive p msg = Some r" "peer_writes E r ?s = Some t"
      using t by (auto split: Option.bind_splits)
    have l: "history ?s = (history s)\<lparr>lg_received := lg_received (history s) @ [msg]\<rparr>"
      using read_log [OF a] Some by simp
    have mono: "set (lg_received (history ?s)) \<subseteq> set (lg_received (history t))"
      using p(3) by (auto simp: peer_writes_def dest: write_messages_log split: Option.bind_splits)
    show ?thesis
      unfolding moves_def
    proof (intro conjI allI impI)
      show "set (lg_received (history s)) \<subseteq> set (lg_received (history t))" using mono l by auto
    next
      fix h assume h: "represents (history s) s h"
        and ok: "set (lg_received (history t)) \<subseteq> received_message ` set arrives"
      have "represents (history ?s) ?s h" using h l by (simp add: represents_def)
      moreover have "possible arrives p (Net_receive msg)" using ok mono l by auto
      ultimately show "\<exists>h'. (host_step arrives)\<^sup>*\<^sup>* h h' \<and> represents (history t) t h'"
        using moves_writes [OF p(1), of "Net_receive msg" r t arrives] p(2,3) ok by (simp add: moves_def)
    qed
  qed
  then show ?thesis using moves_trans moves_same [OF s'] by blast
qed

text \<open>
  What the application wrote is read only as far as the outbound stream takes it: nothing is lost.
\<close>

lemma push_callback_moves:
  assumes run: "push_callback E s = Some s'" and p: "ms_tcp s = Some p"
    and room: "available_capacity (sn_input (tp_sender p)) > 0" and open_: "\<not> ms_outbound_shutdown s"
  shows "moves arrives s s'"
proof -
  let ?b = "sn_input (tp_sender p)"
  let ?buffer = "replicate (unat (available_capacity ?b)) (0 :: byte)"
  obtain t data where t: "thread_read E ?buffer s = Some (t, data)"
    using run p by (auto simp: push_callback_def split: Option.bind_splits)
  note r = thread_read_log [OF t]
  let ?u = "t\<lparr>ms_tcp := Some (peer_step p (App_write data))\<rparr>"
  have "read_size ?buffer = unat (available_capacity ?b)"
    using room by (simp add: read_size_def word_less_nat_alt)
  then have len: "length data \<le> unat (available_capacity ?b)" using r(1) by simp
  have u: "moves arrives s ?u"
  proof (rule moves_app [where e = "App_write data" and t = t, OF p refl])
    show "possible arrives p (App_write data)"
      using len u64_bound [of "available_capacity ?b"] by (simp add: fits_def)
    show "history t = (history s)\<lparr>lg_from_app := lg_from_app (history s) @ taken_in p (App_write data),
        lg_to_app := lg_to_app (history s) @ given_out p (App_write data)\<rparr>"
      if h: "represents (history s) s h" for h
    proof -
      obtain c where "within c ?b" "\<not> bs_closed ?b" using h p open_ by (auto simp: represents_def peer_sane_def)
      then have "room ?b = unat (available_capacity ?b)" by (simp add: room_def within_available) (simp add: within_def)
      then show ?thesis using len r(4) by simp
    qed
  qed (simp_all add: r)
  have step: "peer_step p (App_write data) = on_outbound (\<lambda>w. writer_push w data) p"
    by (simp add: peer_step_def)
  obtain v q where v: "(if fd_eof (ms_thread_data ?u) then close_outbound ?u else Some ?u) = Some v"
    "ms_tcp v = Some q" "peer_writes E (peer_push q) v = Some s'"
    unfolding step using run p t r(2) by (auto simp: push_callback_def on_tcp_def split: Option.bind_splits)
  have "moves arrives ?u v" using v(1) close_outbound_moves moves_refl by (auto split: if_splits)
  moreover have "moves arrives v s'" by (rule moves_writes [where e = Net_push, OF v(2) _ v(3)]) simp_all
  ultimately show ?thesis using u moves_trans by blast
qed

text \<open>What is popped from the inbound stream has been written to the application.\<close>

lemma deliver_callback_moves:
  assumes run: "deliver_callback E s = Some s'"
  shows "moves arrives s s'"
proof -
  obtain p where p: "ms_tcp s = Some p" using run by (auto simp: deliver_callback_def split: Option.bind_splits)
  let ?b = "ra_output (rv_reassembler (tp_receiver p))"
  obtain u q where u: "(if bytes_buffered ?b \<noteq> 0
      then do { (s, n) \<leftarrow> thread_write E (reader_peek ?b) s; on_tcp (on_inbound (\<lambda>r. tcp_receiver_pop r (of_nat n))) s }
      else Some s) = Some u"
    "ms_tcp u = Some q"
    "(if inbound_over q then do { s \<leftarrow> thread_shutdown E SHUT_WR u; Some (s\<lparr>ms_inbound_shutdown := True\<rparr>) }
      else Some u) = Some s'"
    using run p unfolding deliver_callback_def by (auto split: Option.bind_splits)
  have "moves arrives u s'"
  proof (cases "inbound_over q")
    case True
    then obtain t where t: "thread_shutdown E SHUT_WR u = Some t" "s' = t\<lparr>ms_inbound_shutdown := True\<rparr>"
      using u(3) by (auto split: Option.bind_splits)
    then show ?thesis
      using thread_shutdown_log [OF t(1)] True u(2) by (intro moves_same) (simp_all add: tcp_test_def)
  qed (use u(3) moves_refl in simp)
  moreover have "moves arrives s u"
  proof (cases "bytes_buffered ?b = 0")
    case True
    then show ?thesis using u(1) moves_refl by simp
  next
    case False
    then obtain t n where t: "thread_write E (reader_peek ?b) s = Some (t, n)"
      "on_tcp (on_inbound (\<lambda>r. tcp_receiver_pop r (of_nat n))) t = Some u"
      using u(1) by (auto split: Option.bind_splits)
    note w = thread_write_log [OF t(1)]
    have eq: "u = t\<lparr>ms_tcp := Some (peer_step p (App_read (of_nat n)))\<rparr>"
      using t(2) p w(2) by (simp add: on_tcp_def peer_step_def)
    show ?thesis
    proof (rule moves_app [where e = "App_read (of_nat n)" and t = t, OF p eq])
      show "history t = (history s)\<lparr>lg_from_app := lg_from_app (history s) @ taken_in p (App_read (of_nat n)),
          lg_to_app := lg_to_app (history s) @ given_out p (App_read (of_nat n))\<rparr>"
        if h: "represents (history s) s h" for h
      proof -
        obtain c where "within c ?b" using h p by (auto simp: represents_def peer_sane_def)
        then have "unat (of_nat n :: u64) = n"
          using w(1) within_fits [of c ?b] by (intro unat_of_nat64) (simp add: reader_peek_def fits_def)
        then show ?thesis using w(4) by simp
      qed
    qed (simp_all add: w)
  qed
  ultimately show ?thesis using moves_trans by blast
qed

section \<open>The rules and the loop\<close>

definition receive_rule :: "'a MinnowSocket FDRule" where
  "receive_rule = \<lparr>br_id = 0, br_category_id = 0, br_interest = receive_interest, br_callback = receive_callback E,
     br_cancel_requested = False, fr_fd = (\<lambda>s. ad_fd E (ms_system s)), fr_direction = In, fr_cancel = Some,
     fr_error = Some\<rparr>"

definition push_rule :: "'a MinnowSocket FDRule" where
  "push_rule = \<lparr>br_id = 1, br_category_id = 1, br_interest = push_interest, br_callback = push_callback E,
     br_cancel_requested = False, fr_fd = ms_thread_data, fr_direction = In, fr_cancel = close_outbound,
     fr_error = push_error\<rparr>"

definition deliver_rule :: "'a MinnowSocket FDRule" where
  "deliver_rule = \<lparr>br_id = 2, br_category_id = 2, br_interest = deliver_interest, br_callback = deliver_callback E,
     br_cancel_requested = False, fr_fd = ms_thread_data, fr_direction = Out, fr_cancel = Some,
     fr_error = deliver_error\<rparr>"

lemmas rule_defs = receive_rule_def push_rule_def deliver_rule_def

lemma initialize_TCP_eq:
  "initialize_TCP E cfg (event_loop 64) s = Some
     ((event_loop 64)\<lparr>el_categories := [''receive TCP segment from the network'', ''push bytes to TCPPeer'',
         ''read bytes from inbound stream''],
       el_fd_rules := [receive_rule, push_rule, deliver_rule], el_next_id := 3\<rparr>,
      s\<lparr>ms_tcp := Some (tcp_peer cfg)\<rparr>)"
  by (simp add: initialize_TCP_def add_named_fd_rule_def add_category_def add_fd_rule_def event_loop_def rule_defs)

text \<open>The second rule is called only with room in an outbound stream that is not shut down.\<close>

definition may_push :: "'a MinnowSocket FDRule \<Rightarrow> 'a MinnowSocket \<Rightarrow> bool" where
  "may_push rule s \<longleftrightarrow> (br_id rule = 1 \<longrightarrow> \<not> ms_outbound_shutdown s
     \<and> tcp_test (\<lambda>p. available_capacity (sn_input (tp_sender p)) > 0) s)"

lemma may_push_other: "br_id rule \<noteq> 1 \<Longrightarrow> may_push rule s"
  by (simp add: may_push_def)

lemma error_keeps_room:
  "deliver_error s = Some s' \<Longrightarrow> may_push rule s \<Longrightarrow> may_push rule s'"
  by (auto simp: may_push_def deliver_error_def on_tcp_def on_inbound_def tcp_test_def split: Option.bind_splits)

end

text \<open>For every start and every source of messages, the rules keep that the socket is a host.\<close>

sublocale socket_system \<subseteq> watched "{receive_rule, push_rule, deliver_rule}" "moves arrives s0" may_push for arrives s0
proof
  fix rule s s' assume rule: "rule \<in> {receive_rule, push_rule, deliver_rule}" and inv: "moves arrives s0 s"
  show "may_push rule s" if "br_interest rule s"
    using rule that by (auto simp: rule_defs may_push_def push_interest_def)
  show "moves arrives s0 s'" if "may_push rule s" "br_callback rule s = Some s'"
  proof -
    have "moves arrives s s'"
      using rule that receive_callback_moves deliver_callback_moves push_callback_moves [of s s']
      by (auto simp: rule_defs may_push_def tcp_test_def split: option.splits)
    then show ?thesis using inv moves_trans by blast
  qed
  show "moves arrives s0 s'" if "fr_cancel rule s = Some s'"
    using rule that inv close_outbound_moves moves_trans by (fastforce simp: rule_defs)
  show "moves arrives s0 s'" if "fr_error rule s = Some s'"
    using rule that inv push_error_moves deliver_error_moves moves_trans by (fastforce simp: rule_defs)
  fix rule' assume rule': "rule' \<in> {receive_rule, push_rule, deliver_rule}"
    and live: "may_push rule' s"
  show "may_push rule' s'" if "fr_cancel rule s = Some s'"
    and "br_id rule < br_id rule' \<or> (rule_over rule s \<and> br_id rule \<noteq> br_id rule')"
    using rule rule' live that may_push_other [of rule' s'] by (auto simp: rule_defs)
  show "may_push rule' s'" if "fr_error rule s = Some s'" and "br_id rule < br_id rule'"
    using rule rule' live that may_push_other [of rule' s'] error_keeps_room [of s s' rule'] by (auto simp: rule_defs)
qed

end
