(* ===== verification/Socket_World.thy ===== *)
theory Socket_World
  imports Minnow_Simulation
begin

text \<open>
  The system around a \<open>TCPMinnowSocket\<close> on a device of type \<open>'d\<close>, its datagram adapter: the
  device, the history and the number of system calls so far, on which the kernel's answers may
  depend in any way. A device has to leave the history alone; then it makes a \<open>socket_system\<close>,
  also behind a \<open>LossyFdAdapter\<close>.
\<close>

record 'd World =
  wo_adapter :: 'd
  wo_log :: Log
  wo_calls :: nat

record 'd Kernel =
  kn_readv :: "'d World \<Rightarrow> nat list \<Rightarrow> byte list syscall"
  kn_dev_writev :: "'d World \<Rightarrow> byte list list \<Rightarrow> nat syscall"
  kn_read :: "'d World \<Rightarrow> nat \<Rightarrow> byte list syscall"
  kn_writev :: "'d World \<Rightarrow> byte list list \<Rightarrow> nat syscall"
  kn_shutdown :: "'d World \<Rightarrow> int \<Rightarrow> int \<Rightarrow> unit syscall"

definition called :: "'d World \<Rightarrow> 'd World" where
  "called w = w\<lparr>wo_calls := wo_calls w + 1\<rparr>"

definition on_device :: "('d \<Rightarrow> 'd) \<Rightarrow> 'd World \<Rightarrow> 'd World" where
  "on_device f w = w\<lparr>wo_adapter := f (wo_adapter w)\<rparr>"

definition logged :: "(Log \<Rightarrow> Log) \<Rightarrow> 'd World \<Rightarrow> 'd World" where
  "logged f w = called (w\<lparr>wo_log := f (wo_log w)\<rparr>)"

lemma world_simps [simp]:
  "wo_log (called w) = wo_log w" "wo_adapter (called w) = wo_adapter w"
  "wo_log (on_device f w) = wo_log w" "wo_adapter (on_device f w) = f (wo_adapter w)"
  "wo_log (logged g w) = g (wo_log w)" "wo_adapter (logged g w) = wo_adapter w"
  by (simp_all add: called_def on_device_def logged_def)

definition socket_world ::
    "('d World \<Rightarrow> ('d World \<times> TCPMessage option) option) \<Rightarrow> (TCPMessage \<Rightarrow> 'd World \<Rightarrow> 'd World option)
       \<Rightarrow> (u64 \<Rightarrow> 'd \<Rightarrow> 'd) \<Rightarrow> ('d \<Rightarrow> FDWrapper) \<Rightarrow> ((FdAdapter \<Rightarrow> FdAdapter) \<Rightarrow> 'd \<Rightarrow> 'd) \<Rightarrow> 'd Kernel \<Rightarrow> 'd World System" where
  "socket_world rd wr tick fd base k =
     \<lparr>ad_read = (\<lambda>w. do { (w, msg) \<leftarrow> rd w;
        Some (logged (\<lambda>l. l\<lparr>lg_received := lg_received l @ (case msg of None \<Rightarrow> [] | Some m \<Rightarrow> [m])\<rparr>) w, msg) }),
      ad_write = (\<lambda>msg w. do { w \<leftarrow> wr msg w; Some (logged (\<lambda>l. l\<lparr>lg_sent := lg_sent l @ [msg]\<rparr>) w) }),
      ad_tick = (\<lambda>t. on_device (tick t)), ad_fd = (\<lambda>w. fd (wo_adapter w)),
      ad_configure = (\<lambda>c. on_device (base (set_config c))),
      ad_set_listening = (\<lambda>l. on_device (base (set_listening l))),
      sys_read = (\<lambda>n w. let r = kn_read k w n
        in (r, logged (\<lambda>l. l\<lparr>lg_from_app := lg_from_app l @ (case r of Done bytes \<Rightarrow> bytes | _ \<Rightarrow> [])\<rparr>) w)),
      sys_writev = (\<lambda>views w. let r = kn_writev k w views
        in (r, logged (\<lambda>l. l\<lparr>lg_to_app := lg_to_app l @ (case r of Done n \<Rightarrow> take n (concat views) | _ \<Rightarrow> [])\<rparr>) w)),
      sys_shutdown = (\<lambda>fd how w. (kn_shutdown k w fd how, called w))\<rparr>"

text \<open>\<open>LossyFdAdapter\<close> over a device; \<open>fd\<close> is the underlying adapter with its loss rates.\<close>

definition lossy_world_read ::
    "('d \<Rightarrow> FdAdapter) \<Rightarrow> ('d World \<Rightarrow> u32) \<Rightarrow> ('d World \<Rightarrow> ('d World \<times> TCPMessage option) option)
       \<Rightarrow> 'd World \<Rightarrow> ('d World \<times> TCPMessage option) option" where
  "lossy_world_read fd draw rd w =
     do { (w, ret) \<leftarrow> rd w; Some (w, lossy_read (fd (wo_adapter w)) (draw w) ret) }"

definition lossy_world_write ::
    "('d \<Rightarrow> FdAdapter) \<Rightarrow> ('d World \<Rightarrow> u32) \<Rightarrow> (TCPMessage \<Rightarrow> 'd World \<Rightarrow> 'd World option)
       \<Rightarrow> TCPMessage \<Rightarrow> 'd World \<Rightarrow> 'd World option" where
  "lossy_world_write fd draw wr msg w =
     (case lossy_write (fd (wo_adapter w)) (draw w) msg of [] \<Rightarrow> Some w | seg # _ \<Rightarrow> wr seg w)"

locale device =
  fixes rd :: "'d World \<Rightarrow> ('d World \<times> TCPMessage option) option"
    and wr :: "TCPMessage \<Rightarrow> 'd World \<Rightarrow> 'd World option"
  assumes rd_log: "rd w = Some (w', m) \<Longrightarrow> wo_log w' = wo_log w"
    and wr_log: "wr msg w = Some w' \<Longrightarrow> wo_log w' = wo_log w"
begin

lemma lossy: "device (lossy_world_read fd draw rd) (lossy_world_write fd draw wr)"
  by unfold_locales
     (auto simp: lossy_world_read_def lossy_world_write_def dest: rd_log wr_log
       split: Option.bind_splits list.splits)

end

sublocale device \<subseteq> socket_system "socket_world rd wr tick fd base k" wo_log for tick fd base k
proof
  show "wo_log a' = (wo_log a)\<lparr>lg_received := lg_received (wo_log a) @ (case m of None \<Rightarrow> [] | Some msg \<Rightarrow> [msg])\<rparr>"
    if "ad_read (socket_world rd wr tick fd base k) a = Some (a', m)" for a a' m
    using that by (auto simp: socket_world_def dest!: rd_log split: Option.bind_splits)
  show "wo_log a' = (wo_log a)\<lparr>lg_sent := lg_sent (wo_log a) @ [msg]\<rparr>"
    if "ad_write (socket_world rd wr tick fd base k) msg a = Some a'" for msg a a'
    using that by (auto simp: socket_world_def dest!: wr_log split: Option.bind_splits)
qed (simp_all add: socket_world_def Let_def split: syscall.split)

end
