(* ===== verification/Tun_Adapter.thy ===== *)
theory Tun_Adapter
  imports TCP_Over_IP File_Descriptor
begin

text \<open>
  \<open>util/tuntap_adapter.hh\<close> and \<open>util/tuntap_adapter.cc\<close>: the adapter that reads and writes
  datagrams on a TUN device, one datagram per system call. \<open>None\<close> is an exception.
\<close>

record TunAdapter =
  ta_adapter :: FdAdapter
  ta_tun :: FDWrapper

text \<open>The three buffers of a read: for the two headers, and one that \<open>read\<close> sizes.\<close>

definition tun_buffers :: "byte list list" where
  "tun_buffers = [replicate (unat IPV4_LENGTH) 0, replicate (unat TCP_HEADER_LENGTH) 0, []]"

definition tun_read ::
    "(nat list \<Rightarrow> byte list syscall) \<Rightarrow> TunAdapter \<Rightarrow> (TunAdapter \<times> TCPMessage option) option" where
  "tun_read sys_readv a =
     do { (w, strs) \<leftarrow> fd_read_vector sys_readv tun_buffers (ta_tun a);
          a \<leftarrow> Some (a\<lparr>ta_tun := w\<rparr>);
          (ip_dgram, ok) \<leftarrow> parse_datagram (map ref_of strs);
          (if ok
           then do { (fd, msg) \<leftarrow> unwrap_tcp_in_ip (ta_adapter a) ip_dgram; Some (a\<lparr>ta_adapter := fd\<rparr>, msg) }
           else Some (a, None)) }"

text \<open>What \<open>write\<close> hands to the device, and the write.\<close>

definition tun_output :: "TunAdapter \<Rightarrow> TCPMessage \<Rightarrow> byte list Ref list option" where
  "tun_output a seg = do { ip_dgram \<leftarrow> wrap_tcp_in_ip (ta_adapter a) seg; serialize_datagram ip_dgram }"

definition tun_write :: "(byte list list \<Rightarrow> nat syscall) \<Rightarrow> TunAdapter \<Rightarrow> TCPMessage \<Rightarrow> TunAdapter option" where
  "tun_write sys_writev a seg =
     do { bufs \<leftarrow> tun_output a seg;
          (w, n) \<leftarrow> fd_write_refs sys_writev bufs (ta_tun a);
          Some (a\<lparr>ta_tun := w\<rparr>) }"

section \<open>From one device to another\<close>

text \<open>A buffer that was cut empty is behind all the bytes.\<close>

lemma cut_no_gap: "\<forall>b \<in> set bufs. b \<noteq> [] \<Longrightarrow> no_gap (map ref_of (cut_buffers n bufs))"
proof (induction n bufs rule: cut_buffers.induct)
  case (2 n buf bufs)
  have "no_gap (map ref_of (cut_buffers 0 bufs))" "bytes_of (map ref_of (cut_buffers 0 bufs)) = []" for bufs
  proof -
    have "concat (cut_buffers 0 bufs) = []" by (rule cut_0)
    then show "bytes_of (map ref_of (cut_buffers 0 bufs)) = []" by (simp add: bytes_of_def comp_def)
    then show "no_gap (map ref_of (cut_buffers 0 bufs))" by (cases "cut_buffers 0 bufs") auto
  qed
  then show ?case using 2 by auto
qed simp

lemma scatter_lengths: "map length (scatter bytes bufs) = map length bufs"
  by (induction bytes bufs rule: scatter.induct) auto

lemma readv_bytes:
  assumes "\<forall>b \<in> set front. b \<noteq> []" and "length bytes \<le> sum_list (map length front) + kReadBufferSize"
  shows "\<exists>bufs. fd_read_vector (\<lambda>_. Done bytes) (front @ [[]]) w = Some (register_read w, bufs)
    \<and> bytes_of (map ref_of bufs) = bytes \<and> no_gap (map ref_of bufs)"
proof -
  let ?B = "front @ [replicate kReadBufferSize 0]"
  have total: "sum_list (map length ?B) = sum_list (map length front) + kReadBufferSize" by simp
  have "0 < length b" if "b \<in> set (scatter bytes ?B)" for b
  proof -
    have "length b \<in> set (map length ?B)" using that scatter_lengths [of bytes ?B] by (metis image_eqI set_map)
    then show ?thesis using assms(1) by (auto simp: kReadBufferSize_def)
  qed
  then have "no_gap (map ref_of (cut_buffers (length bytes) (scatter bytes ?B)))"
    by (intro cut_no_gap) auto
  moreover have "bytes_of (map ref_of (cut_buffers (length bytes) (scatter bytes ?B))) = bytes"
    using cut_scatter [of bytes ?B] assms(2) total by (simp add: bytes_of_def comp_def)
  ultimately show ?thesis using assms(2) total by (simp add: fd_read_vector_def Let_def)
qed

lemma tun_read_bytes:
  assumes "length bytes \<le> 16424"
  shows "\<exists>bufs. fd_read_vector (\<lambda>_. Done bytes) tun_buffers tun = Some (register_read tun, bufs)
    \<and> bytes_of (map ref_of bufs) = bytes \<and> no_gap (map ref_of bufs)"
  using readv_bytes [of "butlast tun_buffers" bytes tun] assms
  by (simp add: tun_buffers_def kReadBufferSize_def IPV4_LENGTH_def TCP_HEADER_LENGTH_def)

lemma write_all:
  "fd_write_views (\<lambda>views. Done (length (concat views))) views w = Some (register_write w, length (concat views))"
  by (auto simp: fd_write_views_def check_system_call_def Let_def length_concat)

section \<open>Properties\<close>

text \<open>
  C35: a message that one endpoint writes to its TUN device, for a payload that fits the buffers,
  is one datagram; read from the device of the other endpoint in one call, it comes out as the
  same message, with the reset flag in both halves if it was in one. A connected adapter at the
  other end needs the swapped addresses and ports and stays as it is, and a listening one on that
  port takes a SYN and is then connected to the sender.
\<close>
theorem tun_delivers:
  assumes "fd_source (fd_cfg (ta_adapter a)) = IPv4_address sa sp"
    and "fd_destination (fd_cfg (ta_adapter a)) = IPv4_address da dp"
    and "length (sm_payload (ref_get (tm_sender msg))) \<le> 16384"
    and "if fd_listen (ta_adapter b)
      then address_port (fd_source (fd_cfg (ta_adapter b))) = Some dp \<and> sm_SYN (ref_get (tm_sender msg))
        \<and> \<not> sm_RST (ref_get (tm_sender msg)) \<and> \<not> rm_RST (ref_get (tm_receiver msg))
      else fd_source (fd_cfg (ta_adapter b)) = IPv4_address da dp
        \<and> fd_destination (fd_cfg (ta_adapter b)) = IPv4_address sa sp"
  shows "\<exists>bufs a' b'. tun_output a msg = Some bufs
    \<and> tun_write (\<lambda>views. Done (length (concat views))) a msg = Some a' \<and> ta_adapter a' = ta_adapter a
    \<and> tun_read (\<lambda>_. Done (bytes_of bufs)) b = Some (b', Some (received_message msg))
    \<and> \<not> fd_listen (ta_adapter b') \<and> fd_source (fd_cfg (ta_adapter b')) = IPv4_address da dp
    \<and> fd_destination (fd_cfg (ta_adapter b')) = IPv4_address sa sp
    \<and> (\<not> fd_listen (ta_adapter b) \<longrightarrow> ta_adapter b' = ta_adapter b)"
proof -
  have "length (sm_payload (ref_get (tm_sender msg))) < 2 ^ 16 - 40" using assms(3) by simp
  from wrap_carries [OF assms(1,2) this] obtain d
    where d: "wrap_tcp_in_ip (ta_adapter a) msg = Some d" "carries msg sa sp da dp d" by blast
  obtain bufs where bufs: "serialize_datagram d = Some bufs"
      "length (bytes_of bufs) = 40 + length (sm_payload (ref_get (tm_sender msg)))"
    and arrives: "\<And>bufs'. \<lbrakk>\<forall>b \<in> set bufs'. is_owned b; no_gap bufs'; bytes_of bufs' = bytes_of bufs\<rbrakk> \<Longrightarrow>
      \<exists>d'. parse_datagram bufs' = Some (d', True) \<and> dg_header d' = dg_header d
        \<and> bytes_of (dg_payload d') = bytes_of (dg_payload d)
        \<and> (\<forall>b \<in> set (dg_payload d'). is_owned b) \<and> no_gap (dg_payload d')"
    using carries_wire [OF d(2)] by blast
  have out: "tun_output a msg = Some bufs" by (simp add: tun_output_def d bufs)
  have written: "tun_write (\<lambda>views. Done (length (concat views))) a msg
      = Some (a\<lparr>ta_tun := register_write (ta_tun a)\<rparr>)"
    by (simp add: tun_write_def out fd_write_refs_def write_all)
  obtain strs where r: "fd_read_vector (\<lambda>_. Done (bytes_of bufs)) tun_buffers (ta_tun b) = Some (register_read (ta_tun b), strs)"
    "bytes_of (map ref_of strs) = bytes_of bufs" "no_gap (map ref_of strs)"
    using tun_read_bytes [of "bytes_of bufs" "ta_tun b"] bufs(2) assms(3) by auto
  obtain d' where d': "parse_datagram (map ref_of strs) = Some (d', True)" "carries msg sa sp da dp d'"
    "\<forall>b \<in> set (dg_payload d'). is_owned b" "no_gap (dg_payload d')"
    using arrives [OF _ r(3,2)] carries_cong [OF d(2)] by auto
  have "listens_for msg sa sp da dp (ta_adapter b)" using assms(4) by (simp add: listens_for_def)
  from unwrap_carried [OF d'(2-4) this] obtain fd'
    where fd': "unwrap_tcp_in_ip (ta_adapter b) d' = Some (fd', Some (received_message msg))"
      "\<not> fd_listen fd'" "fd_source (fd_cfg fd') = IPv4_address da dp" "fd_destination (fd_cfg fd') = IPv4_address sa sp"
      "\<not> fd_listen (ta_adapter b) \<longrightarrow> fd' = ta_adapter b"
    by blast
  then have "tun_read (\<lambda>_. Done (bytes_of bufs)) b
      = Some (b\<lparr>ta_tun := register_read (ta_tun b), ta_adapter := fd'\<rparr>, Some (received_message msg))"
    by (simp add: tun_read_def r(1) d'(1))
  then show ?thesis using out written fd' by auto
qed

text \<open>A client and a listening server.\<close>

definition demo_client :: TunAdapter where
  "demo_client = \<lparr>ta_adapter = set_config \<lparr>fd_source = IPv4_address 1 80, fd_destination = IPv4_address 2 90,
       fd_loss_rate_dn = 0, fd_loss_rate_up = 0\<rparr> fd_adapter,
     ta_tun = \<lparr>fd_num = 3, fd_eof = False, fd_closed = False, fd_non_blocking = False, fd_read_count = 0,
       fd_write_count = 0\<rparr>\<rparr>"

definition demo_server :: TunAdapter where
  "demo_server = demo_client\<lparr>ta_adapter := set_listening True (set_config \<lparr>fd_source = IPv4_address 0 90,
       fd_destination = IPv4_address 0 0, fd_loss_rate_dn = 0, fd_loss_rate_up = 0\<rparr> fd_adapter)\<rparr>"

definition demo_syn :: TCPMessage where
  "demo_syn = \<lparr>tm_sender = Owned (sender_message\<lparr>sm_SYN := True, sm_payload := [7]\<rparr>), tm_receiver = Owned receiver_message\<rparr>"

theorem tun_delivers_witness:
  "\<exists>bufs b'. tun_output demo_client demo_syn = Some bufs
     \<and> tun_read (\<lambda>_. Done (bytes_of bufs)) demo_server = Some (b', Some (received_message demo_syn))
     \<and> fd_destination (fd_cfg (ta_adapter b')) = IPv4_address 1 80"
  using tun_delivers [of demo_client 1 80 2 90 demo_syn demo_server]
  by (fastforce simp: demo_client_def demo_server_def demo_syn_def set_config_def set_listening_def
      sender_message_def receiver_message_def)

end
