(* ===== verification/Minnow_Stack.thy ===== *)
theory Minnow_Stack
  imports Socket_World Tun_Adapter
begin

text \<open>
  Two sockets with their event loops, on TUN devices whose datagrams may be lost, repeated or
  reordered: from the bytes one application writes to those the other one reads.
\<close>

section \<open>The steps of a loop\<close>

definition few_retransmissions :: "'a MinnowSocket \<Rightarrow> bool" where
  "few_retransmissions s \<longleftrightarrow>
     (case ms_tcp s of None \<Rightarrow> True | Some p \<Rightarrow> consecutive_retransmissions (tp_sender p) + 1 \<noteq> 0)"

inductive socket_step ::
    "'a System \<Rightarrow> 'a MinnowSocket EventLoop \<times> 'a MinnowSocket \<Rightarrow> 'a MinnowSocket EventLoop \<times> 'a MinnowSocket \<Rightarrow> bool"
  for E where
  wait: "wait_next_event poll ok TCP_TICK_MS el s = Some (el', s', ret) \<Longrightarrow> socket_step E (el, s) (el', s')"
| tick: "loop_tick E base_time next_time s = Some (s', base_time') \<Longrightarrow> socket_step E (el, s) (el, s')"

inductive_cases socket_stepE: "socket_step E (el, s) (el', s')"

lemma tcp_loop_steps:
  assumes "tcp_loop E condition base_time turns el s = Some (el', s', rest, ended)"
  shows "(socket_step E)\<^sup>*\<^sup>* (el, s) (el', s')"
  using assms
proof (induction E condition base_time turns el s rule: tcp_loop.induct)
  case (2 E condition base_time t turns el s)
  show ?case
  proof (cases "condition s")
    case True
    then obtain el1 s1 ret where w: "wait_next_event (tn_poll t) (tn_getsockopt_ok t) TCP_TICK_MS el s = Some (el1, s1, ret)"
      using 2(2) by (auto split: Option.bind_splits)
    note first = socket_step.wait [OF w, of E]
    show ?thesis
    proof (cases "ret = Exit \<or> tn_abort t")
      case False
      then obtain s2 base2 where k: "loop_tick E base_time (tn_time t) s1 = Some (s2, base2)"
        using 2(2) True w by (auto split: Option.bind_splits)
      have "tcp_loop E condition base2 turns el1 s2 = Some (el', s', rest, ended)"
        using 2(2) True w False k by simp
      from 2(1) [OF _ w refl refl False k refl this] True
      have "(socket_step E)\<^sup>*\<^sup>* (el1, s2) (el', s')" by simp
      then show ?thesis
        using first socket_step.tick [OF k, of el1] by (meson converse_rtranclp_into_rtranclp)
    qed (use 2(2) True w first in auto)
  qed (use 2(2) in simp)
qed simp

text \<open>A socket that nothing has gone through yet, and one that has been connected or is listening.\<close>

definition fresh :: "('a \<Rightarrow> Log) \<Rightarrow> 'a MinnowSocket \<Rightarrow> bool" where
  "fresh log s \<longleftrightarrow> (\<exists>system getfl setfl owner thread_data.
     minnow_socket system getfl setfl owner thread_data = Some s
     \<and> log system = \<lparr>lg_sent = [], lg_received = [], lg_from_app = [], lg_to_app = []\<rparr>)"

definition opened :: "'a System \<Rightarrow> ('a \<Rightarrow> Log) \<Rightarrow> TCPConfig \<Rightarrow> 'a MinnowSocket EventLoop \<times> 'a MinnowSocket \<Rightarrow> bool" where
  "opened E log cfg st \<longleftrightarrow> (\<exists>s0 c_ad. fresh log s0
     \<and> (minnow_start E cfg c_ad (event_loop 64) s0 = Some st \<or> minnow_listen E cfg c_ad (event_loop 64) s0 = Some st))"

text \<open>
  One of two sockets makes a step in which every message its adapter returns is one that the
  other socket has written to its own.
\<close>

inductive net_step for E_a E_b :: "'a System" and log :: "'a \<Rightarrow> Log" where
  left: "socket_step E_a (ea, sa) (ea', sa') \<Longrightarrow> few_retransmissions sa \<Longrightarrow>
      set (lg_received (log (ms_system sa'))) \<subseteq> received_message ` set (lg_sent (log (ms_system sb))) \<Longrightarrow>
      net_step E_a E_b log ((ea, sa), (eb, sb)) ((ea', sa'), (eb, sb))"
| right: "socket_step E_b (eb, sb) (eb', sb') \<Longrightarrow> few_retransmissions sb \<Longrightarrow>
      set (lg_received (log (ms_system sb'))) \<subseteq> received_message ` set (lg_sent (log (ms_system sa))) \<Longrightarrow>
      net_step E_a E_b log ((ea, sa), (eb, sb)) ((ea, sa), (eb', sb'))"

inductive_cases net_stepE: "net_step E_a E_b log ((ea, sa), (eb, sb)) (sta', stb')"

context socket_system
begin

lemma loop_tick_moves:
  assumes "loop_tick E base_time next_time s = Some (s', base_time')" and "few_retransmissions s"
  shows "moves arrives s s'"
proof -
  obtain p where p: "ms_tcp s = Some p" using assms(1) by (auto simp: loop_tick_def split: Option.bind_splits)
  let ?d = "next_time - base_time"
  show ?thesis
  proof (cases "peer_active p")
    case True
    then obtain t where t: "peer_writes E (peer_tick p ?d) s = Some t"
      "s' = t\<lparr>ms_system := ad_tick E ?d (ms_system t)\<rparr>"
      using assms(1) p by (auto simp: loop_tick_def split: Option.bind_splits)
    have "moves arrives s t"
      by (rule moves_writes [where e = "Net_tick ?d", OF p _ t(1)])
         (use assms(2) p in \<open>simp_all add: few_retransmissions_def consecutive_retransmissions_def\<close>)
    moreover have "moves arrives t s'" by (rule moves_same) (simp_all add: t(2) tick_log)
    ultimately show ?thesis by (rule moves_trans)
  qed (use assms(1) p moves_refl in \<open>simp add: loop_tick_def\<close>)
qed

lemma socket_step_moves:
  assumes "socket_step E (el, s) (el', s')" and "loop_ok el" and "few_retransmissions s"
  shows "moves arrives s s'" and "loop_ok el'"
  using assms wait_keeps [OF _ assms(2) moves_refl] loop_tick_moves by (auto elim!: socket_stepE)

lemma fresh_represents:
  assumes "fresh log s"
  shows "represents (history s) (s\<lparr>ms_tcp := Some (tcp_peer cfg)\<rparr>) (host cfg)" and "lg_received (history s) = []"
proof -
  obtain system where s: "log system = \<lparr>lg_sent = [], lg_received = [], lg_from_app = [], lg_to_app = []\<rparr>"
    "ms_system s = system" "\<not> ms_outbound_shutdown s" "\<not> ms_inbound_shutdown s"
    using assms by (fastforce simp: fresh_def minnow_socket_def split: Option.bind_splits)
  have "\<not> bs_closed (sn_input (tp_sender (tcp_peer cfg)))"
    by (simp add: tcp_peer_def tcp_sender_def byte_stream_def)
  then show "represents (history s) (s\<lparr>ms_tcp := Some (tcp_peer cfg)\<rparr>) (host cfg)" and "lg_received (history s) = []"
    using peer_sane_init by (auto simp: s represents_def host_def)
qed

lemma rules_ok:
  "loop_ok ((event_loop 64)\<lparr>el_categories := cs, el_fd_rules := [receive_rule, push_rule, deliver_rule], el_next_id := n\<rparr>)"
proof -
  have "br_id receive_rule = 0" "br_id push_rule = 1" "br_id deliver_rule = 2" by (simp_all add: rule_defs)
  then show ?thesis unfolding loop_ok_def known_def by (simp add: event_loop_def)
qed

lemma opened_moves:
  assumes "opened E log cfg (el, s)"
  shows "\<exists>s0. fresh log s0 \<and> moves arrives (s0\<lparr>ms_tcp := Some (tcp_peer cfg)\<rparr>) s" and "loop_ok el"
    and "lg_received (history s) = []"
proof -
  obtain s0 c_ad where s0: "fresh log s0" and start: "minnow_start E cfg c_ad (event_loop 64) s0 = Some (el, s)
      \<or> minnow_listen E cfg c_ad (event_loop 64) s0 = Some (el, s)"
    using assms by (auto simp: opened_def)
  let ?s1 = "s0\<lparr>ms_tcp := Some (tcp_peer cfg)\<rparr>"
  let ?s2 = "?s1\<lparr>ms_system := ad_configure E c_ad (ms_system s0)\<rparr>"
  let ?el = "(event_loop 64)\<lparr>el_categories := [''receive TCP segment from the network'', ''push bytes to TCPPeer'',
         ''read bytes from inbound stream''],
       el_fd_rules := [receive_rule, push_rule, deliver_rule], el_next_id := 3\<rparr> :: 'a MinnowSocket EventLoop"
  have c: "moves arrives ?s1 ?s2" by (rule moves_same) (simp_all add: configure_log)
  from start have "moves arrives ?s1 s \<and> loop_ok el \<and> lg_received (history s) = []"
  proof
    assume "minnow_start E cfg c_ad (event_loop 64) s0 = Some (el, s)"
    then have w: "el = ?el" "peer_writes E (peer_push (tcp_peer cfg)) ?s2 = Some s"
      by (auto simp: minnow_start_def initialize_TCP_eq split: Option.bind_splits if_splits)
    have "moves arrives ?s2 s" by (rule moves_writes [where e = Net_push, OF _ _ w(2)]) simp_all
    moreover have "lg_received (history s) = []"
      using w(2) fresh_represents(2) [OF s0]
      by (auto simp: peer_writes_def configure_log dest!: write_messages_log split: Option.bind_splits)
    ultimately show ?thesis using moves_trans [OF c] rules_ok w(1) by blast
  next
    assume "minnow_listen E cfg c_ad (event_loop 64) s0 = Some (el, s)"
    then have w: "el = ?el" "s = ?s1\<lparr>ms_system := ad_set_listening E True (ad_configure E c_ad (ms_system s0))\<rparr>"
      by (auto simp: minnow_listen_def initialize_TCP_eq split: if_splits)
    have "moves arrives ?s1 s" by (rule moves_same) (simp_all add: w(2) configure_log listening_log)
    then show ?thesis using rules_ok w fresh_represents(2) [OF s0] by (simp add: configure_log listening_log)
  qed
  then show "\<exists>s0. fresh log s0 \<and> moves arrives (s0\<lparr>ms_tcp := Some (tcp_peer cfg)\<rparr>) s" and "loop_ok el"
    and "lg_received (history s) = []" using s0 by blast+
qed

end

section \<open>Two sockets\<close>

locale socket_pair = a: socket_system E_a log + b: socket_system E_b log
  for E_a E_b :: "'a System" and log :: "'a \<Rightarrow> Log"
begin

text \<open>The two sockets are the two hosts of a connection.\<close>

definition linked where
  "linked cfg_a cfg_b sta stb \<longleftrightarrow> a.loop_ok (fst sta) \<and> b.loop_ok (fst stb)
     \<and> (\<exists>ha hb. connection cfg_a cfg_b ha hb \<and> represents (a.history (snd sta)) (snd sta) ha
        \<and> represents (b.history (snd stb)) (snd stb) hb)"

lemma linked_init:
  assumes "opened E_a log cfg_a sta" and "opened E_b log cfg_b stb"
  shows "linked cfg_a cfg_b sta stb"
proof -
  obtain ea sa eb sb where st: "sta = (ea, sa)" "stb = (eb, sb)" by (cases sta, cases stb)
  obtain a0 where a0: "fresh log a0" "a.moves [] (a0\<lparr>ms_tcp := Some (tcp_peer cfg_a)\<rparr>) sa"
    using a.opened_moves(1) assms(1) st by blast
  obtain ha where ha: "(host_step [])\<^sup>*\<^sup>* (host cfg_a) ha" "represents (a.history sa) sa ha"
    using a0 a.fresh_represents [OF a0(1)] a.opened_moves(3) assms(1) st by (fastforce simp: a.moves_def)
  obtain b0 where b0: "fresh log b0" "b.moves (ho_sent ha) (b0\<lparr>ms_tcp := Some (tcp_peer cfg_b)\<rparr>) sb"
    using b.opened_moves(1) assms(2) st by blast
  obtain hb where hb: "(host_step (ho_sent ha))\<^sup>*\<^sup>* (host cfg_b) hb" "represents (b.history sb) sb hb"
    using b0 b.fresh_represents [OF b0(1)] b.opened_moves(3) assms(2) st by (fastforce simp: b.moves_def)
  have "connection cfg_a cfg_b (host cfg_a) (host cfg_b)" by (simp add: connection_def)
  moreover have "ho_sent (host cfg_b) = []" by (simp add: host_def)
  ultimately have "connection cfg_a cfg_b ha (host cfg_b)" using host_steps_connection ha(1) by metis
  then have "connection cfg_a cfg_b ha hb"
    using host_steps_connection [OF hb(1)] connection_swap by blast
  then show ?thesis
    using ha(2) hb(2) a.opened_moves(2) b.opened_moves(2) assms st by (auto simp: linked_def)
qed

lemma linked_step:
  assumes "linked cfg_a cfg_b sta stb" and "net_step E_a E_b log (sta, stb) (sta', stb')"
  shows "linked cfg_a cfg_b sta' stb'"
proof -
  obtain ea sa eb sb where st: "sta = (ea, sa)" "stb = (eb, sb)" by (cases sta, cases stb)
  obtain ha hb where ok: "a.loop_ok ea" "b.loop_ok eb" and h: "connection cfg_a cfg_b ha hb"
    "represents (a.history sa) sa ha" "represents (b.history sb) sb hb"
    using assms(1) by (auto simp: linked_def st)
  have sent: "lg_sent (a.history sa) = ho_sent ha" "lg_sent (b.history sb) = ho_sent hb"
    using h(2,3) by (simp_all add: represents_def)
  from assms(2) [unfolded st] consider
      ea' sa' where "sta' = (ea', sa')" "stb' = (eb, sb)" "socket_step E_a (ea, sa) (ea', sa')" "few_retransmissions sa"
        "set (lg_received (a.history sa')) \<subseteq> received_message ` set (lg_sent (b.history sb))"
    | eb' sb' where "sta' = (ea, sa)" "stb' = (eb', sb')" "socket_step E_b (eb, sb) (eb', sb')" "few_retransmissions sb"
        "set (lg_received (b.history sb')) \<subseteq> received_message ` set (lg_sent (a.history sa))"
    by (auto elim: net_stepE)
  then show ?thesis
  proof cases
    case 1
    from a.socket_step_moves [OF 1(3) ok(1) 1(4)]
    have "a.moves (ho_sent hb) sa sa'" and ok': "a.loop_ok ea'" by blast+
    then obtain ha' where "(host_step (ho_sent hb))\<^sup>*\<^sup>* ha ha'" "represents (a.history sa') sa' ha'"
      using h(2) 1(5) sent(2) by (fastforce simp: a.moves_def)
    then have "connection cfg_a cfg_b ha' hb" "represents (a.history sa') sa' ha'"
      using host_steps_connection h(1) by blast+
    then show ?thesis using 1(1,2) ok' ok(2) h(3) by (auto simp: linked_def)
  next
    case 2
    from b.socket_step_moves [OF 2(3) ok(2) 2(4)]
    have "b.moves (ho_sent ha) sb sb'" and ok': "b.loop_ok eb'" by blast+
    then obtain hb' where "(host_step (ho_sent ha))\<^sup>*\<^sup>* hb hb'" "represents (b.history sb') sb' hb'"
      using h(3) 2(5) sent(1) by (fastforce simp: b.moves_def)
    then have "connection cfg_a cfg_b ha hb'" "represents (b.history sb') sb' hb'"
      using host_steps_connection connection_swap h(1) by blast+
    then show ?thesis using 2(1,2) ok' ok(1) h(2) by (auto simp: linked_def)
  qed
qed

lemma linked_steps:
  assumes "(net_step E_a E_b log)\<^sup>*\<^sup>* (sta, stb) (sta', stb')" and "linked cfg_a cfg_b sta stb"
  shows "linked cfg_a cfg_b sta' stb'"
  using assms
proof (induction "(sta', stb')" arbitrary: sta' stb' rule: rtranclp_induct)
  case (step st)
  then show ?case using linked_step by (cases st) blast
qed simp

text \<open>
  What has reached the application at \<open>b\<close> is a beginning of what the one at \<open>a\<close> wrote, and when
  the socket at \<open>b\<close> has ended the stream without an error it is all of it.
\<close>

lemma linked_delivers:
  assumes "linked cfg_a cfg_b (ea, sa) (eb, sb)" and "unat (cfg_recv_capacity cfg_b) < 2 ^ 63"
    and "length (lg_from_app (a.history sa)) + 3 < 2 ^ 31"
  shows "prefix (lg_to_app (b.history sb)) (lg_from_app (a.history sa))"
    and "ms_inbound_shutdown sb \<Longrightarrow> ms_tcp sb = Some p \<Longrightarrow>
      \<not> has_error (ra_output (rv_reassembler (tp_receiver p))) \<Longrightarrow>
      ms_outbound_shutdown sa \<and> lg_to_app (b.history sb) = lg_from_app (a.history sa)"
proof -
  obtain ha hb where h: "connection cfg_a cfg_b ha hb" "represents (a.history sa) sa ha"
    "represents (b.history sb) sb hb"
    using assms(1) by (auto simp: linked_def)
  have eq: "lg_from_app (a.history sa) = ho_written ha" "lg_to_app (b.history sb) = ho_read hb"
    using h(2,3) by (simp_all add: represents_def)
  have d: "delivers ha hb" using connection_delivers_to [OF h(1) assms(2)] assms(3) eq(1) by simp
  then show "prefix (lg_to_app (b.history sb)) (lg_from_app (a.history sa))"
    by (auto simp: delivers_def eq dest: append_prefixD)
  assume s: "ms_inbound_shutdown sb" "ms_tcp sb = Some p" "\<not> has_error (ra_output (rv_reassembler (tp_receiver p)))"
  then have "p = ho_peer hb" "inbound_over p" using h(3) by (auto simp: represents_def)
  then have "writer_is_closed (inbound_stream hb)" "reader_peek (inbound_stream hb) = []"
    using s(3) by (auto simp: inbound_over_def reader_is_finished_def writer_is_closed_def reader_peek_def)
  then show "ms_outbound_shutdown sa \<and> lg_to_app (b.history sb) = lg_from_app (a.history sa)"
    using d h(2) by (auto simp: delivers_def eq represents_def)
qed

end

section \<open>Sockets on a TUN device\<close>

text \<open>The device of a \<open>TCPOverIPv4MinnowSocket\<close> is its TUN adapter.\<close>

definition tun_world_read :: "TunAdapter Kernel \<Rightarrow> TunAdapter World \<Rightarrow> (TunAdapter World \<times> TCPMessage option) option" where
  "tun_world_read k w =
     do { (a, msg) \<leftarrow> tun_read (kn_readv k w) (wo_adapter w); Some (w\<lparr>wo_adapter := a\<rparr>, msg) }"

definition tun_world_write :: "TunAdapter Kernel \<Rightarrow> TCPMessage \<Rightarrow> TunAdapter World \<Rightarrow> TunAdapter World option" where
  "tun_world_write k msg w =
     do { a \<leftarrow> tun_write (kn_dev_writev k w) (wo_adapter w) msg; Some (w\<lparr>wo_adapter := a\<rparr>) }"

definition on_tun :: "(FdAdapter \<Rightarrow> FdAdapter) \<Rightarrow> TunAdapter \<Rightarrow> TunAdapter" where
  "on_tun f a = a\<lparr>ta_adapter := f (ta_adapter a)\<rparr>"

definition tun_system :: "TunAdapter Kernel \<Rightarrow> TunAdapter World System" where
  "tun_system k = socket_world (tun_world_read k) (tun_world_write k) (\<lambda>t a. a) ta_tun on_tun k"

text \<open>The same behind a \<open>LossyFdAdapter\<close>, for \<open>LossyTCPOverIPv4MinnowSocket\<close>.\<close>

definition lossy_tun_system :: "(TunAdapter World \<Rightarrow> u32) \<Rightarrow> TunAdapter Kernel \<Rightarrow> TunAdapter World System" where
  "lossy_tun_system draw k =
     socket_world (lossy_world_read ta_adapter draw (tun_world_read k))
       (lossy_world_write ta_adapter draw (tun_world_write k)) (\<lambda>t a. a) ta_tun on_tun k"

interpretation tun: device "tun_world_read k" "tun_world_write k" for k
  by unfold_locales (auto simp: tun_world_read_def tun_world_write_def split: Option.bind_splits)

interpretation lossy_tun: device "lossy_world_read ta_adapter draw (tun_world_read k)"
    "lossy_world_write ta_adapter draw (tun_world_write k)" for draw k
  by (rule tun.lossy)

interpretation tuns: socket_pair "tun_system k_a" "tun_system k_b" wo_log for k_a k_b
  unfolding tun_system_def socket_pair_def using tun.socket_system_axioms by blast

interpretation lossy_tuns: socket_pair "lossy_tun_system draw_a k_a" "lossy_tun_system draw_b k_b" wo_log
    for draw_a draw_b k_a k_b
  unfolding lossy_tun_system_def socket_pair_def using lossy_tun.socket_system_axioms by blast

section \<open>Properties\<close>

text \<open>
  C1: two sockets on TUN devices, one connected and the other listening or both connected,
  however their event loops, kernels and clocks behave: if every message an adapter returns is
  one the other socket has written to its own, in any order, any number of times or never, then
  what has been written to the application at one end is a beginning of what was read from the
  application at the other, and once the socket has shut down the stream to its application
  without an error, the other application's stream has ended and all of it has arrived. For
  streams below \<open>2 ^ 31\<close> bytes and fewer than \<open>2 ^ 64\<close> retransmissions in a row.
\<close>
theorem sockets_deliver:
  assumes "opened (tun_system k_a) wo_log cfg_a sta" and "opened (tun_system k_b) wo_log cfg_b stb"
    and "(net_step (tun_system k_a) (tun_system k_b) wo_log)\<^sup>*\<^sup>* (sta, stb) ((ea, sa), (eb, sb))"
    and "unat (cfg_recv_capacity cfg_b) < 2 ^ 63"
    and "length (lg_from_app (wo_log (ms_system sa))) + 3 < 2 ^ 31"
  shows "prefix (lg_to_app (wo_log (ms_system sb))) (lg_from_app (wo_log (ms_system sa)))
    \<and> (\<forall>p. ms_inbound_shutdown sb \<and> ms_tcp sb = Some p \<and> \<not> has_error (ra_output (rv_reassembler (tp_receiver p))) \<longrightarrow>
        ms_outbound_shutdown sa \<and> lg_to_app (wo_log (ms_system sb)) = lg_from_app (wo_log (ms_system sa)))"
proof -
  note linked = tuns.linked_steps [OF assms(3) tuns.linked_init [OF assms(1,2)]]
  show ?thesis using tuns.linked_delivers [OF linked assms(4,5)] by blast
qed

text \<open>A run given by who waits and which of its three descriptors is ready.\<close>

definition demo_ready :: "nat \<Rightarrow> pollfd list \<Rightarrow> int \<Rightarrow> (nat \<times> revents list) option" where
  "demo_ready i ps timeout = Some (1, map (\<lambda>j. \<lparr>re_in = (i = j), re_out = (i = j), re_error = False, re_hup = False\<rparr>) [0..<3])"

fun play where
  "play [] st = Some st"
| "play ((at_a, i) # script) ((ea, sa), (eb, sb)) =
     (case wait_next_event (demo_ready i) (\<lambda>_. True) TCP_TICK_MS (if at_a then ea else eb) (if at_a then sa else sb) of
        None \<Rightarrow> None
      | Some (el, s, ret) \<Rightarrow>
          if few_retransmissions (if at_a then sa else sb)
             \<and> set (lg_received (wo_log (ms_system s)))
                 \<subseteq> received_message ` set (lg_sent (wo_log (ms_system (if at_a then sb else sa))))
          then play script (if at_a then ((el, s), (eb, sb)) else ((ea, sa), (el, s))) else None)"

lemma play_steps: "play script st = Some st' \<Longrightarrow> (net_step E_a E_b wo_log)\<^sup>*\<^sup>* st st'"
proof (induction script st rule: play.induct)
  case (2 at_a i script ea sa eb sb)
  then obtain el s ret where w: "wait_next_event (demo_ready i) (\<lambda>_. True) TCP_TICK_MS (if at_a then ea else eb)
      (if at_a then sa else sb) = Some (el, s, ret)"
    and ok: "few_retransmissions (if at_a then sa else sb)"
      "set (lg_received (wo_log (ms_system s)))
        \<subseteq> received_message ` set (lg_sent (wo_log (ms_system (if at_a then sb else sa))))"
    and rest: "play script (if at_a then ((el, s), (eb, sb)) else ((ea, sa), (el, s))) = Some st'"
    by (auto split: option.splits if_splits)
  have "net_step E_a E_b wo_log ((ea, sa), (eb, sb)) (if at_a then ((el, s), (eb, sb)) else ((ea, sa), (el, s)))"
    using w ok by (cases at_a) (auto intro: net_step.intros socket_step.wait)
  moreover have "(net_step E_a E_b wo_log)\<^sup>*\<^sup>* (if at_a then ((el, s), (eb, sb)) else ((ea, sa), (el, s))) st'"
    using 2(1) [OF w refl refl] ok rest by simp
  ultimately show ?case by (rule converse_rtranclp_into_rtranclp)
qed simp

text \<open>
  One socket connects to the other, which listens; it reads one byte from its application, and the
  byte reaches the other application. The kernels hand over the datagrams of the messages sent.
\<close>

definition demo_config :: "u32 \<Rightarrow> u16 \<Rightarrow> u32 \<Rightarrow> u16 \<Rightarrow> FdAdapterConfig" where
  "demo_config ip port ip' port' = \<lparr>fd_source = IPv4_address ip port, fd_destination = IPv4_address ip' port',
     fd_loss_rate_dn = 0, fd_loss_rate_up = 0\<rparr>"

definition demo_kernel :: "(TunAdapter World \<Rightarrow> byte list syscall) \<Rightarrow> TunAdapter Kernel" where
  "demo_kernel arriving = \<lparr>kn_readv = (\<lambda>w lens. arriving w),
     kn_dev_writev = (\<lambda>w views. Done (length (concat views))),
     kn_read = (\<lambda>w n. Done [7]), kn_writev = (\<lambda>w views. Done (length (concat views))),
     kn_shutdown = (\<lambda>w fd how. Done ())\<rparr>"

definition demo_world :: "TunAdapter World" where
  "demo_world = \<lparr>wo_adapter = \<lparr>ta_adapter = fd_adapter, ta_tun = demo_fd\<rparr>,
     wo_log = \<lparr>lg_sent = [], lg_received = [], lg_from_app = [], lg_to_app = []\<rparr>, wo_calls = 0\<rparr>"

definition demo_socket :: "TunAdapter World MinnowSocket" where
  "demo_socket = the (minnow_socket demo_world (\<lambda>_. Done False) (\<lambda>_ _. Done ()) (demo_fd\<lparr>fd_num := 4\<rparr>) (demo_fd\<lparr>fd_num := 5\<rparr>))"

text \<open>The datagrams of the SYN, of the answer to it and of the segment with the byte 7.\<close>

definition demo_kernel_a :: "TunAdapter Kernel" where
  "demo_kernel_a = demo_kernel (\<lambda>w. Done
     [69, 0, 0, 40, 0, 0, 64, 0, 128, 6, 250, 205, 0, 0, 0, 2, 0, 0, 0, 1,
      0, 90, 0, 80, 0, 0, 0, 137, 0, 0, 0, 138, 80, 18, 0, 4, 174, 15, 0, 0])"

definition demo_kernel_b :: "TunAdapter Kernel" where
  "demo_kernel_b = demo_kernel (\<lambda>w. Done
     (if wo_calls w = 0
      then [69, 0, 0, 40, 0, 0, 64, 0, 128, 6, 250, 205, 0, 0, 0, 1, 0, 0, 0, 2,
            0, 80, 0, 90, 0, 0, 0, 137, 0, 0, 0, 0, 80, 2, 0, 4, 174, 169, 0, 0]
      else [69, 0, 0, 41, 0, 0, 64, 0, 128, 6, 250, 204, 0, 0, 0, 1, 0, 0, 0, 2,
            0, 80, 0, 90, 0, 0, 0, 138, 0, 0, 0, 138, 80, 16, 0, 4, 167, 15, 0, 0, 7]))"

definition demo_sockets where
  "demo_sockets =
     do { a \<leftarrow> minnow_start (tun_system demo_kernel_a) small_config (demo_config 1 80 2 90) (event_loop 64) demo_socket;
          b \<leftarrow> minnow_listen (tun_system demo_kernel_b) small_config (demo_config 2 90 0 0) (event_loop 64) demo_socket;
          Some (a, b) }"

definition demo_bytes where
  "demo_bytes =
     do { st \<leftarrow> demo_sockets;
          ((ea, sa), (eb, sb)) \<leftarrow> play [(False, 0), (True, 0), (True, 1), (False, 0), (False, 2)] st;
          Some (lg_from_app (wo_log (ms_system sa)), lg_to_app (wo_log (ms_system sb))) }"

lemma demo_bytes: "demo_bytes = Some ([7], [7])"
  by code_simp

lemma demo_socket_fresh: "fresh wo_log demo_socket"
proof -
  have "minnow_socket demo_world (\<lambda>_. Done False) (\<lambda>_ _. Done ()) (demo_fd\<lparr>fd_num := 4\<rparr>) (demo_fd\<lparr>fd_num := 5\<rparr>)
      = Some demo_socket"
    by (simp add: demo_socket_def minnow_socket_def set_blocking_def check_system_call_def)
  moreover have "wo_log demo_world = \<lparr>lg_sent = [], lg_received = [], lg_from_app = [], lg_to_app = []\<rparr>"
    by (simp add: demo_world_def)
  ultimately show ?thesis unfolding fresh_def by blast
qed

theorem sockets_deliver_witness:
  "\<exists>sta stb ea sa eb sb. opened (tun_system demo_kernel_a) wo_log small_config sta
     \<and> (net_step (tun_system demo_kernel_a) (tun_system demo_kernel_b) wo_log)\<^sup>*\<^sup>* (sta, stb) ((ea, sa), (eb, sb))
     \<and> lg_to_app (wo_log (ms_system sb)) = [7]
     \<and> prefix (lg_to_app (wo_log (ms_system sb))) (lg_from_app (wo_log (ms_system sa)))"
proof -
  obtain sta stb ea sa eb sb where
    st: "minnow_start (tun_system demo_kernel_a) small_config (demo_config 1 80 2 90) (event_loop 64) demo_socket = Some sta"
      "minnow_listen (tun_system demo_kernel_b) small_config (demo_config 2 90 0 0) (event_loop 64) demo_socket = Some stb"
    and run: "play [(False, 0), (True, 0), (True, 1), (False, 0), (False, 2)] (sta, stb) = Some ((ea, sa), (eb, sb))"
    and app: "lg_from_app (wo_log (ms_system sa)) = [7]" "lg_to_app (wo_log (ms_system sb)) = [7]"
    using demo_bytes by (auto simp: demo_bytes_def demo_sockets_def split: Option.bind_splits)
  have "opened (tun_system demo_kernel_a) wo_log small_config sta"
    "opened (tun_system demo_kernel_b) wo_log small_config stb"
    using demo_socket_fresh st by (auto simp: opened_def)
  moreover note play_steps [OF run, of "tun_system demo_kernel_a" "tun_system demo_kernel_b"]
  moreover have "unat (cfg_recv_capacity small_config) < 2 ^ 63" by (simp add: small_config_def)
  ultimately show ?thesis using sockets_deliver [of demo_kernel_a small_config sta demo_kernel_b small_config stb] app
    by fastforce
qed

end
