(* ===== verification/Ethernet.thy ===== *)
theory Ethernet
  imports Parser
begin

text \<open>
  \<open>util/ethernet_header.hh\<close>, \<open>util/ethernet_header.cc\<close>, \<open>util/ethernet_frame.hh\<close>,
  \<open>util/arp_message.hh\<close> and \<open>util/arp_message.cc\<close>: frames and ARP messages, their
  parsing and serialization. The lemmas show that parsing never fails to be defined on the
  buffers a frame can have, and that it inverts serialization. Printing is in the theory
  \<open>Summary\<close>.
\<close>

text \<open>\<open>std::array<uint8_t, 6>\<close>; the loops over it are written out.\<close>

datatype EthernetAddress = EthernetAddress u8 u8 u8 u8 u8 u8

definition ETHERNET_BROADCAST :: EthernetAddress where
  "ETHERNET_BROADCAST = EthernetAddress 0xff 0xff 0xff 0xff 0xff 0xff"

definition zero_address :: EthernetAddress where
  "zero_address = EthernetAddress 0 0 0 0 0 0"

fun address_parse :: "EthernetAddress \<Rightarrow> Parser \<Rightarrow> (EthernetAddress \<times> Parser) option" where
  "address_parse (EthernetAddress b0 b1 b2 b3 b4 b5) p =
     do { (b0, p) \<leftarrow> parser_integer b0 p;
          (b1, p) \<leftarrow> parser_integer b1 p;
          (b2, p) \<leftarrow> parser_integer b2 p;
          (b3, p) \<leftarrow> parser_integer b3 p;
          (b4, p) \<leftarrow> parser_integer b4 p;
          (b5, p) \<leftarrow> parser_integer b5 p;
          Some (EthernetAddress b0 b1 b2 b3 b4 b5, p) }"

fun address_serialize :: "EthernetAddress \<Rightarrow> Serializer \<Rightarrow> Serializer" where
  "address_serialize (EthernetAddress b0 b1 b2 b3 b4 b5) s =
     fold serializer_integer [b0, b1, b2, b3, b4, b5] s"

section \<open>Frames\<close>

record EthernetHeader =
  eh_dst :: EthernetAddress
  eh_src :: EthernetAddress
  eh_type :: u16

definition TYPE_IPv4 :: u16 where
  "TYPE_IPv4 = 0x800"

definition TYPE_ARP :: u16 where
  "TYPE_ARP = 0x806"

definition ethernet_header :: EthernetHeader where
  "ethernet_header = \<lparr>eh_dst = zero_address, eh_src = zero_address, eh_type = 0\<rparr>"

definition ethernet_header_parse :: "EthernetHeader \<Rightarrow> Parser \<Rightarrow> (EthernetHeader \<times> Parser) option" where
  "ethernet_header_parse h p =
     do { (dst, p) \<leftarrow> address_parse (eh_dst h) p;
          (src, p) \<leftarrow> address_parse (eh_src h) p;
          (type, p) \<leftarrow> parser_integer (eh_type h) p;
          Some (\<lparr>eh_dst = dst, eh_src = src, eh_type = type\<rparr>, p) }"

definition ethernet_header_serialize :: "EthernetHeader \<Rightarrow> Serializer \<Rightarrow> Serializer" where
  "ethernet_header_serialize h s =
     serializer_integer (eh_type h) (address_serialize (eh_src h) (address_serialize (eh_dst h) s))"

record EthernetFrame =
  fr_header :: EthernetHeader
  fr_payload :: "byte list Ref list"

definition ethernet_frame :: EthernetFrame where
  "ethernet_frame = \<lparr>fr_header = ethernet_header, fr_payload = []\<rparr>"

definition frame_parse :: "EthernetFrame \<Rightarrow> Parser \<Rightarrow> (EthernetFrame \<times> Parser) option" where
  "frame_parse f p =
     do { (h, p) \<leftarrow> ethernet_header_parse (fr_header f) p;
          payload \<leftarrow> all_remaining p;
          Some (\<lparr>fr_header = h, fr_payload = payload\<rparr>, p) }"

definition frame_serialize :: "EthernetFrame \<Rightarrow> Serializer \<Rightarrow> Serializer" where
  "frame_serialize f s = serializer_buffers (fr_payload f) (ethernet_header_serialize (fr_header f) s)"

text \<open>\<open>serialize\<close>, \<open>parse\<close> and \<open>clone\<close> of \<open>util/helpers.hh\<close> at this type.\<close>

definition serialize_frame :: "EthernetFrame \<Rightarrow> byte list Ref list" where
  "serialize_frame f = serializer_finish (frame_serialize f serializer)"

definition parse_frame :: "byte list Ref list \<Rightarrow> (EthernetFrame \<times> bool) option" where
  "parse_frame buffers =
     do { p \<leftarrow> parser buffers;
          (f, p) \<leftarrow> frame_parse ethernet_frame p;
          Some (f, \<not> parser_has_error p) }"

definition clone_frame :: "EthernetFrame \<Rightarrow> EthernetFrame" where
  "clone_frame x = \<lparr>fr_header = fr_header x, fr_payload = map (\<lambda>i. ref_of (ref_get i)) (fr_payload x)\<rparr>"

section \<open>ARP\<close>

definition TYPE_ETHERNET :: u16 where
  "TYPE_ETHERNET = 1"

definition OPCODE_REQUEST :: u16 where
  "OPCODE_REQUEST = 1"

definition OPCODE_REPLY :: u16 where
  "OPCODE_REPLY = 2"

record ARPMessage =
  arp_hardware_type :: u16
  arp_protocol_type :: u16
  arp_hardware_address_size :: u8
  arp_protocol_address_size :: u8
  arp_opcode :: u16
  arp_sender_ethernet_address :: EthernetAddress
  arp_sender_ip_address :: u32
  arp_target_ethernet_address :: EthernetAddress
  arp_target_ip_address :: u32

definition arp_message :: ARPMessage where
  "arp_message = \<lparr>arp_hardware_type = TYPE_ETHERNET, arp_protocol_type = TYPE_IPv4,
     arp_hardware_address_size = 6, arp_protocol_address_size = 4, arp_opcode = 0,
     arp_sender_ethernet_address = zero_address, arp_sender_ip_address = 0,
     arp_target_ethernet_address = zero_address, arp_target_ip_address = 0\<rparr>"

definition arp_supported :: "ARPMessage \<Rightarrow> bool" where
  "arp_supported m \<longleftrightarrow> arp_hardware_type m = TYPE_ETHERNET \<and> arp_protocol_type m = TYPE_IPv4
     \<and> arp_hardware_address_size m = 6 \<and> arp_protocol_address_size m = 4
     \<and> (arp_opcode m = OPCODE_REQUEST \<or> arp_opcode m = OPCODE_REPLY)"

definition arp_parse :: "ARPMessage \<Rightarrow> Parser \<Rightarrow> (ARPMessage \<times> Parser) option" where
  "arp_parse m p =
     do { (hardware_type, p) \<leftarrow> parser_integer (arp_hardware_type m) p;
          (protocol_type, p) \<leftarrow> parser_integer (arp_protocol_type m) p;
          (hardware_address_size, p) \<leftarrow> parser_integer (arp_hardware_address_size m) p;
          (protocol_address_size, p) \<leftarrow> parser_integer (arp_protocol_address_size m) p;
          (opcode, p) \<leftarrow> parser_integer (arp_opcode m) p;
          m \<leftarrow> Some (m\<lparr>arp_hardware_type := hardware_type, arp_protocol_type := protocol_type,
                arp_hardware_address_size := hardware_address_size,
                arp_protocol_address_size := protocol_address_size, arp_opcode := opcode\<rparr>);
          (if \<not> arp_supported m then Some (m, parser_set_error p)
           else do { (sender_eth, p) \<leftarrow> address_parse (arp_sender_ethernet_address m) p;
                     (sender_ip, p) \<leftarrow> parser_integer (arp_sender_ip_address m) p;
                     (target_eth, p) \<leftarrow> address_parse (arp_target_ethernet_address m) p;
                     (target_ip, p) \<leftarrow> parser_integer (arp_target_ip_address m) p;
                     Some (m\<lparr>arp_sender_ethernet_address := sender_eth,
                             arp_sender_ip_address := sender_ip,
                             arp_target_ethernet_address := target_eth,
                             arp_target_ip_address := target_ip\<rparr>, p) }) }"

text \<open>\<open>None\<close> for \<open>unsupported field combination\<close>.\<close>

definition arp_serialize :: "ARPMessage \<Rightarrow> Serializer \<Rightarrow> Serializer option" where
  "arp_serialize m s =
     (if \<not> arp_supported m then None
      else Some (serializer_integer (arp_target_ip_address m)
        (address_serialize (arp_target_ethernet_address m)
        (serializer_integer (arp_sender_ip_address m)
        (address_serialize (arp_sender_ethernet_address m)
        (serializer_integer (arp_opcode m)
        (serializer_integer (arp_protocol_address_size m)
        (serializer_integer (arp_hardware_address_size m)
        (serializer_integer (arp_protocol_type m)
        (serializer_integer (arp_hardware_type m) s))))))))))"

definition serialize_arp :: "ARPMessage \<Rightarrow> byte list Ref list option" where
  "serialize_arp m = map_option serializer_finish (arp_serialize m serializer)"

definition parse_arp :: "byte list Ref list \<Rightarrow> (ARPMessage \<times> bool) option" where
  "parse_arp buffers =
     do { p \<leftarrow> parser buffers;
          (m, p) \<leftarrow> arp_parse arp_message p;
          Some (m, \<not> parser_has_error p) }"

section \<open>Round trips\<close>

fun address_bytes :: "EthernetAddress \<Rightarrow> byte list" where
  "address_bytes (EthernetAddress b0 b1 b2 b3 b4 b5) =
     be_bytes b0 @ be_bytes b1 @ be_bytes b2 @ be_bytes b3 @ be_bytes b4 @ be_bytes b5"

lemma length_address_bytes [simp]: "length (address_bytes a) = 6"
  by (cases a) simp

lemma address_serialize_simps [simp]:
  "sz_bytes (address_serialize a s) = sz_bytes s @ address_bytes a"
  "sz_ok (address_serialize a s) = sz_ok s"
  by (cases a, simp)+

lemma address_at:
  assumes "at p (address_bytes a @ rest)" and "\<And>p'. at p' rest \<Longrightarrow> yields (f a p') Q"
  shows "yields (Option.bind (address_parse a0 p) (\<lambda>(x, y). f x y)) Q"
proof (cases a, cases a0)
  fix b0 b1 b2 b3 b4 b5 c0 c1 c2 c3 c4 c5
  assume a: "a = EthernetAddress b0 b1 b2 b3 b4 b5" and a0: "a0 = EthernetAddress c0 c1 c2 c3 c4 c5"
  have "at p (be_bytes b0 @ be_bytes b1 @ be_bytes b2 @ be_bytes b3 @ be_bytes b4 @ be_bytes b5 @ rest)"
    using assms(1) by (simp add: a)
  then have "yields (address_parse a0 p) (\<lambda>(x, y). yields (f x y) Q)"
    unfolding a0 address_parse.simps
    by (elim at_binds) (use assms(2) in \<open>auto simp: a intro: yields_Some\<close>)
  then show ?thesis by (intro yields_bind) (auto simp: yields_def)
qed

lemma address_total:
  assumes "pr_ok p" and "\<And>a p'. pr_ok p' \<Longrightarrow> yields (f a p') Q"
  shows "yields (Option.bind (address_parse a0 p) (\<lambda>(x, y). f x y)) Q"
proof (cases a0)
  fix c0 c1 c2 c3 c4 c5
  assume a0: "a0 = EthernetAddress c0 c1 c2 c3 c4 c5"
  have "yields (address_parse a0 p) (\<lambda>(x, y). yields (f x y) Q)"
    using assms(1) unfolding a0 address_parse.simps
    by (elim total_binds) (use assms(2) in \<open>auto intro: yields_Some\<close>)
  then show ?thesis by (intro yields_bind) (auto simp: yields_def)
qed

definition header_bytes :: "EthernetHeader \<Rightarrow> byte list" where
  "header_bytes h = address_bytes (eh_dst h) @ address_bytes (eh_src h) @ be_bytes (eh_type h)"

lemma header_serialize_simps [simp]:
  "sz_bytes (ethernet_header_serialize h s) = sz_bytes s @ header_bytes h"
  "sz_ok (ethernet_header_serialize h s) = sz_ok s"
  by (simp_all add: ethernet_header_serialize_def header_bytes_def)

lemma length_header_bytes [simp]: "length (header_bytes h) = 14"
  by (simp add: header_bytes_def)

lemma header_at:
  assumes "at p (header_bytes h @ rest)" and "\<And>p'. at p' rest \<Longrightarrow> Q (h, p')"
  shows "yields (ethernet_header_parse h0 p) Q"
proof -
  have "at p (address_bytes (eh_dst h) @ address_bytes (eh_src h) @ be_bytes (eh_type h) @ rest)"
    using assms(1) by (simp add: header_bytes_def)
  then show ?thesis
    unfolding ethernet_header_parse_def
    by (elim address_at at_binds) (use assms(2) in \<open>cases h, simp add: yields_def\<close>)
qed

lemma header_total:
  assumes "pr_ok p" and "\<And>h p'. pr_ok p' \<Longrightarrow> Q (h, p')"
  shows "yields (ethernet_header_parse h0 p) Q"
  using assms(1) unfolding ethernet_header_parse_def
  by (elim address_total total_binds) (use assms(2) in \<open>simp add: yields_def\<close>)

lemma all_remaining_total:
  assumes "pr_ok p"
  shows "\<exists>bufs. all_remaining p = Some bufs \<and> no_gap bufs \<and> (\<forall>b \<in> set bufs. is_owned b)"
  using dump_all_ok assms by (auto simp: all_remaining_def pr_ok_def)

lemma frame_parse_any:
  assumes "\<forall>b \<in> set bufs. is_owned b" and "no_gap bufs" and "bytes_of bufs = header_bytes h @ payload"
    and "length payload < 2 ^ 63"
  shows "\<exists>bufs'. parse_frame bufs = Some (\<lparr>fr_header = h, fr_payload = bufs'\<rparr>, True)
    \<and> bytes_of bufs' = payload \<and> no_gap bufs' \<and> (\<forall>b \<in> set bufs'. is_owned b)"
proof -
  have "length (bytes_of bufs) < 2 ^ 64" using assms(3,4) by simp
  then obtain p where p: "parser bufs = Some p" "at p (header_bytes h @ payload)"
    using parser_at [OF assms(1,2)] assms(3) by auto
  have "yields (frame_parse ethernet_frame p) (\<lambda>(g, p'). \<not> parser_has_error p' \<and>
      fr_header g = h \<and> bytes_of (fr_payload g) = payload
      \<and> no_gap (fr_payload g) \<and> (\<forall>b \<in> set (fr_payload g). is_owned b))"
    unfolding frame_parse_def
    by (intro yields_bind header_at [OF p(2)])
       (auto simp: at_def parser_has_error_def intro!: yields_bind yields_Some all_remaining_at)
  then obtain g p' where "frame_parse ethernet_frame p = Some (g, p')" "\<not> parser_has_error p'"
    "fr_header g = h" "bytes_of (fr_payload g) = payload" "no_gap (fr_payload g)" "\<forall>b \<in> set (fr_payload g). is_owned b"
    by (auto simp: yields_def)
  then show ?thesis by (cases g) (simp add: parse_frame_def p(1))
qed

lemma serialize_frame_bytes:
  "bytes_of (serialize_frame f) = header_bytes (fr_header f) @ bytes_of (fr_payload f)" "no_gap (serialize_frame f)"
  using finish_no_gap [of "frame_serialize f serializer"] by (simp_all add: serialize_frame_def frame_serialize_def)

lemma frame_roundtrip:
  assumes "length (bytes_of (fr_payload f)) < 2 ^ 63"
  shows "\<exists>payload. parse_frame (map ref_copy (serialize_frame f))
      = Some (\<lparr>fr_header = fr_header f, fr_payload = payload\<rparr>, True)
    \<and> bytes_of payload = bytes_of (fr_payload f) \<and> no_gap payload \<and> (\<forall>b \<in> set payload. is_owned b)"
  by (rule frame_parse_any) (use assms in \<open>auto simp: serialize_frame_bytes\<close>)

lemma frame_total:
  assumes "parser bufs = Some p" and "no_gap bufs" and "length (bytes_of bufs) < 2 ^ 64"
  shows "\<exists>f ok. parse_frame bufs = Some (f, ok) \<and> no_gap (fr_payload f)
    \<and> (\<forall>b \<in> set (fr_payload f). is_owned b)"
proof -
  have "yields (frame_parse ethernet_frame p) (\<lambda>(f, p'). no_gap (fr_payload f)
      \<and> (\<forall>b \<in> set (fr_payload f). is_owned b))"
    unfolding frame_parse_def
    by (intro yields_bind header_total [OF parser_consistent(1) [OF assms]])
       (use all_remaining_total in \<open>fastforce simp: yields_def\<close>)
  then show ?thesis by (auto simp: parse_frame_def assms(1) yields_def)
qed

definition arp_bytes :: "ARPMessage \<Rightarrow> byte list" where
  "arp_bytes m = be_bytes (arp_hardware_type m) @ be_bytes (arp_protocol_type m)
     @ be_bytes (arp_hardware_address_size m) @ be_bytes (arp_protocol_address_size m)
     @ be_bytes (arp_opcode m)
     @ address_bytes (arp_sender_ethernet_address m) @ be_bytes (arp_sender_ip_address m)
     @ address_bytes (arp_target_ethernet_address m) @ be_bytes (arp_target_ip_address m)"

lemma length_arp_bytes [simp]: "length (arp_bytes m) = 28"
  by (simp add: arp_bytes_def)

lemma arp_serialize_ok:
  "arp_supported m \<Longrightarrow> \<exists>s'. arp_serialize m s = Some s' \<and> sz_bytes s' = sz_bytes s @ arp_bytes m
     \<and> sz_ok s' = sz_ok s"
  by (simp add: arp_serialize_def arp_bytes_def)

lemma arp_at:
  assumes "arp_supported m" and "at p (arp_bytes m @ rest)" and Q: "\<And>p'. at p' rest \<Longrightarrow> Q (m, p')"
  shows "yields (arp_parse m0 p) Q"
proof -
  have sup: "arp_supported (m0\<lparr>arp_hardware_type := arp_hardware_type m,
      arp_protocol_type := arp_protocol_type m,
      arp_hardware_address_size := arp_hardware_address_size m,
      arp_protocol_address_size := arp_protocol_address_size m, arp_opcode := arp_opcode m\<rparr>)"
    using assms(1) by (simp add: arp_supported_def)
  have "at p (be_bytes (arp_hardware_type m) @ be_bytes (arp_protocol_type m)
     @ be_bytes (arp_hardware_address_size m) @ be_bytes (arp_protocol_address_size m)
     @ be_bytes (arp_opcode m)
     @ address_bytes (arp_sender_ethernet_address m) @ be_bytes (arp_sender_ip_address m)
     @ address_bytes (arp_target_ethernet_address m) @ be_bytes (arp_target_ip_address m) @ rest)"
    using assms(2) by (simp add: arp_bytes_def)
  then show ?thesis
    unfolding arp_parse_def
    apply -
    apply (elim at_binds | rule yields_let)+
    apply (simp only: sup not_True_eq_False if_False)
    apply (elim at_binds address_at)
    apply (cases m, cases m0, simp add: yields_def)
    using Q by simp
qed

lemma arp_total:
  assumes "pr_ok p"
  shows "yields (arp_parse m0 p) (\<lambda>(m, p'). pr_ok p' \<and> (\<not> parser_has_error p' \<longrightarrow> arp_supported m))"
  unfolding arp_parse_def
  using assms
  apply -
  apply (elim total_binds | rule yields_let)+
  apply (rule if_split [THEN iffD2], intro conjI impI)
   apply (simp add: yields_def parser_set_error_def parser_has_error_def pr_ok_def)
  apply (elim total_binds address_total)
  apply (simp add: yields_def arp_supported_def)
  done

lemma arp_parse_of_bytes:
  assumes "parser bufs = Some p" and "no_gap bufs" and "length (bytes_of bufs) < 2 ^ 64"
  shows "\<exists>m ok. parse_arp bufs = Some (m, ok) \<and> (ok \<longrightarrow> arp_supported m)"
  using arp_total [OF parser_consistent(1) [OF assms], of arp_message]
  by (auto simp: yields_def parse_arp_def assms(1))

lemma arp_roundtrip:
  assumes "arp_supported m"
  shows "\<exists>bufs. serialize_arp m = Some bufs \<and> (\<forall>b \<in> set bufs. is_owned b) \<and> no_gap bufs
    \<and> bytes_of bufs = arp_bytes m \<and> parse_arp bufs = Some (m, True)"
proof -
  obtain s where s: "arp_serialize m serializer = Some s" "sz_bytes s = arp_bytes m" "sz_ok s"
    using arp_serialize_ok [OF assms, of serializer] by auto
  have out: "sz_output s = []"
  proof -
    have "sz_output (address_serialize a t) = sz_output t" for a t by (cases a) simp
    then show ?thesis using s(1) assms by (auto simp: arp_serialize_def serializer_def)
  qed
  let ?bufs = "serializer_finish s"
  have b: "\<forall>b \<in> set ?bufs. is_owned b"
    by (simp add: serializer_finish_def serializer_flush_def out)
  obtain p where p: "parser ?bufs = Some p" "at p (arp_bytes m @ [])"
    using parser_at [OF b finish_no_gap [OF s(3)]] s(2) by auto
  have "yields (arp_parse arp_message p) (\<lambda>(m', p'). m' = m \<and> \<not> parser_has_error p')"
    by (rule arp_at [OF assms p(2)]) (simp add: at_def parser_has_error_def)
  then show ?thesis
    using b finish_no_gap [OF s(3)] by (auto simp: serialize_arp_def s parse_arp_def p(1) yields_def)
qed

section \<open>Properties\<close>

text \<open>
  A frame is parsed back from a copy of its serialization: the header's fields are the
  same and the payload's bytes are, in owned buffers that can be parsed again.
\<close>
lemma frame_copy_roundtrip:
  assumes "length (bytes_of payload) < 2 ^ 63"
  shows "\<exists>payload'. parse_frame (map ref_copy (serialize_frame \<lparr>fr_header = h, fr_payload = payload\<rparr>))
      = Some (\<lparr>fr_header = h, fr_payload = payload'\<rparr>, True)
    \<and> bytes_of payload' = bytes_of payload \<and> parser payload' \<noteq> None"
proof -
  let ?f = "\<lparr>fr_header = h, fr_payload = payload\<rparr>"
  obtain payload' where p: "parse_frame (map ref_copy (serialize_frame ?f))
      = Some (\<lparr>fr_header = h, fr_payload = payload'\<rparr>, True)"
    "bytes_of payload' = bytes_of payload" "no_gap payload'" "\<forall>b \<in> set payload'. is_owned b"
    using frame_roundtrip [of ?f] assms by auto
  moreover have "parser payload' \<noteq> None" using parser_at [OF p(4,3)] p(2) assms by auto
  ultimately show ?thesis by blast
qed

text \<open>
  A supported ARP message is serialized to buffers that parse back to it unchanged; an
  unsupported one is not serialized; and parsing any owned buffers without a gap is defined
  and accepts supported messages only.
\<close>
lemma arp_parse_inverts:
  assumes "parser bufs = Some p" and "no_gap bufs" and "length (bytes_of bufs) < 2 ^ 64"
  shows "(if arp_supported m
      then \<exists>out. serialize_arp m = Some out \<and> parse_arp out = Some (m, True)
      else serialize_arp m = None)
    \<and> (\<exists>m' ok. parse_arp bufs = Some (m', ok) \<and> (ok \<longrightarrow> arp_supported m'))"
  using arp_roundtrip [of m] arp_parse_of_bytes [OF assms]
  by (auto simp: serialize_arp_def arp_serialize_def)

end
