(* ===== verification/Network_Interface.thy ===== *)
theory Network_Interface
  imports Address IPv4 Ethernet
begin

text \<open>
  \<open>src/network_interface.hh\<close> and \<open>src/network_interface.cc\<close>: sending datagrams in
  Ethernet frames, with ARP to find the next hop's Ethernet address. The hash maps are maps and
  the frames handed to the output port are returned in order. \<open>None\<close> is an exception or
  an undefined read: an address that is not IPv4, a datagram that is not of version 4, a
  payload the parser cannot take. The name of the interface is not modelled.
\<close>

record NetworkInterface =
  ni_ethernet_address :: EthernetAddress
  ni_ip_address :: Address
  ni_received :: "IPv4Datagram list"
  ni_cache :: "u32 \<Rightarrow> (EthernetAddress \<times> u64) option"
  ni_timestamps :: "u32 \<Rightarrow> u64 option"
  ni_queue :: "(u32 \<times> IPv4Datagram) list"

definition network_interface :: "EthernetAddress \<Rightarrow> Address \<Rightarrow> NetworkInterface" where
  "network_interface ethernet_address ip_address =
     \<lparr>ni_ethernet_address = ethernet_address, ni_ip_address = ip_address, ni_received = [],
      ni_cache = Map.empty, ni_timestamps = Map.empty, ni_queue = []\<rparr>"

text \<open>The frame around a datagram and the frame around an ARP message.\<close>

definition ipv4_frame :: "NetworkInterface \<Rightarrow> EthernetAddress \<Rightarrow> IPv4Datagram \<Rightarrow> EthernetFrame option" where
  "ipv4_frame ni dst dgram =
     map_option (\<lambda>payload. \<lparr>fr_header = \<lparr>eh_dst = dst, eh_src = ni_ethernet_address ni, eh_type = TYPE_IPv4\<rparr>,
                             fr_payload = payload\<rparr>) (serialize_datagram dgram)"

definition arp_frame :: "NetworkInterface \<Rightarrow> EthernetAddress \<Rightarrow> ARPMessage \<Rightarrow> EthernetFrame option" where
  "arp_frame ni dst arp =
     map_option (\<lambda>payload. \<lparr>fr_header = \<lparr>eh_dst = dst, eh_src = ni_ethernet_address ni, eh_type = TYPE_ARP\<rparr>,
                             fr_payload = payload\<rparr>) (serialize_arp arp)"

definition arp_request :: "NetworkInterface \<Rightarrow> u32 \<Rightarrow> u32 \<Rightarrow> ARPMessage" where
  "arp_request ni own_ip ip_32 =
     arp_message\<lparr>arp_opcode := OPCODE_REQUEST, arp_sender_ethernet_address := ni_ethernet_address ni,
       arp_sender_ip_address := own_ip, arp_target_ethernet_address := zero_address,
       arp_target_ip_address := ip_32\<rparr>"

definition send_datagram ::
    "NetworkInterface \<Rightarrow> IPv4Datagram \<Rightarrow> Address \<Rightarrow> (NetworkInterface \<times> EthernetFrame list) option" where
  "send_datagram ni dgram next_hop =
     do { ip_32 \<leftarrow> ipv4_numeric next_hop;
          (case ni_cache ni ip_32 of
             Some (eth_addr, age) \<Rightarrow>
               do { frame \<leftarrow> ipv4_frame ni eth_addr dgram; Some (ni, [frame]) }
           | None \<Rightarrow>
               let ni = ni\<lparr>ni_queue := ni_queue ni @ [(ip_32, clone_datagram dgram)]\<rparr>
               in if (case ni_timestamps ni ip_32 of None \<Rightarrow> True | Some t \<Rightarrow> t \<ge> 5000)
                  then do { own_ip \<leftarrow> ipv4_numeric (ni_ip_address ni);
                            frame \<leftarrow> arp_frame ni ETHERNET_BROADCAST (arp_request ni own_ip ip_32);
                            Some (ni\<lparr>ni_timestamps := (ni_timestamps ni)(ip_32 \<mapsto> 0)\<rparr>, [frame]) }
                  else Some (ni, [])) }"

text \<open>The loop over the waiting datagrams: the frames it sends and the datagrams it keeps.\<close>

fun send_waiting ::
    "NetworkInterface \<Rightarrow> u32 \<Rightarrow> EthernetAddress \<Rightarrow> (u32 \<times> IPv4Datagram) list
       \<Rightarrow> (EthernetFrame list \<times> (u32 \<times> IPv4Datagram) list) option" where
  "send_waiting ni ip dst [] = Some ([], [])"
| "send_waiting ni ip dst ((ip', dgram) # q) =
     (if ip' = ip
      then do { frame \<leftarrow> ipv4_frame ni dst (clone_datagram dgram);
                (frames, kept) \<leftarrow> send_waiting ni ip dst q;
                Some (frame # frames, kept) }
      else do { (frames, kept) \<leftarrow> send_waiting ni ip dst q; Some (frames, (ip', dgram) # kept) })"

definition arp_reply :: "NetworkInterface \<Rightarrow> u32 \<Rightarrow> ARPMessage \<Rightarrow> ARPMessage" where
  "arp_reply ni own_ip arp =
     arp_message\<lparr>arp_sender_ip_address := own_ip, arp_sender_ethernet_address := ni_ethernet_address ni,
       arp_target_ethernet_address := arp_sender_ethernet_address arp,
       arp_target_ip_address := arp_sender_ip_address arp, arp_opcode := OPCODE_REPLY\<rparr>"

text \<open>An ARP message that was parsed.\<close>

definition recv_arp :: "NetworkInterface \<Rightarrow> ARPMessage \<Rightarrow> (NetworkInterface \<times> EthernetFrame list) option" where
  "recv_arp ni arp =
     (let ip = arp_sender_ip_address arp; eth = arp_sender_ethernet_address arp;
          ni = ni\<lparr>ni_cache := (ni_cache ni)(ip \<mapsto> (eth, 0))\<rparr>
      in do { (frames, kept) \<leftarrow> send_waiting ni ip eth (ni_queue ni);
              ni \<leftarrow> Some (ni\<lparr>ni_queue := kept\<rparr>);
              (if arp_opcode arp = OPCODE_REQUEST
               then do { own_ip \<leftarrow> ipv4_numeric (ni_ip_address ni);
                         (if arp_target_ip_address arp = own_ip
                          then do { reply \<leftarrow> arp_frame ni eth (arp_reply ni own_ip arp);
                                    Some (ni, frames @ [reply]) }
                          else Some (ni, frames)) }
               else Some (ni, frames)) })"

definition recv_frame ::
    "NetworkInterface \<Rightarrow> EthernetFrame \<Rightarrow> (NetworkInterface \<times> EthernetFrame list) option" where
  "recv_frame ni frame =
     (if eh_dst (fr_header frame) \<noteq> ETHERNET_BROADCAST \<and> eh_dst (fr_header frame) \<noteq> ni_ethernet_address ni
      then Some (ni, [])
      else if eh_type (fr_header frame) = TYPE_IPv4
      then do { (dgram, ok) \<leftarrow> parse_datagram (fr_payload frame);
                Some (if ok then ni\<lparr>ni_received := ni_received ni @ [clone_datagram dgram]\<rparr> else ni, []) }
      else if eh_type (fr_header frame) = TYPE_ARP
      then do { (arp, ok) \<leftarrow> parse_arp (fr_payload frame);
                (if \<not> ok then Some (ni, []) else recv_arp ni arp) }
      else Some (ni, []))"

text \<open>
  \<open>tick\<close>: the two loops visit the entries of a hash map in an unspecified order, but each
  changes only its own entry and removes the waiting datagrams of its own address.
\<close>

definition age_cache :: "u64 \<Rightarrow> (EthernetAddress \<times> u64) option \<Rightarrow> (EthernetAddress \<times> u64) option" where
  "age_cache ms entry =
     (case entry of None \<Rightarrow> None
      | Some (eth, age) \<Rightarrow> if age + ms \<ge> 30000 then None else Some (eth, age + ms))"

definition age_timestamp :: "u64 \<Rightarrow> u64 option \<Rightarrow> u64 option" where
  "age_timestamp ms entry =
     (case entry of None \<Rightarrow> None | Some t \<Rightarrow> if t + ms \<ge> 5000 then None else Some (t + ms))"

definition request_expires :: "NetworkInterface \<Rightarrow> u64 \<Rightarrow> u32 \<Rightarrow> bool" where
  "request_expires ni ms ip \<longleftrightarrow>
     (case ni_timestamps ni ip of None \<Rightarrow> False | Some t \<Rightarrow> t + ms \<ge> 5000)"

definition interface_tick :: "NetworkInterface \<Rightarrow> u64 \<Rightarrow> NetworkInterface" where
  "interface_tick ni ms_since_last_tick =
     ni\<lparr>ni_cache := (\<lambda>ip. age_cache ms_since_last_tick (ni_cache ni ip)),
        ni_queue := filter (\<lambda>(ip, dgram). \<not> request_expires ni ms_since_last_tick ip) (ni_queue ni),
        ni_timestamps := (\<lambda>ip. age_timestamp ms_since_last_tick (ni_timestamps ni ip))\<rparr>"

text \<open>The owner takes a datagram from \<open>datagrams_received()\<close>.\<close>

definition take_received :: "NetworkInterface \<Rightarrow> (IPv4Datagram \<times> NetworkInterface) option" where
  "take_received ni =
     (case ni_received ni of [] \<Rightarrow> None | d # ds \<Rightarrow> Some (d, ni\<lparr>ni_received := ds\<rparr>))"

section \<open>Events\<close>

datatype iface_op = Send_datagram IPv4Datagram Address | Recv_frame EthernetFrame | Elapse u64 | Take_received

fun iface_event :: "NetworkInterface \<Rightarrow> iface_op \<Rightarrow> (NetworkInterface \<times> EthernetFrame list) option" where
  "iface_event ni (Send_datagram dgram next_hop) = send_datagram ni dgram next_hop"
| "iface_event ni (Recv_frame frame) = recv_frame ni frame"
| "iface_event ni (Elapse ms) = Some (interface_tick ni ms, [])"
| "iface_event ni Take_received =
     Some (case take_received ni of None \<Rightarrow> ni | Some (d, ni') \<Rightarrow> ni', [])"

definition iface_step :: "NetworkInterface \<Rightarrow> iface_op \<Rightarrow> NetworkInterface" where
  "iface_step ni e = (case iface_event ni e of None \<Rightarrow> ni | Some (ni', frames) \<Rightarrow> ni')"

definition iface_frames :: "NetworkInterface \<Rightarrow> iface_op \<Rightarrow> EthernetFrame list" where
  "iface_frames ni e = (case iface_event ni e of None \<Rightarrow> [] | Some (ni', frames) \<Rightarrow> frames)"

text \<open>
  What the callers respect: datagrams of version 4 for IPv4 addresses, frames whose buffers are
  owned and have no gap. A frame that carries an IPv4 datagram is one the parser can take.
\<close>

fun iface_ok :: "NetworkInterface \<Rightarrow> iface_op \<Rightarrow> bool" where
  "iface_ok ni (Send_datagram dgram next_hop) \<longleftrightarrow> ip_ver (dg_header dgram) = 4 \<and> ipv4_numeric next_hop \<noteq> None"
| "iface_ok ni (Recv_frame frame) \<longleftrightarrow> (\<forall>b \<in> set (fr_payload frame). is_owned b) \<and> no_gap (fr_payload frame)
     \<and> length (bytes_of (fr_payload frame)) < 2 ^ 64
     \<and> (eh_type (fr_header frame) = TYPE_IPv4 \<longrightarrow> parse_datagram (fr_payload frame) \<noteq> None)"
| "iface_ok ni (Elapse ms) \<longleftrightarrow> unat ms < 2 ^ 63"
| "iface_ok ni Take_received \<longleftrightarrow> True"

definition iface_inv :: "NetworkInterface \<Rightarrow> bool" where
  "iface_inv ni \<longleftrightarrow> ipv4_numeric (ni_ip_address ni) \<noteq> None
     \<and> (\<forall>(ip, d) \<in> set (ni_queue ni). ni_cache ni ip = None \<and> ni_timestamps ni ip \<noteq> None
          \<and> ip_ver (dg_header d) = 4)
     \<and> (\<forall>ip t. ni_timestamps ni ip = Some t \<longrightarrow> unat t < 5000)
     \<and> (\<forall>ip eth age. ni_cache ni ip = Some (eth, age) \<longrightarrow> unat age < 30000)"

lemma ipv4_frame_defined:
  assumes "ip_ver (dg_header d) = 4"
  shows "\<exists>f. ipv4_frame ni dst d = Some f \<and> eh_type (fr_header f) = TYPE_IPv4 \<and> eh_dst (fr_header f) = dst"
  using serialize_datagram_ok [OF assms] by (auto simp: ipv4_frame_def)

lemma arp_frame_defined:
  assumes "arp_supported m"
  shows "\<exists>f. arp_frame ni dst m = Some f \<and> eh_type (fr_header f) = TYPE_ARP \<and> eh_dst (fr_header f) = dst"
  using arp_roundtrip [OF assms] by (auto simp: arp_frame_def)

lemma arp_messages_supported [simp]:
  "arp_supported (arp_request ni own ip)" "arp_supported (arp_reply ni own m)"
  by (simp_all add: arp_supported_def arp_request_def arp_reply_def arp_message_def)

text \<open>The datagrams that wait for an address.\<close>

definition waiting :: "u32 \<Rightarrow> (u32 \<times> IPv4Datagram) list \<Rightarrow> IPv4Datagram list" where
  "waiting ip q = map snd (filter (\<lambda>(ip', d). ip' = ip) q)"

lemma waiting_simps [simp]:
  "waiting ip [] = []" "waiting ip ((ip', d) # q) = (if ip' = ip then d # waiting ip q else waiting ip q)"
  "waiting ip (q @ q') = waiting ip q @ waiting ip q'"
  by (simp_all add: waiting_def)

lemma waiting_filter: "waiting ip (filter (\<lambda>(ip', d). P ip') q) = (if P ip then waiting ip q else [])"
  by (induction q) auto

text \<open>The frames for a list of datagrams.\<close>

definition frames_for :: "NetworkInterface \<Rightarrow> EthernetAddress \<Rightarrow> IPv4Datagram list \<Rightarrow> EthernetFrame list" where
  "frames_for ni dst ds = map (\<lambda>d. the (ipv4_frame ni dst d)) ds"

lemma send_waiting_effect:
  assumes "\<forall>(ip', d) \<in> set q. ip_ver (dg_header d) = 4"
  shows "send_waiting ni ip dst q =
    Some (frames_for ni dst (map clone_datagram (waiting ip q)), filter (\<lambda>(ip', d). ip' \<noteq> ip) q)"
  using assms
proof (induction q)
  case (Cons e q)
  obtain ip' d where e: "e = (ip', d)" by (cases e)
  have "ip_ver (dg_header (clone_datagram d)) = 4" using Cons.prems by (simp add: e clone_datagram_def)
  then obtain f where "ipv4_frame ni dst (clone_datagram d) = Some f"
    using ipv4_frame_defined by blast
  then show ?case using Cons by (auto simp: e frames_for_def)
qed (simp add: frames_for_def)

section \<open>The invariant and what every event does\<close>

text \<open>What the interface does with a datagram: send it, or let it wait and ask at most once.\<close>

lemma send_cached:
  assumes "ipv4_numeric next_hop = Some ip" and "ni_cache ni ip = Some (eth, age)"
    and "ip_ver (dg_header d) = 4"
  shows "send_datagram ni d next_hop = Some (ni, frames_for ni eth [d])"
proof -
  obtain f where "ipv4_frame ni eth d = Some f" using ipv4_frame_defined [OF assms(3)] by blast
  then show ?thesis using assms(1,2) by (simp add: send_datagram_def frames_for_def)
qed

definition asking :: "NetworkInterface \<Rightarrow> u32 \<Rightarrow> bool" where
  "asking ni ip \<longleftrightarrow> (case ni_timestamps ni ip of None \<Rightarrow> False | Some t \<Rightarrow> t < 5000)"

definition request_frame :: "NetworkInterface \<Rightarrow> u32 \<Rightarrow> EthernetFrame" where
  "request_frame ni ip = the (arp_frame ni ETHERNET_BROADCAST
     (arp_request ni (the (ipv4_numeric (ni_ip_address ni))) ip))"

lemma send_unknown:
  assumes "ipv4_numeric next_hop = Some ip" and "ni_cache ni ip = None"
    and "ipv4_numeric (ni_ip_address ni) \<noteq> None"
  shows "send_datagram ni d next_hop =
    Some (ni\<lparr>ni_queue := ni_queue ni @ [(ip, clone_datagram d)],
             ni_timestamps := (if asking ni ip then ni_timestamps ni else (ni_timestamps ni)(ip \<mapsto> 0))\<rparr>,
          if asking ni ip then [] else [request_frame ni ip])"
proof -
  obtain own where own: "ipv4_numeric (ni_ip_address ni) = Some own" using assms(3) by auto
  let ?ni = "ni\<lparr>ni_queue := ni_queue ni @ [(ip, clone_datagram d)]\<rparr>"
  have same: "arp_frame ?ni = arp_frame ni" "arp_request ?ni = arp_request ni"
    by (simp_all add: arp_frame_def arp_request_def fun_eq_iff)
  obtain f where f: "arp_frame ni ETHERNET_BROADCAST (arp_request ni own ip) = Some f"
    using arp_frame_defined arp_messages_supported by blast
  have "(case ni_timestamps ni ip of None \<Rightarrow> True | Some t \<Rightarrow> t \<ge> 5000) \<longleftrightarrow> \<not> asking ni ip"
    by (auto simp: asking_def split: option.split)
  then show ?thesis
    using assms(1,2) own f
    by (simp add: send_datagram_def same request_frame_def Let_def)
qed

lemma recv_arp_effect:
  assumes "iface_inv ni" and "ni' = ni\<lparr>ni_cache := (ni_cache ni)(arp_sender_ip_address m \<mapsto>
      (arp_sender_ethernet_address m, 0)),
      ni_queue := filter (\<lambda>(ip', d). ip' \<noteq> arp_sender_ip_address m) (ni_queue ni)\<rparr>"
  shows "recv_arp ni m = Some (ni', frames_for ni (arp_sender_ethernet_address m)
        (map clone_datagram (waiting (arp_sender_ip_address m) (ni_queue ni)))
      @ (if arp_opcode m = OPCODE_REQUEST \<and> ipv4_numeric (ni_ip_address ni) = Some (arp_target_ip_address m)
         then [the (arp_frame ni (arp_sender_ethernet_address m) (arp_reply ni (arp_target_ip_address m) m))]
         else []))"
proof -
  let ?ip = "arp_sender_ip_address m" and ?eth = "arp_sender_ethernet_address m"
  let ?ni = "ni\<lparr>ni_cache := (ni_cache ni)(?ip \<mapsto> (?eth, 0))\<rparr>"
  have same: "ipv4_frame ?ni = ipv4_frame ni" "arp_frame ni' = arp_frame ni" "arp_reply ni' = arp_reply ni"
    by (simp_all add: ipv4_frame_def arp_frame_def arp_reply_def fun_eq_iff assms(2))
  have sent: "send_waiting ?ni ?ip ?eth (ni_queue ni)
      = Some (frames_for ni ?eth (map clone_datagram (waiting ?ip (ni_queue ni))),
              filter (\<lambda>(ip', d). ip' \<noteq> ?ip) (ni_queue ni))"
    using send_waiting_effect [of "ni_queue ni" ?ni ?ip ?eth] assms(1)
    by (auto simp: iface_inv_def frames_for_def same)
  obtain own where own: "ipv4_numeric (ni_ip_address ni) = Some own"
    using assms(1) by (auto simp: iface_inv_def)
  obtain f where f: "arp_frame ni ?eth (arp_reply ni own m) = Some f"
    using arp_frame_defined arp_messages_supported by blast
  have ni': "?ni\<lparr>ni_queue := filter (\<lambda>(ip', d). ip' \<noteq> ?ip) (ni_queue ni)\<rparr> = ni'"
    by (simp add: assms(2))
  have own': "ni_ip_address ni' = ni_ip_address ni" by (simp add: assms(2))
  show ?thesis
    using f own sent
    by (auto simp: recv_arp_def Let_def ni' same own' simp del: split_paired_All)
qed

text \<open>The ARP message that a frame brings this interface.\<close>

definition addressed :: "NetworkInterface \<Rightarrow> EthernetFrame \<Rightarrow> bool" where
  "addressed ni frame \<longleftrightarrow>
     eh_dst (fr_header frame) = ETHERNET_BROADCAST \<or> eh_dst (fr_header frame) = ni_ethernet_address ni"

definition arp_in :: "NetworkInterface \<Rightarrow> EthernetFrame \<Rightarrow> ARPMessage option" where
  "arp_in ni frame =
     (if addressed ni frame \<and> eh_type (fr_header frame) = TYPE_ARP
      then case parse_arp (fr_payload frame) of Some (m, True) \<Rightarrow> Some m | _ \<Rightarrow> None else None)"

definition datagram_in :: "NetworkInterface \<Rightarrow> EthernetFrame \<Rightarrow> IPv4Datagram list" where
  "datagram_in ni frame =
     (if addressed ni frame \<and> eh_type (fr_header frame) = TYPE_IPv4
      then case parse_datagram (fr_payload frame) of Some (d, True) \<Rightarrow> [clone_datagram d] | _ \<Rightarrow> [] else [])"

lemma types_differ [simp]: "TYPE_IPv4 \<noteq> TYPE_ARP" "TYPE_ARP \<noteq> TYPE_IPv4"
  by (simp_all add: TYPE_IPv4_def TYPE_ARP_def)

lemma recv_frame_effect:
  assumes "iface_ok ni (Recv_frame frame)"
  shows "recv_frame ni frame = (case arp_in ni frame of
      Some m \<Rightarrow> recv_arp ni m
    | None \<Rightarrow> Some (ni\<lparr>ni_received := ni_received ni @ datagram_in ni frame\<rparr>, []))"
proof (cases "addressed ni frame \<and> eh_type (fr_header frame) = TYPE_ARP")
  case True
  obtain p where "parser (fr_payload frame) = Some p"
    using parser_at [of "fr_payload frame"] assms by auto
  then obtain m ok where "parse_arp (fr_payload frame) = Some (m, ok)"
    using arp_parse_of_bytes assms by fastforce
  then show ?thesis
    using True by (cases ok; cases ni) (auto simp: recv_frame_def arp_in_def datagram_in_def addressed_def)
next
  case False
  then have none: "arp_in ni frame = None" by (auto simp: arp_in_def)
  show ?thesis
  proof (cases "addressed ni frame \<and> eh_type (fr_header frame) = TYPE_IPv4")
    case True
    then obtain d ok where "parse_datagram (fr_payload frame) = Some (d, ok)" using assms by auto
    then show ?thesis
      using True none by (cases ok; cases ni) (auto simp: recv_frame_def datagram_in_def addressed_def)
  next
    case other: False
    then show ?thesis
      using False none
      by (cases ni) (auto simp: recv_frame_def datagram_in_def addressed_def)
  qed
qed

lemma iface_event_defined:
  assumes "iface_inv ni" and "iface_ok ni e"
  shows "iface_event ni e \<noteq> None"
proof (cases e)
  case (Send_datagram d a)
  then obtain ip where ip: "ipv4_numeric a = Some ip" "ip_ver (dg_header d) = 4" using assms by auto
  show ?thesis
  proof (cases "ni_cache ni ip")
    case None
    then show ?thesis
      using send_unknown [OF ip(1) None, of d] assms(1) by (simp add: Send_datagram iface_inv_def)
  next
    case (Some p)
    then show ?thesis using send_cached [OF ip(1) _ ip(2)] by (cases p) (simp add: Send_datagram)
  qed
next
  case (Recv_frame f)
  then show ?thesis
    using recv_frame_effect assms recv_arp_effect [OF assms(1) refl] by (auto split: option.split)
qed simp_all

lemma age_sum:
  assumes "unat (t :: u64) < 30000" and "unat (ms :: u64) < 2 ^ 63"
  shows "unat (t + ms) = unat t + unat ms"
  using assms by (simp add: unat_word_ariths)

lemma age_timestamp_nat:
  assumes "unat t < 5000" and "unat ms < 2 ^ 63"
  shows "age_timestamp ms (Some t) = (if unat t + unat ms < 5000 then Some (t + ms) else None)"
  using age_sum [of t ms] assms by (auto simp: age_timestamp_def word_le_nat_alt)

lemma age_cache_nat:
  assumes "unat age < 30000" and "unat ms < 2 ^ 63"
  shows "age_cache ms (Some (eth, age)) = (if unat age + unat ms < 30000 then Some (eth, age + ms) else None)"
  using age_sum [of age ms] assms by (auto simp: age_cache_def word_le_nat_alt)

lemma request_expires_nat:
  assumes "iface_inv ni" and "unat ms < 2 ^ 63" and "ni_timestamps ni ip = Some t"
  shows "request_expires ni ms ip \<longleftrightarrow> \<not> unat t + unat ms < 5000"
proof -
  have "unat t < 5000" using assms by (auto simp: iface_inv_def)
  then show ?thesis
    using age_sum [of t ms] assms by (auto simp: request_expires_def word_le_nat_alt)
qed

lemma asking_inv: "iface_inv ni \<Longrightarrow> asking ni ip \<longleftrightarrow> ni_timestamps ni ip \<noteq> None"
  by (auto simp: asking_def iface_inv_def word_less_nat_alt split: option.splits)

lemma iface_send_inv:
  assumes inv: "iface_inv ni" and ok: "iface_ok ni (Send_datagram d a)"
  shows "iface_inv (iface_step ni (Send_datagram d a))"
proof -
  obtain ip where ip: "ipv4_numeric a = Some ip" and v: "ip_ver (dg_header d) = 4" using ok by auto
  show ?thesis
  proof (cases "ni_cache ni ip")
    case None
    have "ipv4_numeric (ni_ip_address ni) \<noteq> None" using inv by (simp add: iface_inv_def)
    note effect = send_unknown [OF ip None this]
    have "ip_ver (dg_header (clone_datagram d)) = 4" using v by (simp add: clone_datagram_def)
    then show ?thesis
      using inv None asking_inv [OF inv, of ip]
      by (auto simp: iface_step_def effect iface_inv_def)
  next
    case (Some p)
    then show ?thesis
      using send_cached [OF ip _ v] inv by (cases p) (simp add: iface_step_def)
  qed
qed

lemma iface_recv_inv:
  assumes inv: "iface_inv ni" and ok: "iface_ok ni (Recv_frame f)"
  shows "iface_inv (iface_step ni (Recv_frame f))"
proof (cases "arp_in ni f")
  case None
  then show ?thesis
    using inv by (simp add: iface_step_def recv_frame_effect [OF ok]) (simp add: iface_inv_def)
next
  case (Some m)
  then show ?thesis
    using inv recv_arp_effect [OF inv refl, of m]
    by (auto simp: iface_step_def recv_frame_effect [OF ok] iface_inv_def)
qed

lemma iface_tick_inv:
  assumes inv: "iface_inv ni" and ok: "iface_ok ni (Elapse ms)"
  shows "iface_inv (iface_step ni (Elapse ms))"
proof -
  have ms: "unat ms < 2 ^ 63" using ok by simp
  have ts: "age_timestamp ms (ni_timestamps ni ip) = Some t \<Longrightarrow> unat t < 5000" for ip t
    using inv ms by (cases "ni_timestamps ni ip")
      (auto simp: iface_inv_def age_timestamp_nat age_sum age_timestamp_def [of ms None] split: if_splits)
  have ca: "age_cache ms (ni_cache ni ip) = Some (eth, age) \<Longrightarrow> unat age < 30000" for ip eth age
    using inv ms by (cases "ni_cache ni ip")
      (auto simp: iface_inv_def age_cache_nat age_sum age_cache_def [of ms None] split: if_splits)
  have keep: "\<exists>t. age_timestamp ms (ni_timestamps ni ip) = Some t"
    if "(ip, d) \<in> set (ni_queue ni)" "\<not> request_expires ni ms ip" for ip d
    using inv that by (fastforce simp: iface_inv_def age_timestamp_def request_expires_def)
  have none: "ni_cache ni ip = None \<Longrightarrow> age_cache ms (ni_cache ni ip) = None" for ip
    by (simp add: age_cache_def)
  have q: "ni_cache ni ip = None \<and> ni_timestamps ni ip \<noteq> None \<and> ip_ver (dg_header d) = 4"
    if "(ip, d) \<in> set (ni_queue ni)" for ip d
    using inv that unfolding iface_inv_def by fast
  show ?thesis
    using inv unfolding iface_inv_def
    by (auto simp: iface_step_def interface_tick_def dest: ts ca q none keep)
qed

lemma iface_step_inv:
  assumes "iface_inv ni" and "iface_ok ni e"
  shows "iface_inv (iface_step ni e)"
proof (cases e)
  case Take_received
  then show ?thesis
    using assms by (auto simp: iface_step_def take_received_def iface_inv_def split: list.split)
qed (use assms iface_send_inv iface_recv_inv iface_tick_inv in \<open>simp_all only:\<close>)

section \<open>Datagrams for one next hop\<close>

definition waits :: "u32 \<Rightarrow> NetworkInterface \<Rightarrow> IPv4Datagram list" where
  "waits ip ni = waiting ip (ni_queue ni)"

text \<open>The datagrams that an event hands in for the address.\<close>

fun handed :: "u32 \<Rightarrow> NetworkInterface \<Rightarrow> iface_op \<Rightarrow> IPv4Datagram list" where
  "handed ip ni (Send_datagram d a) = (if ipv4_numeric a = Some ip then [d] else [])"
| "handed ip ni _ = []"

text \<open>
  The IPv4 frames that an event really hands to the output port. They belong to one next hop: that of
  the datagram, or the sender of the ARP message.
\<close>

definition ipv4_frames :: "NetworkInterface \<Rightarrow> iface_op \<Rightarrow> EthernetFrame list" where
  "ipv4_frames ni e = filter (\<lambda>f. eh_type (fr_header f) = TYPE_IPv4) (iface_frames ni e)"

fun hop_of :: "NetworkInterface \<Rightarrow> iface_op \<Rightarrow> u32 option" where
  "hop_of ni (Send_datagram d a) = ipv4_numeric a"
| "hop_of ni (Recv_frame f) = map_option arp_sender_ip_address (arp_in ni f)"
| "hop_of ni _ = None"

definition hop_frames :: "u32 \<Rightarrow> NetworkInterface \<Rightarrow> iface_op \<Rightarrow> EthernetFrame list" where
  "hop_frames ip ni e = (if hop_of ni e = Some ip then ipv4_frames ni e else [])"

text \<open>The waiting datagrams that leave the queue because time passes.\<close>

fun dropped :: "u32 \<Rightarrow> NetworkInterface \<Rightarrow> iface_op \<Rightarrow> IPv4Datagram list" where
  "dropped ip ni (Elapse ms) =
     take (length (waits ip ni) - length (waits ip (iface_step ni (Elapse ms)))) (waits ip ni)"
| "dropped ip ni _ = []"

text \<open>A datagram on the wire, and the contents of a frame.\<close>

definition datagram_bytes :: "IPv4Datagram \<Rightarrow> byte list" where
  "datagram_bytes d = bytes_of (the (serialize_datagram d))"

definition frame_bytes :: "EthernetFrame \<Rightarrow> byte list" where
  "frame_bytes f = bytes_of (fr_payload f)"

definition leaves :: "u32 \<Rightarrow> NetworkInterface \<Rightarrow> iface_op \<Rightarrow> byte list list" where
  "leaves ip ni e = map frame_bytes (hop_frames ip ni e) @ map datagram_bytes (dropped ip ni e)"

lemma request_frame_type [simp]: "eh_type (fr_header (request_frame ni ip)) = TYPE_ARP"
  using arp_frame_defined [OF arp_messages_supported(1), of ni ETHERNET_BROADCAST ni
      "the (ipv4_numeric (ni_ip_address ni))" ip]
  by (auto simp: request_frame_def)

lemma frames_for_type:
  assumes "\<forall>d \<in> set ds. ip_ver (dg_header d) = 4"
  shows "\<forall>f \<in> set (frames_for ni eth ds). eh_type (fr_header f) = TYPE_IPv4"
proof
  fix f assume "f \<in> set (frames_for ni eth ds)"
  then obtain d where "d \<in> set ds" "f = the (ipv4_frame ni eth d)" by (auto simp: frames_for_def)
  then show "eh_type (fr_header f) = TYPE_IPv4" using ipv4_frame_defined [of d ni eth] assms by auto
qed

lemma serialize_clone: "ip_ver (dg_header d) = 4 \<Longrightarrow>
    map_option bytes_of (serialize_datagram (clone_datagram d)) = map_option bytes_of (serialize_datagram d)"
  using serialize_datagram_ok [of d] serialize_datagram_ok [of "clone_datagram d"]
  by (auto simp: clone_datagram_def)

lemma clone_datagram_ver [simp]: "ip_ver (dg_header (clone_datagram d)) = ip_ver (dg_header d)"
  by (simp add: clone_datagram_def)

lemma datagram_bytes_clone:
  assumes "ip_ver (dg_header d) = 4"
  shows "datagram_bytes (clone_datagram d) = datagram_bytes d"
proof -
  obtain x y where "serialize_datagram d = Some x" "serialize_datagram (clone_datagram d) = Some y"
    using serialize_datagram_ok [of d] serialize_datagram_ok [of "clone_datagram d"] assms by fastforce
  then show ?thesis using serialize_clone [OF assms] by (simp add: datagram_bytes_def)
qed

text \<open>The frames for a list of datagrams: their kind, their contents and their addresses.\<close>

lemma frames_for_ok:
  assumes "\<forall>d \<in> set ds. ip_ver (dg_header d) = 4"
  shows "filter (\<lambda>f. eh_type (fr_header f) = TYPE_IPv4) (frames_for ni eth ds) = frames_for ni eth ds"
    and "map frame_bytes (frames_for ni eth ds) = map datagram_bytes ds"
    and "\<forall>f \<in> set (frames_for ni eth ds). eh_dst (fr_header f) = eth \<and> eh_src (fr_header f) = ni_ethernet_address ni"
proof -
  show "filter (\<lambda>f. eh_type (fr_header f) = TYPE_IPv4) (frames_for ni eth ds) = frames_for ni eth ds"
    using frames_for_type [OF assms] by (simp add: filter_id_conv)
  have one: "\<exists>f. ipv4_frame ni eth d = Some f \<and> frame_bytes f = datagram_bytes d \<and> eh_dst (fr_header f) = eth
      \<and> eh_src (fr_header f) = ni_ethernet_address ni" if "d \<in> set ds" for d
    using serialize_datagram_ok [of d] assms that by (auto simp: ipv4_frame_def frame_bytes_def datagram_bytes_def)
  then show "map frame_bytes (frames_for ni eth ds) = map datagram_bytes ds"
    by (auto simp: frames_for_def dest!: one)
  show "\<forall>f \<in> set (frames_for ni eth ds). eh_dst (fr_header f) = eth \<and> eh_src (fr_header f) = ni_ethernet_address ni"
    using one by (auto simp: frames_for_def dest!: one)
qed

text \<open>The IPv4 frames of every kind of event.\<close>

lemma ipv4_frames_send:
  assumes inv: "iface_inv ni" and ip: "ipv4_numeric a = Some ip" and v: "ip_ver (dg_header d) = 4"
  shows "ipv4_frames ni (Send_datagram d a) =
    (case ni_cache ni ip of None \<Rightarrow> [] | Some (eth, age) \<Rightarrow> frames_for ni eth [d])"
proof (cases "ni_cache ni ip")
  case None
  have "ipv4_numeric (ni_ip_address ni) \<noteq> None" using inv by (simp add: iface_inv_def)
  from send_unknown [OF ip None this, of d] None show ?thesis by (simp add: ipv4_frames_def iface_frames_def)
next
  case (Some p)
  obtain eth age where p: "p = (eth, age)" by (cases p)
  show ?thesis
    using send_cached [OF ip Some [unfolded p] v] frames_for_ok(1) [of "[d]" ni eth] v Some p
    by (simp add: ipv4_frames_def iface_frames_def)
qed

lemma waits_ver: "iface_inv ni \<Longrightarrow> d \<in> set (waits ip ni) \<Longrightarrow> ip_ver (dg_header d) = 4"
  by (auto simp: iface_inv_def waits_def waiting_def)

lemma ipv4_frames_recv:
  assumes inv: "iface_inv ni" and ok: "iface_ok ni (Recv_frame f)"
  shows "ipv4_frames ni (Recv_frame f) = (case arp_in ni f of None \<Rightarrow> []
    | Some m \<Rightarrow> frames_for ni (arp_sender_ethernet_address m)
        (map clone_datagram (waits (arp_sender_ip_address m) ni)))"
proof (cases "arp_in ni f")
  case None
  then show ?thesis by (simp add: ipv4_frames_def iface_frames_def recv_frame_effect [OF ok])
next
  case (Some m)
  let ?eth = "arp_sender_ethernet_address m" and ?ds = "map clone_datagram (waits (arp_sender_ip_address m) ni)"
  obtain r where r: "arp_frame ni ?eth (arp_reply ni (arp_target_ip_address m) m) = Some r"
    "eh_type (fr_header r) = TYPE_ARP"
    using arp_frame_defined arp_messages_supported by blast
  have "\<forall>d \<in> set ?ds. ip_ver (dg_header d) = 4" using waits_ver [OF inv] by auto
  note fs = frames_for_ok(1) [OF this, of ni ?eth]
  show ?thesis
    using fs by (simp add: ipv4_frames_def iface_frames_def recv_frame_effect [OF ok] Some
        recv_arp_effect [OF inv refl] waits_def r)
qed

lemma ipv4_frames_quiet [simp]: "ipv4_frames ni (Elapse ms) = []" "ipv4_frames ni Take_received = []"
  by (simp_all add: ipv4_frames_def iface_frames_def)

text \<open>A frame for a hop goes to the Ethernet address that is then known for it.\<close>

lemma hop_frame_address:
  assumes inv: "iface_inv ni" and ok: "iface_ok ni e" and f: "f \<in> set (hop_frames ip ni e)"
  shows "\<exists>age. ni_cache (iface_step ni e) ip = Some (eh_dst (fr_header f), age)
    \<and> eh_src (fr_header f) = ni_ethernet_address ni"
proof (cases e)
  case (Send_datagram d a)
  have a: "ipv4_numeric a = Some ip" and v: "ip_ver (dg_header d) = 4"
    using f ok by (auto simp: Send_datagram hop_frames_def split: if_splits)
  obtain eth age where c: "ni_cache ni ip = Some (eth, age)" "f \<in> set (frames_for ni eth [d])"
    using f ipv4_frames_send [OF inv a v] a
    by (auto simp: Send_datagram hop_frames_def split: option.splits)
  then show ?thesis
    using frames_for_ok(3) [of "[d]" ni eth] v send_cached [OF a c(1) v] by (simp add: Send_datagram iface_step_def)
next
  case (Recv_frame g)
  have ok': "iface_ok ni (Recv_frame g)" using ok by (simp add: Recv_frame)
  obtain m where m: "arp_in ni g = Some m" "arp_sender_ip_address m = ip"
    "f \<in> set (frames_for ni (arp_sender_ethernet_address m) (map clone_datagram (waits ip ni)))"
    using f ipv4_frames_recv [OF inv ok'] by (auto simp: Recv_frame hop_frames_def split: if_splits)
  have "\<forall>d \<in> set (map clone_datagram (waits ip ni)). ip_ver (dg_header d) = 4" using waits_ver [OF inv] by auto
  from frames_for_ok(3) [OF this, of ni "arp_sender_ethernet_address m"] m show ?thesis
    by (simp add: Recv_frame iface_step_def recv_frame_effect [OF ok'] recv_arp_effect [OF inv refl])
qed (use f in \<open>simp_all add: hop_frames_def\<close>)

lemma dropped_eq:
  "dropped ip ni (Elapse ms) = (if request_expires ni ms ip then waits ip ni else [])"
  using waiting_filter [of ip "\<lambda>ip'. \<not> request_expires ni ms ip'" "ni_queue ni"]
  by (simp add: iface_step_def interface_tick_def waits_def)

lemma waits_step:
  assumes inv: "iface_inv ni" and ok: "iface_ok ni e"
  shows "leaves ip ni e @ map datagram_bytes (waits ip (iface_step ni e)) =
    map datagram_bytes (waits ip ni) @ map datagram_bytes (handed ip ni e)"
proof (cases e)
  case (Send_datagram d a)
  then obtain ip' where ip': "ipv4_numeric a = Some ip'" and v: "ip_ver (dg_header d) = 4" using ok by auto
  note fs = ipv4_frames_send [OF inv ip' v]
  show ?thesis
  proof (cases "ni_cache ni ip'")
    case None
    have "ipv4_numeric (ni_ip_address ni) \<noteq> None" using inv by (simp add: iface_inv_def)
    from send_unknown [OF ip' None this] show ?thesis
      using None ip' fs by (auto simp: Send_datagram iface_step_def waits_def leaves_def hop_frames_def
          datagram_bytes_clone [OF v])
  next
    case (Some p)
    obtain eth age where p: "p = (eth, age)" by (cases p)
    have "waits ip' ni = []"
      using inv Some by (fastforce simp: iface_inv_def waits_def waiting_def filter_empty_conv)
    then show ?thesis
      using send_cached [OF ip' Some [unfolded p] v] Some ip' fs p frames_for_ok(2) [of "[d]" ni eth] v
      by (auto simp: Send_datagram iface_step_def waits_def leaves_def hop_frames_def)
  qed
next
  case (Recv_frame f)
  have ok': "iface_ok ni (Recv_frame f)" using ok by (simp add: Recv_frame)
  note fs = ipv4_frames_recv [OF inv ok']
  show ?thesis
  proof (cases "arp_in ni f")
    case None
    then show ?thesis
      using recv_frame_effect [OF ok'] by (simp add: Recv_frame iface_step_def waits_def leaves_def hop_frames_def)
  next
    case (Some m)
    have ver: "\<forall>d \<in> set (waits (arp_sender_ip_address m) ni). ip_ver (dg_header d) = 4"
      using waits_ver [OF inv] by blast
    then have "map frame_bytes (ipv4_frames ni (Recv_frame f)) =
        map datagram_bytes (waits (arp_sender_ip_address m) ni)"
      using fs frames_for_ok(2) [of "map clone_datagram (waits (arp_sender_ip_address m) ni)" ni]
      by (simp add: Some datagram_bytes_clone)
    then show ?thesis
      using recv_frame_effect [OF ok'] recv_arp_effect [OF inv refl, of m] Some
        waiting_filter [of ip "\<lambda>ip'. ip' \<noteq> arp_sender_ip_address m" "ni_queue ni"]
      by (auto simp: Recv_frame iface_step_def waits_def leaves_def hop_frames_def)
  qed
next
  case (Elapse ms)
  then show ?thesis
    using waiting_filter [of ip "\<lambda>ip'. \<not> request_expires ni ms ip'" "ni_queue ni"] dropped_eq [of ip ni ms]
    by (simp add: iface_step_def interface_tick_def waits_def leaves_def hop_frames_def del: dropped.simps)
next
  case Take_received
  then show ?thesis
    by (auto simp: iface_step_def take_received_def waits_def leaves_def hop_frames_def split: list.split)
qed

text \<open>
  The interface as a queue per next hop: what comes in for an address leaves, in order, in a
  frame or by being dropped when its request expires.
\<close>

interpretation hop: fifo iface_step iface_ok iface_inv "\<lambda>ni. map datagram_bytes (waits ip ni)"
    "\<lambda>ni e. map datagram_bytes (handed ip ni e)" "leaves ip" for ip
  by unfold_locales (simp_all only: iface_step_inv waits_step)

section \<open>Time\<close>

definition elapsed :: "iface_op list \<Rightarrow> nat" where
  "elapsed es = sum_list (map (\<lambda>e. case e of Elapse ms \<Rightarrow> unat ms | _ \<Rightarrow> 0) es)"

lemma elapsed_simps [simp]:
  "elapsed [] = 0" "elapsed (Elapse ms # es) = unat ms + elapsed es"
  "elapsed (Send_datagram d a # es) = elapsed es" "elapsed (Recv_frame f # es) = elapsed es"
  "elapsed (Take_received # es) = elapsed es"
  by (simp_all add: elapsed_def)

text \<open>An event that is not an ARP message from the address leaves its mapping to age.\<close>

definition from_other :: "u32 \<Rightarrow> NetworkInterface \<Rightarrow> iface_op \<Rightarrow> bool" where
  "from_other ip ni e \<longleftrightarrow>
     (case e of Recv_frame f \<Rightarrow> (\<forall>m. arp_in ni f = Some m \<longrightarrow> arp_sender_ip_address m \<noteq> ip) | _ \<Rightarrow> True)"

definition aged :: "nat \<Rightarrow> (EthernetAddress \<times> u64) option \<Rightarrow> (EthernetAddress \<times> u64) option" where
  "aged n entry = (case entry of None \<Rightarrow> None
     | Some (eth, age) \<Rightarrow> if unat age + n < 30000 then Some (eth, of_nat (unat age + n)) else None)"

lemma aged_0: "unat age < 30000 \<Longrightarrow> aged 0 (Some (eth, age)) = Some (eth, age)"
  by (simp add: aged_def)

lemma cache_step:
  assumes inv: "iface_inv ni" and ok: "iface_ok ni e" and other: "from_other ip ni e"
  shows "ni_cache (iface_step ni e) ip = aged (elapsed [e]) (ni_cache ni ip)"
proof -
  have age: "unat age < 30000" if "ni_cache ni ip' = Some (eth, age)" for ip' eth age
    using inv that by (auto simp: iface_inv_def)
  have same: "aged 0 (ni_cache ni ip) = ni_cache ni ip"
    using age [of ip] by (cases "ni_cache ni ip") (auto simp: aged_def)
  show ?thesis
  proof (cases e)
    case (Send_datagram d a)
    then obtain ip' where ip': "ipv4_numeric a = Some ip'" "ip_ver (dg_header d) = 4" using ok by auto
    have own: "ipv4_numeric (ni_ip_address ni) \<noteq> None" using inv by (simp add: iface_inv_def)
    show ?thesis
      using send_unknown [OF ip'(1) _ own, of d] send_cached [OF ip'(1) _ ip'(2)] same
      by (cases "ni_cache ni ip'") (auto simp: Send_datagram iface_step_def)
  next
    case (Recv_frame f)
    then show ?thesis
      using recv_frame_effect [of ni f] ok other recv_arp_effect [OF inv refl] same
      by (cases "arp_in ni f") (auto simp: iface_step_def from_other_def)
  next
    case (Elapse ms)
    have "age_cache ms (ni_cache ni ip) = aged (unat ms) (ni_cache ni ip)"
      using age [of ip] ok Elapse
      by (cases "ni_cache ni ip") (auto simp: age_cache_nat aged_def age_cache_def [of ms None])
    then show ?thesis by (simp add: Elapse iface_step_def interface_tick_def)
  next
    case Take_received
    then show ?thesis
      using same by (auto simp: iface_step_def take_received_def split: list.split)
  qed
qed

lemma aged_aged: "aged m (aged n x) = aged (n + m) x"
proof (cases x)
  case (Some p)
  obtain eth age where p: "p = (eth, age)" by (cases p)
  show ?thesis
  proof (cases "unat age + n < 30000")
    case True
    then have "unat (of_nat (unat age + n) :: u64) = unat age + n" by (intro unat_of_nat64) simp
    then show ?thesis using True by (auto simp: Some p aged_def)
  qed (auto simp: Some p aged_def)
qed (simp add: aged_def)

lemma cache_run:
  "iface_inv ni \<Longrightarrow> admissible iface_step (\<lambda>s e. iface_ok s e \<and> from_other ip s e) ni es \<Longrightarrow>
     ni_cache (run iface_step ni es) ip = aged (elapsed es) (ni_cache ni ip)"
proof (induction es arbitrary: ni)
  case Nil
  then show ?case by (cases "ni_cache ni ip") (auto simp: aged_def iface_inv_def)
next
  case (Cons e es)
  then have "ni_cache (run iface_step (iface_step ni e) es) ip
      = aged (elapsed es) (ni_cache (iface_step ni e) ip)"
    using iface_step_inv [of ni e] by auto
  also have "\<dots> = aged (elapsed [e] + elapsed es) (ni_cache ni ip)"
    using cache_step [of ni e ip] Cons.prems by (simp add: aged_aged)
  also have "elapsed [e] + elapsed es = elapsed (e # es)" by (simp add: elapsed_def)
  finally show ?case by simp
qed

section \<open>Requests\<close>

fun asks :: "u32 \<Rightarrow> NetworkInterface \<Rightarrow> iface_op \<Rightarrow> bool" where
  "asks ip ni (Send_datagram d a) \<longleftrightarrow> ipv4_numeric a = Some ip
     \<and> (\<exists>f \<in> set (iface_frames ni (Send_datagram d a)). eh_type (fr_header f) = TYPE_ARP)"
| "asks ip ni _ \<longleftrightarrow> False"

lemma asks_iff:
  assumes inv: "iface_inv ni" and ok: "iface_ok ni (Send_datagram d a)"
  shows "asks ip ni (Send_datagram d a) \<longleftrightarrow>
    ipv4_numeric a = Some ip \<and> ni_cache ni ip = None \<and> ni_timestamps ni ip = None"
proof -
  obtain ip' where ip': "ipv4_numeric a = Some ip'" and v: "ip_ver (dg_header d) = 4" using ok by auto
  have own: "ipv4_numeric (ni_ip_address ni) \<noteq> None" using inv by (simp add: iface_inv_def)
  show ?thesis
  proof (cases "ni_cache ni ip'")
    case None
    then show ?thesis
      using send_unknown [OF ip' None own, of d] asking_inv [OF inv, of ip'] ip'
      by (auto simp: iface_frames_def)
  next
    case (Some p)
    then show ?thesis
      using send_cached [OF ip' _ v] ip' frames_for_type [of "[d]" ni] v
      by (cases p) (auto simp: iface_frames_def)
  qed
qed

text \<open>A pending request ages by the time that passes, until it is 5 seconds old.\<close>

lemma timestamp_step:
  assumes inv: "iface_inv ni" and ok: "iface_ok ni e"
    and t: "ni_timestamps ni ip = Some t" "unat t + elapsed [e] < 5000"
  shows "\<exists>t'. ni_timestamps (iface_step ni e) ip = Some t' \<and> unat t' = unat t + elapsed [e]"
proof (cases e)
  case (Send_datagram d a)
  then obtain ip' where ip': "ipv4_numeric a = Some ip'" "ip_ver (dg_header d) = 4" using ok by auto
  have own: "ipv4_numeric (ni_ip_address ni) \<noteq> None" using inv by (simp add: iface_inv_def)
  show ?thesis
    using send_unknown [OF ip'(1) _ own, of d] send_cached [OF ip'(1) _ ip'(2)] t
      asking_inv [OF inv, of ip']
    by (cases "ni_cache ni ip'") (auto simp: Send_datagram iface_step_def)
next
  case (Recv_frame f)
  then show ?thesis
    using recv_frame_effect [of ni f] ok recv_arp_effect [OF inv refl] t
    by (cases "arp_in ni f") (auto simp: iface_step_def)
next
  case (Elapse ms)
  then have "unat t < 5000" "unat ms < 2 ^ 63" using t ok by auto
  then show ?thesis
    using t Elapse age_sum [of t ms]
    by (simp add: iface_step_def interface_tick_def age_timestamp_nat)
next
  case Take_received
  then show ?thesis
    using t by (auto simp: iface_step_def take_received_def split: list.split)
qed

lemma timestamp_run:
  "iface_inv ni \<Longrightarrow> admissible iface_step iface_ok ni es \<Longrightarrow> ni_timestamps ni ip = Some t \<Longrightarrow>
     unat t + elapsed es < 5000 \<Longrightarrow> ni_timestamps (run iface_step ni es) ip \<noteq> None"
proof (induction es arbitrary: ni t)
  case (Cons e es)
  have split: "elapsed (e # es) = elapsed [e] + elapsed es" by (simp add: elapsed_def)
  then obtain t' where "ni_timestamps (iface_step ni e) ip = Some t'" "unat t' = unat t + elapsed [e]"
    using timestamp_step [of ni e ip t] Cons.prems by auto
  then show ?case
    using Cons.IH [of "iface_step ni e" t'] Cons.prems iface_step_inv [of ni e] split by auto
qed simp

lemma asks_starts:
  assumes "iface_inv ni" and "iface_ok ni e" and "asks ip ni e"
  shows "ni_timestamps (iface_step ni e) ip = Some 0"
proof -
  obtain d a where e: "e = Send_datagram d a" using assms(3) by (cases e) auto
  have own: "ipv4_numeric (ni_ip_address ni) \<noteq> None" using assms(1) by (simp add: iface_inv_def)
  have a: "ipv4_numeric a = Some ip" "ni_cache ni ip = None" "ni_timestamps ni ip = None"
    using asks_iff [of ni d a ip] assms e by auto
  then show ?thesis
    using send_unknown [OF a(1,2) own, of d] asking_inv [OF assms(1), of ip]
    by (simp add: e iface_step_def)
qed

lemma requests_apart:
  assumes inv: "iface_inv ni" and run: "admissible iface_step iface_ok ni (e # es @ [e'])"
    and asks: "asks ip ni e" "asks ip (run iface_step (iface_step ni e) es) e'"
  shows "5000 \<le> elapsed es"
proof (rule ccontr)
  assume "\<not> 5000 \<le> elapsed es"
  let ?ni = "iface_step ni e"
  let ?stop = "run iface_step ?ni es"
  have ok: "iface_ok ni e" "admissible iface_step iface_ok ?ni es" "iface_ok ?stop e'"
    using run by (auto simp: admissible_append)
  have inv': "iface_inv ?ni" using iface_step_inv inv ok(1) .
  have "ni_timestamps ?stop ip \<noteq> None"
    using timestamp_run [OF inv' ok(2) asks_starts [OF inv ok(1) asks(1)]] \<open>\<not> 5000 \<le> elapsed es\<close>
    by simp
  moreover have "iface_inv ?stop" by (rule hop.run_inv [OF inv' ok(2)])
  moreover obtain d a where e': "e' = Send_datagram d a" using asks(2) by (cases e') auto
  ultimately show False
    using asks(2) ok(3) asks_iff [of ?stop d a ip] by (simp del: asks.simps iface_ok.simps)
qed

section \<open>Two interfaces on one link\<close>

lemma clone_frame_simps [simp]:
  "fr_header (clone_frame f) = fr_header f" "fr_payload (clone_frame f) = map ref_copy (fr_payload f)"
  by (simp_all add: clone_frame_def ref_copy_def ref_of_def)

text \<open>An ARP frame reaches the interface it is addressed to.\<close>

lemma arp_in_copy:
  assumes "arp_supported m" and "arp_frame ni dst m = Some f"
    and "dst = ETHERNET_BROADCAST \<or> dst = ni_ethernet_address ni'"
  shows "arp_in ni' (clone_frame f) = Some m \<and> iface_ok ni' (Recv_frame (clone_frame f))"
proof -
  obtain bufs where bufs: "serialize_arp m = Some bufs" "\<forall>b \<in> set bufs. is_owned b" "no_gap bufs"
    "bytes_of bufs = arp_bytes m" "parse_arp bufs = Some (m, True)"
    using arp_roundtrip [OF assms(1)] by blast
  have "ref_copy b = b" if "b \<in> set bufs" for b
    using bufs(2) that by (cases b) (auto simp: ref_copy_def)
  then have "map ref_copy bufs = bufs" by (simp add: map_idI)
  then show ?thesis
    using assms(2,3) bufs by (auto simp: arp_frame_def arp_in_def addressed_def)
qed

lemma datagram_in_copy:
  assumes h: "plain_header (dg_header d)" "checksum_ok (dg_header d)"
    and len: "length (bytes_of (dg_payload d)) \<le> unat (payload_length (dg_header d))"
    and f: "ipv4_frame ni dst (clone_datagram d) = Some f" and dst: "dst = ni_ethernet_address ni'"
  shows "\<exists>d'. recv_frame ni' (clone_frame f) = Some (ni'\<lparr>ni_received := ni_received ni' @ [d']\<rparr>, [])
    \<and> dg_header d' = dg_header d \<and> bytes_of (dg_payload d') = bytes_of (dg_payload d)"
proof -
  obtain bufs where bufs: "serialize_datagram (clone_datagram d) = Some bufs"
    "fr_payload f = bufs" "fr_header f = \<lparr>eh_dst = dst, eh_src = ni_ethernet_address ni, eh_type = TYPE_IPv4\<rparr>"
    using f by (auto simp: ipv4_frame_def)
  have "\<exists>d'. parse_datagram (map ref_copy bufs) = Some (d', True) \<and> dg_header d' = dg_header d
    \<and> bytes_of (dg_payload d') = bytes_of (dg_payload d)"
    using datagram_roundtrip [of "clone_datagram d", OF _ _ _ bufs(1)] h len by (auto simp: clone_datagram_def)
  then obtain d' where d': "parse_datagram (map ref_copy bufs) = Some (d', True)"
    "dg_header d' = dg_header d" "bytes_of (dg_payload d') = bytes_of (dg_payload d)" by blast
  show ?thesis
    by (rule exI [of _ "clone_datagram d'"])
      (use d' bufs dst in \<open>simp add: recv_frame_def clone_datagram_def\<close>)
qed

lemma arp_message_simps [simp]:
  "arp_sender_ip_address (arp_request ni own ip) = own"
  "arp_sender_ethernet_address (arp_request ni own ip) = ni_ethernet_address ni"
  "arp_target_ip_address (arp_request ni own ip) = ip"
  "arp_opcode (arp_request ni own ip) = OPCODE_REQUEST"
  "arp_sender_ip_address (arp_reply ni own m) = own"
  "arp_sender_ethernet_address (arp_reply ni own m) = ni_ethernet_address ni"
  "arp_opcode (arp_reply ni own m) = OPCODE_REPLY"
  by (simp_all add: arp_request_def arp_reply_def)

lemma opcodes_differ [simp]: "OPCODE_REQUEST \<noteq> OPCODE_REPLY" "OPCODE_REPLY \<noteq> OPCODE_REQUEST"
  by (simp_all add: OPCODE_REQUEST_def OPCODE_REPLY_def)

lemma resolution_delivers:
  assumes inv: "iface_inv a" "iface_inv b"
    and own: "ni_ip_address a = IPv4_address ip_a pa" "ni_ip_address b = IPv4_address ip_b pb"
    and unknown: "ni_cache a ip_b = None" "ni_timestamps a ip_b = None" "waits ip_b a = []" "waits ip_a b = []"
    and d: "plain_header (dg_header d)" "checksum_ok (dg_header d)"
      "length (bytes_of (dg_payload d)) \<le> unat (payload_length (dg_header d))"
    and hop: "ipv4_numeric next_hop = Some ip_b"
  shows "\<exists>a1 q b1 r a2 f b2 d'. send_datagram a d next_hop = Some (a1, [q])
    \<and> recv_frame b (clone_frame q) = Some (b1, [r])
    \<and> recv_frame a1 (clone_frame r) = Some (a2, [f])
    \<and> recv_frame b1 (clone_frame f) = Some (b2, [])
    \<and> ni_received b2 = ni_received b @ [d'] \<and> dg_header d' = dg_header d
    \<and> bytes_of (dg_payload d') = bytes_of (dg_payload d)
    \<and> waits ip_b a2 = [] \<and> ni_cache a2 ip_b = Some (ni_ethernet_address b, 0)
    \<and> ni_cache b2 ip_a = Some (ni_ethernet_address a, 0)"
proof -
  have v: "ip_ver (dg_header d) = 4" using d(1) by (simp add: plain_header_def)
  have na: "\<not> asking a ip_b" using asking_inv [OF inv(1)] unknown(2) by simp
  define a1 where "a1 = a\<lparr>ni_queue := ni_queue a @ [(ip_b, clone_datagram d)],
      ni_timestamps := (ni_timestamps a)(ip_b \<mapsto> 0)\<rparr>"
  have send: "send_datagram a d next_hop = Some (a1, [request_frame a ip_b])"
    using send_unknown [OF hop unknown(1)] own(1) na by (simp add: a1_def)
  have inv1: "iface_inv a1"
    using iface_step_inv [OF inv(1), of "Send_datagram d next_hop"] send v hop by (simp add: iface_step_def)
  let ?q = "arp_request a ip_a ip_b"
  obtain q where q: "arp_frame a ETHERNET_BROADCAST ?q = Some q" "request_frame a ip_b = q"
    using arp_frame_defined [OF arp_messages_supported(1), of a ETHERNET_BROADCAST a ip_a ip_b] own(1)
    by (auto simp: request_frame_def)
  have in_b: "arp_in b (clone_frame q) = Some ?q" "iface_ok b (Recv_frame (clone_frame q))"
    using arp_in_copy [OF arp_messages_supported(1) q(1), of b] by auto
  let ?r = "arp_reply b ip_b ?q"
  define b1 where "b1 = b\<lparr>ni_cache := (ni_cache b)(ip_a \<mapsto> (ni_ethernet_address a, 0)),
      ni_queue := filter (\<lambda>(ip', d). ip' \<noteq> ip_a) (ni_queue b)\<rparr>"
  obtain r where r: "arp_frame b (ni_ethernet_address a) ?r = Some r"
    using arp_frame_defined [OF arp_messages_supported(2)] by blast
  have recv_b: "recv_frame b (clone_frame q) = Some (b1, [r])"
    using recv_frame_effect [OF in_b(2)] in_b(1) recv_arp_effect [OF inv(2) refl, of ?q] own(2) unknown(4) r
    by (simp add: b1_def waits_def frames_for_def)
  have in_a: "arp_in a1 (clone_frame r) = Some ?r" "iface_ok a1 (Recv_frame (clone_frame r))"
    using arp_in_copy [OF arp_messages_supported(2) r, of a1] by (auto simp: a1_def)
  define a2 where "a2 = a1\<lparr>ni_cache := (ni_cache a1)(ip_b \<mapsto> (ni_ethernet_address b, 0)),
      ni_queue := filter (\<lambda>(ip', d). ip' \<noteq> ip_b) (ni_queue a1)\<rparr>"
  have w: "waiting ip_b (ni_queue a1) = [clone_datagram d]"
    using unknown(3) by (simp add: a1_def waits_def)
  have "ip_ver (dg_header (clone_datagram (clone_datagram d))) = 4" using v by (simp add: clone_datagram_def)
  then obtain f where f: "ipv4_frame a1 (ni_ethernet_address b) (clone_datagram (clone_datagram d)) = Some f"
    using ipv4_frame_defined by blast
  have recv_a: "recv_frame a1 (clone_frame r) = Some (a2, [f])"
    using recv_frame_effect [OF in_a(2)] in_a(1) recv_arp_effect [OF inv1 refl, of ?r] w f
    by (simp add: a2_def frames_for_def)
  obtain d' where d': "recv_frame b1 (clone_frame f) = Some (b1\<lparr>ni_received := ni_received b1 @ [d']\<rparr>, [])"
    "dg_header d' = dg_header d" "bytes_of (dg_payload d') = bytes_of (dg_payload d)"
    using datagram_in_copy [of "clone_datagram d", OF _ _ _ f, of b1] d by (auto simp: clone_datagram_def b1_def)
  have "waits ip_b a2 = []"
    using waiting_filter [of ip_b "\<lambda>ip'. ip' \<noteq> ip_b"] by (simp add: a2_def waits_def)
  then show ?thesis
    using send q(2) recv_b recv_a d' by (auto simp: a2_def b1_def)
qed

lemma iface_inv_init: "iface_inv (network_interface eth (IPv4_address ip port))"
  by (simp add: iface_inv_def network_interface_def)

lemma address_stays: "ni_ethernet_address (iface_step ni e) = ni_ethernet_address ni"
proof (cases "iface_event ni e")
  case (Some p)
  then show ?thesis
    by (cases e; cases p)
      (auto simp: iface_step_def send_datagram_def recv_frame_def recv_arp_def interface_tick_def take_received_def
        Let_def split: option.splits Option.bind_splits if_splits prod.splits list.splits)
qed (simp add: iface_step_def)

lemma address_stays_run: "ni_ethernet_address (run iface_step ni es) = ni_ethernet_address ni"
  by (induction es arbitrary: ni) (simp_all add: address_stays)

text \<open>A header with its checksum, for the examples.\<close>

definition demo_header :: IPv4Header where
  "demo_header = ipv4_header\<lparr>ip_len := 22, ip_src := 0x0a000001, ip_dst := 0x0a000002, ip_cksum := 59103\<rparr>"

lemma demo_header_ok: "compute_checksum demo_header = Some demo_header"
  by code_simp

section \<open>Properties\<close>

text \<open>
  C29: over every run of an interface with an IPv4 address, the datagrams handed in for a next
  hop leave in the order they came, each once, in an IPv4 frame on the wire with the datagram's
  bytes or, when a tick makes the request for the address five seconds old without an answer, by
  being dropped; what is left waits, and only while the address is unknown and a request for it
  is less than five seconds old. The interface emits no other IPv4 frames, and each goes from its
  own Ethernet address to the one it knows for the hop. The datagrams handed in are of version 4 with
  IPv4 addresses as next hops, the IPv4 frames that arrive are such that parsing them is defined, and
  a tick is of less than \<open>2 ^ 63\<close> ms.
\<close>
theorem interface_keeps_order:
  assumes "ni = network_interface eth (IPv4_address own port)"
    and "admissible iface_step iface_ok ni es" and "final = run iface_step ni es"
  shows "collect iface_step (\<lambda>s e. map frame_bytes (hop_frames ip s e) @ map datagram_bytes (dropped ip s e)) ni es
      @ map datagram_bytes (waits ip final) = collect iface_step (\<lambda>s e. map datagram_bytes (handed ip s e)) ni es
    \<and> (waits ip final = [] \<or> ni_cache final ip = None
        \<and> (\<exists>t. ni_timestamps final ip = Some t \<and> unat t < 5000))
    \<and> (\<forall>e. iface_ok final e \<longrightarrow>
        (ipv4_frames final e \<noteq> [] \<longrightarrow> hop_of final e \<noteq> None)
        \<and> (\<forall>f \<in> set (hop_frames ip final e). \<exists>age. ni_cache (iface_step final e) ip = Some (eh_dst (fr_header f), age)
             \<and> eh_src (fr_header f) = eth)
        \<and> (dropped ip final e \<noteq> [] \<longrightarrow> (\<exists>ms t. e = Elapse ms \<and> ni_timestamps final ip = Some t
             \<and> 5000 \<le> unat t + unat ms)))"
proof -
  have inv: "iface_inv ni" unfolding assms(1) by (rule iface_inv_init)
  have "waits ip ni = []" by (simp add: assms(1) network_interface_def waits_def)
  then have order: "collect iface_step (leaves ip) ni es @ map datagram_bytes (waits ip final)
      = collect iface_step (\<lambda>s e. map datagram_bytes (handed ip s e)) ni es"
    using hop.fifo_run [OF inv assms(2)] by (simp add: assms(3))
  have final: "iface_inv final" unfolding assms(3) by (rule hop.run_inv [OF inv assms(2)])
  have eth: "ni_ethernet_address final = eth"
    unfolding assms(3) using address_stays_run [of ni es] by (simp add: assms(1) network_interface_def)
  have hop: "hop_of final e \<noteq> None" if "iface_ok final e" "ipv4_frames final e \<noteq> []" for e
    using that ipv4_frames_recv [OF final] by (cases e) (auto split: option.splits)
  have drop: "\<exists>ms t. e = Elapse ms \<and> ni_timestamps final ip = Some t \<and> 5000 \<le> unat t + unat ms"
    if "iface_ok final e" "dropped ip final e \<noteq> []" for e
    using that request_expires_nat [OF final, of _ ip] dropped_eq
    by (cases e) (auto simp: request_expires_def simp del: dropped.simps(1) split: if_splits option.splits)
  have "waits ip final = [] \<or> ni_cache final ip = None
        \<and> (\<exists>t. ni_timestamps final ip = Some t \<and> unat t < 5000)"
    using final by (fastforce simp: iface_inv_def waits_def waiting_def filter_empty_conv)
  then show ?thesis
    using order [unfolded leaves_def] hop drop hop_frame_address [OF final, of _ _ ip] by (auto simp: eth)
qed

theorem interface_keeps_order_witness:
  "\<exists>reply. let ni = network_interface (EthernetAddress 2 0 0 0 0 1) (IPv4_address 1 0);
       asked = iface_step ni (Send_datagram ipv4_datagram (IPv4_address 2 0))
   in waits 2 asked = [clone_datagram ipv4_datagram]
      \<and> map frame_bytes (hop_frames 2 asked (Recv_frame reply)) = [datagram_bytes ipv4_datagram]
      \<and> list_all (\<lambda>f. eh_src (fr_header f) = EthernetAddress 2 0 0 0 0 1) (hop_frames 2 asked (Recv_frame reply))"
proof -
  let ?a = "network_interface (EthernetAddress 2 0 0 0 0 1) (IPv4_address 1 0)"
  let ?b = "network_interface (EthernetAddress 2 0 0 0 0 2) (IPv4_address 2 0)"
  let ?send = "Send_datagram ipv4_datagram (IPv4_address 2 0)" and ?m = "arp_request ?b 2 1"
  let ?asked = "iface_step ?a ?send"
  obtain f where f: "arp_frame ?b ETHERNET_BROADCAST ?m = Some f"
    using arp_frame_defined [OF arp_messages_supported(1)] by blast
  have arp: "arp_in ?asked (clone_frame f) = Some ?m" "iface_ok ?asked (Recv_frame (clone_frame f))"
    using arp_in_copy [OF arp_messages_supported(1) f, of ?asked] by auto
  have v: "ip_ver (dg_header ipv4_datagram) = 4" by (simp add: ipv4_datagram_def ipv4_header_def)
  have adm: "admissible iface_step iface_ok ?a [?send]" using v by simp
  have w: "waits 2 ?asked = [clone_datagram ipv4_datagram]"
    using send_unknown [of "IPv4_address 2 0" 2 ?a ipv4_datagram]
    by (simp add: iface_step_def network_interface_def waits_def)
  have inv: "iface_inv ?asked" by (rule iface_step_inv [OF iface_inv_init]) (simp add: v)
  have gone: "waits 2 (iface_step ?asked (Recv_frame (clone_frame f))) = []"
    using waiting_filter [of 2 "\<lambda>ip'. ip' \<noteq> 2" "ni_queue ?asked"]
    by (simp add: iface_step_def [of ?asked] recv_frame_effect [OF arp(2)] arp(1) recv_arp_effect [OF inv refl] waits_def)
  have here: "hop_frames 2 ?a ?send = []"
    using ipv4_frames_send [OF iface_inv_init, of "IPv4_address 2 0" 2 ipv4_datagram] v
    by (simp add: hop_frames_def network_interface_def)
  have "map frame_bytes (hop_frames 2 ?asked (Recv_frame (clone_frame f))) = [datagram_bytes ipv4_datagram]"
    using interface_keeps_order [OF refl _ refl, of "EthernetAddress 2 0 0 0 0 1" 1 0 "[?send, Recv_frame (clone_frame f)]" 2]
      v arp(2) gone here by simp
  moreover have "\<forall>g \<in> set (hop_frames 2 ?asked (Recv_frame (clone_frame f))). eh_src (fr_header g) = EthernetAddress 2 0 0 0 0 1"
    using interface_keeps_order [OF refl adm refl, of 2] arp(2) unfolding run.simps by blast
  ultimately show ?thesis using w by (intro exI [of _ "clone_frame f"]) (simp add: Let_def list_all_iff)
qed

text \<open>
  C30: between two ARP requests an interface broadcasts for the same address at least five
  seconds pass, whatever datagrams, frames and ticks come in between (datagrams of version 4 for IPv4
  next hops, frames that the parsers can take, ticks of less than \<open>2 ^ 63\<close> ms).
\<close>
theorem requests_five_seconds_apart:
  assumes "ni = network_interface eth (IPv4_address own port)"
    and "admissible iface_step iface_ok ni (before @ e # es @ [e'])"
    and "asks ip (run iface_step ni before) e"
    and "asks ip (run iface_step ni (before @ e # es)) e'"
  shows "5000 \<le> elapsed es"
proof (rule requests_apart)
  have adm: "admissible iface_step iface_ok ni before"
    using assms(2) by (simp add: admissible_append)
  show "iface_inv (run iface_step ni before)"
    by (rule hop.run_inv [OF _ adm]) (simp add: assms(1) iface_inv_init)
  show "admissible iface_step iface_ok (run iface_step ni before) (e # es @ [e'])"
    using assms(2) by (simp add: admissible_append)
  show "asks ip (run iface_step ni before) e" by (rule assms(3))
  show "asks ip (run iface_step (iface_step (run iface_step ni before) e) es) e'"
    using assms(4) by (simp add: run_append)
qed

theorem requests_five_seconds_apart_witness:
  "let ni = network_interface zero_address (IPv4_address 1 0);
       e = Send_datagram ipv4_datagram (IPv4_address 2 0); es = [Elapse 4999, Elapse 1]
   in asks 2 ni e \<and> asks 2 (run iface_step ni (e # es)) e \<and> 5000 \<le> elapsed es"
proof -
  let ?ni = "network_interface zero_address (IPv4_address 1 0)"
  let ?e = "Send_datagram ipv4_datagram (IPv4_address 2 0)"
  have v: "ip_ver (dg_header ipv4_datagram) = 4" by (simp add: ipv4_datagram_def ipv4_header_def)
  then have adm: "admissible iface_step iface_ok ?ni ([] @ ?e # [Elapse 4999, Elapse 1] @ [?e])" by simp
  have asks: "asks 2 (run iface_step ?ni []) ?e"
    using asks_iff [OF iface_inv_init [of zero_address 1 0], of ipv4_datagram "IPv4_address 2 0" 2] v
    by (simp add: network_interface_def del: asks.simps)
  have inv: "iface_inv (run iface_step ?ni [?e, Elapse 4999, Elapse 1])"
    by (rule hop.run_inv [OF iface_inv_init]) (simp add: v)
  have "ni_timestamps (iface_step ?ni ?e) 2 = Some 0"
    by (rule asks_starts [OF iface_inv_init]) (use asks v in simp_all)
  moreover have "ni_cache (iface_step ?ni ?e) 2 = None"
    using cache_step [OF iface_inv_init [of zero_address 1 0], of ?e 2] v
    by (simp add: from_other_def aged_def network_interface_def)
  ultimately have "asks 2 (run iface_step ?ni ([] @ ?e # [Elapse 4999, Elapse 1])) ?e"
    using asks_iff [OF inv, of ipv4_datagram "IPv4_address 2 0" 2] v
    by (simp add: iface_step_def interface_tick_def age_timestamp_def age_cache_def del: asks.simps)
  then show ?thesis
    using requests_five_seconds_apart [OF refl adm asks] asks unfolding Let_def append.simps run.simps by blast
qed

text \<open>
  C31: a mapping learned from an ARP message is used for thirty seconds: as long as less time
  has passed and the address has not sent another message, a datagram for it is sent at once to
  the learned Ethernet address; after thirty seconds the mapping is forgotten.
\<close>
theorem mapping_lasts_thirty_seconds:
  assumes "iface_inv ni" and "iface_ok ni (Recv_frame f)" and "arp_in ni f = Some m"
    and "ip = arp_sender_ip_address m"
    and "admissible iface_step (\<lambda>s e. iface_ok s e \<and> from_other ip s e) (iface_step ni (Recv_frame f)) es"
    and "later = run iface_step (iface_step ni (Recv_frame f)) es"
    and "ip_ver (dg_header d) = 4"
  shows "if elapsed es < 30000
    then \<exists>frame. send_datagram later d (IPv4_address ip port) = Some (later, [frame])
      \<and> eh_dst (fr_header frame) = arp_sender_ethernet_address m \<and> eh_type (fr_header frame) = TYPE_IPv4
      \<and> Some (fr_payload frame) = serialize_datagram d
    else ni_cache later ip = None"
proof -
  let ?ni = "iface_step ni (Recv_frame f)" and ?eth = "arp_sender_ethernet_address m"
  have start: "ni_cache ?ni ip = Some (?eth, 0)"
    using recv_frame_effect [OF assms(2)] recv_arp_effect [OF assms(1) refl, of m] assms(3,4)
    by (simp add: iface_step_def)
  have c: "ni_cache later ip = aged (elapsed es) (Some (?eth, 0))"
    using cache_run [OF iface_step_inv [OF assms(1,2)] assms(5)] by (simp add: assms(6) start)
  show ?thesis
  proof (cases "elapsed es < 30000")
    case True
    then have "ni_cache later ip = Some (?eth, of_nat (elapsed es))" using c by (simp add: aged_def)
    from send_cached [OF _ this assms(7)] show ?thesis
      using True ipv4_frame_defined [OF assms(7), of later ?eth]
      by (auto simp: frames_for_def ipv4_frame_def)
  next
    case False
    then show ?thesis using c by (simp add: aged_def)
  qed
qed

theorem mapping_lasts_thirty_seconds_witness:
  "\<exists>f m frame. arp_in (network_interface (EthernetAddress 2 0 0 0 0 1) (IPv4_address 1 0)) f = Some m
     \<and> send_datagram (iface_step (iface_step (network_interface (EthernetAddress 2 0 0 0 0 1) (IPv4_address 1 0))
           (Recv_frame f)) (Elapse 29999)) ipv4_datagram (IPv4_address 2 0)
       = Some (iface_step (iface_step (network_interface (EthernetAddress 2 0 0 0 0 1) (IPv4_address 1 0))
           (Recv_frame f)) (Elapse 29999), [frame])
     \<and> eh_dst (fr_header frame) = EthernetAddress 2 0 0 0 0 2"
proof -
  let ?a = "network_interface (EthernetAddress 2 0 0 0 0 1) (IPv4_address 1 0)"
  let ?b = "network_interface (EthernetAddress 2 0 0 0 0 2) (IPv4_address 2 0)"
  let ?m = "arp_request ?b 2 1"
  obtain f where f: "arp_frame ?b ETHERNET_BROADCAST ?m = Some f"
    using arp_frame_defined [OF arp_messages_supported(1)] by blast
  have arp: "arp_in ?a (clone_frame f) = Some ?m" "iface_ok ?a (Recv_frame (clone_frame f))"
    using arp_in_copy [OF arp_messages_supported(1) f, of ?a] by auto
  have v: "ip_ver (dg_header ipv4_datagram) = 4" by (simp add: ipv4_datagram_def ipv4_header_def)
  have adm: "admissible iface_step (\<lambda>s e. iface_ok s e \<and> from_other (arp_sender_ip_address ?m) s e)
      (iface_step ?a (Recv_frame (clone_frame f))) [Elapse 29999]"
    by (simp add: from_other_def)
  show ?thesis
    using mapping_lasts_thirty_seconds [OF iface_inv_init arp(2,1) refl adm refl v, of 0] arp(1)
    by (fastforce simp: network_interface_def)
qed

text \<open>
  C32: two interfaces on a link, one of which has a datagram for the other's address and does
  not know it: the request is answered, the datagram is sent to the answer's sender, and the
  other interface passes it up with its header and payload unchanged; nothing is left waiting
  and both have learned the other's address.
\<close>
theorem address_resolution_delivers:
  assumes "iface_inv a" and "iface_inv b"
    and "ni_ip_address a = IPv4_address ip_a pa" and "ni_ip_address b = IPv4_address ip_b pb"
    and "ni_cache a ip_b = None" and "ni_timestamps a ip_b = None" and "waits ip_b a = []" and "waits ip_a b = []"
    and "ip_ver (dg_header d) = 4" and "ip_hlen (dg_header d) = 5" and "unat (ip_offset (dg_header d)) < 2 ^ 13"
    and "compute_checksum (dg_header d) = Some (dg_header d)"
    and "length (bytes_of (dg_payload d)) \<le> unat (payload_length (dg_header d))"
  shows "\<exists>a1 q b1 r a2 f b2 d'. send_datagram a d (IPv4_address ip_b port) = Some (a1, [q])
    \<and> recv_frame b (clone_frame q) = Some (b1, [r])
    \<and> recv_frame a1 (clone_frame r) = Some (a2, [f])
    \<and> recv_frame b1 (clone_frame f) = Some (b2, [])
    \<and> ni_received b2 = ni_received b @ [d'] \<and> dg_header d' = dg_header d
    \<and> bytes_of (dg_payload d') = bytes_of (dg_payload d)
    \<and> waits ip_b a2 = [] \<and> ni_cache a2 ip_b = Some (ni_ethernet_address b, 0)
    \<and> ni_cache b2 ip_a = Some (ni_ethernet_address a, 0)"
  using assms by (intro resolution_delivers) (simp_all add: plain_header_def checksum_ok_def)

theorem address_resolution_delivers_witness:
  "\<exists>a1 q b1 r a2 f b2 d'.
     send_datagram (network_interface (EthernetAddress 2 0 0 0 0 1) (IPv4_address 1 0))
       \<lparr>dg_header = demo_header, dg_payload = [Owned [5, 6]]\<rparr> (IPv4_address 2 0) = Some (a1, [q])
    \<and> recv_frame (network_interface (EthernetAddress 2 0 0 0 0 2) (IPv4_address 2 0)) (clone_frame q) = Some (b1, [r])
    \<and> recv_frame a1 (clone_frame r) = Some (a2, [f])
    \<and> recv_frame b1 (clone_frame f) = Some (b2, [])
    \<and> ni_received b2 = [d'] \<and> dg_header d' = demo_header \<and> bytes_of (dg_payload d') = [5, 6]"
proof -
  let ?a = "network_interface (EthernetAddress 2 0 0 0 0 1) (IPv4_address 1 0)"
  let ?b = "network_interface (EthernetAddress 2 0 0 0 0 2) (IPv4_address 2 0)"
  let ?d = "\<lparr>dg_header = demo_header, dg_payload = [Owned [5, 6]]\<rparr>"
  have simps: "ni_ip_address ?a = IPv4_address 1 0" "ni_ip_address ?b = IPv4_address 2 0"
    "ni_cache ?a 2 = None" "ni_timestamps ?a 2 = None" "waits 2 ?a = []" "waits 1 ?b = []" "ni_received ?b = []"
    by (simp_all add: network_interface_def waits_def)
  have d: "ip_ver (dg_header ?d) = 4" "ip_hlen (dg_header ?d) = 5" "unat (ip_offset (dg_header ?d)) < 2 ^ 13"
    "compute_checksum (dg_header ?d) = Some (dg_header ?d)"
    "length (bytes_of (dg_payload ?d)) \<le> unat (payload_length (dg_header ?d))"
    using demo_header_ok
    by (simp_all add: demo_header_def ipv4_header_def IPV4_LENGTH_def payload_length_def)
  show ?thesis
    using address_resolution_delivers [OF iface_inv_init iface_inv_init simps(1-6) d] simps(7) by fastforce
qed

end
