(* ===== verification/Interface_Adapter.thy ===== *)
theory Interface_Adapter
  imports Minnow_Stack Network_Interface
begin

text \<open>
  The \<open>NetworkInterfaceAdapter\<close> of \<open>apps/endtoend.cc\<close>: TCP messages in IPv4 datagrams in Ethernet
  frames, which go over a datagram socket. It is a device of a \<open>TCPMinnowSocket\<close>, the base
  of \<open>TCPSocketEndToEnd\<close>.
\<close>

section \<open>Ethernet addresses\<close>

text \<open>The bytes are draws of the random device.\<close>

definition random_host_ethernet_address ::
    "byte \<Rightarrow> byte \<Rightarrow> byte \<Rightarrow> byte \<Rightarrow> byte \<Rightarrow> byte \<Rightarrow> EthernetAddress" where
  "random_host_ethernet_address a b c d e f = EthernetAddress (and (or a 0x02) 0xfe) b c d e f"

definition random_router_ethernet_address ::
    "byte \<Rightarrow> byte \<Rightarrow> byte \<Rightarrow> byte \<Rightarrow> byte \<Rightarrow> byte \<Rightarrow> EthernetAddress" where
  "random_router_ethernet_address a b c d e f = EthernetAddress 0x02 0 0 d e f"

text \<open>Neither is the broadcast address, and both are private unicast addresses.\<close>

fun first_byte :: "EthernetAddress \<Rightarrow> byte" where
  "first_byte (EthernetAddress a b c d e f) = a"

lemma random_addresses_private:
  "bit (first_byte (random_host_ethernet_address a b c d e f)) 1 \<and> \<not> bit (first_byte (random_host_ethernet_address a b c d e f)) 0"
  "bit (first_byte (random_router_ethernet_address a b c d e f)) 1 \<and> \<not> bit (first_byte (random_router_ethernet_address a b c d e f)) 0"
  by (simp_all add: random_host_ethernet_address_def random_router_ethernet_address_def bit_and_iff bit_or_iff
      bit_numeral_rec)

lemma random_addresses_unicast:
  "random_host_ethernet_address a b c d e f \<noteq> ETHERNET_BROADCAST"
  "random_router_ethernet_address a b c d e f \<noteq> ETHERNET_BROADCAST"
proof -
  have "bit (first_byte ETHERNET_BROADCAST) 0" by (simp add: ETHERNET_BROADCAST_def)
  then show "random_host_ethernet_address a b c d e f \<noteq> ETHERNET_BROADCAST"
    "random_router_ethernet_address a b c d e f \<noteq> ETHERNET_BROADCAST"
    using random_addresses_private by metis+
qed

section \<open>The adapter\<close>

text \<open>The four buffers of a read: for the three headers, and one that \<open>read\<close> sizes.\<close>

definition frame_buffers :: "byte list list" where
  "frame_buffers = [replicate 14 0, replicate (unat IPV4_LENGTH) 0, replicate (unat TCP_HEADER_LENGTH) 0, []]"

definition maybe_receive_frame ::
    "(nat list \<Rightarrow> byte list syscall) \<Rightarrow> FDWrapper \<Rightarrow> (FDWrapper \<times> EthernetFrame option) option" where
  "maybe_receive_frame sys_readv fd =
     do { (fd, strs) \<leftarrow> fd_read_vector sys_readv frame_buffers fd;
          (frame, ok) \<leftarrow> parse_frame (map ref_of strs);
          Some (fd, if ok then Some frame else None) }"

record InterfaceAdapter =
  na_adapter :: FdAdapter
  na_interface :: NetworkInterface
  na_next_hop :: Address
  na_fd :: FDWrapper

definition interface_adapter :: "EthernetAddress \<Rightarrow> Address \<Rightarrow> Address \<Rightarrow> FDWrapper \<Rightarrow> InterfaceAdapter" where
  "interface_adapter ethernet_address ip_address next_hop fd =
     \<lparr>na_adapter = fd_adapter, na_interface = network_interface ethernet_address ip_address,
      na_next_hop = next_hop, na_fd = fd\<rparr>"

text \<open>\<open>transmit\<close>, over the frames of one call of the interface.\<close>

fun transmit :: "InterfaceAdapter Kernel \<Rightarrow> EthernetFrame list \<Rightarrow> InterfaceAdapter World \<Rightarrow> InterfaceAdapter World option" where
  "transmit k [] w = Some w"
| "transmit k (x # xs) w =
     do { (fd, n) \<leftarrow> fd_write_refs (kn_dev_writev k w) (serialize_frame x) (na_fd (wo_adapter w));
          transmit k xs (called (on_device (\<lambda>a. a\<lparr>na_fd := fd\<rparr>) w)) }"

definition adapter_read ::
    "InterfaceAdapter Kernel \<Rightarrow> InterfaceAdapter World \<Rightarrow> (InterfaceAdapter World \<times> TCPMessage option) option" where
  "adapter_read k w =
     do { (fd, frame_opt) \<leftarrow> maybe_receive_frame (kn_readv k w) (na_fd (wo_adapter w));
          w \<leftarrow> Some (called (on_device (\<lambda>a. a\<lparr>na_fd := fd\<rparr>) w));
          (case frame_opt of
             None \<Rightarrow> Some (w, None)
           | Some frame \<Rightarrow>
               do { (ni, frames) \<leftarrow> recv_frame (na_interface (wo_adapter w)) frame;
                    w \<leftarrow> transmit k frames (on_device (\<lambda>a. a\<lparr>na_interface := ni\<rparr>) w);
                    (case take_received (na_interface (wo_adapter w)) of
                       None \<Rightarrow> Some (w, None)
                     | Some (dgram, ni) \<Rightarrow>
                         do { (fd, msg) \<leftarrow> unwrap_tcp_in_ip (na_adapter (wo_adapter w)) dgram;
                              Some (on_device (\<lambda>a. a\<lparr>na_interface := ni, na_adapter := fd\<rparr>) w, msg) }) }) }"

definition adapter_write ::
    "InterfaceAdapter Kernel \<Rightarrow> TCPMessage \<Rightarrow> InterfaceAdapter World \<Rightarrow> InterfaceAdapter World option" where
  "adapter_write k msg w =
     do { dgram \<leftarrow> wrap_tcp_in_ip (na_adapter (wo_adapter w)) msg;
          (ni, frames) \<leftarrow> send_datagram (na_interface (wo_adapter w)) dgram (na_next_hop (wo_adapter w));
          transmit k frames (on_device (\<lambda>a. a\<lparr>na_interface := ni\<rparr>) w) }"

definition adapter_tick :: "u64 \<Rightarrow> InterfaceAdapter \<Rightarrow> InterfaceAdapter" where
  "adapter_tick ms_since_last_tick a = a\<lparr>na_interface := interface_tick (na_interface a) ms_since_last_tick\<rparr>"

definition on_na :: "(FdAdapter \<Rightarrow> FdAdapter) \<Rightarrow> InterfaceAdapter \<Rightarrow> InterfaceAdapter" where
  "on_na f a = a\<lparr>na_adapter := f (na_adapter a)\<rparr>"

definition interface_system :: "InterfaceAdapter Kernel \<Rightarrow> InterfaceAdapter World System" where
  "interface_system k = socket_world (adapter_read k) (adapter_write k) adapter_tick na_fd on_na k"

section \<open>Sockets on the adapter\<close>

lemma transmit_log: "transmit k frames w = Some w' \<Longrightarrow> wo_log w' = wo_log w"
  by (induction k frames w rule: transmit.induct) (auto split: Option.bind_splits)

interpretation link: device "adapter_read k" "adapter_write k" for k
proof
  show "wo_log w' = wo_log w" if "adapter_read k w = Some (w', m)" for w w' m
    using that by (auto simp: adapter_read_def dest!: transmit_log split: Option.bind_splits option.splits)
  show "wo_log w' = wo_log w" if "adapter_write k msg w = Some w'" for msg w w'
    using that by (auto simp: adapter_write_def dest!: transmit_log split: Option.bind_splits)
qed

interpretation links: socket_pair "interface_system k_a" "interface_system k_b" wo_log for k_a k_b
  unfolding interface_system_def socket_pair_def using link.socket_system_axioms by blast

text \<open>What \<open>sockets_deliver\<close> says of two sockets on TUN devices holds for two of these.\<close>

lemma endtoend_sockets_deliver:
  assumes "opened (interface_system k_a) wo_log cfg_a sta" and "opened (interface_system k_b) wo_log cfg_b stb"
    and "(net_step (interface_system k_a) (interface_system k_b) wo_log)\<^sup>*\<^sup>* (sta, stb) ((ea, sa), (eb, sb))"
    and "unat (cfg_recv_capacity cfg_b) < 2 ^ 63"
    and "length (lg_from_app (wo_log (ms_system sa))) + 3 < 2 ^ 31"
  shows "prefix (lg_to_app (wo_log (ms_system sb))) (lg_from_app (wo_log (ms_system sa)))"
  using links.linked_delivers(1) [OF links.linked_steps [OF assms(3) links.linked_init [OF assms(1,2)]] assms(4,5)] .

end
