(* ===== verification/Router.thy ===== *)
theory Router
  imports Network_Interface "HOL-Library.Multiset"
begin

text \<open>
  \<open>src/router.hh\<close> and \<open>src/router.cc\<close>: a table of routes, sorted by prefix length, and
  the forwarding of every received datagram by the first route that matches. The router's
  interfaces are distinct objects here. \<open>std::sort\<close> is an argument of the model: it leaves
  open how routes of the same length are ordered. \<open>None\<close> is an exception (an interface
  number out of range, an address or datagram the interface cannot take) or the undefined shift
  by a negative number for a prefix longer than 32 bits.
\<close>

unbundle bit_operations_syntax

record Route =
  rt_prefix :: u32
  rt_length :: u8
  rt_next_hop :: "Address option"
  rt_interface :: u64

record Router =
  ro_interfaces :: "NetworkInterface list"
  ro_routes :: "Route list"

definition router :: Router where
  "router = \<lparr>ro_interfaces = [], ro_routes = []\<rparr>"

definition add_interface :: "NetworkInterface \<Rightarrow> Router \<Rightarrow> u64 \<times> Router" where
  "add_interface ni r =
     (let r = r\<lparr>ro_interfaces := ro_interfaces r @ [ni]\<rparr> in (vsize (ro_interfaces r) - 1, r))"

definition router_interface :: "Router \<Rightarrow> u64 \<Rightarrow> NetworkInterface option" where
  "router_interface r n =
     (if unat n < length (ro_interfaces r) then Some (ro_interfaces r ! unat n) else None)"

definition add_route ::
    "(Route list \<Rightarrow> Route list) \<Rightarrow> u32 \<Rightarrow> u8 \<Rightarrow> Address option \<Rightarrow> u64 \<Rightarrow> Router \<Rightarrow> Router" where
  "add_route sorted_by_length route_prefix prefix_length next_hop interface_num r =
     r\<lparr>ro_routes := sorted_by_length (ro_routes r @
         [\<lparr>rt_prefix = route_prefix, rt_length = prefix_length, rt_next_hop = next_hop,
           rt_interface = interface_num\<rparr>])\<rparr>"

text \<open>The loop over the bits, from bit \<open>i\<close> down, with \<open>n\<close> rounds to go.\<close>

fun prefix_loop :: "nat \<Rightarrow> int \<Rightarrow> u32 \<Rightarrow> u32 \<Rightarrow> bool option" where
  "prefix_loop 0 i prefix dst = Some True"
| "prefix_loop (Suc n) i prefix dst =
     (if i < 0 then None
      else if drop_bit (nat i) prefix AND 1 \<noteq> drop_bit (nat i) dst AND 1 then Some False
      else prefix_loop n (i - 1) prefix dst)"

definition route_matches :: "Route \<Rightarrow> u32 \<Rightarrow> bool option" where
  "route_matches route dst =
     (if rt_length route = 0 then Some True
      else prefix_loop (unat (rt_length route)) 31 (rt_prefix route) dst)"

fun find_match :: "Route list \<Rightarrow> u32 \<Rightarrow> Route option option" where
  "find_match [] dst = Some None"
| "find_match (route # routes) dst =
     do { has_route_match \<leftarrow> route_matches route dst;
          (if has_route_match then Some (Some route) else find_match routes dst) }"

text \<open>The body of the loop over a queue: the datagram was popped.\<close>

definition route_datagram ::
    "Router \<Rightarrow> IPv4Datagram \<Rightarrow> (Router \<times> (nat \<times> EthernetFrame) list) option" where
  "route_datagram r datagram =
     (let h = dg_header datagram
      in if ip_ttl h \<le> 1 then Some (r, [])
         else do {
           h \<leftarrow> compute_checksum (h\<lparr>ip_ttl := ip_ttl h - 1\<rparr>);
           match \<leftarrow> find_match (ro_routes r) (ip_dst h);
           (case match of
              None \<Rightarrow> Some (r, [])
            | Some route \<Rightarrow>
                do { ni \<leftarrow> router_interface r (rt_interface route);
                     (ni, frames) \<leftarrow> send_datagram ni (datagram\<lparr>dg_header := h\<rparr>)
                       (case rt_next_hop route of Some a \<Rightarrow> a | None \<Rightarrow> from_ipv4_numeric (ip_dst h));
                     Some (r\<lparr>ro_interfaces := (ro_interfaces r)[unat (rt_interface route) := ni]\<rparr>,
                           map (Pair (unat (rt_interface route))) frames) }) })"

text \<open>
  The loop over the queue of interface \<open>k\<close>, with \<open>n\<close> rounds allowed: the length of the
  queue at the start, which routing never makes longer.
\<close>

fun route_queue ::
    "nat \<Rightarrow> nat \<Rightarrow> Router \<Rightarrow> (Router \<times> (nat \<times> EthernetFrame) list) option" where
  "route_queue 0 k r = Some (r, [])"
| "route_queue (Suc n) k r =
     (case take_received (ro_interfaces r ! k) of
        None \<Rightarrow> Some (r, [])
      | Some (d, ni) \<Rightarrow>
          do { (r, out) \<leftarrow> route_datagram (r\<lparr>ro_interfaces := (ro_interfaces r)[k := ni]\<rparr>) (clone_datagram d);
               (r, out') \<leftarrow> route_queue n k r;
               Some (r, out @ out') })"

fun route_interfaces ::
    "nat list \<Rightarrow> Router \<Rightarrow> (Router \<times> (nat \<times> EthernetFrame) list) option" where
  "route_interfaces [] r = Some (r, [])"
| "route_interfaces (k # ks) r =
     do { (r, out) \<leftarrow> route_queue (length (ni_received (ro_interfaces r ! k))) k r;
          (r, out') \<leftarrow> route_interfaces ks r;
          Some (r, out @ out') }"

definition router_route :: "Router \<Rightarrow> (Router \<times> (nat \<times> EthernetFrame) list) option" where
  "router_route r =
     (if ro_routes r = [] then Some (r, [])
      else route_interfaces [0..<length (ro_interfaces r)] r)"

section \<open>The table\<close>

text \<open>What \<open>std::sort\<close> with the comparison of \<open>add_route\<close> guarantees.\<close>

locale sorts_routes =
  fixes sorted_by_length :: "Route list \<Rightarrow> Route list"
  assumes same_routes: "mset (sorted_by_length rs) = mset rs"
    and longest_first: "sorted_wrt (\<lambda>a b. rt_length a \<ge> rt_length b) (sorted_by_length rs)"
begin

lemma add_route_table:
  "set (ro_routes (add_route sorted_by_length p n a i r))
     = insert \<lparr>rt_prefix = p, rt_length = n, rt_next_hop = a, rt_interface = i\<rparr> (set (ro_routes r))"
  "sorted_wrt (\<lambda>a b. rt_length a \<ge> rt_length b) (ro_routes (add_route sorted_by_length p n a i r))"
proof -
  have "set (sorted_by_length rs) = set rs" for rs
    using same_routes by (metis set_mset_mset)
  then show "set (ro_routes (add_route sorted_by_length p n a i r))
     = insert \<lparr>rt_prefix = p, rt_length = n, rt_next_hop = a, rt_interface = i\<rparr> (set (ro_routes r))"
    by (simp add: add_route_def)
qed (simp add: add_route_def longest_first)

end

text \<open>A table built by calls of \<open>add_route\<close>.\<close>

definition table_of ::
    "(Route list \<Rightarrow> Route list) \<Rightarrow> (u32 \<times> u8 \<times> Address option \<times> u64) list \<Rightarrow> Router \<Rightarrow> Router" where
  "table_of srt entries r = fold (\<lambda>(p, n, a, i). add_route srt p n a i) entries r"

definition entry_route :: "u32 \<times> u8 \<times> Address option \<times> u64 \<Rightarrow> Route" where
  "entry_route = (\<lambda>(p, n, a, i). \<lparr>rt_prefix = p, rt_length = n, rt_next_hop = a, rt_interface = i\<rparr>)"

context sorts_routes begin

lemma table_routes: "set (ro_routes (table_of sorted_by_length es r)) = set (ro_routes r) \<union> entry_route ` set es"
  by (induction es arbitrary: r) (auto simp: table_of_def add_route_table entry_route_def)

lemma table_sorted:
  "sorted_wrt (\<lambda>a b. rt_length a \<ge> rt_length b) (ro_routes r) \<Longrightarrow>
     sorted_wrt (\<lambda>a b. rt_length a \<ge> rt_length b) (ro_routes (table_of sorted_by_length es r))"
  by (induction es arbitrary: r) (auto simp: table_of_def add_route_table)

end

text \<open>Insertion by length as an instance.\<close>

definition sort_routes :: "Route list \<Rightarrow> Route list" where
  "sort_routes rs = sort_key (\<lambda>r. 255 - unat (rt_length r)) rs"

interpretation insertion: sorts_routes sort_routes
proof
  fix rs
  show "mset (sort_routes rs) = mset rs" by (simp add: sort_routes_def)
  have "sorted_wrt (\<lambda>a b. 255 - unat (rt_length a) \<le> 255 - unat (rt_length b)) (sort_routes rs)"
    using sorted_sort_key [of "\<lambda>r. 255 - unat (rt_length r)" rs] by (simp add: sorted_map sort_routes_def)
  then show "sorted_wrt (\<lambda>a b. rt_length a \<ge> rt_length b) (sort_routes rs)"
  proof (rule sorted_wrt_mono_rel [rotated])
    fix a b :: Route
    assume "255 - unat (rt_length a) \<le> 255 - unat (rt_length b)"
    then show "rt_length a \<ge> rt_length b"
      using u8_bound [of "rt_length a"] u8_bound [of "rt_length b"] by (simp add: word_le_nat_alt)
  qed
qed

section \<open>Longest prefix match\<close>

text \<open>The high bits of two addresses agree.\<close>

definition covers :: "Route \<Rightarrow> u32 \<Rightarrow> bool" where
  "covers route dst \<longleftrightarrow>
     drop_bit (32 - unat (rt_length route)) (rt_prefix route) = drop_bit (32 - unat (rt_length route)) dst"

lemma and_1_bit: "(drop_bit n x AND 1 \<noteq> drop_bit n y AND 1) \<longleftrightarrow> bit x n \<noteq> bit (y :: u32) n"
  by (simp add: and_one_eq mod_2_eq_odd bit_iff_odd_drop_bit split: if_splits)

lemma prefix_loop_bits:
  "n \<le> Suc m \<Longrightarrow> prefix_loop n (int m) prefix dst
     = Some (\<forall>j. Suc m - n \<le> j \<and> j \<le> m \<longrightarrow> bit prefix j = bit dst j)"
proof (induction n arbitrary: m)
  case (Suc n)
  show ?case
  proof (cases "bit prefix m = bit dst m")
    case True
    show ?thesis
    proof (cases m)
      case 0
      then have "n = 0" using Suc.prems by simp
      then show ?thesis using True 0 and_1_bit [of 0 prefix dst] by auto
    next
      case (Suc m')
      have "prefix_loop n (int m') prefix dst
          = Some (\<forall>j. Suc m' - n \<le> j \<and> j \<le> m' \<longrightarrow> bit prefix j = bit dst j)"
        using Suc.IH [of m'] Suc.prems Suc by simp
      moreover have "(\<forall>j. Suc m' - n \<le> j \<and> j \<le> m' \<longrightarrow> bit prefix j = bit dst j)
          \<longleftrightarrow> (\<forall>j. Suc m' - n \<le> j \<and> j \<le> m \<longrightarrow> bit prefix j = bit dst j)"
        using True Suc by (metis le_Suc_eq)
      moreover have "int m - 1 = int m'" "Suc m - Suc n = Suc m' - n" using Suc by simp_all
      ultimately show ?thesis using True and_1_bit [of m prefix dst] by simp
    qed
  next
    case False
    moreover have "Suc m - Suc n \<le> m" by simp
    ultimately have no: "(\<forall>j. Suc m - Suc n \<le> j \<and> j \<le> m \<longrightarrow> bit prefix j = bit dst j) = False"
      by blast
    have "prefix_loop (Suc n) (int m) prefix dst = Some False"
      using and_1_bit [of m prefix dst] False by simp
    then show ?thesis by (simp only: no)
  qed
qed auto

lemma route_matches_covers:
  assumes "unat (rt_length route) \<le> 32"
  shows "route_matches route dst = Some (covers route dst)"
proof (cases "rt_length route = 0")
  case True
  have "drop_bit 32 x = (0 :: u32)" for x by (rule bit_word_eqI) (simp add: bit_drop_bit_eq)
  then show ?thesis using True by (simp add: route_matches_def covers_def)
next
  case False
  let ?n = "unat (rt_length route)"
  have "prefix_loop ?n 31 (rt_prefix route) dst
      = Some (\<forall>j. 32 - ?n \<le> j \<and> j \<le> 31 \<longrightarrow> bit (rt_prefix route) j = bit dst j)"
    using prefix_loop_bits [of ?n 31] assms by simp
  moreover have "(\<forall>j. 32 - ?n \<le> j \<and> j \<le> 31 \<longrightarrow> bit (rt_prefix route) j = bit dst j) \<longleftrightarrow> covers route dst"
  proof
    assume all: "\<forall>j. 32 - ?n \<le> j \<and> j \<le> 31 \<longrightarrow> bit (rt_prefix route) j = bit dst j"
    show "covers route dst"
      unfolding covers_def
    proof (rule bit_word_eqI)
      fix j assume "j < LENGTH(32)"
      show "bit (drop_bit (32 - ?n) (rt_prefix route)) j = bit (drop_bit (32 - ?n) dst) j"
      proof (cases "32 - ?n + j \<le> 31")
        case True
        then show ?thesis using all by (simp only: bit_drop_bit_eq comp_def) simp
      next
        case False
        then have "\<not> bit (rt_prefix route) (32 - ?n + j)" "\<not> bit dst (32 - ?n + j)"
          using bit_imp_le_length [of "rt_prefix route" "32 - ?n + j"]
            bit_imp_le_length [of dst "32 - ?n + j"] by auto
        then show ?thesis by (simp only: bit_drop_bit_eq comp_def)
      qed
    qed
  next
    assume c: "covers route dst"
    show "\<forall>j. 32 - ?n \<le> j \<and> j \<le> 31 \<longrightarrow> bit (rt_prefix route) j = bit dst j"
    proof (intro allI impI)
      fix j assume j: "32 - ?n \<le> j \<and> j \<le> 31"
      have "bit (drop_bit (32 - ?n) (rt_prefix route)) (j - (32 - ?n)) = bit (drop_bit (32 - ?n) dst) (j - (32 - ?n))"
        using c by (simp only: covers_def)
      then show "bit (rt_prefix route) j = bit dst j"
        using j by (simp only: bit_drop_bit_eq comp_def le_add_diff_inverse)
    qed
  qed
  ultimately show ?thesis using False by (simp add: route_matches_def)
qed

lemma find_match_find:
  assumes "\<forall>r \<in> set routes. unat (rt_length r) \<le> 32"
  shows "find_match routes dst = Some (find (\<lambda>r. covers r dst) routes)"
  using assms by (induction routes) (auto simp: route_matches_covers)

text \<open>On a sorted table the first match is a longest one.\<close>

lemma find_longest:
  assumes "sorted_wrt (\<lambda>a b. rt_length a \<ge> rt_length b) routes"
    and "find (\<lambda>r. covers r dst) routes = Some route"
  shows "route \<in> set routes \<and> covers route dst
    \<and> (\<forall>r \<in> set routes. covers r dst \<longrightarrow> rt_length r \<le> rt_length route)"
  using assms by (induction routes) (auto split: if_splits)

lemma find_none: "find (\<lambda>r. covers r dst) routes = None \<longleftrightarrow> \<not> (\<exists>r \<in> set routes. covers r dst)"
  by (induction routes) auto

section \<open>Forwarding\<close>

text \<open>What is to be sent for a datagram: the interface, the new datagram and the next hop.\<close>

definition decisions :: "Route list \<Rightarrow> IPv4Datagram \<Rightarrow> (nat \<times> IPv4Datagram \<times> Address) list" where
  "decisions routes d =
     (if ip_ttl (dg_header d) \<le> 1 then []
      else case find (\<lambda>r. covers r (ip_dst (dg_header d))) routes of
             None \<Rightarrow> []
           | Some route \<Rightarrow>
               [(unat (rt_interface route),
                 (clone_datagram d)\<lparr>dg_header :=
                    the (compute_checksum ((dg_header d)\<lparr>ip_ttl := ip_ttl (dg_header d) - 1\<rparr>))\<rparr>,
                 case rt_next_hop route of Some a \<Rightarrow> a
                 | None \<Rightarrow> from_ipv4_numeric (ip_dst (dg_header d)))])"

text \<open>Handing the decisions to the interfaces, one after the other.\<close>

fun forward ::
    "(nat \<times> IPv4Datagram \<times> Address) list \<Rightarrow> NetworkInterface list
       \<Rightarrow> (NetworkInterface list \<times> (nat \<times> EthernetFrame) list) option" where
  "forward [] nis = Some (nis, [])"
| "forward ((n, d, a) # ds) nis =
     (if n < length nis
      then do { (ni, frames) \<leftarrow> send_datagram (nis ! n) d a;
                (nis, out) \<leftarrow> forward ds (nis[n := ni]);
                Some (nis, map (Pair n) frames @ out) }
      else None)"

lemma forward_append:
  "forward (ds @ ds') nis =
     do { (nis, out) \<leftarrow> forward ds nis; (nis, out') \<leftarrow> forward ds' nis; Some (nis, out @ out') }"
proof (induction ds nis rule: forward.induct)
  case (1 nis)
  show ?case by (cases "forward ds' nis") auto
next
  case (2 n d a ds nis)
  show ?case
  proof (cases "n < length nis \<and> send_datagram (nis ! n) d a \<noteq> None")
    case True
    then obtain ni frames where "send_datagram (nis ! n) d a = Some (ni, frames)" by auto
    with True 2 show ?thesis by (cases "forward ds (nis[n := ni])") (auto split: bind_split)
  next
    case False
    then show ?thesis by (cases "send_datagram (nis ! n) d a") auto
  qed
qed

text \<open>Sending does not look at the datagrams received.\<close>

definition with_received :: "IPv4Datagram list \<Rightarrow> NetworkInterface \<Rightarrow> NetworkInterface" where
  "with_received ds ni = ni\<lparr>ni_received := ds\<rparr>"

lemma with_received_simps [simp]:
  "ni_received (with_received ds ni) = ds" "with_received (ni_received ni) ni = ni"
  "with_received ds (with_received ds' ni) = with_received ds ni"
  by (simp_all add: with_received_def)

lemma send_with_received:
  "send_datagram (with_received ds ni) d a
     = map_option (\<lambda>(ni', frames). (with_received ds ni', frames)) (send_datagram ni d a)"
proof (cases "ipv4_numeric a")
  case (Some ip)
  have fields: "ni_cache (with_received ds ni) = ni_cache ni" "ni_timestamps (with_received ds ni) = ni_timestamps ni"
    "ni_queue (with_received ds ni) = ni_queue ni" "ni_ip_address (with_received ds ni) = ni_ip_address ni"
    "ni_ethernet_address (with_received ds ni) = ni_ethernet_address ni"
    by (simp_all add: with_received_def)
  show ?thesis
  proof (cases "ni_cache ni ip")
    case (Some p)
    then show ?thesis
      using \<open>ipv4_numeric a = Some ip\<close>
      by (cases p; cases "serialize_datagram d") (simp_all add: send_datagram_def fields ipv4_frame_def)
  next
    case None
    let ?w = "with_received ds ni\<lparr>ni_queue := ni_queue ni @ [(ip, clone_datagram d)]\<rparr>"
    let ?n = "ni\<lparr>ni_queue := ni_queue ni @ [(ip, clone_datagram d)]\<rparr>"
    have same: "arp_frame ?w = arp_frame ni" "arp_frame ?n = arp_frame ni"
      "arp_request ?w = arp_request ni" "arp_request ?n = arp_request ni"
      by (simp_all add: arp_frame_def arp_request_def fun_eq_iff fields)
    have upd: "?w = with_received ds ?n" "?w\<lparr>ni_timestamps := t\<rparr> = with_received ds (?n\<lparr>ni_timestamps := t\<rparr>)" for t
      by (simp_all add: with_received_def)
    show ?thesis
    proof (cases "ipv4_numeric (ni_ip_address ni)")
      case None
      then show ?thesis
        using \<open>ipv4_numeric a = Some ip\<close> \<open>ni_cache ni ip = None\<close>
        by (simp add: send_datagram_def fields Let_def) (simp add: upd)
    next
      case (Some own)
      then show ?thesis
        using \<open>ipv4_numeric a = Some ip\<close> \<open>ni_cache ni ip = None\<close>
        by (cases "arp_frame ni ETHERNET_BROADCAST (arp_request ni own ip)")
           (simp_all add: send_datagram_def fields same Let_def, simp_all add: with_received_def)
    qed
  qed
qed (simp add: send_datagram_def)

lemma forward_length: "forward ds nis = Some (nis', out) \<Longrightarrow> length nis' = length nis"
proof (induction ds arbitrary: nis nis' out)
  case (Cons e ds)
  obtain n d a where e: "e = (n, d, a)" by (cases e)
  obtain ni frames where n: "n < length nis" "send_datagram (nis ! n) d a = Some (ni, frames)"
    using Cons.prems e by (cases "n < length nis"; cases "send_datagram (nis ! n) d a") auto
  then obtain out' where "forward ds (nis[n := ni]) = Some (nis', out')"
    using Cons.prems e by (cases "forward ds (nis[n := ni])") auto
  from Cons.IH [OF this] show ?case by simp
qed simp

text \<open>Forwarding on interfaces whose received datagrams are something else.\<close>

definition swap_received :: "IPv4Datagram list list \<Rightarrow> NetworkInterface list \<Rightarrow> NetworkInterface list" where
  "swap_received dss nis = map2 with_received dss nis"

lemma swap_received_simps [simp]:
  "length dss = length nis \<Longrightarrow> length (swap_received dss nis) = length nis"
  "length dss = length nis \<Longrightarrow> n < length nis \<Longrightarrow> swap_received dss nis ! n = with_received (dss ! n) (nis ! n)"
  by (simp_all add: swap_received_def)

lemma swap_received_update:
  assumes "length dss = length nis" and "n < length nis"
  shows "(swap_received dss nis)[n := with_received (dss ! n) ni] = swap_received dss (nis[n := ni])"
  by (rule nth_equalityI) (use assms in \<open>auto simp: nth_list_update\<close>)

lemma forward_swap:
  assumes "length dss = length nis"
  shows "forward ds (swap_received dss nis)
    = map_option (\<lambda>(nis', out). (swap_received dss nis', out)) (forward ds nis)"
  using assms
proof (induction ds nis rule: forward.induct)
  case (2 n d a ds nis)
  show ?case
  proof (cases "n < length nis")
    case True
    show ?thesis
    proof (cases "send_datagram (nis ! n) d a")
      case None
      then show ?thesis using True 2 by (simp add: send_with_received)
    next
      case (Some p)
      obtain ni frames where p: "p = (ni, frames)" by (cases p)
      have "forward ds (swap_received dss (nis[n := ni]))
          = map_option (\<lambda>(nis', out). (swap_received dss nis', out)) (forward ds (nis[n := ni]))"
        using 2 True Some p by simp
      then show ?thesis
        using True Some 2 p swap_received_update [of dss nis n ni]
        by (cases "forward ds (nis[n := ni])") (auto simp: send_with_received)
    qed
  qed (use 2 in simp)
qed simp

text \<open>
  One datagram: what \<open>route_datagram\<close> does is to forward the decision of the table. Received
  datagrams have version 4, because the parser accepts no other.
\<close>

definition table_ok :: "Route list \<Rightarrow> bool" where
  "table_ok routes \<longleftrightarrow> (\<forall>r \<in> set routes. unat (rt_length r) \<le> 32)"

lemma route_datagram_forward:
  assumes "table_ok (ro_routes r)" and "ip_ver (dg_header d) = 4"
  shows "route_datagram r (clone_datagram d) =
    map_option (\<lambda>(nis, out). (r\<lparr>ro_interfaces := nis\<rparr>, out))
      (forward (decisions (ro_routes r) d) (ro_interfaces r))"
proof (cases "ip_ttl (dg_header d) \<le> 1")
  case True
  then show ?thesis by (simp add: route_datagram_def decisions_def clone_datagram_def)
next
  case ttl: False
  let ?h = "(dg_header d)\<lparr>ip_ttl := ip_ttl (dg_header d) - 1\<rparr>"
  obtain h where h: "compute_checksum ?h = Some h" "ip_dst h = ip_dst (dg_header d)"
    using compute_checksum_ok [of ?h] assms(2) by auto
  have find: "find_match (ro_routes r) (ip_dst h) = Some (find (\<lambda>r. covers r (ip_dst h)) (ro_routes r))"
    using assms(1) by (intro find_match_find) (simp add: table_ok_def)
  have hdr: "dg_header (clone_datagram d) = dg_header d" by (simp add: clone_datagram_def)
  show ?thesis
  proof (cases "find (\<lambda>r. covers r (ip_dst h)) (ro_routes r)")
    case None
    then show ?thesis
      using ttl h find by (simp add: route_datagram_def decisions_def hdr Let_def)
  next
    case (Some route)
    let ?d = "(clone_datagram d)\<lparr>dg_header := h\<rparr>" and ?k = "unat (rt_interface route)"
    let ?a = "case rt_next_hop route of Some a \<Rightarrow> a | None \<Rightarrow> from_ipv4_numeric (ip_dst h)"
    have dec: "decisions (ro_routes r) d = [(?k, ?d, ?a)]"
      using ttl Some by (cases "rt_next_hop route") (simp_all add: decisions_def h)
    show ?thesis
      using ttl h find Some dec
      by (cases "?k < length (ro_interfaces r)"; cases "send_datagram (ro_interfaces r ! ?k) ?d ?a")
         (auto simp: route_datagram_def hdr router_interface_def Let_def)
  qed
qed

text \<open>Sending and forwarding keep the received datagrams.\<close>

lemma send_received: "send_datagram ni d a = Some (ni', frames) \<Longrightarrow> ni_received ni' = ni_received ni"
  using send_with_received [of "ni_received ni" ni d a] by auto (metis with_received_simps(1))

lemma forward_received: "forward ds nis = Some (nis', out) \<Longrightarrow> map ni_received nis' = map ni_received nis"
proof (induction ds arbitrary: nis nis' out)
  case (Cons e ds)
  obtain n d a where e: "e = (n, d, a)" by (cases e)
  obtain ni frames where n: "n < length nis" "send_datagram (nis ! n) d a = Some (ni, frames)"
    using Cons.prems e by (cases "n < length nis"; cases "send_datagram (nis ! n) d a") auto
  then obtain out' where "forward ds (nis[n := ni]) = Some (nis', out')"
    using Cons.prems e by (cases "forward ds (nis[n := ni])") auto
  from Cons.IH [OF this] show ?case
    using send_received [OF n(2)] n(1) by (simp add: map_update) (metis length_map list_update_id nth_map)
qed simp

definition clear :: "nat \<Rightarrow> NetworkInterface list \<Rightarrow> NetworkInterface list" where
  "clear k nis = nis[k := with_received [] (nis ! k)]"

lemma length_clear [simp]: "length (clear k nis) = length nis"
  by (simp add: clear_def)

lemma clear_swap: "clear k nis = swap_received ((map ni_received nis)[k := []]) nis"
proof (rule nth_equalityI)
  fix i assume "i < length (clear k nis)"
  then show "clear k nis ! i = swap_received ((map ni_received nis)[k := []]) nis ! i"
    by (cases "i = k") (simp_all add: clear_def)
qed simp

lemma forward_clear:
  "forward ds (clear k nis) = map_option (\<lambda>(nis', out). (clear k nis', out)) (forward ds nis)"
proof (cases "forward ds nis")
  case None
  then show ?thesis by (simp add: clear_swap forward_swap)
next
  case (Some p)
  obtain nis' out where "p = (nis', out)" by (cases p)
  then show ?thesis using Some forward_received [of ds nis nis' out] by (simp add: clear_swap forward_swap)
qed

definition clears :: "nat list \<Rightarrow> NetworkInterface list \<Rightarrow> NetworkInterface list" where
  "clears ks nis = fold clear ks nis"

lemma forward_clears:
  "forward ds (clears ks nis) = map_option (\<lambda>(nis', out). (clears ks nis', out)) (forward ds nis)"
proof (induction ks arbitrary: nis)
  case (Cons k ks)
  have "forward ds (clears ks (clear k nis))
      = map_option (\<lambda>(nis', out). (clears ks nis', out)) (forward ds (clear k nis))"
    by (rule Cons)
  then show ?case
    by (cases "forward ds nis") (auto simp: clears_def forward_clear)
qed (simp add: clears_def option.map_id0 case_prod_eta)

text \<open>What one queue and all queues are to be forwarded to.\<close>

definition all_decisions :: "Route list \<Rightarrow> IPv4Datagram list \<Rightarrow> (nat \<times> IPv4Datagram \<times> Address) list" where
  "all_decisions routes ds = concat (map (decisions routes) ds)"

lemma route_queue_forward:
  assumes "k < length (ro_interfaces r)" and "ni_received (ro_interfaces r ! k) = ds"
    and "table_ok (ro_routes r)" and "\<forall>d \<in> set ds. ip_ver (dg_header d) = 4"
  shows "route_queue (length ds) k r = map_option (\<lambda>(nis, out). (r\<lparr>ro_interfaces := nis\<rparr>, out))
    (forward (all_decisions (ro_routes r) ds) (clear k (ro_interfaces r)))"
  using assms
proof (induction ds arbitrary: r)
  case Nil
  then have "clear k (ro_interfaces r) = ro_interfaces r"
    unfolding clear_def by (metis list_update_id with_received_simps(2))
  then show ?case by (simp add: all_decisions_def)
next
  case (Cons d ds)
  let ?nis = "ro_interfaces r" and ?R = "ro_routes r"
  let ?nis1 = "?nis[k := with_received ds (?nis ! k)]"
  have c: "clear k ?nis1 = clear k ?nis" using Cons.prems(1) by (simp add: clear_def)
  have step: "route_datagram (r\<lparr>ro_interfaces := ?nis1\<rparr>) (clone_datagram d)
      = map_option (\<lambda>(nis, out). (r\<lparr>ro_interfaces := nis\<rparr>, out)) (forward (decisions ?R d) ?nis1)"
    using route_datagram_forward [of "r\<lparr>ro_interfaces := ?nis1\<rparr>" d] Cons.prems(3,4) by simp
  have take: "take_received (?nis ! k) = Some (d, with_received ds (?nis ! k))"
    using Cons.prems(2) by (simp add: take_received_def with_received_def)
  have rhs: "forward (all_decisions ?R (d # ds)) (clear k ?nis) =
      do { (nis, out) \<leftarrow> map_option (\<lambda>(nis', out). (clear k nis', out)) (forward (decisions ?R d) ?nis1);
           (nis, out') \<leftarrow> forward (all_decisions ?R ds) nis; Some (nis, out @ out') }"
    unfolding c [symmetric] all_decisions_def list.map concat.simps forward_append
    by (simp only: forward_clear)
  show ?case
  proof (cases "forward (decisions ?R d) ?nis1")
    case None
    then show ?thesis by (simp add: take step rhs)
  next
    case (Some p)
    obtain nis2 out where p: "p = (nis2, out)" by (cases p)
    have "map ni_received nis2 = map ni_received ?nis1" using Some p forward_received by blast
    then have k: "k < length nis2" "ni_received (nis2 ! k) = ds"
      using Cons.prems(1) by (metis length_list_update length_map, metis length_list_update length_map nth_list_update_eq nth_map with_received_simps(1))
    have "route_queue (length ds) k (r\<lparr>ro_interfaces := nis2\<rparr>)
        = map_option (\<lambda>(nis, out). (r\<lparr>ro_interfaces := nis\<rparr>, out))
            (forward (all_decisions ?R ds) (clear k nis2))"
      using Cons.IH [of "r\<lparr>ro_interfaces := nis2\<rparr>"] k Cons.prems(3,4) by simp
    then show ?thesis
      using Some p
      by (cases "forward (all_decisions ?R ds) (clear k nis2)") (auto simp: take step rhs)
  qed
qed

lemma clear_other: "j \<noteq> k \<Longrightarrow> clear k nis ! j = nis ! j"
  by (simp add: clear_def)

lemma route_interfaces_forward:
  assumes "distinct ks" and "\<forall>k \<in> set ks. k < length (ro_interfaces r)"
    and "table_ok (ro_routes r)"
    and "\<forall>k \<in> set ks. \<forall>d \<in> set (ni_received (ro_interfaces r ! k)). ip_ver (dg_header d) = 4"
  shows "route_interfaces ks r = map_option (\<lambda>(nis, out). (r\<lparr>ro_interfaces := nis\<rparr>, out))
    (forward (concat (map (\<lambda>k. all_decisions (ro_routes r) (ni_received (ro_interfaces r ! k))) ks))
      (clears ks (ro_interfaces r)))"
  using assms
proof (induction ks arbitrary: r)
  case Nil
  then show ?case by (simp add: clears_def)
next
  case (Cons k ks)
  let ?nis = "ro_interfaces r" and ?R = "ro_routes r"
  let ?D = "\<lambda>nis k. all_decisions ?R (ni_received (nis ! k))"
  have queue: "route_queue (length (ni_received (?nis ! k))) k r
      = map_option (\<lambda>(nis, out). (r\<lparr>ro_interfaces := nis\<rparr>, out)) (forward (?D ?nis k) (clear k ?nis))"
    using Cons.prems by (intro route_queue_forward) auto
  have rhs: "forward (concat (map (?D ?nis) (k # ks))) (clears (k # ks) ?nis) =
      do { (nis, out) \<leftarrow> map_option (\<lambda>(nis', out). (clears ks nis', out)) (forward (?D ?nis k) (clear k ?nis));
           (nis, out') \<leftarrow> forward (concat (map (?D ?nis) ks)) nis; Some (nis, out @ out') }"
    unfolding clears_def fold_Cons comp_apply list.map concat.simps forward_append
    by (simp only: forward_clears [unfolded clears_def])
  show ?case
  proof (cases "forward (?D ?nis k) (clear k ?nis)")
    case None
    then show ?thesis by (simp add: queue rhs del: concat.simps list.map)
  next
    case (Some p)
    obtain nis1 out where p: "p = (nis1, out)" by (cases p)
    have same: "map ni_received nis1 = map ni_received (clear k ?nis)"
      using Some p forward_received by blast
    then have len: "length nis1 = length ?nis" by (metis length_clear length_map)
    have recv: "ni_received (nis1 ! j) = ni_received (?nis ! j)" if "j \<in> set ks" for j
      using same that Cons.prems(1,2) len clear_other [of j k ?nis]
      by (metis distinct.simps(2) length_clear list.set_intros(2) nth_map)
    have D: "map (?D nis1) ks = map (?D ?nis) ks" using recv by simp
    have "route_interfaces ks (r\<lparr>ro_interfaces := nis1\<rparr>)
        = map_option (\<lambda>(nis, out). (r\<lparr>ro_interfaces := nis\<rparr>, out))
            (forward (concat (map (?D ?nis) ks)) (clears ks nis1))"
      using Cons.IH [of "r\<lparr>ro_interfaces := nis1\<rparr>"] Cons.prems len recv D by simp
    then show ?thesis
      using Some p
      by (cases "forward (concat (map (?D ?nis) ks)) (clears ks nis1)")
         (auto simp: queue rhs simp del: concat.simps list.map)
  qed
qed

lemma clears_all: "clears [0..<length nis] nis = map (with_received []) nis"
proof -
  have "n \<le> length nis \<Longrightarrow> clears [0..<n] nis = map (with_received []) (take n nis) @ drop n nis" for n
  proof (induction n)
    case (Suc n)
    then have "clears [0..<Suc n] nis = clear n (map (with_received []) (take n nis) @ drop n nis)"
      by (simp add: clears_def)
    also have "\<dots> = map (with_received []) (take n nis) @ [with_received [] (nis ! n)] @ drop (Suc n) nis"
      using Suc.prems by (simp add: clear_def nth_append list_update_append flip: Cons_nth_drop_Suc)
    finally show ?case using Suc.prems by (simp add: take_Suc_conv_app_nth)
  qed (simp add: clears_def)
  from this [of "length nis"] show ?thesis by simp
qed

lemma router_route_forward:
  assumes "ro_routes r \<noteq> []" and "table_ok (ro_routes r)"
    and "\<forall>ni \<in> set (ro_interfaces r). \<forall>d \<in> set (ni_received ni). ip_ver (dg_header d) = 4"
  shows "router_route r = map_option (\<lambda>(nis, out). (r\<lparr>ro_interfaces := nis\<rparr>, out))
    (forward (all_decisions (ro_routes r) (concat (map ni_received (ro_interfaces r))))
      (map (with_received []) (ro_interfaces r)))"
proof -
  let ?nis = "ro_interfaces r"
  have all: "concat (map (\<lambda>k. all_decisions R (ni_received (nis ! k))) [0..<length nis])
      = all_decisions R (concat (map ni_received nis))" for R nis
  proof -
    have "map (\<lambda>k. all_decisions R (ni_received (nis ! k))) [0..<length nis]
        = map (\<lambda>ni. all_decisions R (ni_received ni)) (map ((!) nis) [0..<length nis])"
      by simp
    then have "map (\<lambda>k. all_decisions R (ni_received (nis ! k))) [0..<length nis]
        = map (\<lambda>ni. all_decisions R (ni_received ni)) nis" by (simp only: map_nth)
    moreover have "concat (map (\<lambda>ni. all_decisions R (ni_received ni)) nis)
        = all_decisions R (concat (map ni_received nis))"
      by (induction nis) (simp_all add: all_decisions_def)
    ultimately show ?thesis by simp
  qed
  have "router_route r = route_interfaces [0..<length ?nis] r"
    using assms(1) by (simp add: router_route_def)
  also have "\<dots> = map_option (\<lambda>(nis, out). (r\<lparr>ro_interfaces := nis\<rparr>, out))
    (forward (concat (map (\<lambda>k. all_decisions (ro_routes r) (ni_received (?nis ! k))) [0..<length ?nis]))
      (clears [0..<length ?nis] ?nis))"
    using assms by (intro route_interfaces_forward) auto
  finally show ?thesis by (simp only: all clears_all)
qed

text \<open>Nothing throws when the table names the router's interfaces and IPv4 next hops.\<close>

lemma forward_defined:
  assumes "\<forall>ni \<in> set nis. iface_inv ni"
    and "\<forall>(n, d, a) \<in> set ds. n < length nis \<and> ip_ver (dg_header d) = 4 \<and> ipv4_numeric a \<noteq> None"
  shows "\<exists>nis' out. forward ds nis = Some (nis', out) \<and> (\<forall>ni \<in> set nis'. iface_inv ni)"
  using assms
proof (induction ds arbitrary: nis)
  case (Cons e ds)
  obtain n d a where e: "e = (n, d, a)" by (cases e)
  have n: "n < length nis" "iface_inv (nis ! n)" "iface_ok (nis ! n) (Send_datagram d a)"
    using Cons.prems e by auto
  obtain ni frames where s: "send_datagram (nis ! n) d a = Some (ni, frames)"
    using iface_event_defined [OF n(2,3)] by auto
  have "iface_inv ni" using iface_step_inv [OF n(2,3)] s by (simp add: iface_step_def)
  then have "\<forall>ni \<in> set (nis[n := ni]). iface_inv ni"
    using Cons.prems(1) set_update_subset_insert by fast
  then show ?case
    using Cons.IH [of "nis[n := ni]"] Cons.prems(2) by (auto simp: e n s)
qed simp

lemma decisions_facts:
  assumes "(n, d', a) \<in> set (decisions routes d)" and "ip_ver (dg_header d) = 4"
  shows "1 < ip_ttl (dg_header d) \<and> ip_ttl (dg_header d') = ip_ttl (dg_header d) - 1
    \<and> compute_checksum (dg_header d') = Some (dg_header d') \<and> ip_ver (dg_header d') = 4
    \<and> bytes_of (dg_payload d') = bytes_of (dg_payload d)
    \<and> (\<exists>route \<in> set routes. n = unat (rt_interface route) \<and> covers route (ip_dst (dg_header d))
        \<and> a = (case rt_next_hop route of Some a \<Rightarrow> a | None \<Rightarrow> from_ipv4_numeric (ip_dst (dg_header d))))"
proof -
  let ?h = "(dg_header d)\<lparr>ip_ttl := ip_ttl (dg_header d) - 1\<rparr>"
  obtain h where h: "compute_checksum ?h = Some h" "ip_ttl h = ip_ttl (dg_header d) - 1" "ip_ver h = 4"
    "compute_checksum h = Some h"
    using compute_checksum_ok [of ?h] assms(2)
    by (auto simp: compute_checksum_ok)
  obtain route where route: "1 < ip_ttl (dg_header d)"
    "find (\<lambda>r. covers r (ip_dst (dg_header d))) routes = Some route"
    using assms(1)
    by (cases "find (\<lambda>r. covers r (ip_dst (dg_header d))) routes")
       (auto simp: decisions_def not_le split: if_splits)
  have "route \<in> set routes \<and> covers route (ip_dst (dg_header d))"
    using route(2) by (auto simp: find_Some_iff)
  moreover have "\<not> ip_ttl (dg_header d) \<le> 1" using route(1) by (simp only: not_le)
  with assms(1) route(2) h(1) have "n = unat (rt_interface route)" "d' = (clone_datagram d)\<lparr>dg_header := h\<rparr>"
    "a = (case rt_next_hop route of Some a \<Rightarrow> a | None \<Rightarrow> from_ipv4_numeric (ip_dst (dg_header d)))"
    by (simp_all add: decisions_def)
  ultimately show ?thesis using route(1) h by (auto simp: clone_datagram_def)
qed

section \<open>Properties\<close>

text \<open>
  C34: in a table built by any calls of \<open>add_route\<close> with prefixes of at most 32 bits, whatever
  order the sort gives to routes of equal length, the search finds a route of the longest
  prefix that the destination's high bits agree with, and none exactly if no route matches.
\<close>
theorem route_is_longest_prefix:
  assumes "sorts_routes srt" and "\<forall>(p, n, a, i) \<in> set entries. unat n \<le> 32"
  shows "\<exists>match. find_match (ro_routes (table_of srt entries router)) dst = Some match
    \<and> (case match of
         None \<Rightarrow> \<forall>e \<in> set entries. \<not> covers (entry_route e) dst
       | Some route \<Rightarrow> route \<in> entry_route ` set entries \<and> covers route dst
           \<and> (\<forall>e \<in> set entries. covers (entry_route e) dst \<longrightarrow> rt_length (entry_route e) \<le> rt_length route))"
proof -
  let ?R = "ro_routes (table_of srt entries router)"
  have set: "set ?R = entry_route ` set entries"
    using sorts_routes.table_routes [OF assms(1)] by (simp add: router_def)
  have sorted: "sorted_wrt (\<lambda>a b. rt_length a \<ge> rt_length b) ?R"
    by (rule sorts_routes.table_sorted [OF assms(1)]) (simp add: router_def)
  have "\<forall>r \<in> set ?R. unat (rt_length r) \<le> 32"
    using assms(2) unfolding set by (auto simp: entry_route_def)
  note find_match_find [OF this, of dst]
  then show ?thesis
    using find_longest [OF sorted, of dst] find_none [of dst ?R] unfolding set
    by (cases "find (\<lambda>r. covers r dst) ?R") auto
qed

theorem route_is_longest_prefix_witness:
  "\<exists>match. find_match (ro_routes (table_of sort_routes [(0x0a000000, 8, None, 0), (0x0a010000, 16, None, 1)] router))
        0x0a010203 = Some match
    \<and> (case match of
         None \<Rightarrow> \<forall>e \<in> set [(0x0a000000, 8, None, 0), (0x0a010000, 16, None, 1)]. \<not> covers (entry_route e) 0x0a010203
       | Some route \<Rightarrow> route \<in> entry_route ` set [(0x0a000000, 8, None, 0), (0x0a010000, 16, None, 1)]
           \<and> covers route 0x0a010203
           \<and> (\<forall>e \<in> set [(0x0a000000, 8, None, 0), (0x0a010000, 16, None, 1)].
                covers (entry_route e) 0x0a010203 \<longrightarrow> rt_length (entry_route e) \<le> rt_length route))"
  by (rule route_is_longest_prefix [OF insertion.sorts_routes_axioms]) simp

text \<open>
  C37: a router forwards without throwing if its table names its interfaces, IPv4 next hops and
  prefixes of at most 32 bits, its datagrams are of version 4, and its interfaces have IPv4 addresses
  and are in a state that their runs keep (\<open>iface_inv\<close>). With an empty table it does
  nothing. Otherwise all queues of received datagrams are empty afterwards, and the interfaces have
  sent, in order, exactly what the table decides for the received datagrams, which is nothing
  exactly for a time to live of at most 1 or without a match, and else the datagram with the time to
  live decremented and a correct checksum, on a matching route's interface, to that route's next
  hop or else to the destination itself.
\<close>
theorem router_forwards_all:
  assumes "\<forall>route \<in> set (ro_routes r). unat (rt_length route) \<le> 32
      \<and> unat (rt_interface route) < length (ro_interfaces r)
      \<and> (\<forall>a. rt_next_hop route = Some a \<longrightarrow> ipv4_numeric a \<noteq> None)"
    and "\<forall>ni \<in> set (ro_interfaces r). iface_inv ni \<and> (\<forall>d \<in> set (ni_received ni). ip_ver (dg_header d) = 4)"
    and "ds = concat (map ni_received (ro_interfaces r))"
  shows "if ro_routes r = [] then router_route r = Some (r, [])
    else \<exists>nis out. router_route r = Some (r\<lparr>ro_interfaces := nis\<rparr>, out)
    \<and> forward (all_decisions (ro_routes r) ds) (map (with_received []) (ro_interfaces r)) = Some (nis, out)
    \<and> (\<forall>ni \<in> set nis. ni_received ni = [] \<and> iface_inv ni)
    \<and> (\<forall>d \<in> set ds. (decisions (ro_routes r) d = [] \<longleftrightarrow> ip_ttl (dg_header d) \<le> 1
         \<or> (\<forall>route \<in> set (ro_routes r). \<not> covers route (ip_dst (dg_header d)))))
    \<and> (\<forall>d \<in> set ds. \<forall>(n, d', a) \<in> set (decisions (ro_routes r) d).
         1 < ip_ttl (dg_header d) \<and> ip_ttl (dg_header d') = ip_ttl (dg_header d) - 1
         \<and> compute_checksum (dg_header d') = Some (dg_header d')
         \<and> bytes_of (dg_payload d') = bytes_of (dg_payload d)
         \<and> (\<exists>route \<in> set (ro_routes r). n = unat (rt_interface route) \<and> covers route (ip_dst (dg_header d))
             \<and> a = (case rt_next_hop route of Some a \<Rightarrow> a | None \<Rightarrow> from_ipv4_numeric (ip_dst (dg_header d)))))"
proof (cases "ro_routes r = []")
  case True
  then show ?thesis by (simp add: router_route_def)
next
  case False
  let ?nis = "map (with_received []) (ro_interfaces r)"
  have v: "\<forall>d \<in> set ds. ip_ver (dg_header d) = 4" using assms(2,3) by auto
  have inv: "\<forall>ni \<in> set ?nis. iface_inv ni"
    using assms(2) by (auto simp: iface_inv_def with_received_def)
  have "\<forall>(n, d, a) \<in> set (all_decisions (ro_routes r) ds).
      n < length ?nis \<and> ip_ver (dg_header d) = 4 \<and> ipv4_numeric a \<noteq> None"
  proof (clarsimp simp: all_decisions_def simp del: not_None_eq)
    fix n d' a d
    assume d: "d \<in> set ds" and dec: "(n, d', a) \<in> set (decisions (ro_routes r) d)"
    from decisions_facts [OF dec] v d
    show "n < length (ro_interfaces r) \<and> ip_ver (dg_header d') = 4 \<and> ipv4_numeric a \<noteq> None"
      using assms(1) by (auto split: option.splits)
  qed
  from forward_defined [OF inv this] obtain nis out
    where f: "forward (all_decisions (ro_routes r) ds) ?nis = Some (nis, out)" "\<forall>ni \<in> set nis. iface_inv ni"
    by blast
  have "map ni_received nis = map (\<lambda>_. []) ?nis"
    using forward_received [OF f(1)] by simp
  then have "\<forall>ni \<in> set nis. ni_received ni = []"
    by (metis (no_types, lifting) ex_map_conv in_set_conv_nth length_map nth_map)
  moreover have "router_route r = Some (r\<lparr>ro_interfaces := nis\<rparr>, out)"
    using router_route_forward [OF False] assms(1,2) f(1) by (simp add: table_ok_def assms(3))
  moreover have "\<forall>d \<in> set ds. (decisions (ro_routes r) d = [] \<longleftrightarrow> ip_ttl (dg_header d) \<le> 1
         \<or> (\<forall>route \<in> set (ro_routes r). \<not> covers route (ip_dst (dg_header d))))"
    by (auto simp: decisions_def find_None_iff find_Some_iff split: option.split)
  moreover have "\<forall>d \<in> set ds. \<forall>(n, d', a) \<in> set (decisions (ro_routes r) d).
         1 < ip_ttl (dg_header d) \<and> ip_ttl (dg_header d') = ip_ttl (dg_header d) - 1
         \<and> compute_checksum (dg_header d') = Some (dg_header d')
         \<and> bytes_of (dg_payload d') = bytes_of (dg_payload d)
         \<and> (\<exists>route \<in> set (ro_routes r). n = unat (rt_interface route) \<and> covers route (ip_dst (dg_header d))
             \<and> a = (case rt_next_hop route of Some a \<Rightarrow> a | None \<Rightarrow> from_ipv4_numeric (ip_dst (dg_header d))))"
    using decisions_facts v by fast
  ultimately show ?thesis using f False by auto
qed

text \<open>A router with one interface, a default route and a datagram to forward.\<close>

definition demo_router :: Router where
  "demo_router = \<lparr>ro_interfaces = [(network_interface zero_address (IPv4_address 1 0))
       \<lparr>ni_received := [\<lparr>dg_header = demo_header, dg_payload = []\<rparr>]\<rparr>],
     ro_routes = [\<lparr>rt_prefix = 0, rt_length = 0, rt_next_hop = None, rt_interface = 0\<rparr>]\<rparr>"

theorem router_forwards_all_witness:
  "decisions (ro_routes demo_router) \<lparr>dg_header = demo_header, dg_payload = []\<rparr> \<noteq> []
   \<and> (\<exists>nis out. router_route demo_router = Some (demo_router\<lparr>ro_interfaces := nis\<rparr>, out)
     \<and> (\<forall>ni \<in> set nis. ni_received ni = [] \<and> iface_inv ni))"
proof -
  have v: "ip_ver demo_header = 4" by (simp add: demo_header_def ipv4_header_def)
  have inv: "iface_inv (network_interface zero_address (IPv4_address 1 0)\<lparr>ni_received := ds\<rparr>)" for ds
    using iface_inv_init [of zero_address 1 0] by (simp add: iface_inv_def)
  have ttl: "\<not> ip_ttl demo_header \<le> 1" by (simp add: demo_header_def ipv4_header_def word_le_nat_alt)
  have "covers \<lparr>rt_prefix = 0, rt_length = 0, rt_next_hop = None, rt_interface = 0\<rparr> a" for a
    using route_matches_covers [of "\<lparr>rt_prefix = 0, rt_length = 0, rt_next_hop = None, rt_interface = 0\<rparr>" a]
    by (simp add: route_matches_def)
  then show ?thesis
    using router_forwards_all [of demo_router, OF _ _ refl] inv ttl by (auto simp: demo_router_def v)
qed

end
