(* ===== verification/Endtoend.thy ===== *)
theory Endtoend
  imports Interface_Adapter Router
begin

text \<open>
  \<open>apps/endtoend.cc\<close>: a host and its router, which forwards between the host and the Internet.
  The event loop of the network thread serves the router's frames; the outcomes of its system
  calls are functions of what has happened so far. \<open>None\<close> is an exception or the front of an
  empty queue.
\<close>

section \<open>The two routers\<close>

text \<open>
  A client's router and a server's: each has the host's network on interface \<open>host_side\<close> and
  reaches the other's network through the other router. The result has both interface numbers.
\<close>

definition client_router ::
    "(Route list \<Rightarrow> Route list) \<Rightarrow> EthernetAddress \<Rightarrow> EthernetAddress \<Rightarrow> u64 \<times> u64 \<times> Router" where
  "client_router srt eth_host eth_internet =
     (let (host_side, r) = add_interface (network_interface eth_host (IPv4_address 0xC0A80001 0)) router;
          (internet_side, r) = add_interface (network_interface eth_internet (IPv4_address 0x0A0000C0 0)) r;
          r = add_route srt 0xC0A80000 16 None host_side r;
          r = add_route srt 0x0A000000 8 None internet_side r;
          r = add_route srt 0xAC100000 12 (Some (IPv4_address 0x0A0000AC 0)) internet_side r
      in (host_side, internet_side, r))"

definition server_router ::
    "(Route list \<Rightarrow> Route list) \<Rightarrow> EthernetAddress \<Rightarrow> EthernetAddress \<Rightarrow> u64 \<times> u64 \<times> Router" where
  "server_router srt eth_host eth_internet =
     (let (host_side, r) = add_interface (network_interface eth_host (IPv4_address 0xAC100001 0)) router;
          (internet_side, r) = add_interface (network_interface eth_internet (IPv4_address 0x0A0000AC 0)) r;
          r = add_route srt 0xAC100000 12 None host_side r;
          r = add_route srt 0x0A000000 8 None internet_side r;
          r = add_route srt 0xC0A80000 16 (Some (IPv4_address 0x0A0000C0 0)) internet_side r
      in (host_side, internet_side, r))"

text \<open>The host's address and its next hop, which is the router's host side.\<close>

definition endtoend_addresses :: "bool \<Rightarrow> Address \<times> Address" where
  "endtoend_addresses is_client =
     (if is_client then (IPv4_address 0xC0A80032 0, IPv4_address 0xC0A80001 0)
      else (IPv4_address 0xAC100064 0, IPv4_address 0xAC100001 0))"

section \<open>The ends of the connection\<close>

text \<open>What \<open>TCPSocketEndToEnd\<close> keeps besides its base, and the configurations it passes on.\<close>

fun with_port :: "Address \<Rightarrow> u16 \<Rightarrow> Address option" where
  "with_port (IPv4_address ip p) port = Some (IPv4_address ip port)"
| "with_port _ port = None"

definition no_address :: FdAdapterConfig where
  "no_address = fd_cfg fd_adapter"

definition endtoend_connect :: "u16 \<Rightarrow> Address \<Rightarrow> Address \<Rightarrow> (Address \<times> FdAdapterConfig) option" where
  "endtoend_connect random_port local_address address =
     do { local_address \<leftarrow> with_port local_address random_port;
          Some (local_address, no_address\<lparr>fd_source := local_address, fd_destination := address\<rparr>) }"

definition endtoend_bind :: "Address \<Rightarrow> Address \<Rightarrow> Address option" where
  "endtoend_bind local_address address =
     do { own \<leftarrow> ipv4_numeric local_address; ip \<leftarrow> ipv4_numeric address;
          (if ip \<noteq> own then None
           else do { port \<leftarrow> address_port address; with_port local_address port }) }"

definition endtoend_listen :: "Address \<Rightarrow> FdAdapterConfig" where
  "endtoend_listen local_address = no_address\<lparr>fd_source := local_address\<rparr>"

section \<open>The network thread\<close>

text \<open>What has gone through the loop: the frames the router sent, and those written to each side.\<close>

record NetHistory =
  nh_sent :: "(nat \<times> EthernetFrame) list"
  nh_to_host :: "EthernetFrame list"
  nh_to_internet :: "EthernetFrame list"
  nh_calls :: nat

record Network =
  nw_router :: Router
  nw_host_side :: u64
  nw_internet_side :: u64
  nw_router_to_host :: "EthernetFrame list"
  nw_router_to_internet :: "EthernetFrame list"
  nw_frame_fd :: FDWrapper
  nw_internet_socket :: FDWrapper
  nw_history :: NetHistory

record NetKernel =
  nk_frame_readv :: "NetHistory \<Rightarrow> nat list \<Rightarrow> byte list syscall"
  nk_frame_writev :: "NetHistory \<Rightarrow> byte list list \<Rightarrow> nat syscall"
  nk_internet_readv :: "NetHistory \<Rightarrow> nat list \<Rightarrow> byte list syscall"
  nk_internet_writev :: "NetHistory \<Rightarrow> byte list list \<Rightarrow> nat syscall"

text \<open>The output ports clone the frames the interfaces transmit into their queues.\<close>

definition frames_on :: "u64 \<Rightarrow> (nat \<times> EthernetFrame) list \<Rightarrow> EthernetFrame list" where
  "frames_on n out = map (\<lambda>(k, f). clone_frame f) (filter (\<lambda>(k, f). k = unat n) out)"

definition router_sends :: "(nat \<times> EthernetFrame) list \<Rightarrow> Network \<Rightarrow> Network" where
  "router_sends out s =
     s\<lparr>nw_router_to_host := nw_router_to_host s @ frames_on (nw_host_side s) out,
       nw_router_to_internet := nw_router_to_internet s @ frames_on (nw_internet_side s) out,
       nw_history := (nw_history s)\<lparr>nh_sent := nh_sent (nw_history s) @ out\<rparr>\<rparr>"

definition net_call :: "Network \<Rightarrow> Network" where
  "net_call s = s\<lparr>nw_history := (nw_history s)\<lparr>nh_calls := nh_calls (nw_history s) + 1\<rparr>\<rparr>"

text \<open>A frame for an interface, and then the routing.\<close>

definition router_takes :: "u64 \<Rightarrow> EthernetFrame \<Rightarrow> Network \<Rightarrow> Network option" where
  "router_takes side frame s =
     do { ni \<leftarrow> router_interface (nw_router s) side;
          (ni, frames) \<leftarrow> recv_frame ni frame;
          let r = nw_router s; let r = r\<lparr>ro_interfaces := (ro_interfaces r)[unat side := ni]\<rparr>;
          (r, out) \<leftarrow> router_route r;
          Some (router_sends (map (Pair (unat side)) frames @ out) (s\<lparr>nw_router := r\<rparr>)) }"

definition host_to_router :: "NetKernel \<Rightarrow> Network \<Rightarrow> Network option" where
  "host_to_router k s =
     do { (fd, frame_opt) \<leftarrow> maybe_receive_frame (nk_frame_readv k (nw_history s)) (nw_frame_fd s);
          s \<leftarrow> Some (net_call (s\<lparr>nw_frame_fd := fd\<rparr>));
          (case frame_opt of None \<Rightarrow> Some s | Some frame \<Rightarrow> router_takes (nw_host_side s) frame s) }"

definition router_to_host :: "NetKernel \<Rightarrow> Network \<Rightarrow> Network option" where
  "router_to_host k s =
     (case nw_router_to_host s of
        [] \<Rightarrow> None
      | f # frames \<Rightarrow>
          do { (fd, n) \<leftarrow> fd_write_refs (nk_frame_writev k (nw_history s)) (serialize_frame f) (nw_frame_fd s);
               s \<leftarrow> Some (net_call (s\<lparr>nw_frame_fd := fd\<rparr>));
               Some (s\<lparr>nw_router_to_host := frames,
                 nw_history := (nw_history s)\<lparr>nh_to_host := nh_to_host (nw_history s) @ [f]\<rparr>\<rparr>) })"

definition to_host_interest :: "Network \<Rightarrow> bool" where
  "to_host_interest s \<longleftrightarrow> nw_router_to_host s \<noteq> []"

definition router_to_internet :: "NetKernel \<Rightarrow> Network \<Rightarrow> Network option" where
  "router_to_internet k s =
     (case nw_router_to_internet s of
        [] \<Rightarrow> None
      | f # frames \<Rightarrow>
          do { (fd, n) \<leftarrow> fd_write_refs (nk_internet_writev k (nw_history s)) (serialize_frame f) (nw_internet_socket s);
               s \<leftarrow> Some (net_call (s\<lparr>nw_internet_socket := fd\<rparr>));
               Some (s\<lparr>nw_router_to_internet := frames,
                 nw_history := (nw_history s)\<lparr>nh_to_internet := nh_to_internet (nw_history s) @ [f]\<rparr>\<rparr>) })"

definition to_internet_interest :: "Network \<Rightarrow> bool" where
  "to_internet_interest s \<longleftrightarrow> nw_router_to_internet s \<noteq> []"

definition internet_to_router :: "NetKernel \<Rightarrow> Network \<Rightarrow> Network option" where
  "internet_to_router k s =
     do { (fd, frame_opt) \<leftarrow> maybe_receive_frame (nk_internet_readv k (nw_history s)) (nw_internet_socket s);
          s \<leftarrow> Some (net_call (s\<lparr>nw_internet_socket := fd\<rparr>));
          (case frame_opt of None \<Rightarrow> Some s | Some frame \<Rightarrow> router_takes (nw_internet_side s) frame s) }"

definition network_rules :: "NetKernel \<Rightarrow> Network EventLoop \<Rightarrow> Network EventLoop option" where
  "network_rules k el =
     do { (el, _) \<leftarrow> add_named_fd_rule ''frames from host to router'' nw_frame_fd In
            (host_to_router k) (\<lambda>_. True) Some Some el;
          (el, _) \<leftarrow> add_named_fd_rule ''frames from router to host'' nw_frame_fd Out
            (router_to_host k) to_host_interest Some Some el;
          (el, _) \<leftarrow> add_named_fd_rule ''frames from router to Internet'' nw_internet_socket Out
            (router_to_internet k) to_internet_interest Some Some el;
          (el, _) \<leftarrow> add_named_fd_rule ''frames from Internet to router'' nw_internet_socket In
            (internet_to_router k) (\<lambda>_. True) Some Some el;
          Some el }"

text \<open>After each event both interfaces age by ten milliseconds.\<close>

definition tick_side :: "u64 \<Rightarrow> Network \<Rightarrow> Network option" where
  "tick_side side s =
     do { ni \<leftarrow> router_interface (nw_router s) side;
          let r = nw_router s; let r = r\<lparr>ro_interfaces := (ro_interfaces r)[unat side := interface_tick ni 10]\<rparr>;
          Some (s\<lparr>nw_router := r\<rparr>) }"

fun network_loop ::
    "((pollfd list \<Rightarrow> int \<Rightarrow> (nat \<times> revents list) option) \<times> (int \<Rightarrow> bool) \<times> bool) list \<Rightarrow> Network EventLoop \<Rightarrow> Network
       \<Rightarrow> (Network EventLoop \<times> Network \<times> bool) option" where
  "network_loop [] el s = Some (el, s, False)"
| "network_loop ((poll, getsockopt_ok, exit_flag) # rounds) el s =
     do { (el, s, ret) \<leftarrow> wait_next_event poll getsockopt_ok 10 el s;
          (if ret = Exit then Some (el, s, True)
           else do { s \<leftarrow> tick_side (nw_host_side s) s;
                     s \<leftarrow> tick_side (nw_internet_side s) s;
                     (if exit_flag then Some (el, s, True) else network_loop rounds el s) }) }"

section \<open>The routes\<close>

definition host_route :: "u32 \<Rightarrow> u8 \<Rightarrow> Route" where
  "host_route net len = \<lparr>rt_prefix = net, rt_length = len, rt_next_hop = None, rt_interface = 0\<rparr>"

definition internet_route :: "u32 \<Rightarrow> u8 \<Rightarrow> Address option \<Rightarrow> Route" where
  "internet_route net len next_hop = \<lparr>rt_prefix = net, rt_length = len, rt_next_hop = next_hop, rt_interface = 1\<rparr>"

lemmas route_defs = host_route_def internet_route_def

lemma client_router_eq:
  "client_router srt eth_host eth_internet = (0, 1,
     table_of srt [(0xC0A80000, 16, None, 0), (0x0A000000, 8, None, 1), (0xAC100000, 12, Some (IPv4_address 0x0A0000AC 0), 1)]
       (router\<lparr>ro_interfaces := [network_interface eth_host (IPv4_address 0xC0A80001 0),
          network_interface eth_internet (IPv4_address 0x0A0000C0 0)]\<rparr>))"
  by (simp add: client_router_def table_of_def add_interface_def router_def vsize_def Let_def)

lemma server_router_eq:
  "server_router srt eth_host eth_internet = (0, 1,
     table_of srt [(0xAC100000, 12, None, 0), (0x0A000000, 8, None, 1), (0xC0A80000, 16, Some (IPv4_address 0x0A0000C0 0), 1)]
       (router\<lparr>ro_interfaces := [network_interface eth_host (IPv4_address 0xAC100001 0),
          network_interface eth_internet (IPv4_address 0x0A0000AC 0)]\<rparr>))"
  by (simp add: server_router_def table_of_def add_interface_def router_def vsize_def Let_def)

text \<open>The three networks do not overlap, so at most one route covers an address.\<close>

definition in_client_net :: "u32 \<Rightarrow> bool" where
  "in_client_net ip \<longleftrightarrow> drop_bit 16 ip = 0xC0A8"

definition in_server_net :: "u32 \<Rightarrow> bool" where
  "in_server_net ip \<longleftrightarrow> drop_bit 20 ip = 0xAC1"

definition in_backbone :: "u32 \<Rightarrow> bool" where
  "in_backbone ip \<longleftrightarrow> drop_bit 24 ip = 0x0A"

lemma drop_more: "drop_bit 24 (ip :: u32) = drop_bit 8 (drop_bit 16 ip)" "drop_bit 24 ip = drop_bit 4 (drop_bit 20 ip)"
  "drop_bit 20 ip = drop_bit 4 (drop_bit 16 ip)"
  by (simp_all add: drop_bit_drop_bit)

lemma networks_disjoint:
  "in_client_net ip \<Longrightarrow> \<not> in_server_net ip" "in_client_net ip \<Longrightarrow> \<not> in_backbone ip" "in_server_net ip \<Longrightarrow> \<not> in_backbone ip"
  unfolding in_client_net_def in_server_net_def in_backbone_def
  by (simp only: drop_more(3), simp) (simp only: drop_more(1), simp, simp only: drop_more(2), simp)

text \<open>A search in which at most one route covers the address finds it, in whatever order.\<close>

lemma find_the_cover:
  assumes "sorts_routes srt" and "\<forall>(p, n, a, i) \<in> set entries. unat n \<le> 32"
    and "\<forall>e \<in> set entries. covers (entry_route e) ip \<longrightarrow> entry_route e = route"
  shows "find_match (ro_routes (table_of srt entries (router\<lparr>ro_interfaces := nis\<rparr>))) ip
    = Some (if \<exists>e \<in> set entries. covers (entry_route e) ip then Some route else None)"
proof -
  let ?R = "ro_routes (table_of srt entries (router\<lparr>ro_interfaces := nis\<rparr>))"
  have set: "set ?R = entry_route ` set entries"
    using sorts_routes.table_routes [OF assms(1)] by (simp add: router_def)
  have "\<forall>r \<in> set ?R. unat (rt_length r) \<le> 32" using assms(2) unfolding set by (auto simp: entry_route_def)
  note f = find_match_find [OF this, of ip]
  show ?thesis
  proof (cases "find (\<lambda>r. covers r ip) ?R")
    case None
    then show ?thesis using f find_none [of ip ?R] unfolding set by auto
  next
    case (Some r)
    then have "r \<in> set ?R" "covers r ip" by (auto simp: find_Some_iff)
    then show ?thesis using f Some assms(3) unfolding set by auto
  qed
qed

lemma entry_covers:
  "covers (entry_route (0xC0A80000, 16, a, i)) ip \<longleftrightarrow> in_client_net ip"
  "covers (entry_route (0xAC100000, 12, a, i)) ip \<longleftrightarrow> in_server_net ip"
  "covers (entry_route (0x0A000000, 8, a, i)) ip \<longleftrightarrow> in_backbone ip"
  by (auto simp: covers_def entry_route_def in_client_net_def in_server_net_def in_backbone_def)

section \<open>Through the network\<close>

lemma clone_frame_bytes:
  "fr_header (clone_frame f) = fr_header f" "bytes_of (fr_payload (clone_frame f)) = bytes_of (fr_payload f)"
  by (simp_all add: clone_frame_def bytes_of_def comp_def)

text \<open>A datagram in a frame that is read from a descriptor and received by the interface it is for.\<close>

lemma frame_crosses:
  assumes d: "carries msg sa sp da dp d" and f: "ipv4_frame ni eth d = Some f" and "eth = ni_ethernet_address ni'"
    and len: "length (sm_payload (ref_get (tm_sender msg))) \<le> 16384"
    and f': "fr_header f' = fr_header f" "bytes_of (fr_payload f') = bytes_of (fr_payload f)"
  shows "\<exists>g d'. maybe_receive_frame (\<lambda>_. Done (bytes_of (serialize_frame f'))) fd = Some (register_read fd, Some g)
    \<and> recv_frame ni' g = Some (ni'\<lparr>ni_received := ni_received ni' @ [d']\<rparr>, [])
    \<and> carries msg sa sp da dp d' \<and> dg_header d' = dg_header d
    \<and> (\<forall>b \<in> set (dg_payload d'). is_owned b) \<and> no_gap (dg_payload d')"
proof -
  obtain bufs where bufs: "serialize_datagram d = Some bufs"
      "length (bytes_of bufs) = 40 + length (sm_payload (ref_get (tm_sender msg)))"
    and parses: "\<And>bufs'. \<lbrakk>\<forall>b \<in> set bufs'. is_owned b; no_gap bufs'; bytes_of bufs' = bytes_of bufs\<rbrakk> \<Longrightarrow>
      \<exists>d'. parse_datagram bufs' = Some (d', True) \<and> dg_header d' = dg_header d
        \<and> bytes_of (dg_payload d') = bytes_of (dg_payload d)
        \<and> (\<forall>b \<in> set (dg_payload d'). is_owned b) \<and> no_gap (dg_payload d')"
    using carries_wire [OF d] by blast
  have h: "fr_header f = \<lparr>eh_dst = eth, eh_src = ni_ethernet_address ni, eh_type = TYPE_IPv4\<rparr>" "fr_payload f = bufs"
    using f bufs(1) by (auto simp: ipv4_frame_def)
  let ?wire = "bytes_of (serialize_frame f')"
  have wire: "?wire = header_bytes (fr_header f) @ bytes_of bufs"
    by (simp add: serialize_frame_bytes f' h(2))
  have "length ?wire \<le> 54 + kReadBufferSize" using bufs(2) len by (simp add: wire kReadBufferSize_def)
  then obtain strs where strs: "fd_read_vector (\<lambda>_. Done ?wire) frame_buffers fd = Some (register_read fd, strs)"
    "bytes_of (map ref_of strs) = ?wire" "no_gap (map ref_of strs)"
    using readv_bytes [of "butlast frame_buffers" ?wire fd]
    by (auto simp: frame_buffers_def IPV4_LENGTH_def TCP_HEADER_LENGTH_def)
  have "length (bytes_of bufs) < 2 ^ 63" using bufs(2) len by simp
  from frame_parse_any [OF _ strs(3) strs(2) [unfolded wire] this] obtain payload
    where g: "parse_frame (map ref_of strs) = Some (\<lparr>fr_header = fr_header f, fr_payload = payload\<rparr>, True)"
      "bytes_of payload = bytes_of bufs" "no_gap payload" "\<forall>b \<in> set payload. is_owned b"
    by auto
  obtain d' where d': "parse_datagram payload = Some (d', True)" "dg_header d' = dg_header d"
    "bytes_of (dg_payload d') = bytes_of (dg_payload d)" "\<forall>b \<in> set (dg_payload d'). is_owned b" "no_gap (dg_payload d')"
    using parses [OF g(4,3,2)] by blast
  have "maybe_receive_frame (\<lambda>_. Done ?wire) fd = Some (register_read fd, Some \<lparr>fr_header = fr_header f, fr_payload = payload\<rparr>)"
    by (simp add: maybe_receive_frame_def strs(1) g(1))
  moreover have "recv_frame ni' \<lparr>fr_header = fr_header f, fr_payload = payload\<rparr>
      = Some (ni'\<lparr>ni_received := ni_received ni' @ [clone_datagram d']\<rparr>, [])"
    by (simp add: recv_frame_def h(1) assms(3) d'(1))
  moreover have "carries msg sa sp da dp (clone_datagram d')"
    by (rule carries_cong [OF d]) (simp_all add: clone_datagram_def d'(2,3))
  moreover have "dg_header (clone_datagram d') = dg_header d" "\<forall>b \<in> set (dg_payload (clone_datagram d')). is_owned b"
    "no_gap (dg_payload (clone_datagram d'))"
    using d'(2,5) by (simp_all add: clone_datagram_def)
  ultimately show ?thesis by blast
qed

text \<open>A router of two interfaces that has received one datagram and knows the next hop's address.\<close>

lemma router_passes:
  assumes table: "ro_routes r \<noteq> []" "table_ok (ro_routes r)" and nis: "ro_interfaces r = [x, y]"
    and received: "ni_received x @ ni_received y = [d]"
    and match: "find_match (ro_routes r) (ip_dst (dg_header d)) = Some (Some route)" "unat (rt_interface route) = n" "n < 2"
    and hop: "ipv4_numeric (case rt_next_hop route of Some a \<Rightarrow> a | None \<Rightarrow> from_ipv4_numeric (ip_dst (dg_header d))) = Some ip"
      "ni_cache ([x, y] ! n) ip = Some (eth, age)"
    and d: "carries msg sa sp da dp d" "1 < ip_ttl (dg_header d)"
  shows "\<exists>d' f. router_route r = Some (r\<lparr>ro_interfaces := [with_received [] x, with_received [] y]\<rparr>, [(n, f)])
    \<and> ipv4_frame ([x, y] ! n) eth d' = Some f \<and> carries msg sa sp da dp d'
    \<and> ip_ttl (dg_header d') = ip_ttl (dg_header d) - 1"
proof -
  obtain h where h: "compute_checksum ((dg_header d)\<lparr>ip_ttl := ip_ttl (dg_header d) - 1\<rparr>) = Some h"
      "ip_ttl h = ip_ttl (dg_header d) - 1" "ip_ver h = 4" "carries msg sa sp da dp (d\<lparr>dg_header := h\<rparr>)"
    using carries_ttl [OF d(1)] by blast
  let ?d' = "(clone_datagram d)\<lparr>dg_header := h\<rparr>"
  have v: "\<forall>ni \<in> set (ro_interfaces r). \<forall>d \<in> set (ni_received ni). ip_ver (dg_header d) = 4"
  proof -
    have "set (ni_received x) \<union> set (ni_received y) = {d}" using received by (metis list.set(1,2) set_append)
    then show ?thesis using d(1) by (auto simp: nis carries_def Let_def plain_header_def)
  qed
  let ?hop = "case rt_next_hop route of Some a \<Rightarrow> a | None \<Rightarrow> from_ipv4_numeric (ip_dst (dg_header d))"
  have "find (\<lambda>r. covers r (ip_dst (dg_header d))) (ro_routes r) = Some route"
    using match(1) find_match_find table(2) by (simp add: table_ok_def)
  moreover have "\<not> ip_ttl (dg_header d) \<le> 1" using d(2) by (simp only: not_le)
  ultimately have dec: "all_decisions (ro_routes r) [d] = [(n, ?d', ?hop)]"
    using h(1) match(2) by (simp add: all_decisions_def decisions_def)
  obtain f where f: "ipv4_frame ([x, y] ! n) eth ?d' = Some f"
    using ipv4_frame_defined [of ?d' "[x, y] ! n" eth] h(3) by auto
  let ?nis = "[with_received [] x, with_received [] y]"
  have n: "n = 0 \<or> n = 1" using match(3) by auto
  then have "send_datagram (?nis ! n) ?d' ?hop = Some (?nis ! n, [f])"
    using hop f by (auto simp: send_datagram_def with_received_def ipv4_frame_def)
  then have "forward [(n, ?d', ?hop)] ?nis = Some (?nis, [(n, f)])" using n by (elim disjE) simp_all
  then have "router_route r = Some (r\<lparr>ro_interfaces := ?nis\<rparr>, [(n, f)])"
    using router_route_forward [OF table v] dec received by (simp add: nis)
  moreover have "carries msg sa sp da dp ?d'"
    by (rule carries_cong [OF h(4)]) (simp_all add: clone_datagram_def)
  ultimately show ?thesis using f h(2) by auto
qed

text \<open>A network whose router was set up so, and now has nothing left to route.\<close>

definition set_up_as :: "u64 \<times> u64 \<times> Router \<Rightarrow> NetworkInterface \<Rightarrow> NetworkInterface \<Rightarrow> Network \<Rightarrow> bool" where
  "set_up_as routers x y s \<longleftrightarrow> nw_host_side s = fst routers \<and> nw_internet_side s = fst (snd routers)
     \<and> ro_routes (nw_router s) = ro_routes (snd (snd routers)) \<and> ro_interfaces (nw_router s) = [x, y]
     \<and> ni_received x = [] \<and> ni_received y = []"

lemma set_up_table:
  assumes "sorts_routes srt" and "entries \<noteq> []" and "\<forall>(p, n, a, i) \<in> set entries. unat n \<le> 32"
    and "ro_routes r = ro_routes (table_of srt entries (router\<lparr>ro_interfaces := nis\<rparr>))"
  shows "ro_routes r \<noteq> []" and "table_ok (ro_routes r)"
proof -
  have set: "set (ro_routes r) = entry_route ` set entries"
    using sorts_routes.table_routes [OF assms(1)] by (simp add: assms(4) router_def)
  then show "ro_routes r \<noteq> []" using assms(2) by (metis empty_is_image list.set(1) set_empty)
  show "table_ok (ro_routes r)" using set assms(3) by (auto simp: table_ok_def entry_route_def)
qed

text \<open>A datagram that arrives at interface \<open>side\<close> leaves through interface \<open>n\<close>.\<close>

lemma network_forwards:
  assumes s: "ro_interfaces (nw_router s) = [x, y]" "ni_received x = []" "ni_received y = []"
    and table: "ro_routes (nw_router s) \<noteq> []" "table_ok (ro_routes (nw_router s))"
    and recv: "recv_frame ([x, y] ! unat side) g = Some (([x, y] ! unat side)\<lparr>ni_received := [d]\<rparr>, [])" "unat side < 2"
    and match: "find_match (ro_routes (nw_router s)) da = Some (Some route)" "unat (rt_interface route) = n" "n < 2"
    and hop: "ipv4_numeric (case rt_next_hop route of Some a \<Rightarrow> a | None \<Rightarrow> from_ipv4_numeric da) = Some ip"
      "ni_cache ([x, y] ! n) ip = Some (eth, age)"
    and d: "carries msg sa sp da dp d" "1 < ip_ttl (dg_header d)"
  shows "\<exists>d' f r'. router_takes side g s = Some (router_sends [(n, f)] (s\<lparr>nw_router := r'\<rparr>))
    \<and> ipv4_frame ([x, y] ! n) eth d' = Some f \<and> carries msg sa sp da dp d'
    \<and> ip_ttl (dg_header d') = ip_ttl (dg_header d) - 1"
proof -
  let ?ni = "([x, y] ! unat side)\<lparr>ni_received := [d]\<rparr>"
  have side: "unat side = 0 \<or> unat side = 1" using recv(2) by auto
  then have "\<exists>u v. [x, y][unat side := ?ni] = [u, v]" by (elim disjE) simp_all
  then obtain u v where uv: "[x, y][unat side := ?ni] = [u, v]" by blast
  have "ni_received u @ ni_received v = [d]" using side s(2,3) uv by (elim disjE) auto
  moreover have same: "ni_cache ([u, v] ! n) = ni_cache ([x, y] ! n)" "ni_ethernet_address ([u, v] ! n) = ni_ethernet_address ([x, y] ! n)"
  proof -
    have "n = 0 \<or> n = 1" using match(3) by auto
    then show "ni_cache ([u, v] ! n) = ni_cache ([x, y] ! n)" "ni_ethernet_address ([u, v] ! n) = ni_ethernet_address ([x, y] ! n)"
      using side uv by (elim disjE; auto)+
  qed
  moreover have "ip_dst (dg_header d) = da" using d(1) by (simp add: carries_def Let_def)
  ultimately obtain d' f where out: "router_route (nw_router s\<lparr>ro_interfaces := [u, v]\<rparr>)
      = Some (nw_router s\<lparr>ro_interfaces := [with_received [] u, with_received [] v]\<rparr>, [(n, f)])"
    "ipv4_frame ([u, v] ! n) eth d' = Some f" "carries msg sa sp da dp d'" "ip_ttl (dg_header d') = ip_ttl (dg_header d) - 1"
    using router_passes [of "nw_router s\<lparr>ro_interfaces := [u, v]\<rparr>" u v d route n ip eth age msg sa sp da dp]
      table match hop d by auto
  have "router_interface (nw_router s) side = Some ([x, y] ! unat side)" using recv(2) by (simp add: router_interface_def s(1))
  then have "router_takes side g s
      = Some (router_sends [(n, f)] (s\<lparr>nw_router := nw_router s\<lparr>ro_interfaces := [with_received [] u, with_received [] v]\<rparr>\<rparr>))"
    using recv(1) out(1) uv by (simp add: router_takes_def s(1) Let_def)
  moreover have "ipv4_frame ([x, y] ! n) eth d' = Some f" using out(2) same(2) by (simp add: ipv4_frame_def)
  ultimately show ?thesis using out(3,4) by blast
qed

lemma router_sends_simps [simp]:
  "nw_router_to_host (router_sends out s) = nw_router_to_host s @ frames_on (nw_host_side s) out"
  "nw_router_to_internet (router_sends out s) = nw_router_to_internet s @ frames_on (nw_internet_side s) out"
  by (simp_all add: router_sends_def)

lemma table_interfaces: "ro_interfaces (table_of srt es r) = ro_interfaces r"
  by (induction es arbitrary: r) (auto simp: table_of_def add_route_def)

lemma server_backbone_address:
  "ni_ip_address (ro_interfaces (snd (snd (server_router srt e1 e2))) ! 1) = IPv4_address 0x0A0000AC 0"
  "ni_ip_address (ro_interfaces (snd (snd (client_router srt e1 e2))) ! 1) = IPv4_address 0x0A0000C0 0"
  by (simp_all add: server_router_eq client_router_eq table_interfaces network_interface_def)

lemma next_hop_is_router:
  "snd (endtoend_addresses True) = ni_ip_address (ro_interfaces (snd (snd (client_router srt e1 e2))) ! 0)"
  "snd (endtoend_addresses False) = ni_ip_address (ro_interfaces (snd (snd (server_router srt e1 e2))) ! 0)"
  by (simp_all add: endtoend_addresses_def server_router_eq client_router_eq table_interfaces network_interface_def)

lemma three_routes:
  assumes "sorts_routes srt" and "entries = [(p1, n1, a1, i1), (p2, n2, a2, i2), (p3, n3, a3, i3)]"
    and "unat n1 \<le> 32" and "unat n2 \<le> 32" and "unat n3 \<le> 32"
    and "\<And>a i. covers (entry_route (p1, n1, a, i)) ip = P" and "\<And>a i. covers (entry_route (p2, n2, a, i)) ip = Q"
    and "\<And>a i. covers (entry_route (p3, n3, a, i)) ip = R"
    and "P \<Longrightarrow> \<not> Q" and "P \<Longrightarrow> \<not> R" and "Q \<Longrightarrow> \<not> R"
  shows "find_match (ro_routes (table_of srt entries (router\<lparr>ro_interfaces := nis\<rparr>))) ip = Some (
    if P then Some (entry_route (p1, n1, a1, i1)) else if Q then Some (entry_route (p2, n2, a2, i2))
    else if R then Some (entry_route (p3, n3, a3, i3)) else None)"
proof -
  let ?route = "if P then entry_route (p1, n1, a1, i1) else if Q then entry_route (p2, n2, a2, i2) else entry_route (p3, n3, a3, i3)"
  have "find_match (ro_routes (table_of srt entries (router\<lparr>ro_interfaces := nis\<rparr>))) ip
      = Some (if \<exists>e \<in> set entries. covers (entry_route e) ip then Some ?route else None)"
    using assms(3-) by (intro find_the_cover [OF assms(1)]) (auto simp: assms(2))
  then show ?thesis using assms(6-) by (auto simp: assms(2))
qed

lemma client_routes:
  assumes "sorts_routes srt"
  shows "find_match (ro_routes (snd (snd (client_router srt e1 e2)))) ip = Some (
    if in_client_net ip then Some (host_route 0xC0A80000 16)
    else if in_backbone ip then Some (internet_route 0x0A000000 8 None)
    else if in_server_net ip then Some (internet_route 0xAC100000 12 (Some (IPv4_address 0x0A0000AC 0))) else None)"
proof -
  have "find_match (ro_routes (snd (snd (client_router srt e1 e2)))) ip = Some (
    if in_client_net ip then Some (entry_route (0xC0A80000, 16, None, 0))
    else if in_backbone ip then Some (entry_route (0x0A000000, 8, None, 1))
    else if in_server_net ip then Some (entry_route (0xAC100000, 12, Some (IPv4_address 0x0A0000AC 0), 1)) else None)"
    unfolding client_router_eq snd_conv
    by (rule three_routes [OF assms refl _ _ _ entry_covers(1,3,2)]) (use networks_disjoint [of ip] in auto)
  then show ?thesis by (simp add: entry_route_def route_defs)
qed

lemma server_routes:
  assumes "sorts_routes srt"
  shows "find_match (ro_routes (snd (snd (server_router srt e1 e2)))) ip = Some (
    if in_server_net ip then Some (host_route 0xAC100000 12)
    else if in_backbone ip then Some (internet_route 0x0A000000 8 None)
    else if in_client_net ip then Some (internet_route 0xC0A80000 16 (Some (IPv4_address 0x0A0000C0 0))) else None)"
proof -
  have "find_match (ro_routes (snd (snd (server_router srt e1 e2)))) ip = Some (
    if in_server_net ip then Some (entry_route (0xAC100000, 12, None, 0))
    else if in_backbone ip then Some (entry_route (0x0A000000, 8, None, 1))
    else if in_client_net ip then Some (entry_route (0xC0A80000, 16, Some (IPv4_address 0x0A0000C0 0), 1)) else None)"
    unfolding server_router_eq snd_conv
    by (rule three_routes [OF assms refl _ _ _ entry_covers(2,3,1)]) (use networks_disjoint [of ip] in auto)
  then show ?thesis by (simp add: entry_route_def route_defs)
qed

text \<open>
  Whatever order the sort gives to routes of equal length, the client's router sends what is
  for the client's network to the host's side directly, what is for the backbone to the Internet
  side directly, and what is for the server's network to the server's router on the backbone; the
  server's router does the same with the parts exchanged; nothing else has a route.
\<close>
lemma endtoend_routes:
  assumes "sorts_routes srt"
  shows "find_match (ro_routes (snd (snd (client_router srt e1 e2)))) ip = Some (
      if in_client_net ip then Some (host_route 0xC0A80000 16)
      else if in_backbone ip then Some (internet_route 0x0A000000 8 None)
      else if in_server_net ip then Some (internet_route 0xAC100000 12
        (Some (ni_ip_address (ro_interfaces (snd (snd (server_router srt e3 e4))) ! 1)))) else None)
    \<and> find_match (ro_routes (snd (snd (server_router srt e3 e4)))) ip = Some (
      if in_server_net ip then Some (host_route 0xAC100000 12)
      else if in_backbone ip then Some (internet_route 0x0A000000 8 None)
      else if in_client_net ip then Some (internet_route 0xC0A80000 16
        (Some (ni_ip_address (ro_interfaces (snd (snd (client_router srt e1 e2))) ! 1)))) else None)"
  using client_routes [OF assms] server_routes [OF assms] by (simp only: server_backbone_address)

section \<open>What the loop keeps\<close>

text \<open>
  The frames an interface of the router has sent are, in this order, those that have been written
  to its side and those that wait.
\<close>

definition network_inv :: "u64 \<Rightarrow> u64 \<Rightarrow> Network \<Rightarrow> bool" where
  "network_inv m n s \<longleftrightarrow> nw_host_side s = m \<and> nw_internet_side s = n
     \<and> frames_on m (nh_sent (nw_history s)) = nh_to_host (nw_history s) @ nw_router_to_host s
     \<and> frames_on n (nh_sent (nw_history s)) = nh_to_internet (nw_history s) @ nw_router_to_internet s"

lemma frames_on_append [simp]: "frames_on n (xs @ ys) = frames_on n xs @ frames_on n ys"
  by (simp add: frames_on_def)

lemma router_takes_inv:
  "network_inv m n s \<Longrightarrow> router_takes side frame s = Some s' \<Longrightarrow> network_inv m n s'"
  by (auto simp: router_takes_def network_inv_def router_sends_def Let_def split: Option.bind_splits)

lemma network_inv_cong:
  "network_inv m n (net_call (s\<lparr>nw_frame_fd := fd\<rparr>)) = network_inv m n s"
  "network_inv m n (net_call (s\<lparr>nw_internet_socket := fd\<rparr>)) = network_inv m n s"
  by (simp_all add: network_inv_def net_call_def)

lemma callbacks_inv:
  assumes "network_inv m n s"
  shows "host_to_router k s = Some s' \<Longrightarrow> network_inv m n s'"
    and "internet_to_router k s = Some s' \<Longrightarrow> network_inv m n s'"
    and "router_to_host k s = Some s' \<Longrightarrow> network_inv m n s'"
    and "router_to_internet k s = Some s' \<Longrightarrow> network_inv m n s'"
proof -
  show "network_inv m n s'" if "host_to_router k s = Some s'"
    using that assms by (auto simp: host_to_router_def network_inv_cong split: Option.bind_splits option.splits
        elim!: router_takes_inv [rotated])
  show "network_inv m n s'" if "internet_to_router k s = Some s'"
    using that assms by (auto simp: internet_to_router_def network_inv_cong split: Option.bind_splits option.splits
        elim!: router_takes_inv [rotated])
  show "network_inv m n s'" if "router_to_host k s = Some s'"
    using that assms by (auto simp: router_to_host_def network_inv_def net_call_def split: Option.bind_splits list.splits)
  show "network_inv m n s'" if "router_to_internet k s = Some s'"
    using that assms by (auto simp: router_to_internet_def network_inv_def net_call_def split: Option.bind_splits list.splits)
qed

lemma tick_side_inv: "network_inv m n s \<Longrightarrow> tick_side side s = Some s' \<Longrightarrow> network_inv m n s'"
  by (auto simp: tick_side_def network_inv_def Let_def split: Option.bind_splits)

definition network_rule_list :: "NetKernel \<Rightarrow> Network FDRule list" where
  "network_rule_list k = el_fd_rules (the (network_rules k (event_loop 64)))"

lemma network_rule_list_eq:
  "network_rule_list k =
     [\<lparr>br_id = 0, br_category_id = 0, br_interest = (\<lambda>_. True), br_callback = host_to_router k,
       br_cancel_requested = False, fr_fd = nw_frame_fd, fr_direction = In, fr_cancel = Some, fr_error = Some\<rparr>,
      \<lparr>br_id = 1, br_category_id = 1, br_interest = to_host_interest, br_callback = router_to_host k,
       br_cancel_requested = False, fr_fd = nw_frame_fd, fr_direction = Out, fr_cancel = Some, fr_error = Some\<rparr>,
      \<lparr>br_id = 2, br_category_id = 2, br_interest = to_internet_interest, br_callback = router_to_internet k,
       br_cancel_requested = False, fr_fd = nw_internet_socket, fr_direction = Out, fr_cancel = Some, fr_error = Some\<rparr>,
      \<lparr>br_id = 3, br_category_id = 3, br_interest = (\<lambda>_. True), br_callback = internet_to_router k,
       br_cancel_requested = False, fr_fd = nw_internet_socket, fr_direction = In, fr_cancel = Some, fr_error = Some\<rparr>]"
  "network_rules k (event_loop 64) = Some el \<Longrightarrow> el_fd_rules el = network_rule_list k \<and> el_non_fd_rules el = []"
  by (auto simp: network_rule_list_def network_rules_def add_named_fd_rule_def add_category_def add_fd_rule_def event_loop_def)

interpretation network: watched "set (network_rule_list k)" "network_inv m n" "\<lambda>_ _. True" for k m n
proof
  show "network_inv m n s'"
    if "rule \<in> set (network_rule_list k)" "network_inv m n s" "br_callback rule s = Some s'" for rule s s'
    using that(1,3) callbacks_inv [OF that(2)] by (auto simp: network_rule_list_eq(1))
qed (auto simp: network_rule_list_eq(1))

lemma network_rules_sorted: "sorted_wrt (<) (map br_id (network_rule_list k))"
  by (simp add: network_rule_list_eq(1))

lemma network_loop_keeps_order:
  assumes "network_loop rounds el s = Some (el', s', ended)" and "network.loop_ok k el" and "network_inv m n s"
  shows "network_inv m n s'"
  using assms
proof (induction rounds el s rule: network_loop.induct)
  case (2 poll ok exit_flag rounds el s)
  obtain el1 s1 ret where w: "wait_next_event poll ok 10 el s = Some (el1, s1, ret)"
    using 2(2) by (auto split: Option.bind_splits)
  note i = network.wait_keeps [OF w 2(3,4)]
  show ?case
  proof (cases "ret = Exit")
    case False
    then obtain s2 s3 where t: "tick_side (nw_host_side s1) s1 = Some s2" "tick_side (nw_internet_side s2) s2 = Some s3"
      using 2(2) w by (auto split: Option.bind_splits)
    have "network_inv m n s3" using tick_side_inv t i by blast
    then show ?thesis using 2(1) [OF w refl refl False t] 2(2) w t i False by (cases exit_flag) auto
  qed (use 2(2) w i in simp)
qed simp

lemma network_loop_fifo:
  assumes "network_rules k (event_loop 64) = Some el0" and "network_inv m n s0"
    and "network_loop rounds el0 s0 = Some (el, s, ended)"
  shows "network_inv m n s"
proof -
  have "network.loop_ok k el0"
    using network_rule_list_eq(2) [OF assms(1)] network_rules_sorted [of k]
    by (simp add: network.loop_ok_def network.known_def)
  then show ?thesis using network_loop_keeps_order assms(2,3) by blast
qed

section \<open>Properties\<close>

text \<open>
  C2: a message for the server that the client's adapter writes crosses the network: the adapter
  sends one frame; from its bytes the client's router makes one frame for the Internet; from
  that one's bytes the server's router makes one frame for its host; and from those bytes the
  server's adapter reads the same message, with the reset flag in both halves if it was in one.
  This is for interfaces that know the next hop's Ethernet address, and with datagram sockets that
  deliver the bytes that were written.
\<close>
theorem message_crosses_network:
  assumes "sorts_routes srt"
    and "set_up_as (client_router srt e1 e2) c_host c_net nc" and "set_up_as (server_router srt e3 e4) s_host s_net ns"
    and "fd_source (fd_cfg (na_adapter a)) = IPv4_address sa sp" and "fd_destination (fd_cfg (na_adapter a)) = IPv4_address da dp"
    and "in_server_net da" and "na_next_hop a = IPv4_address 0xC0A80001 0"
    and "ni_cache (na_interface a) 0xC0A80001 = Some (ni_ethernet_address c_host, age1)"
    and "ni_cache c_net 0x0A0000AC = Some (ni_ethernet_address s_net, age2)"
    and "ni_cache s_host da = Some (ni_ethernet_address (na_interface b), age3)"
    and "ni_received (na_interface b) = []" and "listens_for msg sa sp da dp (na_adapter b)"
    and "length (sm_payload (ref_get (tm_sender msg))) \<le> 16384"
  shows "\<exists>f1 f2 f3. (\<forall>k w. wo_adapter w = a \<longrightarrow> adapter_write k msg w = transmit k [f1] w)
    \<and> (\<forall>k. nk_frame_readv k (nw_history nc) = (\<lambda>_. Done (bytes_of (serialize_frame f1))) \<longrightarrow>
         (\<exists>nc'. host_to_router k nc = Some nc' \<and> nw_router_to_internet nc' = nw_router_to_internet nc @ [f2]
            \<and> nw_router_to_host nc' = nw_router_to_host nc))
    \<and> (\<forall>k. nk_internet_readv k (nw_history ns) = (\<lambda>_. Done (bytes_of (serialize_frame f2))) \<longrightarrow>
         (\<exists>ns'. internet_to_router k ns = Some ns' \<and> nw_router_to_host ns' = nw_router_to_host ns @ [f3]
            \<and> nw_router_to_internet ns' = nw_router_to_internet ns))
    \<and> (\<forall>k w. wo_adapter w = b \<and> kn_readv k w = (\<lambda>_. Done (bytes_of (serialize_frame f3))) \<longrightarrow>
         (\<exists>w'. adapter_read k w = Some (w', Some (received_message msg))))"
proof -
  have small: "length (sm_payload (ref_get (tm_sender msg))) < 2 ^ 16 - 40" using assms(13) by simp
  obtain d1 where d1: "wrap_tcp_in_ip (na_adapter a) msg = Some d1" "carries msg sa sp da dp d1"
      "ip_ttl (dg_header d1) = ip_ttl ipv4_header"
    using wrap_carries [OF assms(4,5) small] by blast
  have v1: "ip_ver (dg_header d1) = 4" using d1(2) by (simp add: carries_def Let_def plain_header_def)
  obtain f1 where f1: "ipv4_frame (na_interface a) (ni_ethernet_address c_host) d1 = Some f1"
    using ipv4_frame_defined [OF v1] by blast
  have sends: "adapter_write k msg w = transmit k [f1] w" if "wo_adapter w = a" for k w
  proof -
    have "send_datagram (na_interface a) d1 (na_next_hop a) = Some (na_interface a, [f1])"
      using f1 by (simp add: send_datagram_def assms(7,8))
    moreover have "on_device (\<lambda>a'. a\<lparr>na_interface := na_interface a\<rparr>) w = w"
      using that by (simp add: on_device_def)
    moreover have "on_device (\<lambda>a. a\<lparr>na_interface := ni\<rparr>) w = on_device (\<lambda>a'. a\<lparr>na_interface := ni\<rparr>) w" for ni
      using that by (simp add: on_device_def)
    ultimately show ?thesis using that d1(1) by (simp add: adapter_write_def)
  qed
  have c: "nw_host_side nc = 0" "nw_internet_side nc = 1" "ro_interfaces (nw_router nc) = [c_host, c_net]"
    "ni_received c_host = []" "ni_received c_net = []"
    "ro_routes (nw_router nc) = ro_routes (snd (snd (client_router srt e1 e2)))"
    using assms(2) by (simp_all add: set_up_as_def client_router_eq)
  have s: "nw_host_side ns = 0" "nw_internet_side ns = 1" "ro_interfaces (nw_router ns) = [s_host, s_net]"
    "ni_received s_host = []" "ni_received s_net = []"
    "ro_routes (nw_router ns) = ro_routes (snd (snd (server_router srt e3 e4)))"
    using assms(3) by (simp_all add: set_up_as_def server_router_eq)
  have ct: "ro_routes (nw_router nc) \<noteq> []" "table_ok (ro_routes (nw_router nc))"
    using set_up_table [OF assms(1) _ _ c(6) [unfolded client_router_eq snd_conv]] by simp_all
  have st: "ro_routes (nw_router ns) \<noteq> []" "table_ok (ro_routes (nw_router ns))"
    using set_up_table [OF assms(1) _ _ s(6) [unfolded server_router_eq snd_conv]] by simp_all
  have not_others: "\<not> in_client_net da" "\<not> in_backbone da" using networks_disjoint assms(6) by blast+
  obtain g1 d1' where g1: "maybe_receive_frame (\<lambda>_. Done (bytes_of (serialize_frame f1))) (nw_frame_fd nc)
      = Some (register_read (nw_frame_fd nc), Some g1)"
    "recv_frame c_host g1 = Some (c_host\<lparr>ni_received := [d1']\<rparr>, [])" "carries msg sa sp da dp d1'" "dg_header d1' = dg_header d1"
    using frame_crosses [OF d1(2) f1 refl assms(13) refl refl, of "nw_frame_fd nc"] by (auto simp: c(4))
  let ?nc = "net_call (nc\<lparr>nw_frame_fd := register_read (nw_frame_fd nc)\<rparr>)"
  have "1 < ip_ttl (dg_header d1')" using g1(4) d1(3) by (simp add: ipv4_header_def)
  then obtain d2 f2 r2 where f2: "router_takes 0 g1 ?nc = Some (router_sends [(1, f2)] (?nc\<lparr>nw_router := r2\<rparr>))"
      "ipv4_frame c_net (ni_ethernet_address s_net) d2 = Some f2" "carries msg sa sp da dp d2"
      "ip_ttl (dg_header d2) = ip_ttl (dg_header d1') - 1"
    using network_forwards [where s = ?nc and x = c_host and y = c_net and side = 0 and g = g1 and d = d1' and da = da
        and route = "internet_route 0xAC100000 12 (Some (IPv4_address 0x0A0000AC 0))" and n = 1 and ip = "0x0A0000AC"
        and eth = "ni_ethernet_address s_net" and age = age2 and msg = msg and sa = sa and sp = sp and dp = dp]
      c ct g1(2,3) client_routes [OF assms(1), of e1 e2 da] assms(6,9) not_others
    by (auto simp: net_call_def internet_route_def)
  obtain g2 d2' where g2: "maybe_receive_frame (\<lambda>_. Done (bytes_of (serialize_frame (clone_frame f2)))) (nw_internet_socket ns)
      = Some (register_read (nw_internet_socket ns), Some g2)"
    "recv_frame s_net g2 = Some (s_net\<lparr>ni_received := [d2']\<rparr>, [])" "carries msg sa sp da dp d2'" "dg_header d2' = dg_header d2"
    using frame_crosses [OF f2(3,2) refl assms(13) clone_frame_bytes, of "nw_internet_socket ns"] by (auto simp: s(5))
  let ?ns = "net_call (ns\<lparr>nw_internet_socket := register_read (nw_internet_socket ns)\<rparr>)"
  have "1 < ip_ttl (dg_header d2')" using g2(4) f2(4) g1(4) d1(3) by (simp add: ipv4_header_def)
  then obtain d3 f3 r3 where f3: "router_takes 1 g2 ?ns = Some (router_sends [(0, f3)] (?ns\<lparr>nw_router := r3\<rparr>))"
      "ipv4_frame s_host (ni_ethernet_address (na_interface b)) d3 = Some f3" "carries msg sa sp da dp d3"
    using network_forwards [where s = ?ns and x = s_host and y = s_net and side = 1 and g = g2 and d = d2' and da = da
        and route = "host_route 0xAC100000 12" and n = 0 and ip = da
        and eth = "ni_ethernet_address (na_interface b)" and age = age3 and msg = msg and sa = sa and sp = sp and dp = dp]
      s st g2(2,3) server_routes [OF assms(1), of e3 e4 da] assms(6,10) not_others
    by (auto simp: net_call_def host_route_def)
  obtain g3 d3' where g3: "maybe_receive_frame (\<lambda>_. Done (bytes_of (serialize_frame (clone_frame f3)))) (na_fd b)
      = Some (register_read (na_fd b), Some g3)"
    "recv_frame (na_interface b) g3 = Some ((na_interface b)\<lparr>ni_received := [d3']\<rparr>, [])" "carries msg sa sp da dp d3'"
    "\<forall>b \<in> set (dg_payload d3'). is_owned b" "no_gap (dg_payload d3')"
    using frame_crosses [OF f3(3,2) refl assms(13) clone_frame_bytes, of "na_fd b"] by (auto simp: assms(11))
  obtain fd' where fd': "unwrap_tcp_in_ip (na_adapter b) d3' = Some (fd', Some (received_message msg))"
    using unwrap_carried [OF g3(3-5) assms(12)] by blast
  show ?thesis
  proof (rule exI [of _ f1], rule exI [of _ "clone_frame f2"], rule exI [of _ "clone_frame f3"], intro conjI allI impI)
    fix k and w :: "InterfaceAdapter World" assume "wo_adapter w = a"
    then show "adapter_write k msg w = transmit k [f1] w" by (rule sends)
  next
    fix k :: NetKernel assume "nk_frame_readv k (nw_history nc) = (\<lambda>_. Done (bytes_of (serialize_frame f1)))"
    then have "host_to_router k nc = Some (router_sends [(1, f2)] (?nc\<lparr>nw_router := r2\<rparr>))"
      using g1(1) f2(1) by (simp add: host_to_router_def net_call_def c(1))
    then show "\<exists>nc'. host_to_router k nc = Some nc' \<and> nw_router_to_internet nc' = nw_router_to_internet nc @ [clone_frame f2]
        \<and> nw_router_to_host nc' = nw_router_to_host nc"
      by (simp add: frames_on_def net_call_def c(1,2))
  next
    fix k :: NetKernel assume "nk_internet_readv k (nw_history ns) = (\<lambda>_. Done (bytes_of (serialize_frame (clone_frame f2))))"
    then have "internet_to_router k ns = Some (router_sends [(0, f3)] (?ns\<lparr>nw_router := r3\<rparr>))"
      using g2(1) f3(1) by (simp add: internet_to_router_def net_call_def s(2))
    then show "\<exists>ns'. internet_to_router k ns = Some ns' \<and> nw_router_to_host ns' = nw_router_to_host ns @ [clone_frame f3]
        \<and> nw_router_to_internet ns' = nw_router_to_internet ns"
      by (simp add: frames_on_def net_call_def s(1,2))
  next
    fix k :: "InterfaceAdapter Kernel" and w :: "InterfaceAdapter World" assume "wo_adapter w = b \<and> kn_readv k w = (\<lambda>_. Done (bytes_of (serialize_frame (clone_frame f3))))"
    then show "\<exists>w'. adapter_read k w = Some (w', Some (received_message msg))"
      using g3(1,2) fd' by (simp add: adapter_read_def take_received_def)
  qed
qed

text \<open>A SYN with one byte, from 192.168.0.50 to 172.16.0.100.\<close>

definition demo_eth :: "byte \<Rightarrow> EthernetAddress" where
  "demo_eth n = EthernetAddress 2 0 0 0 0 n"

definition demo_side :: "byte \<Rightarrow> u32 \<Rightarrow> u32 \<Rightarrow> byte \<Rightarrow> NetworkInterface" where
  "demo_side n ip hop m = (network_interface (demo_eth n) (IPv4_address ip 0))\<lparr>ni_cache := [hop \<mapsto> (demo_eth m, 0)]\<rparr>"

definition demo_network :: "u64 \<times> u64 \<times> Router \<Rightarrow> NetworkInterface \<Rightarrow> NetworkInterface \<Rightarrow> Network" where
  "demo_network routers x y =
     \<lparr>nw_router = (snd (snd routers))\<lparr>ro_interfaces := [x, y]\<rparr>, nw_host_side = fst routers,
      nw_internet_side = fst (snd routers), nw_router_to_host = [], nw_router_to_internet = [],
      nw_frame_fd = demo_fd, nw_internet_socket = demo_fd,
      nw_history = \<lparr>nh_sent = [], nh_to_host = [], nh_to_internet = [], nh_calls = 0\<rparr>\<rparr>"

definition demo_client_network :: Network where
  "demo_client_network = demo_network (client_router sort_routes (demo_eth 1) (demo_eth 2))
     (demo_side 1 0xC0A80001 0 0) (demo_side 2 0x0A0000C0 0x0A0000AC 3)"

definition demo_server_network :: Network where
  "demo_server_network = demo_network (server_router sort_routes (demo_eth 4) (demo_eth 3))
     (demo_side 4 0xAC100001 0xAC100064 6) (demo_side 3 0x0A0000AC 0 0)"

definition demo_adapter :: "byte \<Rightarrow> u32 \<Rightarrow> u32 \<Rightarrow> byte \<Rightarrow> FdAdapter \<Rightarrow> InterfaceAdapter" where
  "demo_adapter n ip hop m fd = \<lparr>na_adapter = fd, na_interface = demo_side n ip hop m,
     na_next_hop = IPv4_address hop 0, na_fd = demo_fd\<rparr>"

definition demo_client_adapter :: InterfaceAdapter where
  "demo_client_adapter = demo_adapter 5 0xC0A80032 0xC0A80001 1 (set_config (demo_config 0xC0A80032 80 0xAC100064 1234) fd_adapter)"

definition demo_server_adapter :: InterfaceAdapter where
  "demo_server_adapter = demo_adapter 6 0xAC100064 0xAC100001 4
     (set_listening True (set_config (demo_config 0xAC100064 1234 0 0) fd_adapter))"

definition demo_net_kernel :: "byte list \<Rightarrow> NetKernel" where
  "demo_net_kernel bytes = \<lparr>nk_frame_readv = (\<lambda>h n. Done bytes), nk_frame_writev = (\<lambda>h views. Done 0),
     nk_internet_readv = (\<lambda>h n. Done bytes), nk_internet_writev = (\<lambda>h views. Done 0)\<rparr>"

definition demo_link_kernel :: "byte list \<Rightarrow> InterfaceAdapter Kernel" where
  "demo_link_kernel bytes = \<lparr>kn_readv = (\<lambda>w n. Done bytes), kn_dev_writev = (\<lambda>w views. Done (length (concat views))),
     kn_read = (\<lambda>w n. Done []), kn_writev = (\<lambda>w views. Done 0), kn_shutdown = (\<lambda>w fd how. Done ())\<rparr>"

definition demo_link :: "InterfaceAdapter \<Rightarrow> InterfaceAdapter World" where
  "demo_link a = \<lparr>wo_adapter = a, wo_log = \<lparr>lg_sent = [], lg_received = [], lg_from_app = [], lg_to_app = []\<rparr>, wo_calls = 0\<rparr>"

theorem message_crosses_network_witness:
  "\<exists>f1 f2 f3 nc' ns' w'. adapter_write (demo_link_kernel []) demo_syn (demo_link demo_client_adapter)
       = transmit (demo_link_kernel []) [f1] (demo_link demo_client_adapter)
     \<and> host_to_router (demo_net_kernel (bytes_of (serialize_frame f1))) demo_client_network = Some nc'
     \<and> nw_router_to_internet nc' = [f2]
     \<and> internet_to_router (demo_net_kernel (bytes_of (serialize_frame f2))) demo_server_network = Some ns'
     \<and> nw_router_to_host ns' = [f3]
     \<and> adapter_read (demo_link_kernel (bytes_of (serialize_frame f3))) (demo_link demo_server_adapter)
       = Some (w', Some (received_message demo_syn))"
proof -
  have c: "set_up_as (client_router sort_routes (demo_eth 1) (demo_eth 2)) (demo_side 1 0xC0A80001 0 0)
      (demo_side 2 0x0A0000C0 0x0A0000AC 3) demo_client_network"
    by (simp add: set_up_as_def demo_client_network_def demo_network_def demo_side_def network_interface_def)
  have s: "set_up_as (server_router sort_routes (demo_eth 4) (demo_eth 3)) (demo_side 4 0xAC100001 0xAC100064 6)
      (demo_side 3 0x0A0000AC 0 0) demo_server_network"
    by (simp add: set_up_as_def demo_server_network_def demo_network_def demo_side_def network_interface_def)
  have a: "fd_source (fd_cfg (na_adapter demo_client_adapter)) = IPv4_address 0xC0A80032 80"
    "fd_destination (fd_cfg (na_adapter demo_client_adapter)) = IPv4_address 0xAC100064 1234"
    "na_next_hop demo_client_adapter = IPv4_address 0xC0A80001 0"
    "ni_cache (na_interface demo_client_adapter) 0xC0A80001 = Some (ni_ethernet_address (demo_side 1 0xC0A80001 0 0), 0)"
    by (simp_all add: demo_client_adapter_def demo_adapter_def demo_config_def set_config_def demo_side_def network_interface_def)
  have b: "ni_received (na_interface demo_server_adapter) = []"
    "listens_for demo_syn 0xC0A80032 80 0xAC100064 1234 (na_adapter demo_server_adapter)"
    by (simp_all add: demo_server_adapter_def demo_adapter_def demo_config_def set_config_def set_listening_def demo_side_def
        network_interface_def listens_for_def demo_syn_def receiver_message_def)
  have hops: "ni_cache (demo_side 2 0x0A0000C0 0x0A0000AC 3) 0x0A0000AC = Some (ni_ethernet_address (demo_side 3 0x0A0000AC 0 0), 0)"
    "ni_cache (demo_side 4 0xAC100001 0xAC100064 6) 0xAC100064
       = Some (ni_ethernet_address (na_interface demo_server_adapter), 0)"
    by (simp_all add: demo_side_def network_interface_def demo_server_adapter_def demo_adapter_def)
  have "in_server_net 0xAC100064" "length (sm_payload (ref_get (tm_sender demo_syn))) \<le> 16384"
    by (simp_all add: in_server_net_def demo_syn_def)
  from message_crosses_network [OF insertion.sorts_routes_axioms c s a(1,2) this(1) a(3,4) hops b this(2)]
  obtain f1 f2 f3 where
    1: "\<forall>k w. wo_adapter w = demo_client_adapter \<longrightarrow> adapter_write k demo_syn w = transmit k [f1] w" and
    2: "\<forall>k. nk_frame_readv k (nw_history demo_client_network) = (\<lambda>_. Done (bytes_of (serialize_frame f1))) \<longrightarrow>
       (\<exists>nc'. host_to_router k demo_client_network = Some nc'
         \<and> nw_router_to_internet nc' = nw_router_to_internet demo_client_network @ [f2]
         \<and> nw_router_to_host nc' = nw_router_to_host demo_client_network)" and
    3: "\<forall>k. nk_internet_readv k (nw_history demo_server_network) = (\<lambda>_. Done (bytes_of (serialize_frame f2))) \<longrightarrow>
       (\<exists>ns'. internet_to_router k demo_server_network = Some ns'
         \<and> nw_router_to_host ns' = nw_router_to_host demo_server_network @ [f3]
         \<and> nw_router_to_internet ns' = nw_router_to_internet demo_server_network)" and
    4: "\<forall>k w. wo_adapter w = demo_server_adapter \<and> kn_readv k w = (\<lambda>_. Done (bytes_of (serialize_frame f3))) \<longrightarrow>
       (\<exists>w'. adapter_read k w = Some (w', Some (received_message demo_syn)))"
    by (elim exE conjE) (erule that, assumption+)
  have "adapter_write (demo_link_kernel []) demo_syn (demo_link demo_client_adapter)
      = transmit (demo_link_kernel []) [f1] (demo_link demo_client_adapter)"
    using 1 by (simp add: demo_link_def)
  moreover obtain nc' where "host_to_router (demo_net_kernel (bytes_of (serialize_frame f1))) demo_client_network = Some nc'"
    "nw_router_to_internet nc' = [f2]"
    using 2 [rule_format, of "demo_net_kernel (bytes_of (serialize_frame f1))"]
    by (auto simp: demo_net_kernel_def demo_client_network_def demo_network_def)
  moreover obtain ns' where "internet_to_router (demo_net_kernel (bytes_of (serialize_frame f2))) demo_server_network = Some ns'"
    "nw_router_to_host ns' = [f3]"
    using 3 [rule_format, of "demo_net_kernel (bytes_of (serialize_frame f2))"]
    by (auto simp: demo_net_kernel_def demo_server_network_def demo_network_def)
  moreover obtain w' where "adapter_read (demo_link_kernel (bytes_of (serialize_frame f3))) (demo_link demo_server_adapter)
      = Some (w', Some (received_message demo_syn))"
    using 4 [rule_format, of "demo_link demo_server_adapter" "demo_link_kernel (bytes_of (serialize_frame f3))"]
    by (auto simp: demo_link_def demo_link_kernel_def)
  ultimately show ?thesis by blast
qed

end
