(* ===== verification/Stream_Copy.thy ===== *)
theory Stream_Copy
  imports Event_Loop Socket Byte_Stream
begin

text \<open>
  \<open>apps/bidirectional_stream_copy.cc\<close>: bytes from the standard input go to a socket and bytes
  from the socket to the standard output, through two byte streams and the four rules of an
  event loop. The outcomes of the system calls are functions of what has happened so far.
\<close>

record History =
  hs_input :: "byte list"
  hs_to_socket :: "byte list"
  hs_from_socket :: "byte list"
  hs_output :: "byte list"
  hs_calls :: nat

record CopyKernel =
  ck_input_read :: "History \<Rightarrow> nat \<Rightarrow> byte list syscall"
  ck_socket_read :: "History \<Rightarrow> nat \<Rightarrow> byte list syscall"
  ck_socket_writev :: "History \<Rightarrow> byte list list \<Rightarrow> nat syscall"
  ck_output_writev :: "History \<Rightarrow> byte list list \<Rightarrow> nat syscall"
  ck_shutdown :: "History \<Rightarrow> int \<Rightarrow> unit syscall"
  ck_close :: "History \<Rightarrow> unit syscall"

record StreamCopy =
  sc_history :: History
  sc_socket :: FDWrapper
  sc_input :: FDWrapper
  sc_output :: FDWrapper
  sc_outbound :: ByteStream
  sc_inbound :: ByteStream
  sc_outbound_shutdown :: bool
  sc_inbound_shutdown :: bool

definition copy_buffer_size :: u64 where
  "copy_buffer_size = 1048576"

text \<open>The start: the three descriptors do not block from now on.\<close>

definition stream_copy ::
    "(int \<Rightarrow> bool syscall) \<Rightarrow> (int \<Rightarrow> bool \<Rightarrow> unit syscall) \<Rightarrow> FDWrapper \<Rightarrow> FDWrapper \<Rightarrow> FDWrapper \<Rightarrow> StreamCopy option" where
  "stream_copy getfl setfl socket input output =
     do { socket \<leftarrow> set_blocking (getfl (fd_num socket)) (setfl (fd_num socket)) False socket;
          input \<leftarrow> set_blocking (getfl (fd_num input)) (setfl (fd_num input)) False input;
          output \<leftarrow> set_blocking (getfl (fd_num output)) (setfl (fd_num output)) False output;
          Some \<lparr>sc_history = \<lparr>hs_input = [], hs_to_socket = [], hs_from_socket = [], hs_output = [], hs_calls = 0\<rparr>,
            sc_socket = socket, sc_input = input, sc_output = output,
            sc_outbound = byte_stream copy_buffer_size, sc_inbound = byte_stream copy_buffer_size,
            sc_outbound_shutdown = False, sc_inbound_shutdown = False\<rparr> }"

text \<open>What the outcome of a call adds to the history.\<close>

fun bytes_read :: "byte list syscall \<Rightarrow> byte list" where
  "bytes_read (Done bytes) = bytes"
| "bytes_read _ = []"

fun bytes_written :: "nat syscall \<Rightarrow> byte list \<Rightarrow> byte list" where
  "bytes_written (Done n) buffer = take n buffer"
| "bytes_written _ buffer = []"

definition after_call :: "(History \<Rightarrow> History) \<Rightarrow> StreamCopy \<Rightarrow> StreamCopy" where
  "after_call f s = s\<lparr>sc_history := f ((sc_history s)\<lparr>hs_calls := hs_calls (sc_history s) + 1\<rparr>)\<rparr>"

text \<open>A buffer as large as the stream has room for.\<close>

definition room_buffer :: "ByteStream \<Rightarrow> byte list" where
  "room_buffer b = replicate (unat (available_capacity b)) 0"

text \<open>Rule 1: from the standard input into the outbound stream.\<close>

definition close_copy_outbound :: "StreamCopy \<Rightarrow> StreamCopy option" where
  "close_copy_outbound s = Some (s\<lparr>sc_outbound := writer_close (sc_outbound s)\<rparr>)"

definition copy_error :: "StreamCopy \<Rightarrow> StreamCopy option" where
  "copy_error s = Some (s\<lparr>sc_outbound := set_error (sc_outbound s), sc_inbound := set_error (sc_inbound s)\<rparr>)"

definition input_callback :: "CopyKernel \<Rightarrow> StreamCopy \<Rightarrow> StreamCopy option" where
  "input_callback k s =
     (let call = ck_input_read k (sc_history s)
      in do { (w, data) \<leftarrow> fd_read call (room_buffer (sc_outbound s)) (sc_input s);
              s \<leftarrow> Some (after_call (\<lambda>h. h\<lparr>hs_input := hs_input h
                     @ bytes_read (call (read_size (room_buffer (sc_outbound s))))\<rparr>) (s\<lparr>sc_input := w\<rparr>));
              s \<leftarrow> Some (s\<lparr>sc_outbound := writer_push (sc_outbound s) data\<rparr>);
              (if fd_eof (sc_input s) then close_copy_outbound s else Some s) })"

definition input_interest :: "StreamCopy \<Rightarrow> bool" where
  "input_interest s \<longleftrightarrow> \<not> has_error (sc_outbound s) \<and> \<not> has_error (sc_inbound s)
     \<and> available_capacity (sc_outbound s) > 0 \<and> \<not> writer_is_closed (sc_outbound s)"

text \<open>Rule 2: from the outbound stream to the socket.\<close>

definition send_callback :: "CopyKernel \<Rightarrow> StreamCopy \<Rightarrow> StreamCopy option" where
  "send_callback k s =
     do { s \<leftarrow> (if bytes_buffered (sc_outbound s) \<noteq> 0
               then let buffer = reader_peek (sc_outbound s); call = ck_socket_writev k (sc_history s)
                    in do { (w, n) \<leftarrow> fd_write call buffer (sc_socket s);
                            s \<leftarrow> Some (after_call (\<lambda>h. h\<lparr>hs_to_socket := hs_to_socket h
                                   @ bytes_written (call [buffer]) buffer\<rparr>) (s\<lparr>sc_socket := w\<rparr>));
                            Some (s\<lparr>sc_outbound := reader_pop (sc_outbound s) (of_nat n)\<rparr>) }
               else Some s);
          (if reader_is_finished (sc_outbound s)
           then do { w \<leftarrow> socket_shutdown (ck_shutdown k (sc_history s)) SHUT_WR (sc_socket s);
                     Some ((after_call id (s\<lparr>sc_socket := w\<rparr>))\<lparr>sc_outbound_shutdown := True\<rparr>) }
           else Some s) }"

definition send_interest :: "StreamCopy \<Rightarrow> bool" where
  "send_interest s \<longleftrightarrow> bytes_buffered (sc_outbound s) \<noteq> 0
     \<or> (reader_is_finished (sc_outbound s) \<and> \<not> sc_outbound_shutdown s)"

text \<open>Rule 3: from the socket into the inbound stream.\<close>

definition close_copy_inbound :: "StreamCopy \<Rightarrow> StreamCopy option" where
  "close_copy_inbound s = Some (s\<lparr>sc_inbound := writer_close (sc_inbound s)\<rparr>)"

definition recv_callback :: "CopyKernel \<Rightarrow> StreamCopy \<Rightarrow> StreamCopy option" where
  "recv_callback k s =
     (let call = ck_socket_read k (sc_history s)
      in do { (w, data) \<leftarrow> fd_read call (room_buffer (sc_inbound s)) (sc_socket s);
              s \<leftarrow> Some (after_call (\<lambda>h. h\<lparr>hs_from_socket := hs_from_socket h
                     @ bytes_read (call (read_size (room_buffer (sc_inbound s))))\<rparr>) (s\<lparr>sc_socket := w\<rparr>));
              s \<leftarrow> Some (s\<lparr>sc_inbound := writer_push (sc_inbound s) data\<rparr>);
              (if fd_eof (sc_socket s) then close_copy_inbound s else Some s) })"

definition recv_interest :: "StreamCopy \<Rightarrow> bool" where
  "recv_interest s \<longleftrightarrow> \<not> has_error (sc_inbound s) \<and> \<not> has_error (sc_outbound s)
     \<and> available_capacity (sc_inbound s) > 0 \<and> \<not> writer_is_closed (sc_inbound s)"

text \<open>Rule 4: from the inbound stream to the standard output.\<close>

definition output_callback :: "CopyKernel \<Rightarrow> StreamCopy \<Rightarrow> StreamCopy option" where
  "output_callback k s =
     do { s \<leftarrow> (if bytes_buffered (sc_inbound s) \<noteq> 0
               then let buffer = reader_peek (sc_inbound s); call = ck_output_writev k (sc_history s)
                    in do { (w, n) \<leftarrow> fd_write call buffer (sc_output s);
                            s \<leftarrow> Some (after_call (\<lambda>h. h\<lparr>hs_output := hs_output h
                                   @ bytes_written (call [buffer]) buffer\<rparr>) (s\<lparr>sc_output := w\<rparr>));
                            Some (s\<lparr>sc_inbound := reader_pop (sc_inbound s) (of_nat n)\<rparr>) }
               else Some s);
          (if reader_is_finished (sc_inbound s)
           then do { w \<leftarrow> fd_close (ck_close k (sc_history s)) (sc_output s);
                     Some ((after_call id (s\<lparr>sc_output := w\<rparr>))\<lparr>sc_inbound_shutdown := True\<rparr>) }
           else Some s) }"

definition output_interest :: "StreamCopy \<Rightarrow> bool" where
  "output_interest s \<longleftrightarrow> bytes_buffered (sc_inbound s) \<noteq> 0
     \<or> (reader_is_finished (sc_inbound s) \<and> \<not> sc_inbound_shutdown s)"

text \<open>The loop with its rules.\<close>

definition copy_rules :: "CopyKernel \<Rightarrow> StreamCopy EventLoop \<Rightarrow> StreamCopy EventLoop option" where
  "copy_rules k el =
     do { (el, _) \<leftarrow> add_named_fd_rule ''read from stdin into outbound byte stream'' sc_input In
            (input_callback k) input_interest close_copy_outbound copy_error el;
          (el, _) \<leftarrow> add_named_fd_rule ''read from outbound byte stream into socket'' sc_socket Out
            (send_callback k) send_interest close_copy_outbound copy_error el;
          (el, _) \<leftarrow> add_named_fd_rule ''read from socket into inbound byte stream'' sc_socket In
            (recv_callback k) recv_interest close_copy_inbound copy_error el;
          (el, _) \<leftarrow> add_named_fd_rule ''read from inbound byte stream into stdout'' sc_output Out
            (output_callback k) output_interest close_copy_inbound copy_error el;
          Some el }"

text \<open>The loop, over what \<open>poll\<close> and \<open>getsockopt\<close> answer in each round; it says whether it ended.\<close>

type_synonym answers = "(pollfd list \<Rightarrow> int \<Rightarrow> (nat \<times> revents list) option) \<times> (int \<Rightarrow> bool)"

fun copy_loop :: "answers list \<Rightarrow> StreamCopy EventLoop \<Rightarrow> StreamCopy \<Rightarrow> (StreamCopy EventLoop \<times> StreamCopy \<times> bool) option" where
  "copy_loop [] el s = Some (el, s, False)"
| "copy_loop ((poll, getsockopt_ok) # rounds) el s =
     do { (el, s, ret) \<leftarrow> wait_next_event poll getsockopt_ok (- 1) el s;
          (if ret = Exit then Some (el, s, True) else copy_loop rounds el s) }"

section \<open>What the loop keeps\<close>

definition copy_inv :: "StreamCopy \<Rightarrow> bool" where
  "copy_inv s \<longleftrightarrow> within copy_buffer_size (sc_outbound s) \<and> within copy_buffer_size (sc_inbound s)
     \<and> hs_input (sc_history s) = hs_to_socket (sc_history s) @ reader_peek (sc_outbound s)
     \<and> hs_from_socket (sc_history s) = hs_output (sc_history s) @ reader_peek (sc_inbound s)
     \<and> \<not> fd_closed (sc_socket s) \<and> \<not> fd_closed (sc_input s) \<and> (fd_closed (sc_output s) \<longrightarrow> sc_inbound_shutdown s)
     \<and> (sc_outbound_shutdown s \<longrightarrow> reader_is_finished (sc_outbound s))
     \<and> (sc_inbound_shutdown s \<longrightarrow> reader_is_finished (sc_inbound s))"

lemma reads_keep_closed:
  "fd_read call buffer w = Some (w', data) \<Longrightarrow> fd_closed w' = fd_closed w"
  "fd_write call' buffer w = Some (w', n) \<Longrightarrow> fd_closed w' = fd_closed w"
  "socket_shutdown call'' how w = Some w' \<Longrightarrow> fd_closed w' = fd_closed w"
  by (auto simp: fd_read_def fd_write_def fd_write_views_def socket_shutdown_def register_read_def register_write_def
      set_eof_def Let_def split: syscall.splits if_splits Option.bind_splits)

lemma fd_read_bytes:
  assumes "fd_read call buffer w = Some (w', data)"
  shows "data = bytes_read (call (read_size buffer))" and "length data \<le> read_size buffer"
  using assms by (auto simp: fd_read_def Let_def split: syscall.splits if_splits)

lemma fd_write_bytes:
  assumes "fd_write call buffer w = Some (w', n)" and "buffer \<noteq> []"
  shows "take n buffer = bytes_written (call [buffer]) buffer" and "n \<le> length buffer"
  using assms by (auto simp: fd_write_def fd_write_views_def check_system_call_def Let_def
      split: syscall.splits if_splits Option.bind_splits)

text \<open>A stream with room takes all that a read into its room buffer brings.\<close>

lemma push_takes_all:
  assumes "within c b" and "\<not> writer_is_closed b" and "available_capacity b > 0"
    and "length data \<le> read_size (room_buffer b)"
  shows "reader_peek (writer_push b data) = reader_peek b @ data"
proof -
  have av: "0 < unat (available_capacity b)" using assms(3) by (simp add: word_less_nat_alt)
  then have len: "length data \<le> unat (available_capacity b)"
    using assms(4) by (simp add: read_size_def room_buffer_def)
  then have "unat (vsize data) = length data"
    using u64_bound [of "available_capacity b"] by (intro unat_vsize) (simp add: fits_def)
  then have "unat (min (available_capacity b) (vsize data)) = length data" using len by (simp add: unat_min)
  then show ?thesis
    using assms(2,3) by (auto simp: writer_push_def available_capacity_def writer_is_closed_def reader_peek_def Let_def)
qed

lemma pop_drops:
  assumes "within c b" and "n \<le> length (reader_peek b)"
  shows "reader_peek (reader_pop b (of_nat n)) = drop n (reader_peek b)"
proof -
  have fits: "fits (bs_stream b)" using within_fits assms(1) .
  then have "unat (of_nat n :: u64) = n" using assms(2) by (intro unat_of_nat64) (simp add: fits_def reader_peek_def)
  then show ?thesis using assms(2) unat_vsize [OF fits]
    by (simp add: reader_pop_def reader_peek_def Let_def unat_min)
qed

lemma pop_finished: "reader_is_finished b \<Longrightarrow> reader_pop b n = b"
  by (simp add: reader_is_finished_def reader_pop_def)

lemma close_finished: "reader_is_finished b \<Longrightarrow> reader_is_finished (writer_close b)"
  by (simp add: reader_is_finished_def writer_close_def)

lemma copy_inv_close:
  "copy_inv s \<Longrightarrow> copy_inv (s\<lparr>sc_outbound := writer_close (sc_outbound s)\<rparr>)"
  "copy_inv s \<Longrightarrow> copy_inv (s\<lparr>sc_inbound := writer_close (sc_inbound s)\<rparr>)"
  by (auto simp: copy_inv_def close_finished) (simp_all add: reader_peek_def writer_close_def)

lemma copy_inv_error: "copy_inv s \<Longrightarrow> copy_error s = Some s' \<Longrightarrow> copy_inv s'"
  by (auto simp: copy_inv_def copy_error_def reader_peek_def reader_is_finished_def set_error_def within_def)

lemma input_callback_inv:
  assumes inv: "copy_inv s" and run: "input_callback k s = Some s'"
    and room: "available_capacity (sc_outbound s) > 0" "\<not> writer_is_closed (sc_outbound s)"
  shows "copy_inv s'"
proof -
  let ?call = "ck_input_read k (sc_history s)" and ?buffer = "room_buffer (sc_outbound s)"
  obtain w data where r: "fd_read ?call ?buffer (sc_input s) = Some (w, data)"
    using run by (auto simp: input_callback_def Let_def split: Option.bind_splits)
  let ?t = "(after_call (\<lambda>h. h\<lparr>hs_input := hs_input h @ data\<rparr>) (s\<lparr>sc_input := w\<rparr>))
    \<lparr>sc_outbound := writer_push (sc_outbound s) data\<rparr>"
  have w: "within copy_buffer_size (sc_outbound s)" using inv by (simp add: copy_inv_def)
  have "\<not> sc_outbound_shutdown s"
    using inv room(2) by (auto simp: copy_inv_def reader_is_finished_def writer_is_closed_def)
  then have t: "copy_inv ?t"
    using inv push_takes_all [OF w room(2,1) fd_read_bytes(2) [OF r]] reads_keep_closed(1) [OF r]
    by (auto simp: copy_inv_def after_call_def)
  have "s' = (if fd_eof w then ?t\<lparr>sc_outbound := writer_close (sc_outbound ?t)\<rparr> else ?t)"
    using run r by (auto simp: input_callback_def Let_def close_copy_outbound_def after_call_def fd_read_bytes(1) [OF r])
  then show ?thesis using t copy_inv_close(1) [OF t] by simp
qed

lemma recv_callback_inv:
  assumes inv: "copy_inv s" and run: "recv_callback k s = Some s'"
    and room: "available_capacity (sc_inbound s) > 0" "\<not> writer_is_closed (sc_inbound s)"
  shows "copy_inv s'"
proof -
  let ?call = "ck_socket_read k (sc_history s)" and ?buffer = "room_buffer (sc_inbound s)"
  obtain w data where r: "fd_read ?call ?buffer (sc_socket s) = Some (w, data)"
    using run by (auto simp: recv_callback_def Let_def split: Option.bind_splits)
  let ?t = "(after_call (\<lambda>h. h\<lparr>hs_from_socket := hs_from_socket h @ data\<rparr>) (s\<lparr>sc_socket := w\<rparr>))
    \<lparr>sc_inbound := writer_push (sc_inbound s) data\<rparr>"
  have w: "within copy_buffer_size (sc_inbound s)" using inv by (simp add: copy_inv_def)
  have "\<not> sc_inbound_shutdown s"
    using inv room(2) by (auto simp: copy_inv_def reader_is_finished_def writer_is_closed_def)
  then have t: "copy_inv ?t"
    using inv push_takes_all [OF w room(2,1) fd_read_bytes(2) [OF r]] reads_keep_closed(1) [OF r]
    by (auto simp: copy_inv_def after_call_def)
  have "s' = (if fd_eof w then ?t\<lparr>sc_inbound := writer_close (sc_inbound ?t)\<rparr> else ?t)"
    using run r by (auto simp: recv_callback_def Let_def close_copy_inbound_def after_call_def fd_read_bytes(1) [OF r])
  then show ?thesis using t copy_inv_close(2) [OF t] by simp
qed

text \<open>A step of \<open>drain\<close>: what is popped has been written.\<close>

lemma drained:
  assumes "within c b" and "bytes_buffered b \<noteq> 0" and "fd_write call (reader_peek b) w = Some (w', n)"
  shows "reader_peek b = bytes_written (call [reader_peek b]) (reader_peek b) @ reader_peek (reader_pop b (of_nat n))"
    and "within c (reader_pop b m)"
proof -
  have "reader_peek b \<noteq> []" using assms(2) by (auto simp: bytes_buffered_def reader_peek_def)
  from fd_write_bytes [OF assms(3) this]
  show "reader_peek b = bytes_written (call [reader_peek b]) (reader_peek b) @ reader_peek (reader_pop b (of_nat n))"
    using pop_drops [OF assms(1)] by (metis append_take_drop_id)
qed (use assms(1) in simp)

lemma send_callback_inv:
  assumes inv: "copy_inv s" and run: "send_callback k s = Some s'"
  shows "copy_inv s'"
proof -
  let ?b = "sc_outbound s"
  obtain t where t: "(if bytes_buffered ?b \<noteq> 0
      then let buffer = reader_peek ?b; call = ck_socket_writev k (sc_history s)
           in do { (w, n) \<leftarrow> fd_write call buffer (sc_socket s);
                   s \<leftarrow> Some (after_call (\<lambda>h. h\<lparr>hs_to_socket := hs_to_socket h
                          @ bytes_written (call [buffer]) buffer\<rparr>) (s\<lparr>sc_socket := w\<rparr>));
                   Some (s\<lparr>sc_outbound := reader_pop (sc_outbound s) (of_nat n)\<rparr>) }
      else Some s) = Some t"
    and s': "(if reader_is_finished (sc_outbound t)
      then do { w \<leftarrow> socket_shutdown (ck_shutdown k (sc_history t)) SHUT_WR (sc_socket t);
                Some ((after_call id (t\<lparr>sc_socket := w\<rparr>))\<lparr>sc_outbound_shutdown := True\<rparr>) }
      else Some t) = Some s'"
    using run unfolding send_callback_def by (auto split: Option.bind_splits)
  have "copy_inv t"
  proof (cases "bytes_buffered ?b = 0")
    case False
    then obtain w n where w: "fd_write (ck_socket_writev k (sc_history s)) (reader_peek ?b) (sc_socket s) = Some (w, n)"
      "t = (after_call (\<lambda>h. h\<lparr>hs_to_socket := hs_to_socket h
          @ bytes_written (ck_socket_writev k (sc_history s) [reader_peek ?b]) (reader_peek ?b)\<rparr>) (s\<lparr>sc_socket := w\<rparr>))
          \<lparr>sc_outbound := reader_pop ?b (of_nat n)\<rparr>"
      using t by (auto simp: Let_def after_call_def split: Option.bind_splits)
    have "within copy_buffer_size ?b" using inv by (simp add: copy_inv_def)
    note d = drained [OF this False w(1)]
    have "hs_input (sc_history s) = hs_to_socket (sc_history s)
        @ bytes_written (ck_socket_writev k (sc_history s) [reader_peek ?b]) (reader_peek ?b)
        @ reader_peek (reader_pop ?b (of_nat n))"
      using inv d(1) by (simp add: copy_inv_def)
    then show ?thesis
      using inv d(2) reads_keep_closed(2) [OF w(1)] pop_finished [of ?b]
      by (auto simp: copy_inv_def w(2) after_call_def)
  qed (use t inv in simp)
  then show ?thesis
    using s' reads_keep_closed(3)
    by (auto simp: copy_inv_def after_call_def split: if_splits Option.bind_splits)
qed

lemma output_callback_inv:
  assumes inv: "copy_inv s" and run: "output_callback k s = Some s'"
  shows "copy_inv s'"
proof -
  let ?b = "sc_inbound s"
  obtain t where t: "(if bytes_buffered ?b \<noteq> 0
      then let buffer = reader_peek ?b; call = ck_output_writev k (sc_history s)
           in do { (w, n) \<leftarrow> fd_write call buffer (sc_output s);
                   s \<leftarrow> Some (after_call (\<lambda>h. h\<lparr>hs_output := hs_output h
                          @ bytes_written (call [buffer]) buffer\<rparr>) (s\<lparr>sc_output := w\<rparr>));
                   Some (s\<lparr>sc_inbound := reader_pop (sc_inbound s) (of_nat n)\<rparr>) }
      else Some s) = Some t"
    and s': "(if reader_is_finished (sc_inbound t)
      then do { w \<leftarrow> fd_close (ck_close k (sc_history t)) (sc_output t);
                Some ((after_call id (t\<lparr>sc_output := w\<rparr>))\<lparr>sc_inbound_shutdown := True\<rparr>) }
      else Some t) = Some s'"
    using run unfolding output_callback_def by (auto split: Option.bind_splits)
  have "copy_inv t"
  proof (cases "bytes_buffered ?b = 0")
    case False
    then obtain w n where w: "fd_write (ck_output_writev k (sc_history s)) (reader_peek ?b) (sc_output s) = Some (w, n)"
      "t = (after_call (\<lambda>h. h\<lparr>hs_output := hs_output h
          @ bytes_written (ck_output_writev k (sc_history s) [reader_peek ?b]) (reader_peek ?b)\<rparr>) (s\<lparr>sc_output := w\<rparr>))
          \<lparr>sc_inbound := reader_pop ?b (of_nat n)\<rparr>"
      using t by (auto simp: Let_def after_call_def split: Option.bind_splits)
    have "within copy_buffer_size ?b" using inv by (simp add: copy_inv_def)
    note d = drained [OF this False w(1)]
    have "hs_from_socket (sc_history s) = hs_output (sc_history s)
        @ bytes_written (ck_output_writev k (sc_history s) [reader_peek ?b]) (reader_peek ?b)
        @ reader_peek (reader_pop ?b (of_nat n))"
      using inv d(1) by (simp add: copy_inv_def)
    then show ?thesis
      using inv d(2) reads_keep_closed(2) [OF w(1)] pop_finished [of ?b]
      by (auto simp: copy_inv_def w(2) after_call_def)
  qed (use t inv in simp)
  then show ?thesis
    using s' by (auto simp: copy_inv_def after_call_def split: if_splits Option.bind_splits)
qed

section \<open>The four rules\<close>

definition copy_rule_list :: "CopyKernel \<Rightarrow> StreamCopy FDRule list" where
  "copy_rule_list k = el_fd_rules (the (copy_rules k (event_loop 64)))"

lemma copy_rules_eq:
  "copy_rules k (event_loop 64) = Some el \<Longrightarrow> el_fd_rules el = copy_rule_list k \<and> el_non_fd_rules el = []"
  by (auto simp: copy_rule_list_def copy_rules_def add_named_fd_rule_def add_category_def add_fd_rule_def event_loop_def)

lemma copy_rule_list_eq:
  "copy_rule_list k =
     [\<lparr>br_id = 0, br_category_id = 0, br_interest = input_interest, br_callback = input_callback k,
       br_cancel_requested = False, fr_fd = sc_input, fr_direction = In, fr_cancel = close_copy_outbound,
       fr_error = copy_error\<rparr>,
      \<lparr>br_id = 1, br_category_id = 1, br_interest = send_interest, br_callback = send_callback k,
       br_cancel_requested = False, fr_fd = sc_socket, fr_direction = Out, fr_cancel = close_copy_outbound,
       fr_error = copy_error\<rparr>,
      \<lparr>br_id = 2, br_category_id = 2, br_interest = recv_interest, br_callback = recv_callback k,
       br_cancel_requested = False, fr_fd = sc_socket, fr_direction = In, fr_cancel = close_copy_inbound,
       fr_error = copy_error\<rparr>,
      \<lparr>br_id = 3, br_category_id = 3, br_interest = output_interest, br_callback = output_callback k,
       br_cancel_requested = False, fr_fd = sc_output, fr_direction = Out, fr_cancel = close_copy_inbound,
       fr_error = copy_error\<rparr>]"
  by (simp add: copy_rule_list_def copy_rules_def add_named_fd_rule_def add_category_def add_fd_rule_def event_loop_def)

lemma copy_rules_sorted: "sorted_wrt (<) (map br_id (copy_rule_list k))"
  by (simp add: copy_rule_list_eq)

definition has_room :: "StreamCopy FDRule \<Rightarrow> StreamCopy \<Rightarrow> bool" where
  "has_room rule s \<longleftrightarrow>
     (br_id rule = 0 \<longrightarrow> available_capacity (sc_outbound s) > 0 \<and> \<not> writer_is_closed (sc_outbound s))
     \<and> (br_id rule = 2 \<longrightarrow> available_capacity (sc_inbound s) > 0 \<and> \<not> writer_is_closed (sc_inbound s))"

interpretation copying: watched "set (copy_rule_list k)" copy_inv has_room for k
proof
  fix rule s s' assume rule: "rule \<in> set (copy_rule_list k)" and inv: "copy_inv s"
  show "has_room rule s" if "br_interest rule s"
    using rule that by (auto simp: copy_rule_list_eq has_room_def input_interest_def recv_interest_def)
  show "copy_inv s'" if "has_room rule s" "br_callback rule s = Some s'"
    using rule that inv input_callback_inv [of s k s'] send_callback_inv [of s k s'] recv_callback_inv [of s k s']
      output_callback_inv [of s k s']
    by (auto simp: copy_rule_list_eq has_room_def)
  show "copy_inv s'" if "fr_cancel rule s = Some s'"
    using rule that inv copy_inv_close by (auto simp: copy_rule_list_eq close_copy_outbound_def close_copy_inbound_def)
  show "copy_inv s'" if "fr_error rule s = Some s'"
    using rule that inv copy_inv_error by (auto simp: copy_rule_list_eq)
  fix rule' assume rule': "rule' \<in> set (copy_rule_list k)" and live: "has_room rule' s"
  show "has_room rule' s'" if "fr_cancel rule s = Some s'"
    and "br_id rule < br_id rule' \<or> (rule_over rule s \<and> br_id rule \<noteq> br_id rule')"
  proof -
    have "\<not> rule_over rule s" if "br_id rule = 1"
      using rule that inv by (auto simp: copy_rule_list_eq rule_over_def copy_inv_def)
    moreover have "writer_is_closed (sc_inbound s)" if "rule_over rule s" "br_id rule = 3"
      using rule that inv
      by (auto simp: copy_rule_list_eq rule_over_def copy_inv_def reader_is_finished_def writer_is_closed_def)
    ultimately show ?thesis
      using rule rule' live that
      by (auto simp: copy_rule_list_eq has_room_def close_copy_outbound_def close_copy_inbound_def)
  qed
  show "has_room rule' s'" if "fr_error rule s = Some s'" and "br_id rule < br_id rule'"
    using rule live that
    by (auto simp: copy_rule_list_eq has_room_def copy_error_def available_capacity_def writer_is_closed_def set_error_def)
qed

lemma copy_loop_inv:
  assumes "copy_loop rounds el s = Some (el', s', ended)" and "copying.loop_ok k el" and "copy_inv s"
  shows "copy_inv s'"
  using assms
proof (induction rounds el s rule: copy_loop.induct)
  case (2 poll ok rounds el s)
  obtain el1 s1 ret where w: "wait_next_event poll ok (- 1) el s = Some (el1, s1, ret)"
    using 2(2) by (auto split: Option.bind_splits)
  note i = copying.wait_keeps [OF w 2(3,4)]
  show ?case
  proof (cases "ret = Exit")
    case False
    then show ?thesis using 2(1) [OF w refl refl False] 2(2) w i by simp
  qed (use 2(2) w i in simp)
qed simp

section \<open>Properties\<close>

text \<open>
  C3: copying between a socket and the standard streams, however the system calls come out and
  the rules are served: what has gone to the socket is what was read from the input without the
  bytes still in the outbound stream, and likewise from the socket to the output; neither stream
  ever holds more than \<open>2 ^ 20\<close> bytes; and when one end is shut down, all that was read from
  the other has been written to it.
\<close>
theorem stream_copy_relays:
  assumes "stream_copy getfl setfl socket input output = Some s0" and "copy_rules k (event_loop 64) = Some el0"
    and "\<not> fd_closed socket" and "\<not> fd_closed input" and "\<not> fd_closed output"
    and "copy_loop rounds el0 s0 = Some (el, s, ended)"
  shows "hs_input (sc_history s) = hs_to_socket (sc_history s) @ reader_peek (sc_outbound s)
    \<and> hs_from_socket (sc_history s) = hs_output (sc_history s) @ reader_peek (sc_inbound s)
    \<and> length (reader_peek (sc_outbound s)) \<le> 2 ^ 20 \<and> length (reader_peek (sc_inbound s)) \<le> 2 ^ 20
    \<and> (sc_outbound_shutdown s \<longrightarrow> hs_to_socket (sc_history s) = hs_input (sc_history s))
    \<and> (sc_inbound_shutdown s \<longrightarrow> hs_output (sc_history s) = hs_from_socket (sc_history s))"
proof -
  have "copy_inv s0"
    using assms(1,3-5)
    by (auto simp: stream_copy_def copy_inv_def set_blocking_def reader_peek_def byte_stream_def within_def
        split: Option.bind_splits)
  moreover have "copying.loop_ok k el0"
    using copy_rules_eq [OF assms(2)] copy_rules_sorted by (simp add: copying.loop_ok_def copying.known_def)
  ultimately have "copy_inv s" using copy_loop_inv assms(6) by blast
  then show ?thesis by (auto simp: copy_inv_def within_def reader_peek_def reader_is_finished_def copy_buffer_size_def)
qed

text \<open>Two bytes arrive at the standard input, and the socket takes one of them.\<close>

definition demo_copy_kernel :: CopyKernel where
  "demo_copy_kernel = \<lparr>ck_input_read = (\<lambda>h n. Done [1, 2]), ck_socket_read = (\<lambda>h n. Would_block),
     ck_socket_writev = (\<lambda>h views. Done 1), ck_output_writev = (\<lambda>h views. Done 1),
     ck_shutdown = (\<lambda>h how. Done ()), ck_close = (\<lambda>h. Done ())\<rparr>"

definition demo_end :: "int \<Rightarrow> FDWrapper" where
  "demo_end n = demo_fd\<lparr>fd_num := n\<rparr>"

definition demo_copy :: StreamCopy where
  "demo_copy = \<lparr>sc_history = \<lparr>hs_input = [], hs_to_socket = [], hs_from_socket = [], hs_output = [], hs_calls = 0\<rparr>,
     sc_socket = demo_end 3, sc_input = demo_end 0, sc_output = demo_end 1,
     sc_outbound = byte_stream copy_buffer_size, sc_inbound = byte_stream copy_buffer_size,
     sc_outbound_shutdown = False, sc_inbound_shutdown = False\<rparr>"

definition demo_answers :: "nat \<Rightarrow> answers" where
  "demo_answers i = (\<lambda>ps timeout. Some (1, map (\<lambda>j. \<lparr>re_in = (i = j), re_out = (i = j), re_error = False,
     re_hup = False\<rparr>) [0..<4]), \<lambda>_. True)"

lemma demo_copy_start:
  "stream_copy (\<lambda>_. Done False) (\<lambda>_ _. Done ()) (demo_end 3) (demo_end 0) (demo_end 1) = Some demo_copy"
  by (simp add: stream_copy_def set_blocking_def check_system_call_def demo_copy_def demo_end_def demo_fd_def)

definition demo_copy_loop :: "StreamCopy EventLoop" where
  "demo_copy_loop = the (copy_rules demo_copy_kernel (event_loop 64))"

lemma demo_copy_loop: "copy_rules demo_copy_kernel (event_loop 64) = Some demo_copy_loop"
  by (simp add: demo_copy_loop_def copy_rules_def add_named_fd_rule_def add_category_def add_fd_rule_def event_loop_def)

lemmas demo_copy_defs = demo_copy_kernel_def demo_end_def demo_fd_def demo_copy_def copy_buffer_size_def byte_stream_def

lemma room_size: "0 < available_capacity b \<Longrightarrow> read_size (room_buffer b) = unat (available_capacity b)"
  by (simp add: read_size_def room_buffer_def word_less_nat_alt)

lemma demo_room:
  "available_capacity (sc_outbound demo_copy) = 1048576" "available_capacity (sc_inbound demo_copy) = 1048576"
  by (simp_all add: demo_copy_defs available_capacity_def vsize_def)

definition demo_copied :: StreamCopy where
  "demo_copied = demo_copy
     \<lparr>sc_history := \<lparr>hs_input = [1, 2], hs_to_socket = [], hs_from_socket = [], hs_output = [], hs_calls = 1\<rparr>,
      sc_input := register_read (sc_input demo_copy),
      sc_outbound := writer_push (sc_outbound demo_copy) [1, 2]\<rparr>"

lemma demo_input: "input_callback demo_copy_kernel demo_copy = Some demo_copied"
proof -
  have "read_size (room_buffer (sc_outbound demo_copy)) = 1048576"
    by (subst room_size) (simp_all add: demo_room)
  then show ?thesis
    by (simp add: input_callback_def fd_read_def demo_copied_def after_call_def demo_copy_defs register_read_def)
qed

lemma demo_interests:
  "input_interest demo_copy" "\<not> send_interest demo_copy" "recv_interest demo_copy" "\<not> output_interest demo_copy"
  "send_interest demo_copied"
  by (simp_all add: input_interest_def recv_interest_def demo_room)
    (simp_all add: demo_copied_def demo_copy_defs writer_is_closed_def send_interest_def output_interest_def
      bytes_buffered_def reader_is_finished_def vsize_def writer_push_def available_capacity_def has_error_def)

definition demo_sent :: StreamCopy where
  "demo_sent = demo_copied
     \<lparr>sc_history := \<lparr>hs_input = [1, 2], hs_to_socket = [1], hs_from_socket = [], hs_output = [], hs_calls = 2\<rparr>,
      sc_socket := register_write (sc_socket demo_copied),
      sc_outbound := reader_pop (sc_outbound demo_copied) 1\<rparr>"

lemma demo_send: "send_callback demo_copy_kernel demo_copied = Some demo_sent"
  by (simp add: send_callback_def fd_write_def fd_write_views_def demo_sent_def after_call_def demo_copy_defs
      demo_copied_def register_write_def register_read_def bytes_buffered_def reader_is_finished_def reader_peek_def
      vsize_def writer_push_def reader_pop_def check_system_call_def Let_def)

lemma demo_open:
  "\<not> fd_eof (sc_input t) \<and> \<not> fd_closed (sc_input t) \<and> \<not> fd_eof (sc_socket t) \<and> \<not> fd_closed (sc_socket t)
   \<and> \<not> fd_closed (sc_output t)" if "t = demo_copy \<or> t = demo_copied"
  using that by (auto simp: demo_copied_def demo_copy_defs register_read_def)

lemma demo_progress:
  "fd_read_count (sc_input demo_copied) \<noteq> fd_read_count (sc_input demo_copy)"
  "fd_write_count (sc_socket demo_sent) \<noteq> fd_write_count (sc_socket demo_copied)"
  by (simp_all add: demo_sent_def demo_copied_def demo_copy_defs register_read_def register_write_def)

lemma demo_rounds:
  assumes "demo_answers 0 = (poll0, ok0)" and "demo_answers 1 = (poll1, ok1)"
  shows "\<exists>el. wait_next_event poll0 ok0 (- 1) demo_copy_loop demo_copy = Some (el, demo_copied, Success)
      \<and> el_fd_rules el = copy_rule_list demo_copy_kernel \<and> el_non_fd_rules el = []"
    and "el_fd_rules el = copy_rule_list demo_copy_kernel \<Longrightarrow> el_non_fd_rules el = [] \<Longrightarrow>
      \<exists>el'. wait_next_event poll1 ok1 (- 1) el demo_copied = Some (el', demo_sent, Success)"
  using assms copy_rules_eq [OF demo_copy_loop] demo_open [of demo_copy] demo_open [of demo_copied] demo_interests
    demo_progress demo_input demo_send
  by (auto simp: demo_answers_def wait_next_event_def copy_rule_list_eq upt_rec poll_ready_def service_count_def)

lemma demo_copy_run: "\<exists>el. copy_loop [demo_answers 0, demo_answers 1] demo_copy_loop demo_copy = Some (el, demo_sent, False)"
proof -
  obtain poll0 ok0 poll1 ok1 where a: "demo_answers 0 = (poll0, ok0)" "demo_answers 1 = (poll1, ok1)"
    by (cases "demo_answers 0", cases "demo_answers 1")
  then show ?thesis using demo_rounds(1) [OF a] demo_rounds(2) [OF a] by force
qed

theorem stream_copy_relays_witness:
  "\<exists>el s. copy_loop [demo_answers 0, demo_answers 1] demo_copy_loop demo_copy = Some (el, s, False)
     \<and> hs_input (sc_history s) = [1, 2] \<and> hs_to_socket (sc_history s) = [1] \<and> reader_peek (sc_outbound s) = [2]"
proof -
  obtain el where run: "copy_loop [demo_answers 0, demo_answers 1] demo_copy_loop demo_copy = Some (el, demo_sent, False)"
    using demo_copy_run by blast
  have "\<not> fd_closed (demo_end n)" for n by (simp add: demo_end_def demo_fd_def)
  from stream_copy_relays [OF demo_copy_start demo_copy_loop this this this run]
  show ?thesis using run by (auto simp: demo_sent_def)
qed

end
