(* ===== verification/Command_Line.thy ===== *)
theory Command_Line
  imports TCP_Over_IP Text_Output
begin

text \<open>
  \<open>apps/tcp_ipv4.cc\<close>: the command line of the program that runs a connection over a TUN device.
  Resolving a host name, the 16-bit number that \<open>strtof\<close>, the float product and the conversion give
  for a loss rate, and the draws of the random device are arguments; strings end at their NUL.
\<close>

section \<open>From the C library\<close>

text \<open>\<open>strncmp(s, t, n) == 0\<close>.\<close>

definition same_beginning :: "string \<Rightarrow> string \<Rightarrow> nat \<Rightarrow> bool" where
  "same_beginning s t n \<longleftrightarrow> take n s = take n t"

text \<open>\<open>strtol\<close> in base 0: white space, a sign, the base from the prefix, digits; out of range it is the bound.\<close>

definition digit_in :: "nat \<Rightarrow> char \<Rightarrow> nat option" where
  "digit_in base c =
     (let d = (if char_between 48 57 c then of_char c - 48
               else if char_between 97 122 c then of_char c - 87
               else if char_between 65 90 c then of_char c - 55 else base)
      in if d < base then Some d else None)"

fun digits_from :: "nat \<Rightarrow> nat \<Rightarrow> string \<Rightarrow> nat" where
  "digits_from base n [] = n"
| "digits_from base n (c # cs) =
     (case digit_in base c of None \<Rightarrow> n | Some d \<Rightarrow> digits_from base (n * base + d) cs)"

fun unsigned_value :: "string \<Rightarrow> nat" where
  "unsigned_value (z # x # d # cs) =
     (if z = CHR ''0'' \<and> (x = CHR ''x'' \<or> x = CHR ''X'') \<and> digit_in 16 d \<noteq> None then digits_from 16 0 (d # cs)
      else digits_from (if z = CHR ''0'' then 8 else 10) 0 (z # x # d # cs))"
| "unsigned_value (z # cs) = digits_from (if z = CHR ''0'' then 8 else 10) 0 (z # cs)"
| "unsigned_value [] = 0"

definition strtol :: "string \<Rightarrow> int" where
  "strtol s =
     (case dropWhile is_space s of
        [] \<Rightarrow> 0
      | c # cs \<Rightarrow>
          if c = CHR ''-'' then max (- (2 ^ 63)) (- int (unsigned_value cs))
          else min (2 ^ 63 - 1) (int (unsigned_value (if c = CHR ''+'' then cs else c # cs))))"

section \<open>The options\<close>

text \<open>
  How the program stops before it has a configuration: it exits, an address throws, it converts a
  float that is outside of 16 bits, which C++ leaves undefined, or it reads outside of its
  arguments.
\<close>

datatype stop = Exited int | Throws | Undefined | Outside

definition on_value :: "'e + 'a \<Rightarrow> ('a \<Rightarrow> 'e + 'b) \<Rightarrow> 'e + 'b" where
  "on_value r f = (case r of Inl e \<Rightarrow> Inl e | Inr x \<Rightarrow> f x)"

lemma on_value_simps [simp]: "on_value (Inl e) f = Inl e" "on_value (Inr x) f = f x"
  by (simp_all add: on_value_def)

lemma on_value_Inr: "on_value r f = Inr y \<longleftrightarrow> (\<exists>x. r = Inr x \<and> f x = Inr y)"
  by (cases r) auto

lemma on_value_cong [fundef_cong]:
  "r = r' \<Longrightarrow> (\<And>x. r' = Inr x \<Longrightarrow> f x = g x) \<Longrightarrow> on_value r f = on_value r' g"
  by (cases r') auto

definition arg :: "string list \<Rightarrow> nat \<Rightarrow> stop + string" where
  "arg args i = (if i < length args then Inr (args ! i) else Inl Outside)"

definition TUN_DFLT :: string where
  "TUN_DFLT = ''tun144''"

definition LOCAL_ADDRESS_DFLT :: string where
  "LOCAL_ADDRESS_DFLT = ''169.254.144.9''"

record Options =
  op_curr :: nat
  op_fsm :: TCPConfig
  op_filt :: FdAdapterConfig
  op_tundev :: "string option"
  op_listen :: bool
  op_source_address :: string
  op_source_port :: string

definition options :: "u32 \<Rightarrow> u16 \<Rightarrow> Options" where
  "options isn port =
     \<lparr>op_curr = 1, op_fsm = tcp_config\<lparr>cfg_isn := Wrap32 isn\<rparr>, op_filt = fd_cfg fd_adapter, op_tundev = None,
      op_listen = False, op_source_address = LOCAL_ADDRESS_DFLT, op_source_port = decimal port\<rparr>"

definition check_argc :: "string list \<Rightarrow> nat \<Rightarrow> stop + unit" where
  "check_argc args i = (if i + 3 \<ge> length args then Inl (Exited 1) else Inr ())"

text \<open>An option with an argument, and one whose argument is a loss rate: \<open>None\<close> is an undefined one.\<close>

definition with_argument :: "string list \<Rightarrow> Options \<Rightarrow> (string \<Rightarrow> Options) \<Rightarrow> stop + Options" where
  "with_argument args o1 f =
     on_value (check_argc args (op_curr o1)) (\<lambda>_.
     on_value (arg args (op_curr o1 + 1)) (\<lambda>a. Inr ((f a)\<lparr>op_curr := op_curr o1 + 2\<rparr>)))"

definition with_rate ::
    "(string \<Rightarrow> u16 option) \<Rightarrow> string list \<Rightarrow> Options \<Rightarrow> (u16 \<Rightarrow> Options) \<Rightarrow> stop + Options" where
  "with_rate loss_rate args o1 f =
     on_value (check_argc args (op_curr o1)) (\<lambda>_.
     on_value (arg args (op_curr o1 + 1)) (\<lambda>a.
       case loss_rate a of None \<Rightarrow> Inl Undefined | Some rate \<Rightarrow> Inr ((f rate)\<lparr>op_curr := op_curr o1 + 2\<rparr>)))"

definition option_step :: "(string \<Rightarrow> u16 option) \<Rightarrow> string list \<Rightarrow> Options \<Rightarrow> stop + Options" where
  "option_step loss_rate args o1 =
     on_value (arg args (op_curr o1)) (\<lambda>a.
       if same_beginning ''-l'' a 3 then Inr (o1\<lparr>op_listen := True, op_curr := op_curr o1 + 1\<rparr>)
       else if same_beginning ''-a'' a 3 then with_argument args o1 (\<lambda>v. o1\<lparr>op_source_address := v\<rparr>)
       else if same_beginning ''-s'' a 3 then with_argument args o1 (\<lambda>v. o1\<lparr>op_source_port := v\<rparr>)
       else if same_beginning ''-w'' a 3
       then with_argument args o1 (\<lambda>v. o1\<lparr>op_fsm := (op_fsm o1)\<lparr>cfg_recv_capacity := word_of_int (strtol v)\<rparr>\<rparr>)
       else if same_beginning ''-t'' a 3
       then with_argument args o1 (\<lambda>v. o1\<lparr>op_fsm := (op_fsm o1)\<lparr>cfg_rt_timeout := word_of_int (strtol v)\<rparr>\<rparr>)
       else if same_beginning ''-d'' a 3 then with_argument args o1 (\<lambda>v. o1\<lparr>op_tundev := Some v\<rparr>)
       else if same_beginning ''-Lu'' a 3
       then with_rate loss_rate args o1 (\<lambda>rate. o1\<lparr>op_filt := (op_filt o1)\<lparr>fd_loss_rate_up := rate\<rparr>\<rparr>)
       else if same_beginning ''-Ld'' a 3
       then with_rate loss_rate args o1 (\<lambda>rate. o1\<lparr>op_filt := (op_filt o1)\<lparr>fd_loss_rate_dn := rate\<rparr>\<rparr>)
       else if same_beginning ''-h'' a 3 then Inl (Exited 0)
       else Inl (Exited 1))"

lemmas step_defs = option_step_def with_argument_def with_rate_def check_argc_def arg_def

lemma option_step_advances:
  assumes "option_step loss_rate args o1 = Inr o2"
  shows "op_curr o1 < length args" and "op_curr o1 < op_curr o2"
  using assms by (auto simp: step_defs on_value_Inr split: if_splits option.splits)

text \<open>The loop goes on while there are more than two arguments left, by unsigned subtraction.\<close>

function options_loop :: "(string \<Rightarrow> u16 option) \<Rightarrow> string list \<Rightarrow> Options \<Rightarrow> stop + Options" where
  "options_loop loss_rate args o1 =
     (if (of_nat (length args) - of_nat (op_curr o1) :: u64) > 2
      then on_value (option_step loss_rate args o1) (options_loop loss_rate args)
      else Inr o1)"
  by pat_completeness auto

termination
  by (relation "measure (\<lambda>(loss_rate, args, o1). length args - op_curr o1)") (auto intro: diff_less_mono2 dest: option_step_advances)

declare options_loop.simps [simp del]

section \<open>The configuration\<close>

text \<open>
  The ends of the connection, from the last two arguments: in listen mode the local end is any
  address at the port, otherwise the remote end is the host at the port.
\<close>

definition resolved :: "(string \<Rightarrow> string \<Rightarrow> Address option) \<Rightarrow> string \<Rightarrow> string \<Rightarrow> stop + Address" where
  "resolved resolve host service = (case resolve host service of None \<Rightarrow> Inl Throws | Some a \<Rightarrow> Inr a)"

definition port_of :: "Address \<Rightarrow> stop + u16" where
  "port_of a = (case address_port a of None \<Rightarrow> Inl Throws | Some port \<Rightarrow> Inr port)"

definition get_config ::
    "(string \<Rightarrow> string \<Rightarrow> Address option) \<Rightarrow> (string \<Rightarrow> u16 option) \<Rightarrow> u32 \<Rightarrow> u16 \<Rightarrow> string list
       \<Rightarrow> stop + TCPConfig \<times> FdAdapterConfig \<times> bool \<times> string option" where
  "get_config resolve loss_rate isn port args =
     on_value (options_loop loss_rate args (options isn port)) (\<lambda>o1.
       if op_listen o1
       then on_value (arg args (op_curr o1 + 1)) (\<lambda>service.
            on_value (resolved resolve ''0'' service) (\<lambda>source.
            on_value (port_of source) (\<lambda>p.
              if p = 0 then Inl (Exited 1)
              else Inr (op_fsm o1, (op_filt o1)\<lparr>fd_source := source\<rparr>, True, op_tundev o1))))
       else on_value (arg args (op_curr o1)) (\<lambda>host.
            on_value (arg args (op_curr o1 + 1)) (\<lambda>service.
            on_value (resolved resolve host service) (\<lambda>destination.
            on_value (resolved resolve (op_source_address o1) (op_source_port o1)) (\<lambda>source.
              Inr (op_fsm o1, (op_filt o1)\<lparr>fd_destination := destination, fd_source := source\<rparr>, False,
                   op_tundev o1))))))"

text \<open>\<open>main\<close> up to the socket: its configuration, whether it listens, and the name of the device.\<close>

definition tcp_ipv4_main where
  "tcp_ipv4_main resolve loss_rate isn port args =
     (if length args < 3 then Inl (Exited 1)
      else on_value (get_config resolve loss_rate isn port args) (\<lambda>(c_fsm, c_filt, listen, tun_dev_name).
             Inr (c_fsm, c_filt, listen, case tun_dev_name of None \<Rightarrow> TUN_DFLT | Some name \<Rightarrow> name)))"

section \<open>Every access is inside\<close>

lemma option_step_room:
  assumes "option_step loss_rate args o1 = Inr o2" and "op_curr o1 + 2 < length args"
  shows "op_curr o2 + 2 \<le> length args"
  using assms by (auto simp: step_defs on_value_Inr split: if_splits option.splits)

lemma option_step_inside:
  "op_curr o1 + 2 < length args \<Longrightarrow> option_step loss_rate args o1 \<noteq> Inl Outside"
  by (auto simp: step_defs split: if_splits option.splits)

lemma more_than_two:
  assumes "n < 2 ^ 64" and "i \<le> n"
  shows "(of_nat n - of_nat i :: u64) > 2 \<longleftrightarrow> i + 2 < n"
proof -
  have "(of_nat n - of_nat i :: u64) = of_nat (n - i)" using assms(2) by (simp add: of_nat_diff)
  moreover have "unat (of_nat (n - i) :: u64) = n - i" using assms(1) by (simp add: unat_of_nat64)
  ultimately have "(of_nat n - of_nat i :: u64) > 2 \<longleftrightarrow> 2 < n - i" unfolding word_less_nat_alt by simp
  then show ?thesis by arith
qed

lemma options_loop_inside:
  assumes "length args < 2 ^ 64" and "op_curr o1 + 2 \<le> length args"
  shows "options_loop loss_rate args o1 \<noteq> Inl Outside
    \<and> (\<forall>o2. options_loop loss_rate args o1 = Inr o2 \<longrightarrow> op_curr o2 + 2 = length args)"
  using assms
proof (induction loss_rate args o1 rule: options_loop.induct)
  case (1 loss_rate args o1)
  have more: "(of_nat (length args) - of_nat (op_curr o1) :: u64) > 2 \<longleftrightarrow> op_curr o1 + 2 < length args"
    using more_than_two 1(2,3) by simp
  show ?case
  proof (cases "op_curr o1 + 2 < length args")
    case True
    show ?thesis
    proof (cases "option_step loss_rate args o1")
      case (Inl e)
      then show ?thesis using option_step_inside [OF True] more True by (auto simp: options_loop.simps [of _ _ o1])
    next
      case (Inr o2)
      then show ?thesis using 1(1) [OF _ Inr] option_step_room [OF Inr True] more True 1(2)
        by (simp add: options_loop.simps [of _ _ o1])
    qed
  qed (use more 1(3) in \<open>simp add: options_loop.simps [of _ _ o1]\<close>)
qed

text \<open>The source address is a default or an argument.\<close>

definition source_given :: "string list \<Rightarrow> string \<Rightarrow> string \<Rightarrow> Options \<Rightarrow> bool" where
  "source_given args a s o1 \<longleftrightarrow> (op_source_address o1 = a \<or> op_source_address o1 \<in> set args)
     \<and> (op_source_port o1 = s \<or> op_source_port o1 \<in> set args)"

lemma option_step_source:
  "option_step loss_rate args o1 = Inr o2 \<Longrightarrow> source_given args a s o1 \<Longrightarrow> source_given args a s o2"
  by (auto simp: source_given_def step_defs on_value_Inr split: if_splits option.splits)

lemma options_loop_source:
  "options_loop loss_rate args o1 = Inr o2 \<Longrightarrow> source_given args a s o1 \<Longrightarrow> source_given args a s o2"
proof (induction loss_rate args o1 rule: options_loop.induct)
  case (1 loss_rate args o1)
  show ?case
  proof (cases "(of_nat (length args) - of_nat (op_curr o1) :: u64) > 2")
    case True
    then obtain o3 where o3: "option_step loss_rate args o1 = Inr o3" "options_loop loss_rate args o3 = Inr o2"
      using 1(2) by (auto simp: options_loop.simps [of _ _ o1] on_value_Inr)
    then show ?thesis using 1(1) [OF True o3] option_step_source [OF o3(1) 1(3)] by blast
  qed (use 1(2,3) in \<open>simp add: options_loop.simps [of _ _ o1]\<close>)
qed

section \<open>Options as values\<close>

text \<open>
  A specification of the command line: options are values, each is a change of the configuration,
  and they apply from left to right.
\<close>

datatype Opt =
  Listen | Source_address string | Source_port string | Window string | Time_out string
| Device string | Loss_up string | Loss_down string

fun written :: "Opt \<Rightarrow> string list" where
  "written Listen = [''-l'']"
| "written (Source_address v) = [''-a'', v]"
| "written (Source_port v) = [''-s'', v]"
| "written (Window v) = [''-w'', v]"
| "written (Time_out v) = [''-t'', v]"
| "written (Device v) = [''-d'', v]"
| "written (Loss_up v) = [''-Lu'', v]"
| "written (Loss_down v) = [''-Ld'', v]"

text \<open>The number of a loss rate where it is defined.\<close>

fun rate_defined :: "(string \<Rightarrow> u16 option) \<Rightarrow> (string \<Rightarrow> u16) \<Rightarrow> Opt \<Rightarrow> bool" where
  "rate_defined loss_rate rate (Loss_up v) \<longleftrightarrow> loss_rate v = Some (rate v)"
| "rate_defined loss_rate rate (Loss_down v) \<longleftrightarrow> loss_rate v = Some (rate v)"
| "rate_defined loss_rate rate _ \<longleftrightarrow> True"

fun applied :: "(string \<Rightarrow> u16) \<Rightarrow> Opt \<Rightarrow> Options \<Rightarrow> Options" where
  "applied rate Listen o1 = o1\<lparr>op_listen := True\<rparr>"
| "applied rate (Source_address v) o1 = o1\<lparr>op_source_address := v\<rparr>"
| "applied rate (Source_port v) o1 = o1\<lparr>op_source_port := v\<rparr>"
| "applied rate (Window v) o1 = o1\<lparr>op_fsm := (op_fsm o1)\<lparr>cfg_recv_capacity := word_of_int (strtol v)\<rparr>\<rparr>"
| "applied rate (Time_out v) o1 = o1\<lparr>op_fsm := (op_fsm o1)\<lparr>cfg_rt_timeout := word_of_int (strtol v)\<rparr>\<rparr>"
| "applied rate (Device v) o1 = o1\<lparr>op_tundev := Some v\<rparr>"
| "applied rate (Loss_up v) o1 = o1\<lparr>op_filt := (op_filt o1)\<lparr>fd_loss_rate_up := rate v\<rparr>\<rparr>"
| "applied rate (Loss_down v) o1 = o1\<lparr>op_filt := (op_filt o1)\<lparr>fd_loss_rate_dn := rate v\<rparr>\<rparr>"

definition configured ::
    "(string \<Rightarrow> string \<Rightarrow> Address option) \<Rightarrow> string \<Rightarrow> string \<Rightarrow> Options
       \<Rightarrow> stop + TCPConfig \<times> FdAdapterConfig \<times> bool \<times> string option" where
  "configured resolve host service o1 =
     (if op_listen o1
      then on_value (resolved resolve ''0'' service) (\<lambda>source. on_value (port_of source) (\<lambda>p.
             if p = 0 then Inl (Exited 1) else Inr (op_fsm o1, (op_filt o1)\<lparr>fd_source := source\<rparr>, True, op_tundev o1)))
      else on_value (resolved resolve host service) (\<lambda>destination.
           on_value (resolved resolve (op_source_address o1) (op_source_port o1)) (\<lambda>source.
             Inr (op_fsm o1, (op_filt o1)\<lparr>fd_destination := destination, fd_source := source\<rparr>, False, op_tundev o1))))"

lemma option_step_written:
  assumes "args = before @ written opt @ after" and "op_curr o1 = length before" and "2 \<le> length after"
    and "rate_defined loss_rate rate opt"
  shows "option_step loss_rate args o1 = Inr ((applied rate opt o1)\<lparr>op_curr := length before + length (written opt)\<rparr>)"
  using assms by (cases opt) (simp_all add: step_defs same_beginning_def nth_append)

lemma applied_at: "applied rate opt (o1\<lparr>op_curr := n\<rparr>) = (applied rate opt o1)\<lparr>op_curr := n\<rparr>"
  by (cases opt) simp_all

lemma fold_applied_at:
  "fold (applied rate) opts (o1\<lparr>op_curr := n\<rparr>) = (fold (applied rate) opts o1)\<lparr>op_curr := n\<rparr>"
  by (induction opts arbitrary: o1) (simp_all add: applied_at)

lemma configured_at: "configured resolve host service (o1\<lparr>op_curr := n\<rparr>) = configured resolve host service o1"
  by (simp add: configured_def cong: if_cong)

lemma options_loop_written:
  assumes "args = before @ concat (map written opts) @ [host, service]" and "op_curr o1 = length before"
    and "length args < 2 ^ 64" and "\<forall>opt \<in> set opts. rate_defined loss_rate rate opt"
  shows "options_loop loss_rate args o1 =
    Inr ((fold (applied rate) opts o1)\<lparr>op_curr := length before + length (concat (map written opts))\<rparr>)"
  using assms
proof (induction opts arbitrary: before o1)
  case Nil
  have "\<not> (of_nat (length args) - of_nat (op_curr o1) :: u64) > 2"
    using more_than_two [of "length args" "op_curr o1"] Nil by simp
  then show ?case using Nil(2) by (simp add: options_loop.simps [of _ _ o1])
next
  case (Cons opt opts)
  let ?o2 = "(applied rate opt o1)\<lparr>op_curr := length before + length (written opt)\<rparr>"
  have len: "0 < length (written opt)" by (cases opt) simp_all
  have "(of_nat (length args) - of_nat (op_curr o1) :: u64) > 2"
    using more_than_two [of "length args" "op_curr o1"] Cons(2-5) len by simp
  moreover have "option_step loss_rate args o1 = Inr ?o2"
    using Cons(2) option_step_written [OF _ Cons(3), of args opt "concat (map written opts) @ [host, service]"] Cons(5)
    by (simp add: numeral_2_eq_2)
  moreover have "options_loop loss_rate args ?o2
      = Inr ((fold (applied rate) opts ?o2)\<lparr>op_curr := length (before @ written opt) + length (concat (map written opts))\<rparr>)"
    using Cons(2,4,5) by (intro Cons(1)) simp_all
  ultimately show ?case by (simp add: options_loop.simps [of _ _ o1] fold_applied_at add.assoc)
qed

lemma get_config_configured:
  assumes "options_loop loss_rate args (options isn port) = Inr o1" and "arg args (op_curr o1) = Inr host"
    and "arg args (op_curr o1 + 1) = Inr service"
  shows "get_config resolve loss_rate isn port args = configured resolve host service o1"
  using assms by (simp add: get_config_def configured_def)

text \<open>
  The options are applied from left to right, each with its argument, whatever strings those
  are as long as the loss rates are defined, and then the addresses are looked up.
\<close>
lemma options_are_applied:
  assumes "length (concat (map written opts)) < 2 ^ 64 - 3"
    and "\<forall>opt \<in> set opts. rate_defined loss_rate rate opt"
  shows "get_config resolve loss_rate isn port (name # concat (map written opts) @ [host, service])
    = configured resolve host service (fold (applied rate) opts (options isn port))"
proof -
  let ?args = "[name] @ concat (map written opts) @ [host, service]"
  have cur: "op_curr (options isn port) = length [name]" by (simp add: options_def)
  have loop: "options_loop loss_rate ?args (options isn port) = Inr ((fold (applied rate) opts (options isn port))
      \<lparr>op_curr := length [name] + length (concat (map written opts))\<rparr>)"
    using assms by (intro options_loop_written [OF refl cur]) simp_all
  show ?thesis
    using get_config_configured [OF loop, of host service resolve]
    by (simp add: configured_at arg_def nth_append)
qed

section \<open>Where the help text differs\<close>

text \<open>
  In listen mode the host is not looked at; the default window is not what the help says; a time-out
  is cut to 16 bits; and whatever begins with \<open>-Lu\<close> is taken for it.
\<close>

lemma listen_ignores_host:
  "op_listen o1 \<Longrightarrow> configured resolve host service o1 = configured resolve host' service o1"
  by (simp add: configured_def)

lemma default_window:
  "cfg_recv_capacity (op_fsm (options isn port)) = DEFAULT_CAPACITY" "DEFAULT_CAPACITY \<noteq> MAX_PAYLOAD_SIZE"
  by (simp_all add: options_def tcp_config_def DEFAULT_CAPACITY_def MAX_PAYLOAD_SIZE_def)

lemma time_out_cut: "cfg_rt_timeout (op_fsm (applied rate (Time_out ''65536'') o1)) = 0"
  by (simp add: strtol_def is_space_def char_between_def digit_in_def)

lemma loss_option_prefix: "same_beginning ''-Lu'' ''-Lunatic'' 3"
  by (simp add: same_beginning_def)

section \<open>Properties\<close>



end
