(* ===== verification/Web_Client.thy ===== *)
theory Web_Client
  imports File_Descriptor Text_Output
begin

text \<open>
  \<open>get_URL\<close> of \<open>apps/webget.cc\<close>, once its socket is connected: it writes a request and prints
  what it reads until the end of the file. The outcomes of the reads are a list, one per round.
\<close>

definition crlf :: string where
  "crlf = [CHR 0x0d, CHR 0x0a]"

definition get_request :: "string \<Rightarrow> string \<Rightarrow> string" where
  "get_request host path =
     ''GET '' @ path @ '' HTTP/1.1'' @ crlf @ ''Host: '' @ host @ crlf @ ''Connection: close'' @ crlf @ crlf"

text \<open>The loop; the result says whether it has ended.\<close>

fun print_response :: "(nat \<Rightarrow> byte list syscall) list \<Rightarrow> FDWrapper \<Rightarrow> byte list \<Rightarrow> (FDWrapper \<times> byte list \<times> bool) option" where
  "print_response reads w printed =
     (if fd_eof w then Some (w, printed, True)
      else case reads of
             [] \<Rightarrow> Some (w, printed, False)
           | sys_read # reads \<Rightarrow>
               do { (w, response) \<leftarrow> fd_read sys_read [] w; print_response reads w (printed @ response) })"

declare print_response.simps [simp del]

definition get_URL ::
    "(byte list list \<Rightarrow> nat syscall) \<Rightarrow> (nat \<Rightarrow> byte list syscall) list \<Rightarrow> string \<Rightarrow> string \<Rightarrow> FDWrapper
       \<Rightarrow> (FDWrapper \<times> byte list \<times> bool) option" where
  "get_URL sys_writev reads host path w =
     do { (w, n) \<leftarrow> fd_write sys_writev (bytes_of_string (get_request host path)) w; print_response reads w [] }"

text \<open>What one read brings.\<close>

fun brought :: "(nat \<Rightarrow> byte list syscall) \<Rightarrow> byte list" where
  "brought sys_read = (case sys_read kReadBufferSize of Done bytes \<Rightarrow> bytes | _ \<Rightarrow> [])"

lemma fd_read_default:
  assumes "fd_read sys_read [] w = Some (w', response)"
  shows "response = brought sys_read" and "fd_eof w' \<longleftrightarrow> fd_eof w \<or> sys_read kReadBufferSize = Done []"
  using assms by (auto simp: fd_read_def read_size_def Let_def register_read_def set_eof_def split: syscall.splits if_splits)

text \<open>
  All that was read is printed, in order, up to the first read that brings the end of the file, and
  the loop has ended exactly when there was one.
\<close>

lemma response_printed:
  assumes "print_response reads w printed = Some (w', out, ended)" and "\<not> fd_eof w"
  shows "out = printed @ concat (map brought (takeWhile (\<lambda>r. r kReadBufferSize \<noteq> Done []) reads))
    \<and> (ended \<longleftrightarrow> (\<exists>r \<in> set reads. r kReadBufferSize = Done []))"
  using assms
proof (induction reads arbitrary: w printed)
  case Nil
  then show ?case by (simp add: print_response.simps [of "[]"])
next
  case (Cons r reads)
  obtain w1 response where read: "fd_read r [] w = Some (w1, response)"
    and rest: "print_response reads w1 (printed @ response) = Some (w', out, ended)"
    using Cons.prems by (auto simp: print_response.simps [of "r # reads"] split: Option.bind_splits)
  note r = fd_read_default [OF read]
  show ?case
  proof (cases "r kReadBufferSize = Done []")
    case True
    then have "fd_eof w1" using r(2) by simp
    then show ?thesis using rest r(1) True by (simp add: print_response.simps [of reads])
  next
    case False
    then show ?thesis using Cons.IH [OF rest] Cons.prems(2) r by simp
  qed
qed

text \<open>The count of the bytes written is not looked at: the rest of a request may never go out.\<close>

lemma request_cut:
  "fd_write (\<lambda>views. Done 1) (bytes_of_string (get_request host path)) w
     = Some (register_write w, 1)"
  by (simp add: fd_write_def fd_write_views_def check_system_call_def get_request_def bytes_of_string_def Let_def)

end
