(* ===== verification/Main_Programs.thy ===== *)
theory Main_Programs
  imports Socket_Calls Endtoend Stream_Copy Command_Line Web_Client
begin

text \<open>
  What the programs do around the library: the arguments of \<open>main\<close> in \<open>apps/endtoend.cc\<close>,
  \<open>apps/tcp_native.cc\<close> and \<open>apps/webget.cc\<close>; how the end-to-end program announces itself to
  the bouncer; and the kernel's TCP socket that \<open>apps/tcp_native.cc\<close> copies to and from.
  \<open>None\<close> is an exception.
\<close>

section \<open>Arguments\<close>

datatype program_end = Aborts | Fails

text \<open>\<open>main\<close> of \<open>endtoend\<close>: what \<open>program_body\<close> is called with.\<close>

definition endtoend_main :: "string list \<Rightarrow> program_end + bool \<times> string \<times> string \<times> bool" where
  "endtoend_main args =
     (if length args = 0 then Inl Aborts
      else if length args \<noteq> 4 \<and> length args \<noteq> 5 then Inl Fails
      else if args ! 1 \<noteq> ''client'' \<and> args ! 1 \<noteq> ''server'' then Inl Fails
      else Inr (args ! 1 = ''client'', args ! 2, args ! 3, length args = 5))"

text \<open>\<open>main\<close> of \<open>tcp_native\<close>: whether it listens, and the host and service.\<close>

definition tcp_native_main :: "string list \<Rightarrow> program_end + bool \<times> string \<times> string" where
  "tcp_native_main args =
     (if length args = 0 then Inl Aborts
      else if length args < 3 then Inl Fails
      else let server_mode = same_beginning ''-l'' (args ! 1) 3
           in if server_mode \<and> length args < 4 then Inl Fails
              else if server_mode then Inr (True, args ! 2, args ! 3)
              else Inr (False, args ! 1, args ! 2))"

definition webget_main :: "string list \<Rightarrow> program_end + string \<times> string" where
  "webget_main args =
     (if length args = 0 then Inl Aborts
      else if length args \<noteq> 3 then Inl Fails
      else Inr (args ! 1, args ! 2))"

section \<open>The bouncer\<close>

definition announce ::
    "socket_call \<Rightarrow> bool syscall \<Rightarrow> resolver \<Rightarrow> (Address \<Rightarrow> byte list \<Rightarrow> nat syscall) \<Rightarrow> (byte list \<Rightarrow> unit syscall)
       \<Rightarrow> string \<Rightarrow> string \<Rightarrow> FDWrapper option" where
  "announce sys_socket getfl getaddrinfo sys_sendto sys_connect bounce_host bounce_port =
     do { internet_socket \<leftarrow> udp_socket sys_socket getfl;
          bounce_address \<leftarrow> address_of_names getaddrinfo bounce_host bounce_port;
          internet_socket \<leftarrow> socket_sendto sys_sendto (meaning bounce_address) [] internet_socket;
          internet_socket \<leftarrow> socket_sendto sys_sendto (meaning bounce_address) [] internet_socket;
          internet_socket \<leftarrow> socket_sendto sys_sendto (meaning bounce_address) [] internet_socket;
          _ \<leftarrow> socket_connect sys_connect bounce_address internet_socket;
          Some internet_socket }"

lemma announce_writes:
  assumes "announce sys_socket getfl getaddrinfo sys_sendto sys_connect h p = Some w"
  shows "fd_write_count w = 3" and "fd_read_count w = 0"
  using assms
  by (auto simp: announce_def udp_socket_def socket_open_def fd_wrapper_def socket_sendto_def register_write_def Let_def
      split: Option.bind_splits syscall.splits if_splits)

section \<open>The kernel's TCP\<close>

record NativeKernel =
  nv_getaddrinfo :: resolver
  nv_getnameinfo :: namer
  nv_socket :: socket_call
  nv_getfl :: "bool syscall"
  nv_setsockopt :: set_option
  nv_bind :: "byte list \<Rightarrow> unit syscall"
  nv_listen :: "int \<Rightarrow> unit syscall"
  nv_accept :: "int syscall"
  nv_accepted_getfl :: "int \<Rightarrow> bool syscall"
  nv_getsockopt :: "int \<Rightarrow> SocketOption \<Rightarrow> (nat \<times> int) syscall"
  nv_connect :: "byte list \<Rightarrow> unit syscall"
  nv_getpeername :: "(byte list \<times> nat) syscall"

text \<open>The name of the other end is written to the user, which may throw.\<close>

definition native_peer :: "NativeKernel \<Rightarrow> FDWrapper \<Rightarrow> string option" where
  "native_peer k w = do { a \<leftarrow> peer_address (nv_getpeername k) w; address_to_string (nv_getnameinfo k) a }"

definition native_server :: "NativeKernel \<Rightarrow> string \<Rightarrow> string \<Rightarrow> FDWrapper option" where
  "native_server k host_name service =
     do { listening_socket \<leftarrow> tcp_socket (nv_socket k) (nv_getfl k);
          _ \<leftarrow> set_reuseaddr (nv_setsockopt k) listening_socket;
          a \<leftarrow> address_of_names (nv_getaddrinfo k) host_name service;
          _ \<leftarrow> socket_bind (nv_bind k) a listening_socket;
          _ \<leftarrow> socket_listen (nv_listen k) 16 listening_socket;
          (listening_socket, connected_socket) \<leftarrow>
            socket_accept (nv_accept k) (nv_accepted_getfl k) (nv_getsockopt k) listening_socket;
          _ \<leftarrow> native_peer k connected_socket;
          Some connected_socket }"

definition native_client :: "NativeKernel \<Rightarrow> string \<Rightarrow> string \<Rightarrow> FDWrapper option" where
  "native_client k host_name service =
     do { connecting_socket \<leftarrow> tcp_socket (nv_socket k) (nv_getfl k);
          peer \<leftarrow> address_of_names (nv_getaddrinfo k) host_name service;
          _ \<leftarrow> address_to_string (nv_getnameinfo k) peer;
          _ \<leftarrow> socket_connect (nv_connect k) peer connecting_socket;
          _ \<leftarrow> native_peer k connecting_socket;
          Some connecting_socket }"

text \<open>The start of the copy over the socket.\<close>

definition tcp_native ::
    "NativeKernel \<Rightarrow> (int \<Rightarrow> bool syscall) \<Rightarrow> (int \<Rightarrow> bool \<Rightarrow> unit syscall) \<Rightarrow> FDWrapper \<Rightarrow> FDWrapper
       \<Rightarrow> bool \<times> string \<times> string \<Rightarrow> StreamCopy option" where
  "tcp_native k getfl setfl input output = (\<lambda>(server_mode, host_name, service).
     do { socket \<leftarrow> (if server_mode then native_server k host_name service else native_client k host_name service);
          _ \<leftarrow> native_peer k socket;
          stream_copy getfl setfl socket input output })"

text \<open>
  What the server copies to and from is a socket the kernel says is a TCP one, accepted after the
  address was bound and before anything was read or written on it.
\<close>

lemma native_server_socket:
  assumes "native_server k host_name service = Some w" and "nv_getfl k = Done False"
  shows "nv_accept k = Done (fd_num w) \<and> fd_read_count w = 0 \<and> fd_write_count w = 0
    \<and> tcp_socket_from_fd (nv_getsockopt k (fd_num w)) w = Some w"
proof -
  have same: "tcp_socket_from_fd g v = Some v' \<Longrightarrow> v' = v" for g v v'
    by (auto simp: tcp_socket_from_fd_def socket_from_fd_def split: Option.bind_splits if_splits)
  have fresh: "fd_wrapper fl fd = Some v \<Longrightarrow> fd_num v = fd \<and> fd_read_count v = 0 \<and> fd_write_count v = 0" for fl fd v
    by (auto simp: fd_wrapper_def Let_def split: if_splits Option.bind_splits)
  obtain l where l: "tcp_socket (nv_socket k) (nv_getfl k) = Some l"
    and a: "\<exists>l'. socket_accept (nv_accept k) (nv_accepted_getfl k) (nv_getsockopt k) l = Some (l', w)"
    using assms(1) by (auto simp: native_server_def split: Option.bind_splits)
  have "\<not> fd_non_blocking l"
    using l assms(2)
    by (auto simp: tcp_socket_def socket_open_def fd_wrapper_def check_system_call_def Let_def split: syscall.splits if_splits)
  then obtain fd v where "nv_accept k = Done fd" "fd_wrapper (nv_accepted_getfl k fd) fd = Some v"
    "tcp_socket_from_fd (nv_getsockopt k fd) v = Some w"
    using a by (auto simp: socket_accept_def check_system_call_def register_read_def Let_def
        split: Option.bind_splits syscall.splits if_splits)
  then show ?thesis using same fresh by metis
qed

end
