(* ===== verification/Sample_Datagrams.thy ===== *)
theory Sample_Datagrams
  imports Socket_Calls TCP_Segment IPv4
begin

text \<open>
  \<open>apps/ip_raw.cc\<close> and \<open>apps/iptest.cc\<close>: two programs that send one datagram, written byte
  by byte or made with the library. The lemmas say what a receiver sees.
\<close>

section \<open>A raw socket\<close>

definition SOCK_RAW :: int where "SOCK_RAW = 3"
definition IPPROTO_RAW :: int where "IPPROTO_RAW = 255"

definition user_payload :: "byte list" where
  "user_payload = bytes_of_string ''Heyyyy''"

definition raw_datagram :: "byte list" where
  "raw_datagram =
     [0x45] @ replicate 7 0 @ [64] @ [17] @ replicate 6 0 @ [10, 144, 0, 231]
     @ [0, 1, 4, 0] @ [0, of_nat (length user_payload + 8)] @ replicate 2 0 @ user_payload"

definition send_raw ::
    "socket_call \<Rightarrow> bool syscall \<Rightarrow> resolver \<Rightarrow> (Address \<Rightarrow> byte list \<Rightarrow> nat syscall) \<Rightarrow> FDWrapper option" where
  "send_raw sys_socket getfl getaddrinfo sys_sendto =
     do { w \<leftarrow> socket_open (sys_socket AF_INET SOCK_RAW IPPROTO_RAW) getfl;
          a \<leftarrow> address_of_ip getaddrinfo ''10.144.0.231'' 0;
          socket_sendto sys_sendto (meaning a) raw_datagram w }"

text \<open>The header names the address the datagram is sent to, and the UDP length is that of what follows.\<close>

lemma raw_datagram_fields:
  "be_word (field 16 4 raw_datagram) = (0x0a9000e7 :: u32)"
  "unat (be_word (field 24 2 raw_datagram) :: u16) = length (drop 20 raw_datagram)"
  by code_simp+

section \<open>A TUN device\<close>

definition iptest_segment :: TCPSegment where
  "iptest_segment = \<lparr>ts_message = \<lparr>
       tm_sender = Owned \<lparr>sm_seqno = Wrap32 12345, sm_SYN = True, sm_payload = bytes_of_string ''Hello'',
         sm_FIN = True, sm_RST = False\<rparr>,
       tm_receiver = Owned \<lparr>rm_ackno = None, rm_window_size = 9987, rm_RST = False\<rparr>\<rparr>,
     ts_udinfo = \<lparr>ud_src_port = 54321, ud_dst_port = 8080, ud_cksum = 0\<rparr>\<rparr>"

text \<open>
  The segment is serialized first; its checksum is computed when its bytes are in the serializer.
\<close>

definition iptest_datagram :: "IPv4Datagram option" where
  "iptest_datagram =
     do { header \<leftarrow> compute_checksum (ipv4_header\<lparr>ip_src := push_bit 24 127 OR 1,
            ip_dst := push_bit 24 198 OR push_bit 16 41 OR 4, ip_len := 45\<rparr>);
          s1 \<leftarrow> Some (tcp_segment_serialize iptest_segment serializer);
          seg \<leftarrow> Some (segment_compute_checksum (pseudo_checksum header) iptest_segment);
          Some \<lparr>dg_header = header, dg_payload = serializer_finish s1\<rparr> }"

definition iptest :: "(byte list list \<Rightarrow> nat syscall) \<Rightarrow> FDWrapper \<Rightarrow> (FDWrapper \<times> nat) option" where
  "iptest sys_writev tun =
     do { dgram \<leftarrow> iptest_datagram;
          bufs \<leftarrow> serialize_datagram dgram;
          fd_write_refs sys_writev bufs tun }"

text \<open>The datagram is one that the receiving side takes; its segment is refused.\<close>

lemma iptest_refused:
  "case iptest_datagram of
     None \<Rightarrow> False
   | Some d \<Rightarrow> (case Option.bind (serialize_datagram d) (\<lambda>bufs. parse_datagram (map ref_copy bufs)) of
       None \<Rightarrow> False
     | Some (d', parsed) \<Rightarrow> parsed \<and> dg_header d' = dg_header d
         \<and> parse_segment (pseudo_checksum (dg_header d')) (dg_payload d') = Some (tcp_segment, False))"
  by code_simp

end
