(* ===== verification/Summary.thy ===== *)
theory Summary
  imports Text_Output Network_Interface TCP_Over_IP
begin

text \<open>
  The text forms of headers and messages (\<open>to_string\<close> in \<open>util/ethernet_header.cc\<close>,
  \<open>util/arp_message.cc\<close>, \<open>util/ipv4_header.cc\<close> and \<open>util/tcp_segment.cc\<close>) and
  \<open>summary\<close> of \<open>util/helpers.cc\<close>, which parses a copy of a frame and writes what is in it.
  The lemmas say that a header's text determines the fields it shows, and what the summary of a frame
  that an interface sends is. \<open>None\<close> is an exception while parsing.
\<close>

section \<open>Headers\<close>

fun ethernet_address_text :: "EthernetAddress \<Rightarrow> string" where
  "ethernet_address_text (EthernetAddress b0 b1 b2 b3 b4 b5) =
     byte_text b0 @ '':'' @ byte_text b1 @ '':'' @ byte_text b2 @ '':'' @ byte_text b3 @ '':'' @ byte_text b4
       @ '':'' @ byte_text b5"

definition ethernet_header_text :: "EthernetHeader \<Rightarrow> string" where
  "ethernet_header_text h =
     ''dst='' @ ethernet_address_text (eh_dst h) @ '' src='' @ ethernet_address_text (eh_src h) @ '' type=''
       @ (if eh_type h = TYPE_IPv4 then ''IPv4''
          else if eh_type h = TYPE_ARP then ''ARP''
          else ''[unknown type '' @ hexadecimal (eh_type h) @ ''!]'')"

definition opcode_text :: "u16 \<Rightarrow> string" where
  "opcode_text opcode =
     (let opcode_str = ''(unknown type)'';
          opcode_str = (if opcode = OPCODE_REQUEST then ''REQUEST'' else opcode_str)
      in if opcode = OPCODE_REPLY then ''REPLY'' else opcode_str)"

definition arp_text :: "ARPMessage \<Rightarrow> string" where
  "arp_text m =
     ''opcode='' @ opcode_text (arp_opcode m)
       @ '', sender='' @ ethernet_address_text (arp_sender_ethernet_address m) @ ''/'' @ dotted (arp_sender_ip_address m)
       @ '', target='' @ ethernet_address_text (arp_target_ethernet_address m) @ ''/'' @ dotted (arp_target_ip_address m)"

definition ipv4_header_text :: "IPv4Header \<Rightarrow> string" where
  "ipv4_header_text h =
     ''IPv'' @ hexadecimal (ip_ver h) @ '' len='' @ decimal (ip_len h) @ '' proto='' @ decimal (ip_proto h)
       @ '' ttl='' @ decimal (ip_ttl h) @ '' src='' @ dotted (ip_src h) @ '' dst='' @ dotted (ip_dst h)"

definition segment_text :: "TCPSegment \<Rightarrow> string" where
  "segment_text seg =
     (let s = ref_get (tm_sender (ts_message seg)); r = ref_get (tm_receiver (ts_message seg))
      in ''TCP seqno='' @ decimal (raw_value (sm_seqno s))
         @ (if sm_SYN s then '' +SYN'' else [])
         @ (if sm_payload s \<noteq> [] then '' payload='' @ [CHR 0x22] @ pretty_print (sm_payload s) 32 @ [CHR 0x22] else [])
         @ (if sm_FIN s then '' +FIN'' else [])
         @ (if sm_RST s \<or> rm_RST r then '' +RST'' else [])
         @ (case rm_ackno r of Some ackno \<Rightarrow> '' ACK<'' @ decimal (raw_value ackno) @ ''>'' | None \<Rightarrow> [])
         @ '' winsize='' @ decimal (rm_window_size r)
         @ '' src='' @ decimal (ud_src_port (ts_udinfo seg)) @ '' dst='' @ decimal (ud_dst_port (ts_udinfo seg)))"

section \<open>Frames\<close>

definition payload_summary :: "IPv4Datagram \<Rightarrow> string option" where
  "payload_summary dgram =
     (if ip_proto (dg_header dgram) = PROTO_TCP
      then do { (tcp_seg, parsed) \<leftarrow> parse_segment (pseudo_checksum (dg_header dgram)) (dg_payload dgram);
                Some (if parsed then segment_text tcp_seg else ''bad TCP segment'') }
      else Some ([CHR 0x22] @ pretty_print (concat_buffers (dg_payload dgram)) 32 @ [CHR 0x22]))"

definition summary :: "EthernetFrame \<Rightarrow> string option" where
  "summary frame =
     (let out = ethernet_header_text (fr_header frame) @ '' payload: ''
      in if eh_type (fr_header frame) = TYPE_IPv4
         then do { (dgram, parsed) \<leftarrow> parse_datagram (fr_payload (clone_frame frame));
                   (if parsed
                    then map_option (\<lambda>t. out @ ipv4_header_text (dg_header dgram) @ '' payload='' @ t)
                           (payload_summary dgram)
                    else Some (out @ ''bad IPv4 datagram'')) }
         else if eh_type (fr_header frame) = TYPE_ARP
         then do { (arp, parsed) \<leftarrow> parse_arp (fr_payload (clone_frame frame));
                   Some (out @ (if parsed then arp_text arp else ''bad ARP message'')) }
         else Some (out @ ''unknown frame type''))"

section \<open>What the texts say\<close>

lemma address_text_cut [simp]:
  "ethernet_address_text a @ x = ethernet_address_text b @ y \<longleftrightarrow> a = b \<and> x = y"
  by (cases a; cases b) auto

lemma ethernet_header_text_inj: "ethernet_header_text g = ethernet_header_text h \<longleftrightarrow> g = h"
  by (cases g; cases h)
     (auto simp: ethernet_header_text_def TYPE_IPv4_def TYPE_ARP_def append_eq_append_conv split: if_splits)

lemma arp_text_inj:
  assumes "arp_text m = arp_text n" and "arp_supported m" and "arp_supported n"
  shows "m = n"
  using assms
  by (cases m; cases n)
     (auto simp: arp_text_def opcode_text_def arp_supported_def OPCODE_REQUEST_def OPCODE_REPLY_def split: if_splits)

lemma ipv4_header_text_fields:
  "ipv4_header_text g = ipv4_header_text h \<longleftrightarrow>
     ip_ver g = ip_ver h \<and> ip_len g = ip_len h \<and> ip_proto g = ip_proto h \<and> ip_ttl g = ip_ttl h
     \<and> ip_src g = ip_src h \<and> ip_dst g = ip_dst h"
  by (auto simp: ipv4_header_text_def)

text \<open>The summary of an ARP frame that an interface sends.\<close>

lemma summary_arp:
  assumes "arp_supported m" and "arp_frame ni dst m = Some f"
  shows "summary f = Some (ethernet_header_text (fr_header f) @ '' payload: '' @ arp_text m)"
proof -
  have "arp_in (ni\<lparr>ni_ethernet_address := dst\<rparr>) (clone_frame f) = Some m"
    using arp_in_copy [OF assms, of "ni\<lparr>ni_ethernet_address := dst\<rparr>"] by simp
  then show ?thesis by (auto simp: summary_def arp_in_def split: option.splits if_splits)
qed

text \<open>The summary of a frame that carries a message of a peer.\<close>

lemma summary_tcp:
  assumes "carries msg sa sp da dp d" and "ipv4_frame ni dst (clone_datagram d) = Some f"
  shows "\<exists>seg. summary f = Some (ethernet_header_text (fr_header f) @ '' payload: ''
      @ ipv4_header_text (dg_header d) @ '' payload='' @ segment_text seg)
    \<and> ts_message seg = received_message msg \<and> ud_src_port (ts_udinfo seg) = sp \<and> ud_dst_port (ts_udinfo seg) = dp"
proof -
  have c: "carries msg sa sp da dp (clone_datagram d)"
    by (rule carries_cong [OF assms(1)]) (simp_all add: clone_datagram_def)
  obtain bufs where bufs: "serialize_datagram (clone_datagram d) = Some bufs"
    and wire: "\<And>bufs'. \<forall>b \<in> set bufs'. is_owned b \<Longrightarrow> no_gap bufs' \<Longrightarrow> bytes_of bufs' = bytes_of bufs \<Longrightarrow>
        \<exists>d'. parse_datagram bufs' = Some (d', True) \<and> dg_header d' = dg_header (clone_datagram d)
           \<and> bytes_of (dg_payload d') = bytes_of (dg_payload (clone_datagram d))
           \<and> (\<forall>b \<in> set (dg_payload d'). is_owned b) \<and> no_gap (dg_payload d')"
    using carries_wire [OF c] by blast
  have f: "fr_payload f = bufs" "eh_type (fr_header f) = TYPE_IPv4"
    using assms(2) bufs by (auto simp: ipv4_frame_def)
  have "no_gap bufs"
    using serialize_datagram_ok [of "clone_datagram d"] bufs assms(1)
    by (auto simp: carries_def Let_def plain_header_def clone_datagram_def finish_no_gap)
  then obtain d' where d': "parse_datagram (map ref_copy bufs) = Some (d', True)" "dg_header d' = dg_header d"
    "bytes_of (dg_payload d') = bytes_of (dg_payload d)" "\<forall>b \<in> set (dg_payload d'). is_owned b" "no_gap (dg_payload d')"
    using wire [of "map ref_copy bufs"] by (auto simp: clone_datagram_def)
  obtain seg where seg: "parse_segment (pseudo_checksum (dg_header d)) (dg_payload d') = Some (seg, True)"
    "ts_message seg = received_message msg" "ud_src_port (ts_udinfo seg) = sp" "ud_dst_port (ts_udinfo seg) = dp"
    using assms(1) d'(3-5) by (auto simp: carries_def Let_def)
  have "ip_proto (dg_header d) = PROTO_TCP" using assms(1) by (simp add: carries_def Let_def)
  then show ?thesis
    by (intro exI [of _ seg]) (simp add: summary_def payload_summary_def f d' seg Let_def)
qed

end
