(* ===== verification/Descriptor_Handles.thy ===== *)
theory Descriptor_Handles
  imports File_Descriptor
begin

text \<open>
  The handles of \<open>util/file_descriptor.hh\<close> and \<open>util/file_descriptor.cc\<close>: a
  \<open>FileDescriptor\<close> is a \<open>shared_ptr\<close> to a \<open>FDWrapper\<close>, \<open>duplicate\<close> makes another
  one, a move hands it over, and the last one to go destroys the wrapper, which closes the descriptor
  unless it is closed. The state is the store of wrappers, the handles by the variable that has them,
  and the calls of \<open>::close\<close> so far, each with the wrapper that made it and whether it succeeded.
  The lemmas show that the kernel's descriptor is given to \<open>::close\<close> until that has succeeded
  once, and not after it.
\<close>

record Descriptors =
  ds_wrappers :: "FDWrapper option list"
  ds_handles :: "(nat \<times> nat) list"
  ds_closes :: "(nat \<times> bool) list"

definition no_descriptors :: Descriptors where
  "no_descriptors = \<lparr>ds_wrappers = [], ds_handles = [], ds_closes = []\<rparr>"

definition wrapper_at :: "Descriptors \<Rightarrow> nat \<Rightarrow> FDWrapper option" where
  "wrapper_at ds i = (if i < length (ds_wrappers ds) then ds_wrappers ds ! i else None)"

section \<open>Operations\<close>

text \<open>An exception of the operation is \<open>False\<close>.\<close>

definition descriptor_open :: "bool syscall \<Rightarrow> int \<Rightarrow> nat \<Rightarrow> Descriptors \<Rightarrow> Descriptors \<times> bool" where
  "descriptor_open getfl fd h ds =
     (case fd_wrapper getfl fd of
        None \<Rightarrow> (ds, False)
      | Some w \<Rightarrow> (ds\<lparr>ds_wrappers := ds_wrappers ds @ [Some w],
                     ds_handles := (h, length (ds_wrappers ds)) # ds_handles ds\<rparr>, True))"

definition descriptor_duplicate :: "nat \<Rightarrow> nat \<Rightarrow> Descriptors \<Rightarrow> Descriptors \<times> bool" where
  "descriptor_duplicate h h' ds =
     (case map_of (ds_handles ds) h of
        None \<Rightarrow> (ds, True)
      | Some i \<Rightarrow> (ds\<lparr>ds_handles := (h', i) # ds_handles ds\<rparr>, True))"

text \<open>The move constructor: the variable moved from holds nothing.\<close>

definition descriptor_move :: "nat \<Rightarrow> nat \<Rightarrow> Descriptors \<Rightarrow> Descriptors \<times> bool" where
  "descriptor_move h h' ds =
     (ds\<lparr>ds_handles := map (\<lambda>(k, i). (if k = h then h' else k, i)) (ds_handles ds)\<rparr>, True)"

text \<open>
  \<open>FDWrapper::close\<close>: the call is made whatever the flags say; if it fails the exception leaves
  before they are set.
\<close>

definition wrapper_close :: "unit syscall \<Rightarrow> nat \<Rightarrow> Descriptors \<Rightarrow> Descriptors \<times> bool" where
  "wrapper_close sys_close i ds =
     (case wrapper_at ds i of
        None \<Rightarrow> (ds, False)
      | Some w \<Rightarrow>
          (case fd_close sys_close w of
             None \<Rightarrow> (ds\<lparr>ds_closes := ds_closes ds @ [(i, False)]\<rparr>, False)
           | Some w \<Rightarrow> (ds\<lparr>ds_closes := ds_closes ds @ [(i, True)],
                          ds_wrappers := (ds_wrappers ds)[i := Some w]\<rparr>, True)))"

text \<open>To close a handle that holds nothing is undefined; the callers do not (\<open>descriptor_ok\<close>).\<close>

definition descriptor_close :: "unit syscall \<Rightarrow> nat \<Rightarrow> Descriptors \<Rightarrow> Descriptors \<times> bool" where
  "descriptor_close sys_close h ds =
     (case map_of (ds_handles ds) h of None \<Rightarrow> (ds, False) | Some i \<Rightarrow> wrapper_close sys_close i ds)"

text \<open>The destructors: that of the wrapper lets no exception out.\<close>

definition wrapper_destroy :: "unit syscall \<Rightarrow> nat \<Rightarrow> Descriptors \<Rightarrow> Descriptors" where
  "wrapper_destroy sys_close i ds =
     (let ds = (case wrapper_at ds i of
                  None \<Rightarrow> ds
                | Some w \<Rightarrow> if fd_closed w then ds else fst (wrapper_close sys_close i ds))
      in ds\<lparr>ds_wrappers := (ds_wrappers ds)[i := None]\<rparr>)"

definition descriptor_destroy :: "unit syscall \<Rightarrow> nat \<Rightarrow> Descriptors \<Rightarrow> Descriptors \<times> bool" where
  "descriptor_destroy sys_close h ds =
     (case map_of (ds_handles ds) h of
        None \<Rightarrow> (ds, True)
      | Some i \<Rightarrow>
          let handles = filter (\<lambda>(k, _). k \<noteq> h) (ds_handles ds);
              ds = ds\<lparr>ds_handles := handles\<rparr>
          in (if i \<in> snd ` set handles then ds else wrapper_destroy sys_close i ds, True))"

text \<open>
  The move assignment, also to a variable that holds a handle: that one is given up, which may
  destroy its wrapper, and the variable gets the other one. A wrapper does not look at the handles when
  it is destroyed, so the order of the two does not matter. The assignment to itself changes nothing.
\<close>

definition descriptor_assign :: "unit syscall \<Rightarrow> nat \<Rightarrow> nat \<Rightarrow> Descriptors \<Rightarrow> Descriptors \<times> bool" where
  "descriptor_assign sys_close h h' ds =
     (if h = h' then (ds, True)
      else descriptor_move h h' (fst (descriptor_destroy sys_close h' ds)))"

datatype descriptor_op =
  Open "bool syscall" int nat
| Duplicate nat nat
| Move nat nat
| Assign "unit syscall" nat nat
| Close "unit syscall" nat
| Destroy "unit syscall" nat

fun descriptor_event :: "Descriptors \<Rightarrow> descriptor_op \<Rightarrow> Descriptors \<times> bool" where
  "descriptor_event ds (Open getfl fd h) = descriptor_open getfl fd h ds"
| "descriptor_event ds (Duplicate h h') = descriptor_duplicate h h' ds"
| "descriptor_event ds (Move h h') = descriptor_move h h' ds"
| "descriptor_event ds (Assign sys_close h h') = descriptor_assign sys_close h h' ds"
| "descriptor_event ds (Close sys_close h) = descriptor_close sys_close h ds"
| "descriptor_event ds (Destroy sys_close h) = descriptor_destroy sys_close h ds"

abbreviation descriptor_step :: "Descriptors \<Rightarrow> descriptor_op \<Rightarrow> Descriptors" where
  "descriptor_step ds e \<equiv> fst (descriptor_event ds e)"

text \<open>
  A constructor makes a variable that has no handle yet, and an explicit \<open>close\<close> is for a handle
  whose descriptor is not closed. The calls of \<open>::close\<close> may fail.
\<close>

definition fresh :: "Descriptors \<Rightarrow> nat \<Rightarrow> bool" where
  "fresh ds h \<longleftrightarrow> h \<notin> fst ` set (ds_handles ds)"

fun descriptor_ok :: "Descriptors \<Rightarrow> descriptor_op \<Rightarrow> bool" where
  "descriptor_ok ds (Open getfl fd h) \<longleftrightarrow> fresh ds h"
| "descriptor_ok ds (Duplicate h h') \<longleftrightarrow> fresh ds h'"
| "descriptor_ok ds (Move h h') \<longleftrightarrow> fresh ds h'"
| "descriptor_ok ds (Assign sys_close h h') \<longleftrightarrow> True"
| "descriptor_ok ds (Close sys_close h) \<longleftrightarrow>
     (case Option.bind (map_of (ds_handles ds) h) (wrapper_at ds) of None \<Rightarrow> False | Some w \<Rightarrow> \<not> fd_closed w)"
| "descriptor_ok ds (Destroy sys_close h) \<longleftrightarrow> True"

section \<open>No descriptor is closed again\<close>

text \<open>
  What the calls of \<open>::close\<close> for a wrapper yielded, in order, and what that may be: only the last
  can have succeeded; it has if the wrapper lives and is closed; and a wrapper that is gone has
  made one.
\<close>

definition outcomes :: "Descriptors \<Rightarrow> nat \<Rightarrow> bool list" where
  "outcomes ds i = map snd (filter (\<lambda>(j, _). j = i) (ds_closes ds))"

definition closing_ok :: "FDWrapper option \<Rightarrow> bool list \<Rightarrow> bool" where
  "closing_ok x os \<longleftrightarrow> True \<notin> set (butlast os)
     \<and> (case x of None \<Rightarrow> os \<noteq> [] | Some w \<Rightarrow> fd_closed w \<longleftrightarrow> os \<noteq> [] \<and> last os)"

lemma closing_ok_open: "closing_ok (Some w) os \<Longrightarrow> \<not> fd_closed w \<Longrightarrow> True \<notin> set os"
  by (cases os rule: rev_cases) (auto simp: closing_ok_def)

lemma closing_ok_call:
  assumes "closing_ok (Some w) os" and "\<not> fd_closed w" and "fd_closed w' \<longleftrightarrow> b"
  shows "closing_ok (Some w') (os @ [b])" "closing_ok None (os @ [b])"
  using closing_ok_open [OF assms(1,2)] assms(3) by (simp_all add: closing_ok_def)

lemma closing_ok_gone: "closing_ok (Some w) os \<Longrightarrow> fd_closed w \<Longrightarrow> closing_ok None os"
  by (simp add: closing_ok_def)

definition descriptors_inv :: "Descriptors \<Rightarrow> bool" where
  "descriptors_inv ds \<longleftrightarrow>
     distinct (map fst (ds_handles ds))
     \<and> (\<forall>i. wrapper_at ds i \<noteq> None \<longleftrightarrow> i \<in> snd ` set (ds_handles ds))
     \<and> (\<forall>i. if i < length (ds_wrappers ds) then closing_ok (wrapper_at ds i) (outcomes ds i) else outcomes ds i = [])"

lemma wrapper_at_simps [simp]:
  "wrapper_at (ds\<lparr>ds_handles := hs\<rparr>) i = wrapper_at ds i"
  "wrapper_at (ds\<lparr>ds_closes := cs\<rparr>) i = wrapper_at ds i"
  "wrapper_at (ds\<lparr>ds_wrappers := ds_wrappers ds @ [x]\<rparr>) i
     = (if i = length (ds_wrappers ds) then x else wrapper_at ds i)"
  "wrapper_at (ds\<lparr>ds_wrappers := (ds_wrappers ds)[j := x]\<rparr>) i
     = (if i = j \<and> i < length (ds_wrappers ds) then x else wrapper_at ds i)"
  by (auto simp: wrapper_at_def nth_append)

lemma wrapper_at_in: "wrapper_at ds i = Some w \<Longrightarrow> i < length (ds_wrappers ds)"
  by (simp add: wrapper_at_def split: if_splits)

lemma fd_close_closes: "fd_close r w = Some w' \<Longrightarrow> fd_closed w'"
  by (auto simp: fd_close_def split: Option.bind_splits)

lemma fd_wrapper_open: "fd_wrapper getfl fd = Some w \<Longrightarrow> \<not> fd_closed w"
  by (auto simp: fd_wrapper_def Let_def split: if_splits Option.bind_splits)

lemma handle_wrapper:
  assumes "descriptors_inv ds" and "map_of (ds_handles ds) h = Some i"
  obtains w where "wrapper_at ds i = Some w" "i < length (ds_wrappers ds)"
proof -
  have "i \<in> snd ` set (ds_handles ds)" using map_of_SomeD [OF assms(2)] by force
  then have "wrapper_at ds i \<noteq> None" using assms(1) unfolding descriptors_inv_def by blast
  then show ?thesis using that wrapper_at_in by blast
qed

lemma outcomes_simps [simp]:
  "outcomes (ds\<lparr>ds_handles := hs\<rparr>) i = outcomes ds i"
  "outcomes (ds\<lparr>ds_wrappers := ws\<rparr>) i = outcomes ds i"
  "outcomes (ds\<lparr>ds_closes := ds_closes ds @ [(j, b)]\<rparr>) i = outcomes ds i @ (if i = j then [b] else [])"
  by (simp_all add: outcomes_def)

lemma descriptors_invI:
  assumes "distinct (map fst (ds_handles ds))"
    and "\<And>i. wrapper_at ds i \<noteq> None \<longleftrightarrow> i \<in> snd ` set (ds_handles ds)"
    and "\<And>i. i < length (ds_wrappers ds) \<Longrightarrow> closing_ok (wrapper_at ds i) (outcomes ds i)"
    and "\<And>i. \<not> i < length (ds_wrappers ds) \<Longrightarrow> outcomes ds i = []"
  shows "descriptors_inv ds"
  using assms by (simp add: descriptors_inv_def)

lemma descriptors_invD:
  assumes "descriptors_inv ds"
  shows "distinct (map fst (ds_handles ds))"
    and "wrapper_at ds i \<noteq> None \<longleftrightarrow> i \<in> snd ` set (ds_handles ds)"
    and "i < length (ds_wrappers ds) \<Longrightarrow> closing_ok (wrapper_at ds i) (outcomes ds i)"
    and "\<not> i < length (ds_wrappers ds) \<Longrightarrow> outcomes ds i = []"
proof -
  show "distinct (map fst (ds_handles ds))" "wrapper_at ds i \<noteq> None \<longleftrightarrow> i \<in> snd ` set (ds_handles ds)"
    using assms unfolding descriptors_inv_def by blast+
  show "i < length (ds_wrappers ds) \<Longrightarrow> closing_ok (wrapper_at ds i) (outcomes ds i)"
    "\<not> i < length (ds_wrappers ds) \<Longrightarrow> outcomes ds i = []"
    using assms unfolding descriptors_inv_def by presburger+
qed

lemma open_inv:
  assumes inv: "descriptors_inv ds" and fresh: "fresh ds h"
  shows "descriptors_inv (fst (descriptor_open getfl fd h ds))"
proof (cases "fd_wrapper getfl fd")
  case (Some w)
  let ?ds = "fst (descriptor_open getfl fd h ds)" and ?n = "length (ds_wrappers ds)"
  have ds: "?ds = ds\<lparr>ds_wrappers := ds_wrappers ds @ [Some w], ds_handles := (h, ?n) # ds_handles ds\<rparr>"
    by (simp add: descriptor_open_def Some)
  have new: "closing_ok (Some w) (outcomes ds ?n)"
    using descriptors_invD(4) [OF inv, of ?n] fd_wrapper_open [OF Some] by (simp add: closing_ok_def)
  show ?thesis
    unfolding ds
  proof (rule descriptors_invI, goal_cases)
    case (3 i)
    then show ?case using new descriptors_invD(3) [OF inv, of i] by (cases "i = ?n") simp_all
  next
    case (4 i)
    then show ?case using descriptors_invD(4) [OF inv, of i] by simp
  qed (use fresh descriptors_invD(1,2) [OF inv] in \<open>auto simp: fresh_def\<close>)
qed (simp add: descriptor_open_def inv)

lemma duplicate_inv:
  assumes inv: "descriptors_inv ds" and fresh: "fresh ds h'"
  shows "descriptors_inv (fst (descriptor_duplicate h h' ds))"
proof (cases "map_of (ds_handles ds) h")
  case (Some i)
  have "i \<in> snd ` set (ds_handles ds)" using map_of_SomeD [OF Some] by force
  then show ?thesis
    using fresh descriptors_invD [OF inv]
    by (intro descriptors_invI) (auto simp: descriptor_duplicate_def Some fresh_def)
qed (simp add: descriptor_duplicate_def inv)

lemma move_inv:
  assumes inv: "descriptors_inv ds" and fresh: "fresh ds h'"
  shows "descriptors_inv (fst (descriptor_move h h' ds))"
proof -
  let ?m = "\<lambda>(k, i). (if k = h then h' else k, i :: nat)" and ?g = "\<lambda>k. if k = h then h' else k"
  have "map fst (map ?m (ds_handles ds)) = map ?g (map fst (ds_handles ds))"
    by (auto simp: case_prod_unfold)
  moreover have "inj_on ?g (set (map fst (ds_handles ds)))"
    using fresh by (auto simp: inj_on_def fresh_def)
  then have "distinct (map ?g (map fst (ds_handles ds)))"
    using descriptors_invD(1) [OF inv] by (subst distinct_map) blast
  ultimately have "distinct (map fst (map ?m (ds_handles ds)))" by presburger
  moreover have "snd ` set (map ?m (ds_handles ds)) = snd ` set (ds_handles ds)"
    by (force simp: case_prod_unfold image_image)
  ultimately show ?thesis
    using descriptors_invD(2-4) [OF inv] by (intro descriptors_invI) (simp_all add: descriptor_move_def)
qed

text \<open>A wrapper is replaced, after some calls of \<open>::close\<close> for it.\<close>

lemma replace_inv:
  assumes inv: "descriptors_inv ds" and i: "i < length (ds_wrappers ds)"
    and new: "ds_wrappers ds' = (ds_wrappers ds)[i := x]" "ds_closes ds' = ds_closes ds @ map (Pair i) os"
      "closing_ok x (outcomes ds i @ os)"
    and handles: "distinct (map fst (ds_handles ds'))"
      "\<And>j. j \<in> snd ` set (ds_handles ds') \<longleftrightarrow> (if j = i then x \<noteq> None else j \<in> snd ` set (ds_handles ds))"
  shows "descriptors_inv ds'"
proof (rule descriptors_invI [OF handles(1)])
  have at: "wrapper_at ds' j = (if j = i then x else wrapper_at ds j)" for j
    using i by (simp add: wrapper_at_def new)
  have out: "outcomes ds' j = outcomes ds j @ (if j = i then os else [])" for j
    by (simp add: outcomes_def new filter_map comp_def)
  show "wrapper_at ds' j \<noteq> None \<longleftrightarrow> j \<in> snd ` set (ds_handles ds')" for j
    using handles(2) [of j] descriptors_invD(2) [OF inv, of j] at [of j] by simp
  show "closing_ok (wrapper_at ds' j) (outcomes ds' j)" if "j < length (ds_wrappers ds')" for j
    using that new(3) descriptors_invD(3) [OF inv, of j] by (simp add: at out new(1))
  show "outcomes ds' j = []" if "\<not> j < length (ds_wrappers ds')" for j
    using that i descriptors_invD(4) [OF inv, of j] by (auto simp: out new(1))
qed

text \<open>The effect of the call, whatever it yields: the wrapper and the outcome agree.\<close>

lemma wrapper_close_effect:
  assumes "wrapper_at ds i = Some w" and "\<not> fd_closed w"
  obtains w' where "fst (wrapper_close sys_close i ds) =
      ds\<lparr>ds_closes := ds_closes ds @ [(i, fd_closed w')], ds_wrappers := (ds_wrappers ds)[i := Some w']\<rparr>"
proof (cases "fd_close sys_close w")
  case None
  have "(ds_wrappers ds)[i := Some w] = ds_wrappers ds"
    using assms(1) by (auto simp: wrapper_at_def list_update_same_conv split: if_splits)
  then show thesis
    using that [of w] assms None by (simp add: wrapper_close_def)
next
  case (Some w')
  then show thesis using that [of w'] assms fd_close_closes [OF Some] by (simp add: wrapper_close_def)
qed

lemma close_inv:
  assumes inv: "descriptors_inv ds" and ok: "descriptor_ok ds (Close sys_close h)"
  shows "descriptors_inv (fst (descriptor_close sys_close h ds))"
proof (cases "map_of (ds_handles ds) h")
  case (Some i)
  obtain w where w: "wrapper_at ds i = Some w" "i < length (ds_wrappers ds)"
    using handle_wrapper [OF inv Some] by blast
  have o: "\<not> fd_closed w" using ok w(1) Some by auto
  obtain w' where eff: "fst (wrapper_close sys_close i ds) =
      ds\<lparr>ds_closes := ds_closes ds @ [(i, fd_closed w')], ds_wrappers := (ds_wrappers ds)[i := Some w']\<rparr>"
    using wrapper_close_effect [OF w(1) o] by blast
  have "closing_ok (Some w') (outcomes ds i @ [fd_closed w'])"
    using closing_ok_call(1) [OF _ o refl] descriptors_invD(3) [OF inv w(2)] w(1) by simp
  moreover have "i \<in> snd ` set (ds_handles ds)" using map_of_SomeD [OF Some] by force
  ultimately show ?thesis
    using descriptors_invD(1) [OF inv] eff
    by (intro replace_inv [OF inv w(2), where os = "[fd_closed w']"]) (auto simp: descriptor_close_def Some)
qed (simp add: descriptor_close_def inv)

lemma destroy_inv:
  assumes inv: "descriptors_inv ds"
  shows "descriptors_inv (fst (descriptor_destroy sys_close h ds))"
proof (cases "map_of (ds_handles ds) h")
  case (Some i)
  let ?hs = "filter (\<lambda>(k, _). k \<noteq> h) (ds_handles ds)"
  obtain w where w: "wrapper_at ds i = Some w" "i < length (ds_wrappers ds)"
    using handle_wrapper [OF inv Some] by blast
  have d: "distinct (map fst ?hs)"
    using descriptors_invD(1) [OF inv] by (simp add: distinct_map_filter)
  have others: "j \<in> snd ` set ?hs \<longleftrightarrow> j \<in> snd ` set (ds_handles ds)" if "j \<noteq> i" for j
  proof -
    have "(h, j) \<notin> set (ds_handles ds)"
      using map_of_is_SomeI [OF descriptors_invD(1) [OF inv], of h j] Some that by auto
    then show ?thesis by force
  qed
  show ?thesis
  proof (cases "i \<in> snd ` set ?hs")
    case True
    have i: "i \<in> snd ` set (ds_handles ds)" using True by force
    have "j \<in> snd ` set ?hs \<longleftrightarrow> j \<in> snd ` set (ds_handles ds)" for j
      using others [of j] True i by (cases "j = i") auto
    then show ?thesis
      using d descriptors_invD(2-4) [OF inv] True
      by (intro descriptors_invI) (simp_all add: descriptor_destroy_def Some)
  next
    case False
    then have "fst (descriptor_destroy sys_close h ds)
        = wrapper_destroy sys_close i (ds\<lparr>ds_handles := ?hs\<rparr>)"
      by (simp add: descriptor_destroy_def Some)
    moreover have "j \<in> snd ` set ?hs \<longleftrightarrow> (if j = i then None \<noteq> (None :: FDWrapper option) else j \<in> snd ` set (ds_handles ds))" for j
      using False others [of j] by simp
    moreover obtain os where "ds_wrappers (wrapper_destroy sys_close i (ds\<lparr>ds_handles := ?hs\<rparr>)) = (ds_wrappers ds)[i := None]"
      "ds_closes (wrapper_destroy sys_close i (ds\<lparr>ds_handles := ?hs\<rparr>)) = ds_closes ds @ map (Pair i) os"
      "closing_ok None (outcomes ds i @ os)"
      "ds_handles (wrapper_destroy sys_close i (ds\<lparr>ds_handles := ?hs\<rparr>)) = ?hs"
    proof (cases "fd_closed w")
      case True
      then show thesis
        using that [of "[]"] w closing_ok_gone descriptors_invD(3) [OF inv w(2)] by (simp add: wrapper_destroy_def)
    next
      case False
      let ?ds = "ds\<lparr>ds_handles := ?hs\<rparr>"
      obtain w' where "fst (wrapper_close sys_close i ?ds) =
          ?ds\<lparr>ds_closes := ds_closes ?ds @ [(i, fd_closed w')], ds_wrappers := (ds_wrappers ?ds)[i := Some w']\<rparr>"
        using wrapper_close_effect [of ?ds i w] w(1) False by auto
      then show thesis
        using that [of "[fd_closed w']"] w False closing_ok_call(2) [OF _ False refl] descriptors_invD(3) [OF inv w(2)]
        by (simp add: wrapper_destroy_def)
    qed
    ultimately show ?thesis using d by (intro replace_inv [OF inv w(2)]) simp_all
  qed
qed (simp add: descriptor_destroy_def inv)

text \<open>A variable has no handle after its destructor.\<close>

lemma destroy_fresh: "fresh (fst (descriptor_destroy sys_close h ds)) h"
proof (cases "map_of (ds_handles ds) h")
  case None
  then have "h \<notin> fst ` set (ds_handles ds)" by (simp add: map_of_eq_None_iff)
  then show ?thesis by (simp add: descriptor_destroy_def None fresh_def)
next
  case (Some i)
  have "ds_handles (wrapper_destroy sys_close i ds') = ds_handles ds'" for ds'
    by (simp add: wrapper_destroy_def wrapper_close_def Let_def split: option.split)
  then show ?thesis by (auto simp: descriptor_destroy_def Some fresh_def Let_def)
qed

lemma assign_inv:
  assumes inv: "descriptors_inv ds"
  shows "descriptors_inv (fst (descriptor_assign sys_close h h' ds))"
  using inv move_inv [OF destroy_inv [OF inv] destroy_fresh] by (simp add: descriptor_assign_def)

lemma descriptor_step_inv: "descriptors_inv ds \<Longrightarrow> descriptor_ok ds e \<Longrightarrow> descriptors_inv (descriptor_step ds e)"
  using open_inv duplicate_inv move_inv assign_inv close_inv destroy_inv by (cases e) auto

interpretation handles: machine descriptor_step descriptor_ok descriptors_inv
  by unfold_locales (rule descriptor_step_inv)

lemma no_descriptors_inv: "descriptors_inv no_descriptors"
  by (simp add: descriptors_inv_def no_descriptors_def wrapper_at_def outcomes_def)

text \<open>
  A descriptor that is closed explicitly twice is given to \<open>::close\<close> twice: the second call is
  made for a number that the kernel may have given to another file in the meantime.
\<close>

lemma closed_twice:
  "ds_closes (run descriptor_step no_descriptors [Open (Done False) 5 0, Close (Done ()) 0, Close (Done ()) 0])
     = [(0, True), (0, True)]"
  by code_simp

text \<open>
  A \<open>::close\<close> that fails leaves \<open>closed_\<close> false, and the destructor tries again, although
  Linux has released the number by then.
\<close>

lemma failed_close_again:
  "ds_closes (run descriptor_step no_descriptors [Open (Done False) 5 0, Close Failed 0, Destroy (Done ()) 0])
     = [(0, False), (0, True)]"
  by code_simp

section \<open>Properties\<close>

text \<open>
  C38: whatever is done with the handles of descriptors (opened, duplicated, moved, assigned over
  others, closed when not closed yet, destroyed) and whatever \<open>::close\<close> yields, no variable has two
  handles, every handle refers to a living wrapper and a wrapper lives exactly as long as a handle
  refers to it. A wrapper gives its descriptor to \<open>::close\<close> until that succeeds, and never after
  it; a living one is closed exactly if that has happened, and one that is gone has tried. So if
  its calls succeed there is exactly one once it is closed or gone, and none before.
\<close>
theorem descriptors_closed_once:
  assumes "admissible descriptor_step descriptor_ok no_descriptors es"
    and "ds = run descriptor_step no_descriptors es"
  shows "distinct (map fst (ds_handles ds))
    \<and> (\<forall>(h, i) \<in> set (ds_handles ds). i < length (ds_wrappers ds) \<and> ds_wrappers ds ! i \<noteq> None)
    \<and> (\<forall>i < length (ds_wrappers ds).
        (ds_wrappers ds ! i \<noteq> None \<longleftrightarrow> i \<in> snd ` set (ds_handles ds))
        \<and> True \<notin> set (butlast (outcomes ds i))
        \<and> (case ds_wrappers ds ! i of None \<Rightarrow> outcomes ds i \<noteq> []
            | Some w \<Rightarrow> fd_closed w \<longleftrightarrow> outcomes ds i \<noteq> [] \<and> last (outcomes ds i))
        \<and> (False \<notin> set (outcomes ds i) \<longrightarrow> length (outcomes ds i) =
            (case ds_wrappers ds ! i of None \<Rightarrow> 1 | Some w \<Rightarrow> if fd_closed w then 1 else 0)))"
proof (intro conjI allI impI)
  have inv: "descriptors_inv ds"
    unfolding assms(2) by (rule handles.run_inv [OF no_descriptors_inv assms(1)])
  note D = descriptors_invD [OF inv]
  show "distinct (map fst (ds_handles ds))" by (rule D(1))
  have "i < length (ds_wrappers ds) \<and> ds_wrappers ds ! i \<noteq> None" if "(h, i) \<in> set (ds_handles ds)" for h i
    using D(2) [of i] that by (force simp: wrapper_at_def split: if_splits)
  then show "\<forall>(h, i) \<in> set (ds_handles ds). i < length (ds_wrappers ds) \<and> ds_wrappers ds ! i \<noteq> None" by blast
  fix i assume i: "i < length (ds_wrappers ds)"
  then have at: "wrapper_at ds i = ds_wrappers ds ! i" by (simp add: wrapper_at_def)
  then show "ds_wrappers ds ! i \<noteq> None \<longleftrightarrow> i \<in> snd ` set (ds_handles ds)" using D(2) [of i] by simp
  have c: "closing_ok (ds_wrappers ds ! i) (outcomes ds i)" using D(3) [OF i] at by simp
  then show "True \<notin> set (butlast (outcomes ds i))"
    "case ds_wrappers ds ! i of None \<Rightarrow> outcomes ds i \<noteq> []
       | Some w \<Rightarrow> fd_closed w \<longleftrightarrow> outcomes ds i \<noteq> [] \<and> last (outcomes ds i)"
    unfolding closing_ok_def by blast+
  show "length (outcomes ds i) =
      (case ds_wrappers ds ! i of None \<Rightarrow> 1 | Some w \<Rightarrow> if fd_closed w then 1 else 0)"
    if "False \<notin> set (outcomes ds i)"
    using c that by (cases "outcomes ds i" rule: rev_cases; cases "butlast (outcomes ds i)")
      (auto simp: closing_ok_def split: option.splits)
qed

theorem descriptors_closed_once_witness:
  "outcomes (run descriptor_step no_descriptors
     [Open (Done False) 5 0, Open (Done False) 6 3, Duplicate 0 1, Destroy (Done ()) 0, Assign (Done ()) 1 3,
      Destroy (Done ()) 3]) 0 = [True]
   \<and> outcomes (run descriptor_step no_descriptors
     [Open (Done False) 5 0, Open (Done False) 6 3, Duplicate 0 1, Destroy (Done ()) 0, Assign (Done ()) 1 3,
      Destroy (Done ()) 3]) 1 \<noteq> []"
proof -
  let ?es = "[Open (Done False) 5 0, Open (Done False) 6 3, Duplicate 0 1, Destroy (Done ()) 0, Assign (Done ()) 1 3,
      Destroy (Done ()) 3]"
  let ?ds = "run descriptor_step no_descriptors ?es"
  have "admissible descriptor_step descriptor_ok no_descriptors ?es" by code_simp
  note t = descriptors_closed_once [OF this refl]
  have w: "ds_wrappers ?ds = [None, None]" and s: "False \<notin> set (outcomes ?ds 0)" by code_simp+
  then have "outcomes ?ds 0 \<noteq> []" "length (outcomes ?ds 0) = 1" "outcomes ?ds 1 \<noteq> []" using t by auto
  then show ?thesis using s by (cases "outcomes ?ds 0") auto
qed

end
