(* ===== verification/Parser_String.thy ===== *)
theory Parser_String
  imports Parser
begin

text \<open>
  \<open>Parser::string\<close> of \<open>util/parser.cc\<close>, which copies the next bytes out of the buffers. Its loop
  need not end: \<open>None\<close> is an exception, an undefined access, or a loop that goes on for ever.
\<close>

text \<open>The loop, with \<open>n\<close> bytes still to come and \<open>out\<close> copied so far.\<close>

partial_function (option) string_loop :: "nat \<Rightarrow> byte list \<Rightarrow> Parser \<Rightarrow> (byte list \<times> Parser) option" where
  "string_loop n out p =
     (if n = 0 then Some (out, p)
      else do { view \<leftarrow> bl_peek (pr_input p);
                p \<leftarrow> parser_remove_prefix (vsize (take n view)) p;
                string_loop (n - length (take n view)) (out @ take n view) p })"

text \<open>\<open>string(out)\<close>; \<open>out\<close> stays on an error.\<close>

definition parser_string :: "byte list \<Rightarrow> Parser \<Rightarrow> (byte list \<times> Parser) option" where
  "parser_string out p =
     (let p = check_size (vsize out) p
      in if parser_has_error p then Some (out, p) else string_loop (length out) [] p)"

lemma string_loop_takes:
  assumes "at p bs" and "n \<le> length bs"
  shows "\<exists>p'. string_loop n out p = Some (out @ take n bs, p') \<and> at p' (drop n bs)"
  using assms
proof (induction n arbitrary: out p bs rule: less_induct)
  case (less n)
  show ?case
  proof (cases "n = 0")
    case True
    then show ?thesis using less.prems(1) by (subst string_loop.simps) simp
  next
    case False
    have ok: "bl_ok (pr_input p)" "bl_bytes (pr_input p) = bs" "\<not> pr_error p"
      using less.prems(1) by (simp_all add: at_def)
    then have "bl_bytes (pr_input p) \<noteq> []" using False less.prems(2) by auto
    then obtain view rest where view: "bl_peek (pr_input p) = Some view" "view \<noteq> []" "bs = view @ rest"
      using bl_peek_ok [OF ok(1)] ok(2) by blast
    let ?k = "length (take n view)"
    have k: "?k \<le> n" "0 < ?k" using False view(2) by auto
    have "length bs < 2 ^ 64" using ok(1,2) u64_bound [of "bl_size (pr_input p)"] by (auto simp: bl_ok_def)
    then have "unat (vsize (take n view)) = ?k"
      using view(3) by (intro unat_vsize) (simp add: fits_def)
    then obtain bl where bl: "bl_remove_prefix (vsize (take n view)) (pr_input p) = Some bl" "bl_ok bl" "bl_bytes bl = drop ?k bs"
      using remove_prefix_ok [OF ok(1)] ok(2) by metis
    then have "at (p\<lparr>pr_input := bl\<rparr>) (drop ?k bs)" using ok(3) by (simp add: at_def)
    moreover have "n - ?k < n" "n - ?k \<le> length (drop ?k bs)" using k less.prems(2) by auto
    ultimately obtain p' where p': "string_loop (n - ?k) (out @ take n view) (p\<lparr>pr_input := bl\<rparr>)
        = Some ((out @ take n view) @ take (n - ?k) (drop ?k bs), p')" "at p' (drop (n - ?k) (drop ?k bs))"
      using less.IH by blast
    have "take n view @ take (n - ?k) (drop ?k bs) = take n bs" using view(3) k(1) by (simp add: min_def)
    moreover have "drop (n - ?k) (drop ?k bs) = drop n bs" using k(1) by simp
    ultimately show ?thesis using p' view(1) bl(1) False
      by (subst string_loop.simps) (simp add: parser_remove_prefix_def)
  qed
qed

text \<open>A buffer without bytes in front of the list is never passed.\<close>

lemma string_loop_stuck:
  assumes "n \<noteq> 0" and "bl_peek (pr_input p) = Some []"
  shows "string_loop n out p = None"
proof -
  have stuck: "\<not> (n \<noteq> 0 \<and> bl_peek (pr_input p) = Some [])" if "string_loop n out p = Some r" for n out p r
  proof (rule string_loop.raw_induct [OF _ that, of "\<lambda>n out p r. \<not> (n \<noteq> 0 \<and> bl_peek (pr_input p) = Some [])"])
    fix loop and n :: nat and out :: "byte list" and p r
    assume ih: "\<And>n out p r. loop n out p = Some r \<Longrightarrow> \<not> (n \<noteq> 0 \<and> bl_peek (pr_input p) = Some [])"
      and run: "(if n = 0 then Some (out, p)
        else do { view \<leftarrow> bl_peek (pr_input p); p \<leftarrow> parser_remove_prefix (vsize (take n view)) p;
                  loop (n - length (take n view)) (out @ take n view) p }) = Some r"
    show "\<not> (n \<noteq> 0 \<and> bl_peek (pr_input p) = Some [])"
    proof
      assume n: "n \<noteq> 0 \<and> bl_peek (pr_input p) = Some []"
      have "bl_remove_prefix 0 (pr_input p) = Some (pr_input p)" by (subst bl_remove_prefix.simps) simp
      then have "loop n out p = Some r" using run n by (simp add: parser_remove_prefix_def vsize_def)
      then show False using ih n by blast
    qed
  qed
  show ?thesis
  proof (cases "string_loop n out p")
    case (Some r)
    then show ?thesis using stuck [OF Some] assms by simp
  qed
qed

section \<open>Properties\<close>

text \<open>
  Reading a string from buffers without a gap always returns: the next bytes, and a parser that
  is behind them; or, when there are not that many, the old contents and an error.
\<close>

lemma parser_string_takes:
  assumes "at p bs" and "length out < 2 ^ 64"
  shows "\<exists>p'. parser_string out p = Some (if length out \<le> length bs then take (length out) bs else out, p')
    \<and> (if length out \<le> length bs then at p' (drop (length out) bs) else parser_has_error p')"
proof -
  have ok: "bl_ok (pr_input p)" "bl_bytes (pr_input p) = bs" "\<not> pr_error p" using assms(1) by (simp_all add: at_def)
  then have "unat (bl_size (pr_input p)) = length bs" by (simp add: bl_ok_def)
  moreover have "unat (vsize out) = length out" using assms(2) by (intro unat_vsize) (simp add: fits_def)
  ultimately have "vsize out > bl_size (pr_input p) \<longleftrightarrow> \<not> length out \<le> length bs"
    by (simp add: word_less_nat_alt not_le)
  then show ?thesis
    using string_loop_takes [OF assms(1), of "length out" "[]"] ok(3)
    by (auto simp: parser_string_def check_size_def parser_has_error_def Let_def)
qed

lemma leading_empty_buffer_hangs:
  "\<exists>p. parser [Owned [], Owned [1]] = Some p \<and> parser_string [0] p = None"
proof -
  obtain p where p: "parser [Owned [], Owned [1]] = Some p" "bl_peek (pr_input p) = Some []"
      "\<not> bl_size (pr_input p) < 1" "\<not> pr_error p"
    by (simp add: parser_def buffer_list_def is_borrowed_def bl_peek_def vsize_def)
  then have "parser_string [0] p = None"
    by (simp add: parser_string_def check_size_def parser_has_error_def vsize_def string_loop_stuck)
  then show ?thesis using p(1) by blast
qed

end
