(* ===== verification/Tun_Device.thy ===== *)
theory Tun_Device
  imports Socket Text_Output
begin

text \<open>
  \<open>TunTapFD\<close> of \<open>util/tun.hh\<close> and \<open>util/tun.cc\<close>: opening a TUN or TAP device by the
  request that names it. The outcomes of the calls are arguments. \<open>None\<close> is an exception.
\<close>

unbundle bit_operations_syntax

definition IFNAMSIZ :: nat where "IFNAMSIZ = 16"
definition IFF_TUN :: u16 where "IFF_TUN = 0x0001"
definition IFF_TAP :: u16 where "IFF_TAP = 0x0002"
definition IFF_NO_PI :: u16 where "IFF_NO_PI = 0x1000"

record ifreq =
  ifr_name :: "byte list"
  ifr_flags :: u16

text \<open>\<open>strncpy\<close>: the bytes before the NUL, at most \<open>n\<close>, and zeros up to \<open>n\<close>.\<close>

definition strncpy :: "byte list \<Rightarrow> nat \<Rightarrow> byte list" where
  "strncpy src n = resize 0 n (takeWhile (\<lambda>b. b \<noteq> 0) src)"

definition tun_request :: "byte list \<Rightarrow> bool \<Rightarrow> ifreq" where
  "tun_request devname is_tun =
     \<lparr>ifr_name = (strncpy devname (IFNAMSIZ - 1) @ [0])[IFNAMSIZ - 1 := 0],
      ifr_flags = (if is_tun then IFF_TUN else IFF_TAP) OR IFF_NO_PI\<rparr>"

definition tun_tap_fd ::
    "int syscall \<Rightarrow> bool syscall \<Rightarrow> (int \<Rightarrow> ifreq \<Rightarrow> unit syscall) \<Rightarrow> byte list \<Rightarrow> bool \<Rightarrow> FDWrapper option" where
  "tun_tap_fd sys_open getfl sys_ioctl devname is_tun =
     do { w \<leftarrow> socket_open sys_open getfl;
          _ \<leftarrow> check_system_call () w (sys_ioctl (fd_num w) (tun_request devname is_tun));
          Some w }"

definition tun_fd where "tun_fd sys_open getfl sys_ioctl devname = tun_tap_fd sys_open getfl sys_ioctl devname True"

definition tap_fd where "tap_fd sys_open getfl sys_ioctl devname = tun_tap_fd sys_open getfl sys_ioctl devname False"

text \<open>
  The name in the request is a C string that fits: the given name up to its NUL, cut to fifteen
  bytes; the flags say which kind of device is meant.
\<close>

lemma request_name:
  "length (ifr_name (tun_request devname is_tun)) = IFNAMSIZ"
  "takeWhile (\<lambda>b. b \<noteq> 0) (ifr_name (tun_request devname is_tun)) = take 15 (takeWhile (\<lambda>b. b \<noteq> 0) devname)"
proof -
  have name: "ifr_name (tun_request devname is_tun)
      = take 15 (takeWhile (\<lambda>b. b \<noteq> 0) devname) @ replicate (15 - length (takeWhile (\<lambda>b. b \<noteq> 0) devname)) 0 @ [0]"
    using list_update_length [of "strncpy devname 15" 0 "[]" 0]
    by (simp add: tun_request_def strncpy_def IFNAMSIZ_def) (simp add: resize_def)
  then show "length (ifr_name (tun_request devname is_tun)) = IFNAMSIZ" by (simp add: IFNAMSIZ_def)
  have nul: "b \<noteq> 0" if "b \<in> set (take 15 (takeWhile (\<lambda>b. b \<noteq> 0) devname))" for b
    using set_takeWhileD [OF in_set_takeD [OF that]] by simp
  have "takeWhile (\<lambda>b. b \<noteq> 0) (take 15 (takeWhile (\<lambda>b. b \<noteq> 0) devname) @ zeros)
      = take 15 (takeWhile (\<lambda>b. b \<noteq> 0) devname) @ takeWhile (\<lambda>b. b \<noteq> 0) zeros" for zeros
    by (rule takeWhile_append2) (rule nul)
  then show "takeWhile (\<lambda>b. b \<noteq> 0) (ifr_name (tun_request devname is_tun)) = take 15 (takeWhile (\<lambda>b. b \<noteq> 0) devname)"
    unfolding name by (simp only: takeWhile_replicate) (simp add: takeWhile_append)
qed

lemma request_flags:
  "ifr_flags (tun_request devname is_tun) AND IFF_TUN \<noteq> 0 \<longleftrightarrow> is_tun"
  "ifr_flags (tun_request devname is_tun) AND IFF_TAP \<noteq> 0 \<longleftrightarrow> \<not> is_tun"
  by (cases is_tun; simp add: tun_request_def IFF_TUN_def IFF_TAP_def IFF_NO_PI_def)+

end
