(* ===== verification/Spec2Isabelle.thy ===== *)
theory Spec2Isabelle
  imports Connection_Progress Main_Programs Sample_Datagrams Summary Descriptor_Handles Parser_String Tun_Device
begin

text \<open>
  \<^bold>\<open>The program.\<close> A TCP/IP stack in user space. A byte stream (\<open>src/byte_stream\<close>) is filled on
  one side by a reassembler (\<open>src/reassembler\<close>) inside a receiver (\<open>src/tcp_receiver\<close>), and
  drained on the other by a sender (\<open>src/tcp_sender\<close>); a peer (\<open>util/tcp_peer.hh\<close>) joins the two
  halves; a socket (\<open>util/tcp_minnow_socket_impl.hh\<close>) runs a peer in an event loop
  (\<open>util/eventloop\<close>) between the application and a datagram adapter. An adapter puts messages into
  TCP segments in IPv4 datagrams (\<open>util/tcp_over_ip\<close>), which go to a TUN device
  (\<open>util/tuntap_adapter\<close>) or, over a network interface with ARP (\<open>src/network_interface\<close>) and
  routers (\<open>src/router\<close>), in Ethernet frames over a datagram socket (\<open>apps/endtoend.cc\<close>). Headers
  are read and written by \<open>util/parser\<close>. File names of this text are relative to \<open>src/\<close>; without a
  suffix they mean the header and the source file.

  \<^bold>\<open>The development.\<close> Every definition that models code keeps the name the code has, with the
  class in front where the name alone would be ambiguous (\<open>reader_pop\<close>, \<open>router_route\<close>). A class
  is a record with a field per member, an operation takes the record and returns it updated, together
  with its result and with what it hands to a callback (\<open>transmit\<close>, the output port) as a list in
  the order of the calls. A machine integer is a word of its width, so every overflow of the code is
  one of the model. Containers are lists, except the hash maps of the network interface, which are
  maps. \<open>None\<close> is an exception or an access that C++ leaves undefined; the opening text of each
  theory says which.
\<close>

text \<open>
  \<^bold>\<open>Theories, from the bottom up.\<close>

  \<^item> \<open>Prelude\<close>: integer types, \<open>vsize\<close>, \<open>resize\<close> and the locales \<open>machine\<close> (an invariant kept
    by every admissible event holds after every admissible run), \<open>fifo\<close> (what went in is what came
    out and what is still inside, in order) and \<open>client\<close> (a machine that drives another one).
  \<^item> \<open>Byte_Stream\<close>: \<open>src/byte_stream\<close>, \<open>src/byte_stream_helpers.cc\<close>. Its runs are a bounded
    \<open>fifo\<close> (interpretation \<open>pipe\<close>).
  \<^item> \<open>Wrapping_Integers\<close>: \<open>src/wrapping_integers\<close>. Where C++ defines it, \<open>unwrap\<close> returns the
    nearest number.
  \<^item> \<open>Reassembler\<close>: \<open>src/reassembler\<close>, \<open>insert\<close> as its five steps. The locale \<open>reassembly\<close> is
    the contract (what is assembled is a prefix, known bytes are never forgotten), interpreted as
    \<open>reasm\<close>; \<open>reasmq\<close> is its \<open>fifo\<close>.
  \<^item> \<open>TCP_Messages\<close>, \<open>TCP_Receiver\<close>, \<open>TCP_Sender\<close>: \<open>util/tcp_sender_message.hh\<close>,
    \<open>util/tcp_receiver_message.hh\<close>, \<open>util/tcp_config.hh\<close>, \<open>src/tcp_receiver\<close> and
    \<open>src/tcp_sender\<close>. The receiver is a \<open>client\<close> of the reassembler (\<open>rcv\<close>), the sender's
    transmissions are a \<open>fifo\<close> (\<open>snd\<close>); the lemmas say where each segment belongs, what an
    acknowledgment removes, what a tick sends, and what the window admits.
  \<^item> \<open>Ref\<close>, \<open>Parser\<close>, \<open>Parser_String\<close>: \<open>util/ref.hh\<close> and \<open>util/parser\<close>. The predicate \<open>at\<close>
    relates a parser to the flat bytes it still has; the collection \<open>parse_rules\<close> has the rules with
    which a header's parser is run symbolically.
  \<^item> \<open>Checksum\<close>, \<open>IPv4\<close>, \<open>Ethernet\<close>, \<open>TCP_Segment\<close>: \<open>util/checksum.hh\<close>,
    \<open>util/ipv4_header\<close>, \<open>util/ipv4_datagram.hh\<close>, \<open>util/ethernet_header\<close>,
    \<open>util/ethernet_frame.hh\<close>, \<open>util/arp_message\<close>, \<open>util/tcp_segment\<close>, \<open>util/udinfo.hh\<close>:
    round trips, and the rejection of corrupted segments.
  \<^item> \<open>Address\<close>, \<open>Socket_Address\<close>: the addresses of \<open>util/address\<close> as values, and as the
    structures of the system they are stored in, with their texts.
  \<^item> \<open>TCP_Over_IP\<close>, \<open>Tun_Adapter\<close>, \<open>Tun_Device\<close>: \<open>util/tcp_over_ip\<close>, \<open>util/fd_adapter.hh\<close>,
    \<open>util/lossy_fd_adapter.hh\<close>, \<open>util/tuntap_adapter\<close> and \<open>util/tun\<close>.
  \<^item> \<open>Network_Interface\<close>, \<open>Router\<close>: \<open>src/network_interface\<close> and \<open>src/router\<close>. For each next
    hop the interface is a \<open>fifo\<close> from the datagrams handed in to the frames it emits (\<open>hop\<close>). What the router needs of a sort is the locale
    \<open>sorts_routes\<close>, which \<open>insertion\<close> shows can be met.
  \<^item> \<open>TCP_Peer\<close>, \<open>TCP_Connection\<close>, \<open>Peer_Capacity\<close>: \<open>util/tcp_peer.hh\<close>; two peers and a
    network that loses, repeats and reorders at will (\<open>conn_step\<close>); a peer is a \<open>client\<close> of its
    sender (\<open>outbound\<close>) and a \<open>machine\<close> that keeps its capacities (\<open>bounded\<close>).
  \<^item> \<open>Sender_Progress\<close>, \<open>Connection_Progress\<close>: a sender with something to send has something in flight;
    nothing beyond what was sent is acknowledged; a retransmission that gets through moves a connection
    on, and no state of a connection without errors is a dead end.
  \<^item> \<open>File_Descriptor\<close>, \<open>Descriptor_Handles\<close>, \<open>Socket\<close>, \<open>Socket_Calls\<close>:
    \<open>util/file_descriptor\<close>, \<open>util/exception.hh\<close> and \<open>util/socket\<close>; the shared handles are a
    \<open>machine\<close> (\<open>handles\<close>).
  \<^item> \<open>Event_Loop\<close>: \<open>util/eventloop\<close>. The locale \<open>watched\<close> carries an invariant of the
    callbacks through the loop.
  \<^item> \<open>Minnow_Socket\<close>, \<open>Minnow_Simulation\<close>, \<open>Socket_World\<close>, \<open>Minnow_Stack\<close>:
    \<open>util/tcp_minnow_socket.hh\<close>, \<open>util/tcp_minnow_socket_impl.hh\<close> and
    \<open>src/tcp_minnow_socket.cc\<close>. The locale \<open>socket_system\<close>, which is a \<open>watched\<close>, says what an
    adapter and a system have to promise for a socket to behave as an endpoint of
    \<open>TCP_Connection\<close>; \<open>device\<close> gives it for any adapter that leaves the history alone, also a
    lossy one; \<open>socket_pair\<close> puts two of them together. The interpretations are \<open>tun\<close>,
    \<open>lossy_tun\<close>, \<open>tuns\<close> and \<open>lossy_tuns\<close>.
  \<^item> \<open>Interface_Adapter\<close>, \<open>Endtoend\<close>: \<open>apps/endtoend.cc\<close>, with the interpretations \<open>link\<close> and
    \<open>links\<close> of the same locales and \<open>network\<close> of \<open>watched\<close>.
  \<^item> \<open>Stream_Copy\<close>, \<open>Command_Line\<close>, \<open>Web_Client\<close>, \<open>Sample_Datagrams\<close>, \<open>Main_Programs\<close>:
    \<open>apps/bidirectional_stream_copy.cc\<close> (\<open>copying\<close>, a \<open>watched\<close>), \<open>apps/tcp_ipv4.cc\<close>,
    \<open>apps/webget.cc\<close>, \<open>apps/ip_raw.cc\<close>, \<open>apps/iptest.cc\<close>, \<open>apps/tcp_native.cc\<close> and the
    arguments of \<open>main\<close>.
  \<^item> \<open>Text_Output\<close>, \<open>Summary\<close>: \<open>util/helpers\<close> and the \<open>to_string\<close> members.
\<close>

text \<open>
  \<^bold>\<open>What is shown.\<close> The properties are the numbered claims; each is stated in words before its
  theorem. In short: at the top, two sockets on TUN devices deliver each other's bytes, a prefix at any
  time and all of them once a side has read to the end, whatever the loops, the kernels, the clocks and
  the network do (\<open>Minnow_Stack\<close>), and a message crosses the two routers of the end-to-end network
  (\<open>Endtoend\<close>). Underneath: the connection of two peers, its safety and its progress, the contracts of stream, reassembler, receiver
  and sender, flow control, retransmission and the end of a connection, the round trips of the wire
  formats, ARP and routing, the event loop, the handles of descriptors, and the programs' command line.

  \<^bold>\<open>Bounds.\<close> A run of a connection is about streams of fewer than \<open>2 ^ 31\<close> bytes and receive
  capacities below \<open>2 ^ 63\<close>: farther apart than that, 32-bit sequence numbers say two things. In such a run
  every \<open>unwrap\<close> is at a checkpoint at which C++ defines it (\<open>unwrap_defined\<close>,
  \<open>connection_unwraps\<close>). A receive capacity beyond the longest string of the library makes
  \<open>insert\<close> throw (\<open>resize_throws\<close>); one within it never does (\<open>Peer_Capacity\<close>). A tick is one before \<open>2 ^ 64\<close> consecutive
  retransmissions, where their counter wraps around. The wire formats have the payloads that the length
  fields can say; a message for a TUN device, and one that crosses the network, has to fit the buffers of
  one read (16384 bytes), which every segment of the sender does (at most \<open>MAX_PAYLOAD_SIZE\<close>). Where a capacity has to be small
  for a kernel evaluation, the theorem is general and only its witness is small.

  \<^bold>\<open>Loops.\<close> All loops of the library end and are total functions: the loops of \<open>read\<close>, \<open>push\<close>,
  \<open>fully acknowledged\<close>, the checksum and the parser with a measure of their own, the queue of a
  routed interface with its length, the rules of the event loop with its lists and the 128 callbacks the code itself
  allows. The only loop of the library that need not end is that of \<open>Parser::string\<close>, a partial
  function. The main loops of the programs go on for as long as the world does: they are functions of
  the list of rounds, one entry per wait, with what the system answers in each.

  \<^bold>\<open>What is a parameter.\<close> The outcomes of system calls, as values or as functions of the whole
  history, so that the kernel may depend on it in any way; \<open>poll\<close>, \<open>getaddrinfo\<close>, \<open>getnameinfo\<close> and
  \<open>std::sort\<close>; the clock; the draws of the random device; the 16-bit number of a loss rate, if C++ defines one; the
  longest string and bit vector of the library.
  Theorems assume of them only what their documentation says, and a witness gives an instance. Structures
  of the system have the layout of Linux on a little-endian machine.
\<close>

text \<open>
  \<^bold>\<open>Not modelled.\<close> The text of messages to the user and of logging (\<open>util/debug\<close>, the lines on
  \<open>cerr\<close>), except for what their evaluation can throw or leave undefined; the random device
  (\<open>util/random\<close>); starting and joining threads: a socket's loop and the application alternate as steps
  of one history, and so do the two threads of the end-to-end program; memory and its release, apart from
  the handles of descriptors; the name and the port object of a network interface. Borrowed objects are
  the values they point to, which the code keeps alive. The part of \<open>src/reassembler.cc\<close> that is
  commented out is not code. The tests and their harness are left aside.

  \<^bold>\<open>What modelling showed.\<close> Lemmas state where the code departs from what it says or means:
  \<open>far_segment_moves_checkpoint\<close> and \<open>isn_segment_closes_stream\<close> (\<open>TCP_Receiver\<close>),
  \<open>fin_waits_for_window\<close> (\<open>TCP_Sender\<close>), \<open>abandoned_without_fin\<close> (\<open>TCP_Peer\<close>),
  \<open>padded_datagram_undefined\<close> (\<open>IPv4\<close>), \<open>leading_empty_buffer_hangs\<close> (\<open>Parser_String\<close>),
  \<open>unwrap_defined_iff\<close> (\<open>Wrapping_Integers\<close>), \<open>huge_capacity_throws\<close> (\<open>Peer_Capacity\<close>),
  \<open>blocked_write_throws\<close> and \<open>fd_read_vector_done\<close> (\<open>File_Descriptor\<close>), \<open>closed_twice\<close> and
  \<open>failed_close_again\<close> (\<open>Descriptor_Handles\<close>), \<open>recv_from_nobody\<close> and \<open>accept_takes_input\<close> (\<open>Socket\<close>),
  \<open>udp_from_fd_refused\<close> (\<open>Socket_Calls\<close>), \<open>destroy_sends_no_reset\<close> (\<open>Minnow_Socket\<close>),
  \<open>time_out_cut\<close>, \<open>loss_option_prefix\<close>, \<open>listen_ignores_host\<close> and \<open>default_window\<close>
  (\<open>Command_Line\<close>), \<open>request_cut\<close> (\<open>Web_Client\<close>), \<open>iptest_refused\<close> (\<open>Sample_Datagrams\<close>) and
  \<open>pretty_print_exceeds\<close> (\<open>Text_Output\<close>).
\<close>

end
